(* ===== verification/Prelude.thy ===== *)
theory Prelude
  imports Main "HOL-Library.Word"
begin

text \<open>
  Shared vocabulary of the development: the machine integers of the program, byte
  strings, big-endian encodings and the generic facts about them.

  \<^item> \<open>u8\<close>, \<open>u32\<close>, \<open>u64\<close> are the fixed-width unsigned integers of the program; their
    arithmetic wraps. Sizes (\<open>std::size_t\<close> values that only count bytes in memory) are \<open>nat\<close>.
  \<^item> \<open>be_bytes n w\<close> is the reference big-endian encoding of a word in \<open>n\<close> bytes and
    \<open>be_read bs\<close> the value of a big-endian byte string. Every codec of the program has its
    own loops for these; each is proved equal to the reference.
  \<^item> \<open>masked_shift_loop\<close>, \<open>shift_loop\<close> and \<open>read_loop\<close> are those loops.
\<close>

unbundle bit_operations_syntax

type_synonym u8 = "8 word"
type_synonym u32 = "32 word"
type_synonym u64 = "64 word"
type_synonym bytes = "u8 list"

named_theorems wire_simps \<open>evaluation of encoders and decoders on structured byte strings\<close>

section \<open>Big-endian words\<close>

primrec be_bytes :: "nat \<Rightarrow> 'a::len word \<Rightarrow> bytes" where
  "be_bytes 0 w = []"
| "be_bytes (Suc n) w = be_bytes n (drop_bit 8 w) @ [ucast w]"

definition be_step :: "'a::len word \<Rightarrow> u8 \<Rightarrow> 'a word" where
  "be_step v b = push_bit 8 v OR ucast b"

definition be_read :: "bytes \<Rightarrow> 'a::len word" where
  "be_read bs = foldl be_step 0 bs"

lemma length_be_bytes [simp, wire_simps]: "length (be_bytes n w) = n"
  by (induction n arbitrary: w) auto

lemma be_read_Nil [simp]: "be_read [] = 0"
  by (simp add: be_read_def)

lemma be_read_snoc: "be_read (bs @ [b]) = be_step (be_read bs) b"
  by (simp add: be_read_def)

lemma be_read_be_bytes_take: "be_read (be_bytes n w) = take_bit (8 * n) (w :: 'a::len word)"
proof (induction n arbitrary: w)
  case 0
  then show ?case by simp
next
  case (Suc n)
  have "be_read (be_bytes (Suc n) w) = be_step (take_bit (8 * n) (drop_bit 8 w)) (ucast w)"
    by (simp add: be_read_snoc Suc)
  also have "\<dots> = take_bit (8 * Suc n) w"
    by (rule bit_word_eqI) (auto simp: be_step_def bit_simps dest: bit_imp_le_length)
  finally show ?case .
qed

lemma be_read_be_bytes:
  "LENGTH('a::len) \<le> 8 * n \<Longrightarrow> be_read (be_bytes n w) = (w :: 'a word)"
  by (simp add: be_read_be_bytes_take take_bit_word_eq_self)

lemma be_read_less: "take_bit (8 * length bs) (be_read bs :: 'a::len word) = be_read bs"
proof (induction bs rule: rev_induct)
  case Nil
  then show ?case by simp
next
  case (snoc b bs)
  show ?case
  proof (rule bit_word_eqI)
    fix n assume "n < LENGTH('a)"
    have "bit (be_read bs :: 'a word) m \<Longrightarrow> m < 8 * length bs" for m
      by (metis snoc bit_take_bit_iff)
    then show "bit (take_bit (8 * length (bs @ [b])) (be_read (bs @ [b]) :: 'a word)) n
        = bit (be_read (bs @ [b]) :: 'a word) n"
      by (fastforce simp: be_read_snoc be_step_def bit_simps dest: bit_imp_le_length)
  qed
qed

lemma be_read_bit_bound: "bit (be_read bs :: 'a::len word) m \<Longrightarrow> m < 8 * length bs"
  by (metis be_read_less bit_take_bit_iff)

lemma be_bytes_be_read:
  "8 * length bs \<le> LENGTH('a::len) \<Longrightarrow> be_bytes (length bs) (be_read bs :: 'a word) = bs"
proof (induction bs rule: rev_induct)
  case Nil
  then show ?case by simp
next
  case (snoc b bs)
  have "drop_bit 8 (be_step (be_read bs) b) = (be_read bs :: 'a word)"
  proof (rule bit_word_eqI)
    fix n assume "n < LENGTH('a)"
    show "bit (drop_bit 8 (be_step (be_read bs) b) :: 'a word) n = bit (be_read bs :: 'a word) n"
      using snoc.prems be_read_bit_bound [where 'a = 'a, of bs n]
      by (auto simp: be_step_def bit_simps dest: bit_imp_le_length)
  qed
  moreover have "ucast (be_step (be_read bs :: 'a word) b) = b"
    by (rule bit_word_eqI) (use snoc.prems in \<open>auto simp: be_step_def bit_simps\<close>)
  ultimately show ?case
    using snoc by (simp add: be_read_snoc)
qed

lemma be_bytes_inject:
  "LENGTH('a::len) \<le> 8 * n \<Longrightarrow> be_bytes n v = be_bytes n w \<longleftrightarrow> v = (w :: 'a word)"
  by (metis be_read_be_bytes)

section \<open>The program's encoding loops\<close>

text \<open>\<open>for (int shift = s; shift >= 0; shift -= 8) out.push_back((value >> shift) & 0xFF)\<close>\<close>

function masked_shift_loop :: "int \<Rightarrow> 'a::len word \<Rightarrow> bytes" where
  "masked_shift_loop shift value =
     (if shift \<ge> 0
      then ucast (drop_bit (nat shift) value AND 0xFF) # masked_shift_loop (shift - 8) value
      else [])"
  by pat_completeness auto
termination
  by (relation "measure (\<lambda>(s, v). nat (s + 8))") auto

declare masked_shift_loop.simps [simp del]

text \<open>The same loop with a narrowing cast in place of the mask.\<close>

function shift_loop :: "int \<Rightarrow> 'a::len word \<Rightarrow> bytes" where
  "shift_loop shift value =
     (if shift \<ge> 0 then ucast (drop_bit (nat shift) value) # shift_loop (shift - 8) value else [])"
  by pat_completeness auto
termination
  by (relation "measure (\<lambda>(s, v). nat (s + 8))") auto

declare shift_loop.simps [simp del]

lemma ucast_mask_byte: "8 \<le> LENGTH('a::len) \<Longrightarrow> (ucast (w AND 0xFF :: 'a word) :: u8) = ucast w"
proof -
  assume "8 \<le> LENGTH('a)"
  then have le: "8 \<le> LENGTH('a)" .
  have m: "(0xFF :: 'a word) = mask 8" by (simp add: mask_eq_exp_minus_1)
  show ?thesis unfolding m
    by (rule bit_word_eqI) (use le in \<open>simp add: bit_simps del: mask_numeral\<close>)
qed

lemma masked_shift_loop_eq:
  "8 \<le> LENGTH('a::len) \<Longrightarrow> masked_shift_loop s (w :: 'a word) = shift_loop s w"
  by (induction s w rule: shift_loop.induct)
    (subst masked_shift_loop.simps, subst shift_loop.simps, simp add: ucast_mask_byte)

lemma shift_loop_be_bytes: "shift_loop (8 * int n - 8) w = be_bytes n w"
proof -
  have snoc: "shift_loop (8 * int n - 8) (drop_bit 8 w) @ [ucast w] = shift_loop (8 * int n) w"
    for n and w :: "'a::len word"
  proof (induction n)
    case 0
    show ?case
      by (subst shift_loop.simps, subst (1 2) shift_loop.simps) (simp add: shift_loop.simps)
  next
    case (Suc n)
    have "drop_bit (8 * n) (drop_bit 8 w) = drop_bit (8 * Suc n) w"
      by (simp add: drop_bit_drop_bit add.commute)
    moreover have "8 * int (Suc n) - 8 = int (8 * n)" "8 * int (Suc n) = int (8 * Suc n)"
      "nat (int (8 * n)) = 8 * n" "nat (int (8 * Suc n)) = 8 * Suc n"
      by simp_all
    ultimately show ?case
      using Suc shift_loop.simps [of "int (8 * n)" "drop_bit 8 w"] shift_loop.simps [of "int (8 * Suc n)" w]
      by (simp add: algebra_simps nat_add_distrib nat_mult_distrib)
  qed
  show ?thesis
  proof (induction n arbitrary: w)
    case 0
    then show ?case by (simp add: shift_loop.simps)
  next
    case (Suc n)
    then show ?case using snoc [of n w] by simp
  qed
qed

lemma shift_loop_32 [wire_simps]: "shift_loop 24 (w :: u32) = be_bytes 4 w"
  using shift_loop_be_bytes [of 4 w] by simp

lemma shift_loop_64 [wire_simps]: "shift_loop 56 (w :: u64) = be_bytes 8 w"
  using shift_loop_be_bytes [of 8 w] by simp

lemma masked_shift_loop_32 [wire_simps]: "masked_shift_loop 24 (w :: u32) = be_bytes 4 w"
  by (simp add: masked_shift_loop_eq shift_loop_32)

lemma masked_shift_loop_64 [wire_simps]: "masked_shift_loop 56 (w :: u64) = be_bytes 8 w"
  by (simp add: masked_shift_loop_eq shift_loop_64)

text \<open>
  \<open>for (i = 0; i < n; ++i) value = (value << 8) | input[at + i]\<close>. Reads past the end of the
  input are undefined in the program and unspecified here; every caller guards them.
\<close>

primrec read_loop :: "nat \<Rightarrow> bytes \<Rightarrow> nat \<Rightarrow> 'a::len word \<Rightarrow> 'a word" where
  "read_loop 0 input at value = value"
| "read_loop (Suc n) input at value =
     read_loop n input (Suc at) (push_bit 8 value OR ucast (input ! at))"

lemma read_loop_foldl:
  "at + n \<le> length input \<Longrightarrow> read_loop n input at v = foldl be_step v (take n (drop at input))"
proof (induction n arbitrary: at v)
  case 0
  then show ?case by simp
next
  case (Suc n)
  then have "take (Suc n) (drop at input) = input ! at # take n (drop (Suc at) input)"
    by (simp add: Cons_nth_drop_Suc [symmetric])
  then show ?case using Suc by (simp add: be_step_def)
qed

lemma read_loop_be_read [wire_simps]:
  "at + n \<le> length input \<Longrightarrow> read_loop n input at 0 = be_read (take n (drop at input))"
  by (simp add: read_loop_foldl be_read_def)

lemma be_read_32 [simp]: "be_read (be_bytes 4 w) = (w :: u32)"
  by (rule be_read_be_bytes) simp

lemma be_read_64 [simp]: "be_read (be_bytes 8 w) = (w :: u64)"
  by (rule be_read_be_bytes) simp

lemma be_bytes_read_32: "length bs = 4 \<Longrightarrow> be_bytes 4 (be_read bs :: u32) = bs"
  using be_bytes_be_read [where 'a = 32, of bs] by simp

lemma be_bytes_read_64: "length bs = 8 \<Longrightarrow> be_bytes 8 (be_read bs :: u64) = bs"
  using be_bytes_be_read [where 'a = 64, of bs] by simp

section \<open>Lists and slices\<close>

lemma drop_numeral_add [wire_simps]: "drop (numeral k + n) xs = drop n (drop (numeral k) xs)"
  by (simp add: add.commute)

lemma slice_step: "take n (drop k xs) @ drop (k + n) xs = drop k xs"
  by (metis add.commute append_take_drop_id drop_drop)

lemma slice_rejoin: "m = k + n \<Longrightarrow> ys = drop m xs \<Longrightarrow> take n (drop k xs) @ ys = drop k xs"
  by (simp add: slice_step)

lemma drop_single: "k < length xs \<Longrightarrow> xs ! k # drop (Suc k) xs = drop k xs"
  by (simp add: Cons_nth_drop_Suc)

lemma take_prefix: "length xs = n \<Longrightarrow> take n (xs @ ys) = xs"
  by simp

lemma drop_prefix: "length xs = n \<Longrightarrow> drop n (xs @ ys) = ys"
  by simp

lemma take_whole: "k + n = length xs \<Longrightarrow> take n (drop k xs) = drop k xs"
  by simp

lemma unat_of_nat_32: "n < 2 ^ 32 \<Longrightarrow> unat (of_nat n :: u32) = n"
  by (simp add: unat_of_nat take_bit_nat_eq_self)

lemma unat_of_nat_64: "n < 2 ^ 64 \<Longrightarrow> unat (of_nat n :: u64) = n"
  by (simp add: unat_of_nat take_bit_nat_eq_self)

lemma unat_less_32: "unat (w :: u32) < 4294967296"
  using unsigned_less [of w] by simp

lemma unat_less_64: "unat (w :: u64) < 18446744073709551616"
  using unsigned_less [of w] by simp

lemma unat_le_32 [simp]: "unat (w :: u32) \<le> 4294967295"
  using unat_less_32 [of w] by simp

lemma unat_le_64 [simp]: "unat (w :: u64) \<le> 18446744073709551615"
  using unat_less_64 [of w] by simp

lemma unat_pred_less [simp]: "(i :: 'a::len word) \<noteq> 0 \<Longrightarrow> unat i - Suc 0 < n \<longleftrightarrow> unat i \<le> n"
  by (cases "unat i") (auto simp: unat_eq_0)

lemma Suc_unat_pred [simp]: "(i :: 'a::len word) \<noteq> 0 \<Longrightarrow> Suc (unat i - Suc 0) = unat i"
  by (cases "unat i") (auto simp: unat_eq_0)

lemma unat_word_of_nat_64: "n \<le> 18446744073709551615 \<Longrightarrow> unat (word_of_nat n :: u64) = n"
  by (rule unat_of_nat_64) simp

lemma unat_next: "a < (b :: u64) \<Longrightarrow> unat (a + 1) = Suc (unat a)"
  using unat_less_64 [of b] by (auto simp: word_less_nat_alt unat_word_ariths)

lemma unat_succ: "a + 1 \<noteq> 0 \<Longrightarrow> unat (a + 1) = Suc (unat (a :: u64))"
proof -
  assume nz: "a + 1 \<noteq> 0"
  have m: "unat (a + 1) = Suc (unat a) mod 2 ^ 64" by (simp add: unat_word_ariths)
  then have "Suc (unat a) \<noteq> 2 ^ 64" using nz by (auto simp: unat_eq_0)
  then show ?thesis using m unat_less_64 [of a] by simp
qed

section \<open>Early returns\<close>

text \<open>When a chain of fallible steps succeeds: every step did.\<close>

lemma case_option_eq_Some:
  "(case x of None \<Rightarrow> None | Some y \<Rightarrow> f y) = Some z \<longleftrightarrow> (\<exists>y. x = Some y \<and> f y = Some z)"
  by (cases x) auto

lemma case_option_eq_Inr:
  "(case x of None \<Rightarrow> Inl e | Some y \<Rightarrow> f y) = Inr z \<longleftrightarrow> (\<exists>y. x = Some y \<and> f y = Inr z)"
  by (cases x) auto

lemma case_sum_eq_Inr:
  "(case x of Inl e \<Rightarrow> Inl (g e) | Inr y \<Rightarrow> f y) = Inr z \<longleftrightarrow> (\<exists>y. x = Inr y \<and> f y = Inr z)"
  by (cases x) auto

lemma if_Inl_eq_Inr: "(if b then Inl e else x) = Inr z \<longleftrightarrow> \<not> b \<and> x = Inr z"
  by simp

lemmas early_return_iffs = case_option_eq_Some case_option_eq_Inr case_sum_eq_Inr if_Inl_eq_Inr

section \<open>Arrays of two\<close>

text \<open>\<open>std::array<T, 2>\<close>, indexed by 0 and 1 (every other index is out of bounds in the program).\<close>

type_synonym 'a array2 = "'a \<times> 'a"

definition get2 :: "nat \<Rightarrow> 'a array2 \<Rightarrow> 'a" where
  "get2 i a = (if i = 0 then fst a else snd a)"

definition set2 :: "nat \<Rightarrow> 'a \<Rightarrow> 'a array2 \<Rightarrow> 'a array2" where
  "set2 i x a = (if i = 0 then (x, snd a) else (fst a, x))"

definition list2 :: "'a array2 \<Rightarrow> 'a list" where
  "list2 a = [fst a, snd a]"

lemma get2_simps [simp]: "get2 0 a = fst a" "get2 (Suc n) a = snd a" "get2 1 a = snd a"
  by (simp_all add: get2_def)

lemma set2_simps [simp]: "set2 0 x a = (x, snd a)" "set2 (Suc n) x a = (fst a, x)" "set2 1 x a = (fst a, x)"
  by (simp_all add: set2_def)

lemma set_list2 [simp]: "set (list2 a) = {fst a, snd a}"
  by (simp add: list2_def)

end
