(* ===== verification/Crc32.thy ===== *)
theory Crc32
  imports Prelude
begin

text \<open>
  The checksum of src/crc32.cpp: \<open>crc_bit\<close> is the body of the inner loop, \<open>crc_byte\<close> the
  body of the outer one, \<open>crc32\<close> the function. The lemmas show that every step is a
  bijection of the register, so two inputs of one length that differ in a single byte never
  have the same checksum: the fact behind the corruption checks of the record formats.
\<close>

definition crc_bit :: "u32 \<Rightarrow> u32" where
  "crc_bit checksum =
     (if checksum AND 1 \<noteq> 0 then drop_bit 1 checksum XOR 0xEDB88320 else drop_bit 1 checksum)"

definition crc_byte :: "u32 \<Rightarrow> u8 \<Rightarrow> u32" where
  "crc_byte checksum b = (crc_bit ^^ 8) (checksum XOR ucast b)"

definition crc32 :: "bytes \<Rightarrow> u32" where
  "crc32 bs = foldl crc_byte 0xFFFFFFFF bs XOR 0xFFFFFFFF"

lemma xor_right_inject: "x XOR k = y XOR k \<longleftrightarrow> x = (y :: 'a::len word)"
proof
  assume "x XOR k = y XOR k"
  then have "(x XOR k) XOR k = (y XOR k) XOR k" by (simp only:)
  then show "x = y" by (simp add: xor.assoc)
qed simp

lemma xor_left_inject: "k XOR x = k XOR y \<longleftrightarrow> x = (y :: 'a::len word)"
  using xor_right_inject [of x k y] by (simp add: xor.commute)

lemma and_one_iff_bit: "(c :: u32) AND 1 \<noteq> 0 \<longleftrightarrow> bit c 0"
  by (simp add: and_one_eq bit_0 odd_iff_mod_2_eq_one)

lemma crc_bit_top: "bit (crc_bit c) 31 = bit c 0"
proof -
  have "bit (0xEDB88320 :: u32) 31" by simp
  then show ?thesis
    by (auto simp: crc_bit_def and_one_iff_bit bit_xor_iff bit_drop_bit_eq dest: bit_imp_le_length)
qed

lemma drop_bit_one_inject:
  assumes "drop_bit 1 c = drop_bit 1 d" and "bit c 0 = bit d 0"
  shows "c = (d :: u32)"
proof (rule bit_word_eqI)
  fix n assume "n < LENGTH(32)"
  show "bit c n = bit d n"
  proof (cases n)
    case 0
    then show ?thesis using assms(2) by simp
  next
    case (Suc m)
    then show ?thesis using assms(1) by (metis bit_drop_bit_eq comp_apply plus_1_eq_Suc)
  qed
qed

lemma crc_bit_inject: "crc_bit c = crc_bit d \<longleftrightarrow> c = d"
proof
  assume eq: "crc_bit c = crc_bit d"
  then have b: "bit c 0 = bit d 0" by (metis crc_bit_top)
  have "drop_bit 1 c = drop_bit 1 d"
  proof (cases "bit c 0")
    case True
    with eq b have "drop_bit 1 c XOR 0xEDB88320 = drop_bit 1 d XOR (0xEDB88320 :: u32)"
      by (simp only: crc_bit_def and_one_iff_bit if_True)
    then show ?thesis by (simp only: xor_right_inject)
  next
    case False
    with eq b show ?thesis by (simp only: crc_bit_def and_one_iff_bit if_False)
  qed
  with b show "c = d" by (rule drop_bit_one_inject [rotated])
qed simp

lemma crc_bits_inject: "(crc_bit ^^ n) c = (crc_bit ^^ n) d \<longleftrightarrow> c = d"
  by (induction n) (simp_all add: crc_bit_inject)

lemma crc_byte_inject_state: "crc_byte c b = crc_byte d b \<longleftrightarrow> c = d"
  by (simp only: crc_byte_def crc_bits_inject xor_right_inject)

lemma crc_byte_inject_byte: "crc_byte c a = crc_byte c b \<longleftrightarrow> a = b"
proof
  assume "crc_byte c a = crc_byte c b"
  then have eq: "(ucast a :: u32) = ucast b"
    by (simp only: crc_byte_def crc_bits_inject xor_left_inject)
  show "a = b"
  proof (rule bit_word_eqI)
    fix n assume "n < LENGTH(8)"
    moreover have "bit (ucast a :: u32) n = bit (ucast b :: u32) n" by (simp only: eq)
    ultimately show "bit a n = bit b n" by (simp add: bit_simps)
  qed
qed simp

lemma foldl_crc_inject: "foldl crc_byte c bs = foldl crc_byte d bs \<longleftrightarrow> c = d"
  by (induction bs arbitrary: c d) (simp_all add: crc_byte_inject_state)

lemma crc32_single_byte:
  "crc32 (xs @ a # ys) = crc32 (xs @ b # ys) \<longleftrightarrow> a = b"
proof -
  have "crc32 (xs @ a # ys) = crc32 (xs @ b # ys) \<longleftrightarrow>
      foldl crc_byte 0xFFFFFFFF (xs @ a # ys) = foldl crc_byte 0xFFFFFFFF (xs @ b # ys)"
    by (simp only: crc32_def xor_right_inject)
  then show ?thesis by (simp add: foldl_crc_inject crc_byte_inject_byte)
qed

lemma crc32_update:
  "i < length bs \<Longrightarrow> crc32 (bs[i := b]) = crc32 bs \<longleftrightarrow> b = bs ! i"
  by (metis crc32_single_byte id_take_nth_drop upd_conv_take_nth_drop)

text \<open>
  A frame is a payload followed by its checksum in big-endian order. Changing one byte of a
  frame never gives another frame.
\<close>

definition crc_framed :: "bytes \<Rightarrow> bool" where
  "crc_framed bs \<longleftrightarrow> 4 \<le> length bs
     \<and> drop (length bs - 4) bs = be_bytes 4 (crc32 (take (length bs - 4) bs))"

lemma crc_framed_append [simp]: "crc_framed (xs @ be_bytes 4 (crc32 xs))"
  by (simp add: crc_framed_def)

lemma crc_framed_single_byte:
  assumes "crc_framed bs" and "crc_framed (bs[i := b])" and "i < length bs"
  shows "b = bs ! i"
proof -
  let ?n = "length bs - 4"
  have n: "4 \<le> length bs" and tl: "drop ?n bs = be_bytes 4 (crc32 (take ?n bs))"
    "drop ?n (bs[i := b]) = be_bytes 4 (crc32 (take ?n (bs[i := b])))"
    using assms by (simp_all add: crc_framed_def)
  show ?thesis
  proof (cases "i < ?n")
    case True
    then have "drop ?n (bs[i := b]) = drop ?n bs" by simp
    then have "crc32 (take ?n (bs[i := b])) = crc32 (take ?n bs)"
      using tl by (simp add: be_bytes_inject)
    then show ?thesis using True crc32_update [of i "take ?n bs" b] by (simp add: take_update_swap)
  next
    case False
    then have "take ?n (bs[i := b]) = take ?n bs" by simp
    then have "drop ?n (bs[i := b]) = drop ?n bs" using tl by simp
    then have "drop ?n (bs[i := b]) ! (i - ?n) = drop ?n bs ! (i - ?n)" by (simp only:)
    then show ?thesis using False assms(3) by simp
  qed
qed

text \<open>The check value of the CRC-32 used by Ethernet, zip and PNG: the digits 1 to 9.\<close>

lemma crc_byte_unfold:
  "crc_byte c b = crc_bit (crc_bit (crc_bit (crc_bit (crc_bit (crc_bit (crc_bit (crc_bit
     (c XOR ucast b))))))))"
  by (simp add: crc_byte_def numeral_eq_Suc)

lemma crc32_check_value: "crc32 [0x31, 0x32, 0x33, 0x34, 0x35, 0x36, 0x37, 0x38, 0x39] = 0xCBF43926"
  by (simp add: crc32_def crc_byte_unfold crc_bit_def)

end
