(* ===== verification/Codec.thy ===== *)
theory Codec
  imports Crc32
begin

text \<open>
  What every encoder and decoder of the program promises each other, as interfaces.

  \<^item> \<open>codec\<close>: \<open>decode\<close> accepts a byte string exactly when \<open>encode\<close> produces it, and then
    returns the value it was produced from. Round trip, canonicity (no second encoding of a
    value, no value outside the encoder's range) and injectivity all follow.
  \<^item> \<open>checked_codec\<close>: a codec whose encodings are checksummed frames; it rejects every encoding
    with one byte changed.
  \<^item> \<open>framed_codec\<close>: a payload with its checksum appended; it is a \<open>checked_codec\<close>.
  \<^item> \<open>prefix_codec\<close>: the self-delimiting variant, whose decoder reads one record at the front
    of a longer input and says how many bytes it took. It makes a concatenation of records
    parse back to the records.
\<close>

text \<open>A frame whose last four bytes are the checksum of the rest.\<close>

lemma framed_split:
  assumes "4 \<le> length bs"
  shows "crc32 (take (length bs - 4) bs) = be_read (drop (length bs - 4) bs) \<longleftrightarrow>
    (\<exists>p. bs = p @ be_bytes 4 (crc32 p))"
proof
  let ?p = "take (length bs - 4) bs"
  assume "crc32 ?p = be_read (drop (length bs - 4) bs)"
  then have "be_bytes 4 (crc32 ?p) = drop (length bs - 4) bs"
    using assms be_bytes_read_32 [of "drop (length bs - 4) bs"] by simp
  then show "\<exists>p. bs = p @ be_bytes 4 (crc32 p)" by (metis append_take_drop_id)
next
  assume "\<exists>p. bs = p @ be_bytes 4 (crc32 p)"
  then show "crc32 (take (length bs - 4) bs) = be_read (drop (length bs - 4) bs)" by auto
qed

locale codec =
  fixes encode :: "'a \<Rightarrow> 'e + bytes"
    and decode :: "bytes \<Rightarrow> 'd + 'a"
  assumes decode_iff: "decode bs = Inr a \<longleftrightarrow> encode a = Inr bs"
begin

lemma round_trip: "encode a = Inr bs \<Longrightarrow> decode bs = Inr a"
  by (simp add: decode_iff)

lemma canonical: "decode bs = Inr a \<Longrightarrow> encode a = Inr bs"
  by (simp add: decode_iff)

lemma encode_inject: "encode a = Inr bs \<Longrightarrow> encode b = Inr bs \<Longrightarrow> a = b"
  by (metis decode_iff Inr_inject)

lemma decode_inject: "decode xs = Inr a \<Longrightarrow> decode ys = Inr a \<Longrightarrow> xs = ys"
  by (metis decode_iff Inr_inject)

lemma rejected_iff: "isl (decode bs) \<longleftrightarrow> (\<forall>a. encode a \<noteq> Inr bs)"
  by (metis decode_iff isl_def sum.exhaust_sel sum.distinct(1))

end

locale checked_codec = codec +
  assumes encode_framed: "encode a = Inr bs \<Longrightarrow> crc_framed bs"
begin

lemma corruption_rejected:
  assumes "encode a = Inr bs" and "i < length bs" and "b \<noteq> bs ! i"
  shows "isl (decode (bs[i := b]))"
proof (rule ccontr)
  assume "\<not> isl (decode (bs[i := b]))"
  then obtain a' where "decode (bs[i := b]) = Inr a'" by (cases "decode (bs[i := b])") auto
  then have "crc_framed (bs[i := b])" using canonical encode_framed by blast
  with assms encode_framed show False by (blast dest: crc_framed_single_byte)
qed

end

text \<open>
  The usual way a checked codec comes about: \<open>ok\<close> values have a \<open>payload\<close>, which is sent with its
  checksum appended.
\<close>

locale framed_codec =
  fixes encode :: "'a \<Rightarrow> 'e + bytes"
    and decode :: "bytes \<Rightarrow> 'd + 'a"
    and ok :: "'a \<Rightarrow> bool"
    and payload :: "'a \<Rightarrow> bytes"
  assumes encode_payload: "encode a = Inr bs \<longleftrightarrow> ok a \<and> bs = payload a @ be_bytes 4 (crc32 (payload a))"
    and decode_payload: "decode (p @ be_bytes 4 (crc32 p)) = Inr a \<longleftrightarrow> ok a \<and> p = payload a"
    and decode_framed: "decode bs = Inr a \<Longrightarrow> \<exists>p. bs = p @ be_bytes 4 (crc32 p)"
begin

lemma decode_encode_iff: "decode bs = Inr a \<longleftrightarrow> encode a = Inr bs"
proof
  assume "decode bs = Inr a"
  moreover from decode_framed [OF this] obtain p where "bs = p @ be_bytes 4 (crc32 p)" ..
  ultimately show "encode a = Inr bs" by (simp add: decode_payload encode_payload)
next
  assume "encode a = Inr bs"
  then show "decode bs = Inr a" by (simp add: decode_payload encode_payload)
qed

end

sublocale framed_codec \<subseteq> checked_codec
  by unfold_locales (auto simp: decode_encode_iff encode_payload)

locale prefix_codec =
  fixes encode :: "'a \<Rightarrow> 'e + bytes"
    and decode :: "bytes \<Rightarrow> 'd + 'r"
    and val :: "'r \<Rightarrow> 'a"
    and used :: "'r \<Rightarrow> nat"
  assumes decode_prefix:
      "decode bs = Inr r \<Longrightarrow> used r \<le> length bs \<and> encode (val r) = Inr (take (used r) bs)"
    and decode_extend:
      "encode a = Inr x \<Longrightarrow> \<exists>r. decode (x @ rest) = Inr r \<and> val r = a \<and> used r = length x"
    and encode_nonempty: "encode a = Inr x \<Longrightarrow> x \<noteq> []"
begin

lemma used_pos: "decode bs = Inr r \<Longrightarrow> 0 < used r"
  by (metis decode_prefix encode_nonempty gr_zeroI take0)

lemma used_le: "decode bs = Inr r \<Longrightarrow> used r \<le> length bs"
  by (simp add: decode_prefix)

lemma decode_at_front:
  assumes "encode a = Inr x"
  obtains r where "decode (x @ rest) = Inr r" "val r = a" "used r = length x"
  using decode_extend [OF assms] by blast

lemma prefix_free:
  assumes "encode a = Inr x" and "encode b = Inr (x @ y)"
  shows "y = [] \<and> a = b"
proof -
  obtain r where r: "decode (x @ y) = Inr r" "val r = a" "used r = length x"
    using decode_extend [OF assms(1)] by blast
  obtain s where s: "decode ((x @ y) @ []) = Inr s" "val s = b" "used s = length (x @ y)"
    using decode_extend [OF assms(2)] by blast
  from r s show ?thesis by simp
qed

lemma encode_inject: "encode a = Inr x \<Longrightarrow> encode b = Inr x \<Longrightarrow> a = b"
  using prefix_free [of a x b "[]"] by simp

end

end
