(* ===== verification/Raft_Metadata_Codec.thy ===== *)
theory Raft_Metadata_Codec
  imports Codec
begin

text \<open>
  The persistent vote state (include/dkv/raft_metadata.hpp) and its fixed 26-byte record
  (src/raft_metadata_codec.cpp): \<open>DKVM\<close>, version, term, vote-present flag, candidate, CRC-32.
  The encoder fills a zeroed array in place, as the program does. Contract: \<open>metadata_codec\<close>.
\<close>

record raft_metadata =
  current_term :: u64
  voted_for :: "u64 option"

datatype raft_metadata_codec_error =
    InvalidState
  | TruncatedRecord
  | InvalidLength
  | InvalidMagic
  | UnsupportedVersion
  | ChecksumMismatch
  | InvalidVote

definition raft_metadata_record_size :: nat where "raft_metadata_record_size = 26"

definition md_checksum_offset :: nat where
  "md_checksum_offset = raft_metadata_record_size - 4"

lemmas metadata_constants [simp] = raft_metadata_record_size_def md_checksum_offset_def

section \<open>Operations\<close>

text \<open>\<open>put_u64(bytes.subspan(at, 8), value)\<close> and the checksum loop write bytes in place.\<close>

definition md_put_u64 :: "nat \<Rightarrow> u64 \<Rightarrow> bytes \<Rightarrow> bytes" where
  "md_put_u64 at v bs = foldl (\<lambda>out i. out[at + i := ucast (drop_bit (56 - i * 8) v)]) bs [0..<8]"

definition md_put_checksum :: "u32 \<Rightarrow> bytes \<Rightarrow> bytes" where
  "md_put_checksum checksum bs =
     foldl (\<lambda>out i. out[md_checksum_offset + i := ucast (drop_bit (24 - i * 8) checksum)]) bs [0..<4]"

definition md_get_u64 :: "bytes \<Rightarrow> u64" where
  "md_get_u64 bs = read_loop 8 bs 0 0"

definition encode_raft_metadata :: "raft_metadata \<Rightarrow> raft_metadata_codec_error + bytes" where
  "encode_raft_metadata state =
     (if current_term state = 0 \<and> voted_for state \<noteq> None then Inl InvalidState
      else
        (let bs = replicate raft_metadata_record_size 0;
             bs = bs[0 := 0x44];
             bs = bs[1 := 0x4B];
             bs = bs[2 := 0x56];
             bs = bs[3 := 0x4D];
             bs = bs[4 := 1];
             bs = md_put_u64 5 (current_term state) bs;
             bs = bs[13 := (if voted_for state \<noteq> None then 1 else 0)];
             bs = (case voted_for state of None \<Rightarrow> bs | Some candidate \<Rightarrow> md_put_u64 14 candidate bs);
             checksum = crc32 (take md_checksum_offset bs)
         in Inr (md_put_checksum checksum bs)))"

definition decode_raft_metadata :: "bytes \<Rightarrow> raft_metadata_codec_error + raft_metadata" where
  "decode_raft_metadata bs =
     (if length bs < raft_metadata_record_size then Inl TruncatedRecord
      else if length bs > raft_metadata_record_size then Inl InvalidLength
      else if bs ! 0 \<noteq> 0x44 \<or> bs ! 1 \<noteq> 0x4B \<or> bs ! 2 \<noteq> 0x56 \<or> bs ! 3 \<noteq> 0x4D
      then Inl InvalidMagic
      else if bs ! 4 \<noteq> 1 then Inl UnsupportedVersion
      else
        (let stored_checksum = (read_loop 4 bs md_checksum_offset 0 :: u32)
         in if stored_checksum \<noteq> crc32 (take md_checksum_offset bs) then Inl ChecksumMismatch
         else
           (let trm = md_get_u64 (take 8 (drop 5 bs));
                presence = bs ! 13
            in if presence \<noteq> 0 \<and> presence \<noteq> 1 then Inl InvalidVote
            else
              (let candidate = md_get_u64 (take 8 (drop 14 bs))
               in if (presence = 0 \<and> candidate \<noteq> 0) \<or> (presence = 1 \<and> trm = 0)
                  then Inl InvalidVote
                  else Inr \<lparr>current_term = trm,
                            voted_for = (if presence = 1 then Some candidate else None)\<rparr>))))"

section \<open>Lemmas\<close>

lemma foldl_store:
  "at + n \<le> length bs \<Longrightarrow>
     foldl (\<lambda>out i. out[at + i := f i]) bs [0..<n] = take at bs @ map f [0..<n] @ drop (at + n) bs"
proof (induction n)
  case 0
  then show ?case by simp
next
  case (Suc n)
  then have "drop (at + n) bs = bs ! (at + n) # drop (Suc (at + n)) bs"
    by (simp add: Cons_nth_drop_Suc)
  with Suc show ?case by (simp add: list_update_append)
qed

lemma md_put_u64_eq:
  "at + 8 \<le> length bs \<Longrightarrow> md_put_u64 at v bs = take at bs @ be_bytes 8 v @ drop (at + 8) bs"
  unfolding md_put_u64_def by (subst foldl_store) (simp_all add: numeral_eq_Suc drop_bit_drop_bit)

lemma md_put_checksum_eq:
  "length bs = 26 \<Longrightarrow> md_put_checksum c bs = take 22 bs @ be_bytes 4 c"
  unfolding md_put_checksum_def
  by (subst foldl_store) (simp_all add: numeral_eq_Suc drop_bit_drop_bit)

definition metadata_payload :: "raft_metadata \<Rightarrow> bytes" where
  "metadata_payload m =
     [0x44, 0x4B, 0x56, 0x4D, 1] @ be_bytes 8 (current_term m)
     @ [if voted_for m = None then 0 else 1]
     @ be_bytes 8 (case voted_for m of None \<Rightarrow> 0 | Some c \<Rightarrow> c)"

lemma length_metadata_payload [simp]: "length (metadata_payload m) = 22"
  by (simp add: metadata_payload_def)

definition valid_metadata :: "raft_metadata \<Rightarrow> bool" where
  "valid_metadata m \<longleftrightarrow> (current_term m = 0 \<longrightarrow> voted_for m = None)"

lemma be_bytes_8_zero: "be_bytes 8 (0 :: u64) = replicate 8 0"
  by (simp add: numeral_eq_Suc)

lemma encode_raft_metadata_eq:
  "encode_raft_metadata m =
     (if valid_metadata m then Inr (metadata_payload m @ be_bytes 4 (crc32 (metadata_payload m)))
      else Inl InvalidState)"
proof (cases "valid_metadata m")
  case False
  then show ?thesis by (auto simp: encode_raft_metadata_def valid_metadata_def)
next
  case True
  have zeros: "replicate 26 (0 :: u8) = replicate 5 0 @ replicate 8 0 @ [0] @ replicate 8 0 @ replicate 4 0"
    by (simp add: numeral_eq_Suc)
  have head: "(replicate 26 (0 :: u8))[0 := 0x44, Suc 0 := 0x4B, 2 := 0x56, 3 := 0x4D, 4 := 1] =
      [0x44, 0x4B, 0x56, 0x4D, 1] @ replicate 8 0 @ [0] @ replicate 8 0 @ replicate 4 0"
    unfolding zeros by (simp add: numeral_eq_Suc)
  have rest: "replicate 13 (0 :: u8) = 0 # replicate 12 0"
    by (simp add: numeral_eq_Suc)
  show ?thesis
    using True
    by (cases "voted_for m")
      (simp_all add: encode_raft_metadata_def Let_def head md_put_u64_eq md_put_checksum_eq
        metadata_payload_def list_update_append be_bytes_8_zero rest valid_metadata_def)
qed

lemma decode_metadata_record:
  assumes "valid_metadata m"
  shows "decode_raft_metadata (metadata_payload m @ be_bytes 4 (crc32 (metadata_payload m))) = Inr m"
proof -
  let ?bs = "metadata_payload m @ be_bytes 4 (crc32 (metadata_payload m))"
  have parts: "?bs ! 0 = 0x44" "?bs ! Suc 0 = 0x4B" "?bs ! 2 = 0x56" "?bs ! 3 = 0x4D" "?bs ! 4 = 1"
      "take 8 (drop 5 ?bs) = be_bytes 8 (current_term m)"
      "?bs ! 13 = (if voted_for m = None then 0 else 1)"
      "take 8 (drop 14 ?bs) = be_bytes 8 (case voted_for m of None \<Rightarrow> 0 | Some c \<Rightarrow> c)"
    by (simp_all add: metadata_payload_def nth_append)
  have "decode_raft_metadata ?bs = Inr \<lparr>current_term = current_term m, voted_for = voted_for m\<rparr>"
    using assms parts
    by (cases "voted_for m")
      (simp_all add: decode_raft_metadata_def Let_def md_get_u64_def read_loop_be_read
        valid_metadata_def)
  then show ?thesis by (cases m) simp
qed

lemma decode_raft_metadata_sound:
  assumes "decode_raft_metadata bs = Inr m"
  shows "valid_metadata m \<and> bs = metadata_payload m @ be_bytes 4 (crc32 (metadata_payload m))"
proof -
  define trm where "trm = (be_read (take 8 (drop 5 bs)) :: u64)"
  define candidate where "candidate = (be_read (take 8 (drop 14 bs)) :: u64)"
  have len: "length bs = 26"
    and hd: "bs ! 0 = 0x44" "bs ! 1 = 0x4B" "bs ! 2 = 0x56" "bs ! 3 = 0x4D" "bs ! 4 = 1"
    and crc: "be_read (take 4 (drop 22 bs)) = crc32 (take 22 bs)"
    and vote: "bs ! 13 = 0 \<and> candidate = 0 \<or> bs ! 13 = 1 \<and> trm \<noteq> 0"
    and m: "m = \<lparr>current_term = trm, voted_for = (if bs ! 13 = 1 then Some candidate else None)\<rparr>"
    using assms
    by (auto simp: decode_raft_metadata_def Let_def md_get_u64_def read_loop_be_read trm_def
        candidate_def not_less split: if_splits)
  have words: "be_bytes 8 trm = take 8 (drop 5 bs)" "be_bytes 8 candidate = take 8 (drop 14 bs)"
      "be_bytes 4 (crc32 (take 22 bs)) = drop 22 bs"
    using len be_bytes_read_32 [of "drop 22 bs"] crc
    by (simp_all add: trm_def candidate_def be_bytes_read_64)
  have front: "bs = bs ! 0 # bs ! 1 # bs ! 2 # bs ! 3 # bs ! 4 # drop 5 bs"
    using len by (simp add: Cons_nth_drop_Suc numeral_eq_Suc flip: drop_Suc)
  have "bs = [0x44, 0x4B, 0x56, 0x4D, 1] @ take 8 (drop 5 bs) @ [bs ! 13] @ take 8 (drop 14 bs)
      @ drop 22 bs"
    using front hd len drop_single [of 13 bs]
    by (simp add: slice_rejoin [of 22 14 8] slice_rejoin [of 13 5 8])
  then have all: "bs = metadata_payload m @ drop 22 bs"
    using vote words m by (auto simp: metadata_payload_def)
  then have "take 22 bs = metadata_payload m"
    by (metis length_metadata_payload take_prefix)
  then show ?thesis
    using all words vote m by (auto simp: valid_metadata_def)
qed

lemma decode_raft_metadata_iff:
  "decode_raft_metadata bs = Inr m \<longleftrightarrow> encode_raft_metadata m = Inr bs"
  using decode_raft_metadata_sound decode_metadata_record by (auto simp: encode_raft_metadata_eq)

interpretation metadata_codec: checked_codec encode_raft_metadata decode_raft_metadata
proof unfold_locales
  show "decode_raft_metadata bs = Inr a \<longleftrightarrow> encode_raft_metadata a = Inr bs" for bs a
    by (rule decode_raft_metadata_iff)
  show "encode_raft_metadata a = Inr bs \<Longrightarrow> crc_framed bs" for a bs
    by (auto simp: encode_raft_metadata_eq split: if_splits)
qed

section \<open>Properties\<close>

text \<open>C29: A stored vote record with any one byte changed is rejected: no single-byte corruption of the
  26 bytes can turn one durable term and vote into another.\<close>

theorem metadata_corruption_rejected:
  "encode_raft_metadata m = Inr bs \<Longrightarrow> i < length bs \<Longrightarrow> b \<noteq> bs ! i \<Longrightarrow>
     isl (decode_raft_metadata (bs[i := b]))"
  by (rule metadata_codec.corruption_rejected)

definition sample_metadata :: raft_metadata where
  "sample_metadata = \<lparr>current_term = 3, voted_for = Some 2\<rparr>"

theorem metadata_corruption_rejected_witness:
  "isl (decode_raft_metadata
     ((metadata_payload sample_metadata @ be_bytes 4 (crc32 (metadata_payload sample_metadata)))[4 := 2]))"
  by (rule metadata_corruption_rejected [of sample_metadata])
    (simp_all add: encode_raft_metadata_eq valid_metadata_def sample_metadata_def,
     simp add: metadata_payload_def)

end
