(* ===== verification/Os.thy ===== *)
theory Os
  imports Prelude
begin

text \<open>
  The operating system as the program sees it. The program's files and sockets are reached
  through system calls only, and the kernel is not part of the program, so its answers are a
  parameter: an \<open>os\<close> value carries the answers the calls will get, in order (\<open>script\<close>), and
  collects the calls made with the answers they got (\<open>trace\<close>). Every definition that makes
  system calls takes such a value and returns the rest of it; a theorem about it holds for
  every script, so for every behaviour of the kernel.

  \<^item> \<open>sysres\<close> follows the C convention: \<open>ret\<close> is the call's return value (-1 on failure) and
    a failure carries \<open>errno\<close>. A call made with an empty script fails with \<open>EIO\<close>: a finite
    script describes a run with finitely many calls, and the retry loops end.
  \<^item> The retry loops of the program are here, shared by the two stores: \<open>retry_until_zero\<close>
    and \<open>retry_while_failed\<close>.
  \<^item> What a file holds after a trace is no definition of the program either. Where a theorem
    speaks of file contents they are a function of the trace, with the documented effects
    of the calls as a hypothesis (\<open>Persistent_Log.file_model\<close>).
\<close>

datatype errno = EINTR | ENOENT | EAGAIN | EIO

datatype sysres =
    Ret int
  | Data bytes
  | Stat "64 word" bool
  | Temp int bytes
  | Fail errno

datatype syscall =
    SysOpenDir bytes
  | SysOpenRead bytes
  | SysOpenLog bytes
  | SysFstat int
  | SysRead int nat
  | SysPread int nat nat
  | SysWrite int bytes
  | SysPwrite int bytes nat
  | SysFdatasync int
  | SysFsync int
  | SysFtruncate int nat
  | SysClose int
  | SysRename bytes bytes
  | SysUnlink bytes
  | SysMkostemp bytes

record os =
  script :: "sysres list"
  trace :: "(syscall \<times> sysres) list"

primrec ret :: "sysres \<Rightarrow> int" where
  "ret (Ret n) = n"
| "ret (Data bs) = int (length bs)"
| "ret (Stat sz regular) = 0"
| "ret (Temp fd name) = fd"
| "ret (Fail e) = -1"

fun data_of :: "sysres \<Rightarrow> bytes" where
  "data_of (Data bs) = bs"
| "data_of r = []"

definition syscall :: "syscall \<Rightarrow> os \<Rightarrow> sysres \<times> os" where
  "syscall c w =
     (case script w of
        [] \<Rightarrow> (Fail EIO, w\<lparr>trace := trace w @ [(c, Fail EIO)]\<rparr>)
      | r # rs \<Rightarrow> (r, w\<lparr>script := rs, trace := trace w @ [(c, r)]\<rparr>))"

lemma syscall_trace: "trace (snd (syscall c w)) = trace w @ [(c, fst (syscall c w))]"
  by (simp add: syscall_def split: list.splits)

lemma syscall_shorter: "syscall c w = (r, w') \<Longrightarrow> r \<noteq> Fail EIO \<Longrightarrow> length (script w') < length (script w)"
  by (auto simp: syscall_def split: list.splits)

section \<open>Paths\<close>

text \<open>\<open>std::filesystem::path::parent_path\<close> and \<open>filename\<close> on POSIX path strings (47 is the slash).\<close>

definition strip_slashes :: "bytes \<Rightarrow> bytes" where
  "strip_slashes p = rev (dropWhile (\<lambda>c. c = 47) (rev p))"

definition parent_path :: "bytes \<Rightarrow> bytes" where
  "parent_path p =
     (let d = rev (dropWhile (\<lambda>c. c \<noteq> 47) (rev p))
      in if strip_slashes d = [] then take 1 d else strip_slashes d)"

definition filename :: "bytes \<Rightarrow> bytes" where
  "filename p = rev (takeWhile (\<lambda>c. c \<noteq> 47) (rev p))"

definition parent_of :: "bytes \<Rightarrow> bytes" where
  "parent_of p = (if parent_path p = [] then [46] else parent_path p)"

section \<open>Retry loops\<close>

text \<open>\<open>for (;;) { if (call == 0) return true; if (errno != EINTR) return false; }\<close>\<close>

function retry_until_zero :: "syscall \<Rightarrow> os \<Rightarrow> bool \<times> os" where
  "retry_until_zero c w =
     (case syscall c w of (r, w') \<Rightarrow>
        if ret r = 0 then (True, w')
        else if r \<noteq> Fail EINTR then (False, w')
        else retry_until_zero c w')"
  by pat_completeness auto
termination
  by (relation "measure (\<lambda>(c, w). length (script w))") (auto simp: syscall_def split: list.splits)

declare retry_until_zero.simps [simp del]

text \<open>\<open>while (call == -1) { if (errno != EINTR) return false; } return true;\<close>\<close>

function retry_while_failed :: "syscall \<Rightarrow> os \<Rightarrow> bool \<times> os" where
  "retry_while_failed c w =
     (case syscall c w of (r, w') \<Rightarrow>
        if ret r \<noteq> -1 then (True, w')
        else if r \<noteq> Fail EINTR then (False, w')
        else retry_while_failed c w')"
  by pat_completeness auto
termination
  by (relation "measure (\<lambda>(c, w). length (script w))") (auto simp: syscall_def split: list.splits)

declare retry_while_failed.simps [simp del]

text \<open>\<open>UniqueFd\<close>'s destructor: close a descriptor the object still owns.\<close>

definition close_fd :: "int \<Rightarrow> os \<Rightarrow> os" where
  "close_fd fd w = (if fd \<ge> 0 then snd (syscall (SysClose fd) w) else w)"

section \<open>What the calls leave in the trace\<close>

text \<open>
  \<open>extends w w'\<close>: the run from \<open>w\<close> to \<open>w'\<close> only added calls to the trace. The calls added
  are \<open>new_calls w w'\<close>.
\<close>

definition extends :: "os \<Rightarrow> os \<Rightarrow> bool" where
  "extends w w' \<longleftrightarrow> (\<exists>cs. trace w' = trace w @ cs)"

definition new_calls :: "os \<Rightarrow> os \<Rightarrow> (syscall \<times> sysres) list" where
  "new_calls w w' = drop (length (trace w)) (trace w')"

lemma extends_refl [simp]: "extends w w"
  by (simp add: extends_def)

lemma extends_trans [trans]: "extends a b \<Longrightarrow> extends b c \<Longrightarrow> extends a c"
  by (auto simp: extends_def)

lemma new_calls_refl [simp]: "new_calls w w = []"
  by (simp add: new_calls_def)

lemma new_calls_append:
  "extends a b \<Longrightarrow> extends b c \<Longrightarrow> new_calls a c = new_calls a b @ new_calls b c"
  by (auto simp: extends_def new_calls_def)

lemma trace_new_calls: "extends a b \<Longrightarrow> trace b = trace a @ new_calls a b"
  by (auto simp: extends_def new_calls_def)

lemma syscall_extends: "syscall c w = (r, w') \<Longrightarrow> extends w w' \<and> new_calls w w' = [(c, r)]"
  using syscall_trace [of c w] by (auto simp: extends_def new_calls_def)

lemma close_fd_calls: "extends w (close_fd fd w) \<and> fst ` set (new_calls w (close_fd fd w)) \<subseteq> {SysClose fd}"
  using syscall_extends [of "SysClose fd" w] by (cases "syscall (SysClose fd) w") (auto simp: close_fd_def)

lemma retry_until_zero_calls:
  "retry_until_zero c w = (ok, w') \<Longrightarrow>
     extends w w' \<and> fst ` set (new_calls w w') = {c} \<and>
     (ok \<longleftrightarrow> (\<exists>r. (c, r) \<in> set (new_calls w w') \<and> ret r = 0))"
proof (induction c w arbitrary: ok w' rule: retry_until_zero.induct)
  case (1 c w)
  obtain r v where s: "syscall c w = (r, v)" by (cases "syscall c w")
  note sv = syscall_extends [OF s]
  show ?case
  proof (cases "r = Fail EINTR")
    case True
    then have rec: "retry_until_zero c v = (ok, w')"
      using "1.prems" s by (simp add: retry_until_zero.simps [of c w])
    have "extends v w' \<and> fst ` set (new_calls v w') = {c} \<and>
        (ok \<longleftrightarrow> (\<exists>r. (c, r) \<in> set (new_calls v w') \<and> ret r = 0))"
      by (rule "1.IH" [OF s [symmetric]]) (use True rec in auto)
    then show ?thesis
      using sv True new_calls_append [of w v w'] by (auto intro: extends_trans)
  next
    case False
    then show ?thesis
      using "1.prems" s sv by (auto simp: retry_until_zero.simps [of c w] split: if_splits)
  qed
qed

lemma retry_while_failed_calls:
  "retry_while_failed c w = (ok, w') \<Longrightarrow>
     extends w w' \<and> fst ` set (new_calls w w') = {c} \<and>
     (ok \<longleftrightarrow> (\<exists>r. (c, r) \<in> set (new_calls w w') \<and> ret r \<noteq> -1))"
proof (induction c w arbitrary: ok w' rule: retry_while_failed.induct)
  case (1 c w)
  obtain r v where s: "syscall c w = (r, v)" by (cases "syscall c w")
  note sv = syscall_extends [OF s]
  show ?case
  proof (cases "r = Fail EINTR")
    case True
    then have rec: "retry_while_failed c v = (ok, w')"
      using "1.prems" s by (simp add: retry_while_failed.simps [of c w])
    have "extends v w' \<and> fst ` set (new_calls v w') = {c} \<and>
        (ok \<longleftrightarrow> (\<exists>r. (c, r) \<in> set (new_calls v w') \<and> ret r \<noteq> -1))"
      by (rule "1.IH" [OF s [symmetric]]) (use True rec in auto)
    then show ?thesis
      using sv True new_calls_append [of w v w'] by (auto intro: extends_trans)
  next
    case False
    then show ?thesis
      using "1.prems" s sv by (auto simp: retry_while_failed.simps [of c w] split: if_splits)
  qed
qed

end
