(* ===== verification/Persistent_Metadata.thy ===== *)
theory Persistent_Metadata
  imports Raft_Metadata_Codec Os
begin

text \<open>
  The durable term and vote (src/persistent_metadata.cpp): an in-memory copy, the path of its
  file and the flag that refuses further updates once a replacement failed ambiguously.

  \<^item> \<open>pm_open\<close>, \<open>advance_term\<close>, \<open>vote_for\<close> and \<open>persist\<close> are the four operations, with every
    system call and every early return.
  \<^item> \<open>vote_store\<close> is the interface the Raft code relies on: terms never go back, a vote is
    never changed within its term, a failed update leaves the visible state alone. It is
    interpreted on the operations as \<open>metadata_store\<close>.
  \<^item> \<open>persist_durable\<close> states the write, sync, rename, sync protocol of a successful update,
    \<open>persist_poisoned\<close> that a failure at or after the rename refuses all later updates.
\<close>

datatype metadata_open_error = IoError | TruncatedRecord | CorruptRecord | UnsupportedVersion

datatype metadata_update_result =
    Persisted
  | Unchanged
  | StaleTerm
  | VoteConflict
  | InvalidTerm
  | IoError

record persistent_metadata =
  pm_path :: bytes
  pm_state :: raft_metadata
  pm_io_failed :: bool

section \<open>Reading and writing a descriptor\<close>

function md_read_exact :: "int \<Rightarrow> nat \<Rightarrow> bytes \<Rightarrow> os \<Rightarrow> bool \<times> bytes \<times> os" where
  "md_read_exact fd count acc w =
     (if length acc < count
      then (case syscall (SysRead fd (count - length acc)) w of (r, w') \<Rightarrow>
              if data_of r \<noteq> []
              then md_read_exact fd count
                     (acc @ take (count - length acc) (data_of r)) w'
              else if r = Fail EINTR then md_read_exact fd count acc w'
              else (False, acc, w'))
      else (True, acc, w))"
  by pat_completeness auto
termination
  by (relation "measure (\<lambda>(fd, count, acc, w). length (script w))")
    (auto simp: syscall_def split: list.splits)

function md_write_exact :: "int \<Rightarrow> bytes \<Rightarrow> nat \<Rightarrow> os \<Rightarrow> bool \<times> os" where
  "md_write_exact fd input written w =
     (if written < length input
      then (case syscall (SysWrite fd (drop written input)) w of (r, w') \<Rightarrow>
              if ret r > 0 then md_write_exact fd input (written + nat (ret r)) w'
              else if r = Fail EINTR then md_write_exact fd input written w'
              else (False, w'))
      else (True, w))"
  by pat_completeness auto
termination
  by (relation "measure (\<lambda>(fd, input, written, w). length (script w))")
    (auto simp: syscall_def split: list.splits)

declare md_read_exact.simps [simp del] md_write_exact.simps [simp del]

definition md_sync_file :: "int \<Rightarrow> os \<Rightarrow> bool \<times> os" where
  "md_sync_file fd w = retry_while_failed (SysFdatasync fd) w"

definition md_sync_directory :: "int \<Rightarrow> os \<Rightarrow> bool \<times> os" where
  "md_sync_directory fd w = retry_while_failed (SysFsync fd) w"

section \<open>Operations\<close>

definition empty_metadata :: raft_metadata where
  "empty_metadata = \<lparr>current_term = 0, voted_for = None\<rparr>"

definition pm_open :: "bytes \<Rightarrow> os \<Rightarrow> (metadata_open_error + persistent_metadata) \<times> os" where
  "pm_open path w =
     (if filename path = [] then (Inl metadata_open_error.IoError, w)
      else
        (case syscall (SysOpenDir (parent_of path)) w of (d, w) \<Rightarrow>
         if ret d < 0 then (Inl metadata_open_error.IoError, w)
         else
           (case syscall (SysOpenRead path) w of (f, w) \<Rightarrow>
            if ret f < 0 then
              (if f \<noteq> Fail ENOENT then (Inl metadata_open_error.IoError, close_fd (ret d) w)
               else (Inr \<lparr>pm_path = path, pm_state = empty_metadata, pm_io_failed = False\<rparr>,
                     close_fd (ret d) w))
            else
              (case syscall (SysFstat (ret f)) w of (st, w) \<Rightarrow>
               let leave = (\<lambda>w. close_fd (ret d) (close_fd (ret f) w))
               in (case st of
                     Stat st_size regular \<Rightarrow>
                       if \<not> regular then (Inl metadata_open_error.IoError, leave w)
                       else if sint st_size < int raft_metadata_record_size
                       then (Inl metadata_open_error.TruncatedRecord, leave w)
                       else if sint st_size \<noteq> int raft_metadata_record_size
                       then (Inl metadata_open_error.CorruptRecord, leave w)
                       else
                         (case md_read_exact (ret f) raft_metadata_record_size [] w of (ok, bs, w) \<Rightarrow>
                          if \<not> ok then (Inl metadata_open_error.IoError, leave w)
                          else
                            (case decode_raft_metadata bs of
                               Inl error \<Rightarrow>
                                 (Inl (if error = raft_metadata_codec_error.TruncatedRecord
                                       then metadata_open_error.TruncatedRecord
                                       else if error = raft_metadata_codec_error.UnsupportedVersion
                                       then metadata_open_error.UnsupportedVersion
                                       else metadata_open_error.CorruptRecord), leave w)
                             | Inr decoded \<Rightarrow>
                                 (case md_sync_file (ret f) w of (s1, w) \<Rightarrow>
                                  if \<not> s1 then (Inl metadata_open_error.IoError, leave w)
                                  else
                                    (case md_sync_directory (ret d) w of (s2, w) \<Rightarrow>
                                     if \<not> s2 then (Inl metadata_open_error.IoError, leave w)
                                     else (Inr \<lparr>pm_path = path, pm_state = decoded,
                                                pm_io_failed = False\<rparr>, leave w)))))
                   | _ \<Rightarrow> (Inl metadata_open_error.IoError, leave w))))))"

text \<open>The suffix \<open>.tmp.XXXXXX\<close> of the temporary file's template.\<close>

definition temp_suffix :: bytes where
  "temp_suffix = [46, 116, 109, 112, 46, 88, 88, 88, 88, 88, 88]"

definition temp_name :: "sysres \<Rightarrow> bytes \<Rightarrow> bytes" where
  "temp_name r template = (case r of Temp fd name \<Rightarrow> name | _ \<Rightarrow> template)"

definition discard_temp :: "bytes \<Rightarrow> os \<Rightarrow> os" where
  "discard_temp name w = snd (syscall (SysUnlink name) w)"

definition persist ::
  "raft_metadata \<Rightarrow> persistent_metadata \<Rightarrow> os
     \<Rightarrow> metadata_update_result \<times> persistent_metadata \<times> os" where
  "persist next_state m w =
     (case encode_raft_metadata next_state of
        Inl _ \<Rightarrow> (IoError, m, w)
      | Inr bs \<Rightarrow>
          (case syscall (SysOpenDir (parent_of (pm_path m))) w of (d, w) \<Rightarrow>
           if ret d < 0 then (IoError, m, w)
           else
             (let template_path = pm_path m @ temp_suffix
              in case syscall (SysMkostemp template_path) w of (t, w) \<Rightarrow>
                 if ret t < 0 then (IoError, m, close_fd (ret d) w)
                 else
                   (let name = temp_name t template_path
                    in case (case md_write_exact (ret t) bs 0 w of (ok, w) \<Rightarrow>
                             if \<not> ok then (False, w) else md_sync_file (ret t) w) of (ok, w) \<Rightarrow>
                       if \<not> ok
                       then (IoError, m, close_fd (ret d) (close_fd (ret t) (discard_temp name w)))
                       else
                         (case syscall (SysClose (ret t)) w of (c, w) \<Rightarrow>
                          if ret c = -1 then (IoError, m, close_fd (ret d) (discard_temp name w))
                          else
                            (case syscall (SysRename name (pm_path m)) w of (rn, w) \<Rightarrow>
                             if ret rn = -1
                             then (IoError, m\<lparr>pm_io_failed := True\<rparr>,
                                   close_fd (ret d) (discard_temp name w))
                             else
                               (case md_sync_directory (ret d) w of (s, w) \<Rightarrow>
                                if \<not> s then (IoError, m\<lparr>pm_io_failed := True\<rparr>, close_fd (ret d) w)
                                else (Persisted, m\<lparr>pm_state := next_state\<rparr>,
                                      close_fd (ret d) w))))))))"

definition advance_term ::
  "u64 \<Rightarrow> persistent_metadata \<Rightarrow> os \<Rightarrow> metadata_update_result \<times> persistent_metadata \<times> os" where
  "advance_term trm m w =
     (if pm_io_failed m then (IoError, m, w)
      else if trm < current_term (pm_state m) then (StaleTerm, m, w)
      else if trm = current_term (pm_state m) then (Unchanged, m, w)
      else persist \<lparr>current_term = trm, voted_for = None\<rparr> m w)"

definition vote_for ::
  "u64 \<Rightarrow> persistent_metadata \<Rightarrow> os \<Rightarrow> metadata_update_result \<times> persistent_metadata \<times> os" where
  "vote_for candidate m w =
     (if pm_io_failed m then (IoError, m, w)
      else if current_term (pm_state m) = 0 then (InvalidTerm, m, w)
      else if voted_for (pm_state m) = Some candidate then (Unchanged, m, w)
      else if voted_for (pm_state m) \<noteq> None then (VoteConflict, m, w)
      else persist \<lparr>current_term = current_term (pm_state m), voted_for = Some candidate\<rparr> m w)"

section \<open>Outcomes of an update\<close>

lemma persist_outcome:
  "persist next m w = (res, m', w') \<Longrightarrow>
     (res = Persisted \<and> m' = m\<lparr>pm_state := next\<rparr> \<and> valid_metadata next)
   \<or> (res = IoError \<and> (m' = m \<or> m' = m\<lparr>pm_io_failed := True\<rparr>))"
  by (auto simp: persist_def Let_def encode_raft_metadata_eq split: prod.splits if_splits sum.splits)

lemma advance_term_outcome:
  "advance_term trm m w = (res, m', w') \<Longrightarrow>
     (res = Persisted \<and> current_term (pm_state m) < trm \<and> \<not> pm_io_failed m
        \<and> m' = m\<lparr>pm_state := \<lparr>current_term = trm, voted_for = None\<rparr>\<rparr>)
   \<or> (res = IoError \<and> (m' = m \<or> m' = m\<lparr>pm_io_failed := True\<rparr>))
   \<or> (res = StaleTerm \<and> trm < current_term (pm_state m) \<and> m' = m \<and> w' = w \<and> \<not> pm_io_failed m)
   \<or> (res = Unchanged \<and> trm = current_term (pm_state m) \<and> m' = m \<and> w' = w \<and> \<not> pm_io_failed m)"
  by (auto simp: advance_term_def split: if_splits dest!: persist_outcome)

lemma vote_for_outcome:
  "vote_for c m w = (res, m', w') \<Longrightarrow>
     (res = Persisted \<and> voted_for (pm_state m) = None \<and> current_term (pm_state m) \<noteq> 0
        \<and> \<not> pm_io_failed m
        \<and> m' = m\<lparr>pm_state := \<lparr>current_term = current_term (pm_state m), voted_for = Some c\<rparr>\<rparr>)
   \<or> (res = IoError \<and> (m' = m \<or> m' = m\<lparr>pm_io_failed := True\<rparr>))
   \<or> (res = InvalidTerm \<and> current_term (pm_state m) = 0 \<and> m' = m \<and> w' = w \<and> \<not> pm_io_failed m)
   \<or> (res = Unchanged \<and> voted_for (pm_state m) = Some c \<and> current_term (pm_state m) \<noteq> 0
        \<and> m' = m \<and> w' = w \<and> \<not> pm_io_failed m)
   \<or> (res = VoteConflict \<and> (\<exists>d. d \<noteq> c \<and> voted_for (pm_state m) = Some d)
        \<and> m' = m \<and> w' = w \<and> \<not> pm_io_failed m)"
  by (auto simp: vote_for_def split: if_splits dest!: persist_outcome)

text \<open>The durable state once a message of term \<open>t\<close> has been seen.\<close>

definition term_seen :: "u64 \<Rightarrow> raft_metadata \<Rightarrow> raft_metadata" where
  "term_seen t m = (if current_term m < t then \<lparr>current_term = t, voted_for = None\<rparr> else m)"

lemma advance_term_seen:
  assumes "advance_term t m w = (r, m', w')" and "r \<noteq> metadata_update_result.IoError"
  shows "pm_state m' = term_seen t (pm_state m) \<and> \<not> pm_io_failed m' \<and> \<not> pm_io_failed m
    \<and> pm_path m' = pm_path m"
  using advance_term_outcome [OF assms(1)] assms(2) by (auto simp: term_seen_def)

section \<open>The interface of a vote store\<close>

datatype metadata_update = AdvanceTerm u64 | VoteFor u64

text \<open>A sequence of updates, each with the operation it names; results are discarded.\<close>

primrec run_updates ::
  "(u64 \<Rightarrow> 's \<Rightarrow> 'w \<Rightarrow> 'r \<times> 's \<times> 'w) \<Rightarrow> (u64 \<Rightarrow> 's \<Rightarrow> 'w \<Rightarrow> 'r \<times> 's \<times> 'w)
     \<Rightarrow> metadata_update list \<Rightarrow> 's \<Rightarrow> 'w \<Rightarrow> 's \<times> 'w" where
  "run_updates advance cast [] s w = (s, w)"
| "run_updates advance cast (u # us) s w =
     (case (case u of AdvanceTerm t \<Rightarrow> advance t s w | VoteFor c \<Rightarrow> cast c s w) of
        (r, s', w') \<Rightarrow> run_updates advance cast us s' w')"

locale vote_store =
  fixes term_of :: "'s \<Rightarrow> u64"
    and vote_of :: "'s \<Rightarrow> u64 option"
    and advance :: "u64 \<Rightarrow> 's \<Rightarrow> 'w \<Rightarrow> 'r \<times> 's \<times> 'w"
    and cast :: "u64 \<Rightarrow> 's \<Rightarrow> 'w \<Rightarrow> 'r \<times> 's \<times> 'w"
  assumes advance_law: "advance t s w = (r, s', w') \<Longrightarrow>
      term_of s' = term_of s \<and> vote_of s' = vote_of s
      \<or> term_of s < t \<and> term_of s' = t \<and> vote_of s' = None"
    and cast_law: "cast c s w = (r, s', w') \<Longrightarrow>
      term_of s' = term_of s \<and>
      (vote_of s' = vote_of s \<or> vote_of s = None \<and> vote_of s' = Some c \<and> term_of s \<noteq> 0)"
begin

lemma run_updates_law:
  "run_updates advance cast us s w = (s', w') \<Longrightarrow>
     term_of s \<le> term_of s' \<and>
     (term_of s' = term_of s \<longrightarrow> vote_of s = Some c \<longrightarrow> vote_of s' = Some c)"
proof (induction us arbitrary: s w)
  case Nil
  then show ?case by simp
next
  case (Cons u us)
  obtain r t v where step: "(case u of AdvanceTerm t \<Rightarrow> advance t s w | VoteFor c \<Rightarrow> cast c s w) = (r, t, v)"
    by (metis prod_cases3)
  then have "term_of s \<le> term_of t \<and>
      (term_of t = term_of s \<longrightarrow> vote_of s = Some c \<longrightarrow> vote_of t = Some c)"
    by (cases u) (auto dest!: advance_law cast_law)
  moreover have "run_updates advance cast us t v = (s', w')"
    using Cons.prems step by simp
  ultimately show ?case
    using Cons.IH [of t v] by (metis order_antisym order_trans)
qed

lemma run_updates_same_vote:
  assumes "run_updates advance cast us s w = (s', w')"
    and "term_of s' = term_of s" and "vote_of s = Some c" and "vote_of s' = Some d"
  shows "c = d"
  using run_updates_law [OF assms(1), of c] assms by simp

end

interpretation metadata_store: vote_store "\<lambda>m. current_term (pm_state m)" "\<lambda>m. voted_for (pm_state m)"
  advance_term vote_for
proof (unfold_locales, goal_cases)
  case (1 t s w r s' w')
  from advance_term_outcome [OF this] show ?case by auto
next
  case (2 c s w r s' w')
  from vote_for_outcome [OF this] show ?case by auto
qed

section \<open>The replacement protocol\<close>

text \<open>The bytes the successful \<open>write\<close> calls on a descriptor accepted, in order.\<close>

definition written_data :: "int \<Rightarrow> (syscall \<times> sysres) list \<Rightarrow> bytes" where
  "written_data fd cs =
     concat (map (\<lambda>(c, r). case c of
        SysWrite fd' bs \<Rightarrow> if fd' = fd \<and> ret r > 0 then take (nat (ret r)) bs else []
      | _ \<Rightarrow> []) cs)"

lemma written_data_append [simp]: "written_data fd (xs @ ys) = written_data fd xs @ written_data fd ys"
  by (simp add: written_data_def)

lemma md_write_exact_calls:
  "md_write_exact fd input k w = (ok, w') \<Longrightarrow>
     extends w w' \<and> (\<forall>c \<in> fst ` set (new_calls w w'). \<exists>bs. c = SysWrite fd bs)
     \<and> (ok \<longrightarrow> written_data fd (new_calls w w') = drop k input)"
proof (induction fd input k w arbitrary: ok w' rule: md_write_exact.induct)
  case (1 fd input k w)
  show ?case
  proof (cases "k < length input")
    case False
    then show ?thesis
      using "1.prems" by (simp add: md_write_exact.simps [of fd input k w] written_data_def)
  next
    case True
    obtain r v where s: "syscall (SysWrite fd (drop k input)) w = (r, v)"
      by (cases "syscall (SysWrite fd (drop k input)) w")
    note sv = syscall_extends [OF s]
    consider (more) "ret r > 0" | (again) "\<not> ret r > 0" "r = Fail EINTR"
      | (stop) "\<not> ret r > 0" "r \<noteq> Fail EINTR" by blast
    then show ?thesis
    proof cases
      case more
      have IH: "extends v w' \<and> (\<forall>c \<in> fst ` set (new_calls v w'). \<exists>bs. c = SysWrite fd bs)
          \<and> (ok \<longrightarrow> written_data fd (new_calls v w') = drop (k + nat (ret r)) input)"
        by (rule "1.IH"(1) [OF True s [symmetric]])
          (use more "1.prems" True s in \<open>auto simp: md_write_exact.simps [of fd input k w]\<close>)
      then show ?thesis
        using sv more new_calls_append [of w v w']
        by (auto intro: extends_trans simp: written_data_def slice_step add.commute)
    next
      case again
      have IH: "extends v w' \<and> (\<forall>c \<in> fst ` set (new_calls v w'). \<exists>bs. c = SysWrite fd bs)
          \<and> (ok \<longrightarrow> written_data fd (new_calls v w') = drop k input)"
        by (rule "1.IH"(2) [OF True s [symmetric]])
          (use again "1.prems" True s in \<open>auto simp: md_write_exact.simps [of fd input k w]\<close>)
      then show ?thesis
        using sv again new_calls_append [of w v w']
        by (auto intro: extends_trans simp: written_data_def)
    next
      case stop
      then show ?thesis
        using "1.prems" True s sv by (auto simp: md_write_exact.simps [of fd input k w])
    qed
  qed
qed

definition replaced_durably :: "bytes \<Rightarrow> bytes \<Rightarrow> (syscall \<times> sysres) list \<Rightarrow> bool" where
  "replaced_durably path bs cs \<longleftrightarrow>
     (\<exists>d t writes syncs cl rn dsyncs rest.
        cs = [(SysOpenDir (parent_of path), d), (SysMkostemp (path @ temp_suffix), t)]
             @ writes @ syncs @ [(SysClose (ret t), cl),
                (SysRename (temp_name t (path @ temp_suffix)) path, rn)] @ dsyncs @ rest
        \<and> written_data (ret t) writes = bs
        \<and> (\<exists>r. (SysFdatasync (ret t), r) \<in> set syncs \<and> ret r \<noteq> -1)
        \<and> ret rn \<noteq> -1
        \<and> (\<exists>r. (SysFsync (ret d), r) \<in> set dsyncs \<and> ret r \<noteq> -1)
        \<and> fst ` set rest \<subseteq> {SysClose (ret d)})"

lemma persist_durable:
  assumes "persist next m w = (Persisted, m', w')"
  shows "\<exists>bs. encode_raft_metadata next = Inr bs \<and> replaced_durably (pm_path m) bs (new_calls w w')"
proof -
  let ?tp = "pm_path m @ temp_suffix"
  obtain bs d w1 t w2 w3 w4 c w5 rn w6 w7
    where enc: "encode_raft_metadata next = Inr bs"
      and d: "syscall (SysOpenDir (parent_of (pm_path m))) w = (d, w1)"
      and t: "syscall (SysMkostemp ?tp) w1 = (t, w2)"
      and wr: "md_write_exact (ret t) bs 0 w2 = (True, w3)"
      and sy: "md_sync_file (ret t) w3 = (True, w4)"
      and c: "syscall (SysClose (ret t)) w4 = (c, w5)"
      and rn: "syscall (SysRename (temp_name t ?tp) (pm_path m)) w5 = (rn, w6)" "ret rn \<noteq> -1"
      and ds: "md_sync_directory (ret d) w6 = (True, w7)"
      and w': "w' = close_fd (ret d) w7"
    using assms by (auto simp: persist_def Let_def split: prod.splits if_splits sum.splits)
  note calls = syscall_extends [OF d] syscall_extends [OF t] md_write_exact_calls [OF wr]
    retry_while_failed_calls [OF sy [unfolded md_sync_file_def]] syscall_extends [OF c]
    syscall_extends [OF rn(1)] retry_while_failed_calls [OF ds [unfolded md_sync_directory_def]]
    close_fd_calls [of w7 "ret d"]
  have ext: "extends w w1" "extends w1 w2" "extends w2 w3" "extends w3 w4" "extends w4 w5"
      "extends w5 w6" "extends w6 w7" "extends w7 w'"
    using calls w' by auto
  have "trace w' = trace w @ new_calls w w1 @ new_calls w1 w2 @ new_calls w2 w3 @ new_calls w3 w4
      @ new_calls w4 w5 @ new_calls w5 w6 @ new_calls w6 w7 @ new_calls w7 w'"
    by (simp only: ext [THEN trace_new_calls] append_assoc)
  then have "new_calls w w' = new_calls w w1 @ new_calls w1 w2 @ new_calls w2 w3 @ new_calls w3 w4
      @ new_calls w4 w5 @ new_calls w5 w6 @ new_calls w6 w7 @ new_calls w7 w'"
    by (simp only: new_calls_def [of w w'] drop_prefix)
  then have eq: "new_calls w w' = [(SysOpenDir (parent_of (pm_path m)), d), (SysMkostemp ?tp, t)]
      @ new_calls w2 w3 @ new_calls w3 w4 @ [(SysClose (ret t), c),
        (SysRename (temp_name t ?tp) (pm_path m), rn)] @ new_calls w6 w7 @ new_calls w7 w'"
    using calls by simp
  have data: "written_data (ret t) (new_calls w2 w3) = bs"
    and synced: "\<exists>r. (SysFdatasync (ret t), r) \<in> set (new_calls w3 w4) \<and> ret r \<noteq> -1"
    and dir_synced: "\<exists>r. (SysFsync (ret d), r) \<in> set (new_calls w6 w7) \<and> ret r \<noteq> -1"
    and closed: "fst ` set (new_calls w7 w') \<subseteq> {SysClose (ret d)}"
    using calls w' by simp_all
  have "replaced_durably (pm_path m) bs (new_calls w w')"
    unfolding replaced_durably_def using eq data synced rn(2) dir_synced closed by blast
  with enc show ?thesis by blast
qed

text \<open>
  A failure that leaves the store usable happened before the rename was attempted, so the
  file still holds the old state.
\<close>

definition no_rename :: "os \<Rightarrow> os \<Rightarrow> bool" where
  "no_rename w w' \<longleftrightarrow> extends w w' \<and> (\<forall>a b. SysRename a b \<notin> fst ` set (new_calls w w'))"

lemma no_rename_refl [intro]: "no_rename w w"
  by (simp add: no_rename_def)

lemma no_rename_trans:
  assumes "no_rename a b" and "no_rename b c"
  shows "no_rename a c"
proof -
  have ext: "extends a b" "extends b c" using assms by (simp_all add: no_rename_def)
  show ?thesis
    using assms extends_trans [OF ext]
    by (simp add: no_rename_def new_calls_append [OF ext] image_Un)
qed

lemma no_rename_syscall: "syscall c w = (r, w') \<Longrightarrow> (\<And>a b. c \<noteq> SysRename a b) \<Longrightarrow> no_rename w w'"
  using syscall_extends [of c w r w'] by (auto simp: no_rename_def)

lemma no_rename_close: "no_rename w (close_fd fd w)"
  using close_fd_calls [of w fd] by (auto simp: no_rename_def)

lemma no_rename_discard: "no_rename w (discard_temp name w)"
  unfolding discard_temp_def by (rule no_rename_syscall [OF surjective_pairing]) simp

lemma no_rename_write: "md_write_exact fd bs k w = (ok, w') \<Longrightarrow> no_rename w w'"
  using md_write_exact_calls [of fd bs k w ok w'] by (fastforce simp: no_rename_def)

lemma no_rename_sync: "md_sync_file fd w = (ok, w') \<Longrightarrow> no_rename w w'"
  using retry_while_failed_calls [of "SysFdatasync fd" w ok w']
  by (fastforce simp: no_rename_def md_sync_file_def)

lemmas no_rename_steps =
  no_rename_syscall no_rename_close no_rename_discard no_rename_write no_rename_sync

lemma persist_poisoned:
  assumes "persist next m w = (res, m', w')" and "res \<noteq> Persisted" and "\<not> pm_io_failed m'"
  shows "m' = m \<and> no_rename w w'"
proof (cases "encode_raft_metadata next")
  case (Inl e)
  with assms show ?thesis by (auto simp: persist_def)
next
  case (Inr bs)
  let ?tp = "pm_path m @ temp_suffix"
  obtain d w1 where d: "syscall (SysOpenDir (parent_of (pm_path m))) w = (d, w1)" by fastforce
  obtain t w2 where t: "syscall (SysMkostemp ?tp) w1 = (t, w2)" by fastforce
  obtain o3 w3 where wr: "md_write_exact (ret t) bs 0 w2 = (o3, w3)" by fastforce
  obtain o4 w4 where sy: "md_sync_file (ret t) w3 = (o4, w4)" by fastforce
  obtain c w5 where c: "syscall (SysClose (ret t)) w4 = (c, w5)" by fastforce
  have n1: "no_rename w w1" by (rule no_rename_syscall [OF d]) simp
  have n2: "no_rename w w2" by (rule no_rename_trans [OF n1 no_rename_syscall [OF t]]) simp
  have n3: "no_rename w w3" by (rule no_rename_trans [OF n2 no_rename_write [OF wr]])
  have n4: "no_rename w w4" by (rule no_rename_trans [OF n3 no_rename_sync [OF sy]])
  have n5: "no_rename w w5" by (rule no_rename_trans [OF n4 no_rename_syscall [OF c]]) simp
  have io: "m' = m" using persist_outcome [OF assms(1)] assms(2,3) by auto
  note un = assms(1) [unfolded persist_def Inr sum.case d prod.case Let_def t wr sy c]
  have "no_rename w w'"
    using un assms(2,3) n1 n2 n3 n4 n5 c
    by (auto split: if_splits prod.splits
        intro: no_rename_trans [OF _ no_rename_close] no_rename_trans [OF _ no_rename_discard])
  with io show ?thesis by simp
qed

section \<open>Properties\<close>

text \<open>C22: Over any sequence of term advances and votes, whatever the system answers, the visible term
  never decreases, and a vote cast in a term is never withdrawn or given to another candidate while
  that term lasts.\<close>

theorem term_and_vote_monotone:
  assumes "run_updates advance_term vote_for us m w = (m', w')"
  shows "current_term (pm_state m) \<le> current_term (pm_state m')
    \<and> (current_term (pm_state m') = current_term (pm_state m) \<longrightarrow> voted_for (pm_state m) = Some c \<longrightarrow>
        voted_for (pm_state m') = Some c)"
  by (rule metadata_store.run_updates_law [OF assms])

definition sample_store :: "u64 option \<Rightarrow> persistent_metadata" where
  "sample_store v = \<lparr>pm_path = [109], pm_state = \<lparr>current_term = 3, voted_for = v\<rparr>, pm_io_failed = False\<rparr>"

theorem term_and_vote_monotone_witness:
  "voted_for (pm_state (fst (run_updates advance_term vote_for [VoteFor 1, AdvanceTerm 2, VoteFor 2]
     (sample_store (Some 2)) \<lparr>script = [], trace = []\<rparr>))) = Some 2"
proof -
  have run: "run_updates advance_term vote_for [VoteFor 1, AdvanceTerm 2, VoteFor 2]
      (sample_store (Some 2)) \<lparr>script = [], trace = []\<rparr> = (sample_store (Some 2), \<lparr>script = [], trace = []\<rparr>)"
    by (simp add: sample_store_def vote_for_def advance_term_def)
  have "voted_for (pm_state (sample_store (Some 2))) = Some 2"
    using term_and_vote_monotone [OF run, of 2] by (simp add: sample_store_def)
  then show ?thesis unfolding run fst_conv .
qed

text \<open>C23: A reported update is durable. When a vote or a term is reported as persisted, the record of
  exactly that state was written in full to a fresh temporary file, synchronised, the file closed
  and renamed over the old one, and the directory synchronised, in this order.\<close>

theorem persisted_update_durable:
  assumes "persist next m w = (Persisted, m', w')"
  shows "pm_state m' = next
    \<and> (\<exists>bs. encode_raft_metadata next = Inr bs \<and> replaced_durably (pm_path m) bs (new_calls w w'))"
  using persist_durable [OF assms] persist_outcome [OF assms] by auto

text \<open>Answers under which one update of the store succeeds.\<close>

definition good_answers :: "sysres list" where
  "good_answers = [Ret 3, Temp 4 [116], Ret 26, Ret 0, Ret 0, Ret 0, Ret 0, Ret 0]"

lemma persist_good_answers:
  assumes "valid_metadata next"
  shows "\<exists>tr'. persist next m \<lparr>script = good_answers @ rs, trace = tr\<rparr>
    = (Persisted, m\<lparr>pm_state := next\<rparr>, \<lparr>script = rs, trace = tr'\<rparr>)"
proof -
  obtain bs where enc: "encode_raft_metadata next = Inr bs" and len: "length bs = 26"
    using assms by (simp add: encode_raft_metadata_eq)
  have wr: "md_write_exact 4 bs 0 \<lparr>script = Ret 26 # rs, trace = tr\<rparr>
      = (True, \<lparr>script = rs, trace = tr @ [(SysWrite 4 bs, Ret 26)]\<rparr>)" for rs tr
    by (subst md_write_exact.simps, subst md_write_exact.simps) (simp add: len syscall_def)
  have sy: "retry_while_failed c \<lparr>script = Ret 0 # rs, trace = tr\<rparr> = (True, \<lparr>script = rs, trace = tr @ [(c, Ret 0)]\<rparr>)"
    for c rs tr
    by (subst retry_while_failed.simps) (simp add: syscall_def)
  show ?thesis
    by (simp add: persist_def enc good_answers_def syscall_def wr sy md_sync_file_def
        md_sync_directory_def Let_def close_fd_def)
qed

theorem persisted_update_durable_witness:
  "pm_state (fst (snd (persist \<lparr>current_term = 3, voted_for = Some 2\<rparr> (sample_store None)
     \<lparr>script = good_answers, trace = []\<rparr>))) = \<lparr>current_term = 3, voted_for = Some 2\<rparr>"
proof -
  have "valid_metadata \<lparr>current_term = 3, voted_for = Some 2\<rparr>" by (simp add: valid_metadata_def)
  then obtain tr where p: "persist \<lparr>current_term = 3, voted_for = Some 2\<rparr> (sample_store None)
      \<lparr>script = good_answers, trace = []\<rparr>
      = (Persisted, (sample_store None)\<lparr>pm_state := \<lparr>current_term = 3, voted_for = Some 2\<rparr>\<rparr>,
         \<lparr>script = [], trace = tr\<rparr>)"
    using persist_good_answers [of _ "sample_store None" "[]" "[]"] by (metis append_Nil2)
  show ?thesis using persisted_update_durable [OF p] unfolding p by simp
qed

text \<open>C31: A failed update is either harmless or final. If the store still accepts updates after a
  failure, its state is unchanged and the rename over the old record was never attempted; otherwise
  it refuses every later update with an I/O error and makes no system call.\<close>

theorem failed_update_harmless_or_final:
  assumes "persist next m w = (res, m', w')" and "res \<noteq> Persisted"
  shows "if pm_io_failed m'
    then advance_term t m' v = (IoError, m', v) \<and> vote_for c m' v = (IoError, m', v)
    else m' = m \<and> no_rename w w'"
  using persist_poisoned [OF assms(1,2)] by (simp add: advance_term_def vote_for_def)

theorem failed_update_harmless_or_final_witness:
  "fst (snd (persist \<lparr>current_term = 3, voted_for = Some 2\<rparr> (sample_store None) \<lparr>script = [], trace = []\<rparr>))
     = sample_store None"
proof -
  let ?w' = "\<lparr>script = [], trace = [(SysOpenDir [46], Fail EIO)]\<rparr>"
  have "parent_of [109] = [46]" by (simp add: parent_of_def parent_path_def strip_slashes_def Let_def)
  then have p: "persist \<lparr>current_term = 3, voted_for = Some 2\<rparr> (sample_store None) \<lparr>script = [], trace = []\<rparr>
      = (IoError, sample_store None, ?w')"
    by (simp add: persist_def encode_raft_metadata_eq valid_metadata_def sample_store_def syscall_def Let_def)
  then have "\<not> pm_io_failed (sample_store None)" by (simp add: sample_store_def)
  then show ?thesis using failed_update_harmless_or_final [OF p] p by simp
qed

end
