(* ===== verification/Command_Codec.thy ===== *)
theory Command_Codec
  imports Codec "HOL-Library.List_Lexorder"
begin

text \<open>
  Commands (include/dkv/command.hpp) and their byte format (src/command_codec.cpp).

  \<^item> \<open>request_id\<close> is the program's 16-byte array with its lexicographic order; \<open>command_type\<close>
    and \<open>command\<close> are the enum and the struct. A \<open>std::string\<close> is the byte string it holds.
    The enum has exactly its three enumerators here, so the \<open>default\<close> branches that answer
    a value outside the enum have no counterpart.
  \<^item> \<open>encode_command\<close> and \<open>decode_command\<close> follow the program branch by branch; the codec
    contract \<open>command_codec\<close> is the interpretation at the end.
\<close>

section \<open>Data\<close>

typedef request_id = "{bs :: bytes. length bs = 16}"
  morphisms rid_bytes Abs_request_id
proof
  show "replicate 16 0 \<in> {bs :: bytes. length bs = 16}" by simp
qed

lemma request_id_abstype [code abstype]: "Abs_request_id (rid_bytes r) = r"
  by (rule rid_bytes_inverse)

lemma length_rid_bytes [simp, wire_simps]: "length (rid_bytes r) = 16"
  using rid_bytes [of r] by simp

text \<open>The array filled from the input bytes, as the decoder's loop fills it.\<close>

definition request_id_of :: "bytes \<Rightarrow> request_id" where
  "request_id_of bs = Abs_request_id (take 16 (bs @ replicate 16 0))"

lemma rid_bytes_of [code abstract]: "rid_bytes (request_id_of bs) = take 16 (bs @ replicate 16 0)"
  by (simp add: request_id_of_def Abs_request_id_inverse)

lemma rid_bytes_request_id_of [simp, wire_simps]:
  "length bs = 16 \<Longrightarrow> rid_bytes (request_id_of bs) = bs"
  by (simp add: rid_bytes_of)

lemma request_id_of_rid_bytes [simp, wire_simps]: "request_id_of (rid_bytes r) = r"
  by (simp add: rid_bytes_inject [symmetric])

instantiation request_id :: equal
begin

definition equal_request_id :: "request_id \<Rightarrow> request_id \<Rightarrow> bool" where
  "equal_request_id a b \<longleftrightarrow> rid_bytes a = rid_bytes b"

instance
  by standard (simp add: equal_request_id_def rid_bytes_inject)

end

instantiation request_id :: linorder
begin

definition less_eq_request_id :: "request_id \<Rightarrow> request_id \<Rightarrow> bool" where
  "less_eq_request_id a b \<longleftrightarrow> rid_bytes a \<le> rid_bytes b"

definition less_request_id :: "request_id \<Rightarrow> request_id \<Rightarrow> bool" where
  "less_request_id a b \<longleftrightarrow> rid_bytes a < rid_bytes b"

instance
  by standard (auto simp: less_eq_request_id_def less_request_id_def rid_bytes_inject less_le_not_le)

end

datatype command_type = Put | Delete | NoOp

record command =
  cmd_type :: command_type
  cmd_key :: bytes
  cmd_value :: bytes
  cmd_request_id :: "request_id option"

datatype command_codec_error =
    InvalidCommand
  | FieldTooLarge
  | InputTooShort
  | UnsupportedVersion
  | UnknownCommandType
  | TruncatedPayload
  | TrailingBytes

definition legacyFormatVersion :: u8 where "legacyFormatVersion = 1"
definition requestIdFormatVersion :: u8 where "requestIdFormatVersion = 2"
definition putTag :: u8 where "putTag = 1"
definition deleteTag :: u8 where "deleteTag = 2"
definition noOpTag :: u8 where "noOpTag = 3"
definition headerSize :: nat where "headerSize = 10"
definition requestIdSize :: nat where "requestIdSize = 16"
definition maximum_field_size :: nat where "maximum_field_size = 4294967295"

lemmas command_constants [simp] =
  legacyFormatVersion_def requestIdFormatVersion_def putTag_def deleteTag_def noOpTag_def
  headerSize_def requestIdSize_def maximum_field_size_def

section \<open>Operations\<close>

definition cc_append_u32 :: "u32 \<Rightarrow> bytes" where
  "cc_append_u32 v =
     [ucast (drop_bit 24 v AND 0xFF), ucast (drop_bit 16 v AND 0xFF),
      ucast (drop_bit 8 v AND 0xFF), ucast (v AND 0xFF)]"

definition cc_read_u32 :: "bytes \<Rightarrow> nat \<Rightarrow> u32" where
  "cc_read_u32 input offset =
     push_bit 24 (ucast (input ! offset)) OR push_bit 16 (ucast (input ! (offset + 1)))
     OR push_bit 8 (ucast (input ! (offset + 2))) OR ucast (input ! (offset + 3))"

definition cc_read_string :: "bytes \<Rightarrow> nat \<Rightarrow> nat \<Rightarrow> bytes" where
  "cc_read_string input offset len = take len (drop offset input)"

definition encode_command :: "command \<Rightarrow> command_codec_error + bytes" where
  "encode_command c =
     (case (case cmd_type c of
              Put \<Rightarrow> Inr putTag
            | Delete \<Rightarrow> if cmd_value c \<noteq> [] then Inl InvalidCommand else Inr deleteTag
            | NoOp \<Rightarrow> if cmd_value c \<noteq> [] \<or> cmd_key c \<noteq> [] \<or> cmd_request_id c \<noteq> None
                       then Inl InvalidCommand else Inr noOpTag) of
        Inl e \<Rightarrow> Inl e
      | Inr type_byte \<Rightarrow>
          if length (cmd_key c) > maximum_field_size \<or> length (cmd_value c) > maximum_field_size
          then Inl FieldTooLarge
          else
            (let key_size = (of_nat (length (cmd_key c)) :: u32);
                 value_size = (of_nat (length (cmd_value c)) :: u32)
             in Inr ([if cmd_request_id c \<noteq> None then requestIdFormatVersion
                      else legacyFormatVersion, type_byte]
                   @ cc_append_u32 key_size @ cc_append_u32 value_size
                   @ (case cmd_request_id c of None \<Rightarrow> [] | Some r \<Rightarrow> rid_bytes r)
                   @ cmd_key c @ cmd_value c)))"

definition decode_command :: "bytes \<Rightarrow> command_codec_error + command" where
  "decode_command bs =
     (if length bs < headerSize then Inl InputTooShort
      else if bs ! 0 \<noteq> legacyFormatVersion \<and> bs ! 0 \<noteq> requestIdFormatVersion
      then Inl UnsupportedVersion
      else
        (let has_request_id = (bs ! 0 = requestIdFormatVersion);
             actual_header_size = headerSize + (if has_request_id then requestIdSize else 0)
         in if length bs < actual_header_size then Inl InputTooShort
         else
           (case (if bs ! 1 = putTag then Some Put
                  else if bs ! 1 = deleteTag then Some Delete
                  else if bs ! 1 = noOpTag then Some NoOp else None) of
              None \<Rightarrow> Inl UnknownCommandType
            | Some command_type \<Rightarrow>
                (let key_size = unat (cc_read_u32 bs 2);
                     value_size = unat (cc_read_u32 bs 6);
                     payload_size = length bs - actual_header_size
                 in if key_size > payload_size then Inl TruncatedPayload
                 else if value_size > payload_size - key_size then Inl TruncatedPayload
                 else if value_size < payload_size - key_size then Inl TrailingBytes
                 else
                   (let request_id = (if has_request_id
                          then Some (request_id_of (take requestIdSize (drop headerSize bs)))
                          else None);
                        key = cc_read_string bs actual_header_size key_size;
                        val = cc_read_string bs (actual_header_size + key_size) value_size
                    in if command_type = Delete \<and> val \<noteq> [] then Inl InvalidCommand
                    else if command_type = NoOp \<and> (val \<noteq> [] \<or> key \<noteq> [] \<or> request_id \<noteq> None)
                    then Inl InvalidCommand
                    else Inr \<lparr>cmd_type = command_type, cmd_key = key, cmd_value = val,
                              cmd_request_id = request_id\<rparr>)))))"

section \<open>Lemmas\<close>

lemma cc_append_u32 [wire_simps]: "cc_append_u32 v = be_bytes 4 v"
  by (simp add: cc_append_u32_def ucast_mask_byte numeral_eq_Suc drop_bit_drop_bit)

lemma cc_read_u32_loop: "cc_read_u32 input off = read_loop 4 input off 0"
  by (rule bit_word_eqI)
    (auto simp: cc_read_u32_def numeral_eq_Suc bit_simps dest: bit_imp_le_length)

lemma cc_read_u32 [wire_simps]:
  "off + 4 \<le> length input \<Longrightarrow> cc_read_u32 input off = be_read (take 4 (drop off input))"
  by (simp add: cc_read_u32_loop read_loop_be_read)

text \<open>The values the format can carry: the shape the encoder checks and its field bound.\<close>

definition command_shape_ok :: "command \<Rightarrow> bool" where
  "command_shape_ok c \<longleftrightarrow>
     (case cmd_type c of
        Put \<Rightarrow> True
      | Delete \<Rightarrow> cmd_value c = []
      | NoOp \<Rightarrow> cmd_value c = [] \<and> cmd_key c = [] \<and> cmd_request_id c = None)"

definition type_tag :: "command_type \<Rightarrow> u8" where
  "type_tag t = (case t of Put \<Rightarrow> 1 | Delete \<Rightarrow> 2 | NoOp \<Rightarrow> 3)"

definition command_layout :: "command \<Rightarrow> bytes" where
  "command_layout c =
     [if cmd_request_id c = None then 1 else 2, type_tag (cmd_type c)]
     @ be_bytes 4 (of_nat (length (cmd_key c)) :: u32)
     @ be_bytes 4 (of_nat (length (cmd_value c)) :: u32)
     @ (case cmd_request_id c of None \<Rightarrow> [] | Some r \<Rightarrow> rid_bytes r)
     @ cmd_key c @ cmd_value c"

lemma encode_command_eq:
  "encode_command c =
     (if \<not> command_shape_ok c then Inl InvalidCommand
      else if length (cmd_key c) > maximum_field_size \<or> length (cmd_value c) > maximum_field_size
      then Inl FieldTooLarge
      else Inr (command_layout c))"
  by (auto simp: encode_command_def command_shape_ok_def command_layout_def type_tag_def
      cc_append_u32 split: command_type.splits option.splits)

lemma length_command_layout:
  "length (command_layout c) =
     10 + (if cmd_request_id c = None then 0 else 16) + length (cmd_key c) + length (cmd_value c)"
  by (auto simp: command_layout_def split: option.splits)

lemma encode_command_Inr:
  "encode_command c = Inr bs \<longleftrightarrow>
     command_shape_ok c \<and> length (cmd_key c) \<le> maximum_field_size
     \<and> length (cmd_value c) \<le> maximum_field_size \<and> bs = command_layout c"
  by (auto simp: encode_command_eq)

lemma decode_command_layout:
  assumes "command_shape_ok c"
    and "length (cmd_key c) \<le> maximum_field_size" "length (cmd_value c) \<le> maximum_field_size"
  shows "decode_command (command_layout c) = Inr c"
proof -
  have len: "unat (of_nat (length (cmd_key c)) :: u32) = length (cmd_key c)"
      "unat (of_nat (length (cmd_value c)) :: u32) = length (cmd_value c)"
    using assms by (auto intro!: unat_of_nat_32)
  have shape: "cmd_type c = Delete \<Longrightarrow> cmd_value c = []"
      "cmd_type c = NoOp \<Longrightarrow> cmd_value c = [] \<and> cmd_key c = [] \<and> cmd_request_id c = None"
    using assms(1) by (auto simp: command_shape_ok_def)
  show ?thesis
    by (cases c; cases "cmd_request_id c"; cases "cmd_type c")
      (use len shape in \<open>auto simp: decode_command_def command_layout_def type_tag_def Let_def
        cc_read_u32 cc_read_string_def drop_numeral_add\<close>)
qed

text \<open>A long enough input is its header, its optional request id and the rest.\<close>

lemma command_input_split:
  assumes "10 + r \<le> length bs"
  shows "bs = [bs ! 0, bs ! 1] @ take 4 (drop 2 bs) @ take 4 (drop 6 bs)
           @ take r (drop 10 bs) @ drop (10 + r) bs"
proof -
  have "bs = bs ! 0 # bs ! 1 # drop 2 bs"
    using assms by (cases bs; cases "tl bs") auto
  then show ?thesis
    by (simp add: slice_step slice_rejoin [of 6 2 4] slice_rejoin [of 10 6 4])
qed

lemma decode_command_sound:
  assumes "decode_command bs = Inr c"
  shows "command_shape_ok c \<and> length (cmd_key c) \<le> maximum_field_size
    \<and> length (cmd_value c) \<le> maximum_field_size \<and> bs = command_layout c"
proof -
  define r where "r = (if bs ! 0 = 2 then 16 else 0 :: nat)"
  define ks where "ks = (be_read (take 4 (drop 2 bs)) :: u32)"
  define vs where "vs = (be_read (take 4 (drop 6 bs)) :: u32)"
  have len: "10 + r \<le> length bs" and ver: "bs ! 0 = 1 \<or> bs ! 0 = 2"
    and sizes: "10 + r + unat ks + unat vs = length bs"
    and c: "cmd_key c = take (unat ks) (drop (10 + r) bs)"
      "cmd_value c = take (unat vs) (drop (10 + r + unat ks) bs)"
      "cmd_request_id c = (if r = 16 then Some (request_id_of (take 16 (drop 10 bs))) else None)"
      "bs ! 1 = type_tag (cmd_type c)"
    and shape: "command_shape_ok c"
    using assms
    by (auto simp: decode_command_def Let_def cc_read_u32 cc_read_string_def r_def ks_def vs_def
        command_shape_ok_def type_tag_def not_less split: if_splits option.splits)
  have lens: "length (cmd_key c) = unat ks" "length (cmd_value c) = unat vs"
    using sizes c by auto
  have u: "unat ks \<le> maximum_field_size" "unat vs \<le> maximum_field_size"
    by simp_all
  have tail: "drop (10 + r) bs = cmd_key c @ cmd_value c"
    using sizes c by (metis append_take_drop_id drop_drop add.commute le_add1 take_all length_drop
        diff_le_mono2 add_diff_cancel_left' order_refl)
  have rid: "take r (drop 10 bs) = (case cmd_request_id c of None \<Rightarrow> [] | Some x \<Rightarrow> rid_bytes x)"
    using c(3) len by (auto simp: r_def split: if_splits)
  have "be_bytes 4 ks = take 4 (drop 2 bs)" "be_bytes 4 vs = take 4 (drop 6 bs)"
    using len by (simp_all add: ks_def vs_def be_bytes_read_32)
  then have "bs = command_layout c"
    using command_input_split [OF len] tail rid ver c lens
    by (simp add: command_layout_def r_def split: if_splits)
  with shape u lens show ?thesis by simp
qed

lemma decode_command_iff: "decode_command bs = Inr c \<longleftrightarrow> encode_command c = Inr bs"
  using decode_command_sound decode_command_layout by (auto simp: encode_command_Inr)

interpretation command_codec: codec encode_command decode_command
  by unfold_locales (rule decode_command_iff)

section \<open>Properties\<close>

text \<open>C28: The command format is exact. The decoder accepts a byte string as a command if and only if
  the encoder produces that string for that command: every encodable command comes back unchanged,
  and no byte string that the encoder would not write is accepted.\<close>

theorem command_format_exact:
  "decode_command bs = Inr c \<longleftrightarrow> encode_command c = Inr bs"
  by (rule decode_command_iff)

end
