(* ===== verification/Log_Entry_Codec.thy ===== *)
theory Log_Entry_Codec
  imports Command_Codec Crc32
begin

text \<open>
  Log entries (include/dkv/log_entry.hpp) and their record format (src/log_entry_codec.cpp):
  magic, version, body length, index, term, command, CRC-32 over everything before it.

  \<open>encode_log_entry\<close> and \<open>decode_log_entry\<close> follow the program check by check. The decoder
  reads one record at the front of its input and reports how many bytes it consumed, so its
  contract is the self-delimiting one: \<open>entry_codec\<close> at the end.
\<close>

record log_entry =
  entry_index :: u64
  entry_term :: u64
  entry_command :: command

datatype log_entry_codec_error =
    InvalidEntry
  | FieldTooLarge
  | InputTooShort
  | InvalidMagic
  | UnsupportedVersion
  | InvalidLength
  | TruncatedRecord
  | ChecksumMismatch
  | InvalidCommand

record decoded_log_entry =
  decoded_entry :: log_entry
  bytes_consumed :: nat

definition lec_magic :: bytes where "lec_magic = [0x44, 0x4B, 0x56, 0x4C]"
definition lec_formatVersion :: u8 where "lec_formatVersion = 1"
definition prefixSize :: nat where "prefixSize = 9"
definition entryMetadataSize :: nat where "entryMetadataSize = 16"
definition lec_checksumSize :: nat where "lec_checksumSize = 4"
definition minimumEncodedCommandSize :: nat where "minimumEncodedCommandSize = 10"
definition maximum_body_size :: nat where "maximum_body_size = 4294967295"

lemmas log_entry_constants [simp] =
  lec_formatVersion_def prefixSize_def entryMetadataSize_def lec_checksumSize_def
  minimumEncodedCommandSize_def maximum_body_size_def

section \<open>Operations\<close>

definition lec_append_u32 :: "u32 \<Rightarrow> bytes" where
  "lec_append_u32 v = masked_shift_loop 24 v"

definition lec_append_u64 :: "u64 \<Rightarrow> bytes" where
  "lec_append_u64 v = masked_shift_loop 56 v"

definition lec_read_u32 :: "bytes \<Rightarrow> nat \<Rightarrow> u32" where
  "lec_read_u32 input offset = read_loop 4 input offset 0"

definition lec_read_u64 :: "bytes \<Rightarrow> nat \<Rightarrow> u64" where
  "lec_read_u64 input offset = read_loop 8 input offset 0"

definition encode_log_entry :: "log_entry \<Rightarrow> log_entry_codec_error + bytes" where
  "encode_log_entry e =
     (if entry_index e = 0 \<or> entry_term e = 0 then Inl InvalidEntry
      else
        (case encode_command (entry_command e) of
           Inl command_error \<Rightarrow>
             if command_error = command_codec_error.FieldTooLarge then Inl FieldTooLarge
             else Inl InvalidCommand
         | Inr command_bytes \<Rightarrow>
             if length command_bytes > maximum_body_size - entryMetadataSize
             then Inl FieldTooLarge
             else
               (let body_size = (of_nat (entryMetadataSize + length command_bytes) :: u32);
                    bs = lec_magic @ [lec_formatVersion] @ lec_append_u32 body_size
                         @ lec_append_u64 (entry_index e) @ lec_append_u64 (entry_term e)
                         @ command_bytes;
                    checksum = crc32 bs
                in Inr (bs @ lec_append_u32 checksum))))"

definition decode_log_entry :: "bytes \<Rightarrow> log_entry_codec_error + decoded_log_entry" where
  "decode_log_entry bs =
     (if length bs < prefixSize then Inl InputTooShort
      else if \<not> list_all (\<lambda>i. bs ! i = lec_magic ! i) [0..<length lec_magic]
      then Inl InvalidMagic
      else if bs ! length lec_magic \<noteq> lec_formatVersion then Inl UnsupportedVersion
      else
        (let body_size = unat (lec_read_u32 bs (length lec_magic + 1));
             minimum_body_size = entryMetadataSize + minimumEncodedCommandSize
         in if body_size < minimum_body_size then Inl InvalidLength
         else
           (let bytes_after_prefix = length bs - prefixSize
            in if body_size > bytes_after_prefix then Inl TruncatedRecord
            else
              (let bytes_after_body = bytes_after_prefix - body_size
               in if bytes_after_body < lec_checksumSize then Inl TruncatedRecord
               else
                 (let checksum_offset = prefixSize + body_size;
                      stored_checksum = lec_read_u32 bs checksum_offset;
                      calculated_checksum = crc32 (take checksum_offset bs)
                  in if stored_checksum \<noteq> calculated_checksum then Inl ChecksumMismatch
                  else
                    (let index = lec_read_u64 bs prefixSize;
                         trm = lec_read_u64 bs (prefixSize + 8)
                     in if index = 0 \<or> trm = 0 then Inl InvalidEntry
                     else
                       (let command_offset = prefixSize + entryMetadataSize;
                            command_size = body_size - entryMetadataSize
                        in (case decode_command (take command_size (drop command_offset bs)) of
                              Inl _ \<Rightarrow> Inl InvalidCommand
                            | Inr command \<Rightarrow>
                                (let record_size = checksum_offset + lec_checksumSize
                                 in Inr \<lparr>decoded_entry = \<lparr>entry_index = index, entry_term = trm,
                                            entry_command = command\<rparr>,
                                          bytes_consumed = record_size\<rparr>)))))))))"

section \<open>Lemmas\<close>

lemmas lec_word_loops [wire_simps] =
  lec_append_u32_def lec_append_u64_def lec_read_u32_def lec_read_u64_def

lemma length_lec_magic [simp, wire_simps]: "length lec_magic = 4"
  by (simp add: lec_magic_def)

lemma magic_check:
  "4 \<le> length bs \<Longrightarrow>
     list_all (\<lambda>i. bs ! i = lec_magic ! i) [0..<4] \<longleftrightarrow> take 4 bs = lec_magic"
proof -
  assume len: "4 \<le> length bs"
  have "take 4 bs = lec_magic \<longleftrightarrow> (\<forall>i<4. bs ! i = lec_magic ! i)"
    using len by (subst list_eq_iff_nth_eq) auto
  then show ?thesis by (auto simp: list_all_iff)
qed

text \<open>The checksummed part of a record, and the record.\<close>

definition entry_body :: "u64 \<Rightarrow> u64 \<Rightarrow> bytes \<Rightarrow> bytes" where
  "entry_body i t cb =
     lec_magic @ [1] @ be_bytes 4 (of_nat (16 + length cb) :: u32) @ be_bytes 8 i @ be_bytes 8 t @ cb"

definition entry_record :: "u64 \<Rightarrow> u64 \<Rightarrow> bytes \<Rightarrow> bytes" where
  "entry_record i t cb = entry_body i t cb @ be_bytes 4 (crc32 (entry_body i t cb))"

lemma length_entry_body: "length (entry_body i t cb) = 25 + length cb"
  by (simp add: entry_body_def)

lemma length_entry_record: "length (entry_record i t cb) = 29 + length cb"
  by (simp add: entry_record_def length_entry_body)

lemma encode_log_entry_Inr:
  "encode_log_entry e = Inr bs \<longleftrightarrow>
     entry_index e \<noteq> 0 \<and> entry_term e \<noteq> 0 \<and>
     (\<exists>cb. encode_command (entry_command e) = Inr cb \<and> length cb \<le> 4294967279
        \<and> bs = entry_record (entry_index e) (entry_term e) cb)"
  by (auto simp: encode_log_entry_def entry_record_def entry_body_def lec_word_loops wire_simps
      Let_def split: sum.splits)

lemma encode_log_entry_length: "encode_log_entry e = Inr bs \<Longrightarrow> 39 \<le> length bs"
  by (auto simp: encode_log_entry_Inr length_entry_record encode_command_Inr length_command_layout)

lemma decode_entry_record:
  assumes enc: "encode_command c = Inr cb" and "length cb \<le> 4294967279" "i \<noteq> 0" "t \<noteq> 0"
  shows "decode_log_entry (entry_record i t cb @ rest) =
    Inr \<lparr>decoded_entry = \<lparr>entry_index = i, entry_term = t, entry_command = c\<rparr>,
         bytes_consumed = 29 + length cb\<rparr>"
proof -
  have len: "10 \<le> length cb" using enc by (auto simp: encode_command_Inr length_command_layout)
  have size: "unat (of_nat (16 + length cb) :: u32) = 16 + length cb"
    using assms by (intro unat_of_nat_32) simp
  have dec: "decode_command cb = Inr c" using enc by (rule command_codec.round_trip)
  have body: "take (25 + length cb) (entry_record i t cb @ rest) = entry_body i t cb"
    "drop (25 + length cb) (entry_record i t cb @ rest) = be_bytes 4 (crc32 (entry_body i t cb)) @ rest"
    by (simp_all add: entry_record_def length_entry_body)
  have parts: "take 4 (entry_record i t cb @ rest) = lec_magic"
      "(entry_record i t cb @ rest) ! 4 = 1"
      "take 4 (drop 5 (entry_record i t cb @ rest)) = be_bytes 4 (of_nat (16 + length cb) :: u32)"
      "take 8 (drop 9 (entry_record i t cb @ rest)) = be_bytes 8 i"
      "take 8 (drop 17 (entry_record i t cb @ rest)) = be_bytes 8 t"
      "take (length cb) (drop 25 (entry_record i t cb @ rest)) = cb"
    by (simp_all add: entry_record_def entry_body_def nth_append)
  show ?thesis
    using len size assms dec body parts
    by (simp add: decode_log_entry_def Let_def magic_check lec_word_loops read_loop_be_read
        length_entry_record del: of_nat_add)
qed

lemma decode_log_entry_sound:
  assumes "decode_log_entry bs = Inr d"
  shows "bytes_consumed d \<le> length bs
    \<and> encode_log_entry (decoded_entry d) = Inr (take (bytes_consumed d) bs)"
proof -
  define n where "n = unat (be_read (take 4 (drop 5 bs)) :: u32)"
  define cb where "cb = take (n - 16) (drop 25 bs)"
  obtain c where dec: "decode_command cb = Inr c"
    and d: "d = \<lparr>decoded_entry = \<lparr>entry_index = be_read (take 8 (drop 9 bs)),
                   entry_term = be_read (take 8 (drop 17 bs)), entry_command = c\<rparr>,
                 bytes_consumed = 13 + n\<rparr>"
    and pre: "take 4 bs = lec_magic" "bs ! 4 = 1" "26 \<le> n" "13 + n \<le> length bs"
      "be_read (take 4 (drop (9 + n) bs)) = crc32 (take (9 + n) bs)"
      "be_read (take 8 (drop 9 bs)) \<noteq> (0 :: u64)" "be_read (take 8 (drop 17 bs)) \<noteq> (0 :: u64)"
    using assms
    by (auto simp: decode_log_entry_def Let_def magic_check lec_word_loops read_loop_be_read
        n_def cb_def not_less split: if_splits sum.splits)
  have cb: "length cb = n - 16" using pre by (simp add: cb_def)
  have n: "n \<le> 4294967295" by (simp add: n_def)
  have "be_bytes 4 (of_nat n :: u32) = take 4 (drop 5 bs)"
      "be_bytes 8 (be_read (take 8 (drop 9 bs)) :: u64) = take 8 (drop 9 bs)"
      "be_bytes 8 (be_read (take 8 (drop 17 bs)) :: u64) = take 8 (drop 17 bs)"
    using pre by (simp_all add: n_def be_bytes_read_32 be_bytes_read_64)
  moreover have crc: "be_bytes 4 (crc32 (take (9 + n) bs)) = take 4 (drop (9 + n) bs)"
    unfolding pre(5) [symmetric] using pre(4) by (intro be_bytes_read_32) simp
  moreover have "take (9 + n) bs = take 4 bs @ bs ! 4 # take 4 (drop 5 bs) @ take 8 (drop 9 bs)
      @ take 8 (drop 17 bs) @ cb" (is "_ = ?hd")
  proof -
    have "bs = take 4 bs @ bs ! 4 # take 4 (drop 5 bs) @ take 8 (drop 9 bs) @ take 8 (drop 17 bs)
        @ cb @ drop (9 + n) bs"
      unfolding cb_def using pre drop_single [of 4 bs] append_take_drop_id [of 4 bs]
      by (simp add: slice_rejoin [of "9 + n" 25 "n - 16"] slice_rejoin [of 25 17 8]
          slice_rejoin [of 17 9 8] slice_rejoin [of 9 5 4] drop_numeral_add [symmetric]
          del: drop_drop)
    then have "take (9 + n) bs = take (9 + n) (?hd @ drop (9 + n) bs)"
      by (simp only: append_assoc append_Cons)
    also have "\<dots> = ?hd"
      by (rule take_prefix) (use pre cb in simp)
    finally show ?thesis .
  qed
  ultimately have "take (9 + n) bs =
      entry_body (be_read (take 8 (drop 9 bs))) (be_read (take 8 (drop 17 bs))) cb"
    using pre cb by (simp add: entry_body_def)
  moreover have "take (13 + n) bs = take (9 + n) bs @ take 4 (drop (9 + n) bs)"
    by (simp add: take_add [symmetric])
  ultimately have "take (13 + n) bs =
      entry_record (be_read (take 8 (drop 9 bs))) (be_read (take 8 (drop 17 bs))) cb"
    by (simp add: entry_record_def crc [symmetric])
  then show ?thesis
    using pre cb n command_codec.canonical [OF dec] d by (simp add: encode_log_entry_Inr)
qed

text \<open>A record cut short anywhere is reported as too short or truncated, never as anything else.\<close>

lemma decode_torn_record:
  assumes enc: "encode_log_entry e = Inr x" and k: "k < length x"
  shows "decode_log_entry (take k x) = Inl (if k < 9 then InputTooShort else TruncatedRecord)"
proof (cases "k < 9")
  case True
  with k show ?thesis by (simp add: decode_log_entry_def min_absorb2)
next
  case False
  obtain i t cb where x: "x = entry_record i t cb" and len: "10 \<le> length cb" "length cb \<le> 4294967279"
    using enc by (auto simp: encode_log_entry_Inr encode_command_Inr length_command_layout)
  have size: "unat (of_nat (16 + length cb) :: u32) = 16 + length cb"
    using len by (intro unat_of_nat_32) simp
  have "take 4 x = lec_magic" "x ! 4 = 1"
      "take 4 (drop 5 x) = be_bytes 4 (of_nat (16 + length cb) :: u32)"
    by (simp_all add: x entry_record_def entry_body_def nth_append)
  then have parts: "take 4 (take k x) = lec_magic" "take k x ! 4 = 1"
      "take 4 (drop 5 (take k x)) = be_bytes 4 (of_nat (16 + length cb) :: u32)"
    using False by (simp_all add: min_absorb1 drop_take)
  have "length (take k x) = k" "k < 29 + length cb"
    using k by (simp_all add: x length_entry_record)
  then show ?thesis
    using False parts size len
    by (simp add: decode_log_entry_def Let_def magic_check lec_word_loops read_loop_be_read
        del: of_nat_add take_take)
qed

interpretation entry_codec: prefix_codec encode_log_entry decode_log_entry decoded_entry bytes_consumed
proof unfold_locales
  show "decode_log_entry bs = Inr r \<Longrightarrow> bytes_consumed r \<le> length bs
      \<and> encode_log_entry (decoded_entry r) = Inr (take (bytes_consumed r) bs)" for bs r
    by (rule decode_log_entry_sound)
  show "encode_log_entry a = Inr x \<Longrightarrow> \<exists>r. decode_log_entry (x @ rest) = Inr r
      \<and> decoded_entry r = a \<and> bytes_consumed r = length x" for a x rest
    by (auto simp: encode_log_entry_Inr decode_entry_record length_entry_record)
  show "encode_log_entry a = Inr x \<Longrightarrow> x \<noteq> []" for a x
    using encode_log_entry_length by fastforce
qed

section \<open>Properties\<close>

text \<open>C26: Decoding one log record at the front of a longer input succeeds exactly when that front is the
  encoding of the entry returned, and the reported length is the length of that encoding. Hence what
  follows a record cannot change how it is read, and only encoder output is accepted.\<close>

theorem log_record_exact:
  "decode_log_entry bs = Inr d \<longleftrightarrow>
     bytes_consumed d \<le> length bs
     \<and> encode_log_entry (decoded_entry d) = Inr (take (bytes_consumed d) bs)"
proof
  assume "bytes_consumed d \<le> length bs
     \<and> encode_log_entry (decoded_entry d) = Inr (take (bytes_consumed d) bs)"
  then show "decode_log_entry bs = Inr d"
    using entry_codec.decode_extend [of "decoded_entry d" "take (bytes_consumed d) bs" "drop (bytes_consumed d) bs"]
    by (cases d) (auto simp: min_absorb2)
qed (rule decode_log_entry_sound)

text \<open>A log record cut short at any byte, as a crash in the middle of an append leaves it, is
  reported as too short or truncated; it is never decoded and never mistaken for corruption.\<close>

theorem torn_record_detected:
  "encode_log_entry e = Inr x \<Longrightarrow> k < length x \<Longrightarrow>
     decode_log_entry (take k x) =
       Inl (if k < 9 then log_entry_codec_error.InputTooShort else log_entry_codec_error.TruncatedRecord)"
  by (rule decode_torn_record)

definition sample_noop :: command where
  "sample_noop = \<lparr>cmd_type = NoOp, cmd_key = [], cmd_value = [], cmd_request_id = None\<rparr>"

definition sample_entry :: log_entry where
  "sample_entry = \<lparr>entry_index = 1, entry_term = 1, entry_command = sample_noop\<rparr>"

lemma sample_entry_encoded:
  "encode_log_entry sample_entry = Inr (entry_record 1 1 (command_layout sample_noop))"
  by (simp add: encode_log_entry_Inr encode_command_Inr sample_entry_def sample_noop_def
      command_shape_ok_def length_command_layout)

theorem torn_record_detected_witness:
  "decode_log_entry (take 20 (entry_record 1 1 (command_layout sample_noop))) =
     Inl log_entry_codec_error.TruncatedRecord"
  using torn_record_detected [OF sample_entry_encoded, of 20]
  by (simp add: length_entry_record length_command_layout sample_noop_def)

end
