(* ===== verification/Persistent_Log.thy ===== *)
theory Persistent_Log
  imports Log_Entry_Codec Os
begin

text \<open>
  The durable log (src/persistent_log.cpp): the entries in memory, where each starts in the
  file, the file's size and the flag that refuses further writes once the file may be torn.

  \<^item> \<open>pl_open\<close>, \<open>append_entry\<close>, \<open>truncate_suffix\<close>, \<open>entry_at\<close>, \<open>last_index\<close>, \<open>last_term\<close>
    are the operations; \<open>load_entries\<close> is the parse loop of \<open>open\<close>.
  \<^item> \<open>log_wf\<close> is the class invariant: entry \<open>i\<close> has index \<open>i\<close>, is encodable and starts where
    the encodings before it end; the file size is their total length.
  \<^item> \<open>log_store\<close> is the interface the Raft code relies on, interpreted as \<open>raft_log\<close>.
  \<^item> \<open>file_model\<close> states the documented effects of the calls on a file, for the theorems that
    compare the file with the entries in memory; \<open>file_answers\<close> states the documented answers
    of the calls that read it. \<open>pl_open_reads\<close>: what \<open>pl_open\<close> returns on known contents.
\<close>

datatype log_open_error = IoError | TruncatedRecord | CorruptRecord | NonSequentialIndex
datatype log_append_result = Appended | UnexpectedIndex | InvalidEntry | IoError
datatype log_truncate_result = Truncated | InvalidIndex | IoError

record stored_entry =
  se_entry :: log_entry
  se_offset :: u64

record persistent_log =
  pl_io_failed :: bool
  pl_fd :: int
  pl_entries :: "stored_entry list"
  pl_file_size :: u64

section \<open>Reading and writing the file\<close>

function pl_read_exact :: "int \<Rightarrow> nat \<Rightarrow> bytes \<Rightarrow> os \<Rightarrow> bool \<times> bytes \<times> os" where
  "pl_read_exact fd count acc w =
     (if length acc < count
      then (case syscall (SysPread fd (count - length acc) (length acc)) w of (r, w') \<Rightarrow>
              if data_of r \<noteq> []
              then pl_read_exact fd count
                     (acc @ take (count - length acc) (data_of r)) w'
              else if r = Fail EINTR then pl_read_exact fd count acc w'
              else (False, acc, w'))
      else (True, acc, w))"
  by pat_completeness auto
termination
  by (relation "measure (\<lambda>(fd, count, acc, w). length (script w))")
    (auto simp: syscall_def split: list.splits)

function pl_write_exact :: "int \<Rightarrow> bytes \<Rightarrow> nat \<Rightarrow> nat \<Rightarrow> os \<Rightarrow> bool \<times> os" where
  "pl_write_exact fd input start_offset total_written w =
     (if total_written < length input
      then (case syscall (SysPwrite fd (drop total_written input) (start_offset + total_written)) w
            of (r, w') \<Rightarrow>
              if ret r > 0
              then pl_write_exact fd input start_offset (total_written + nat (ret r)) w'
              else if r = Fail EINTR then pl_write_exact fd input start_offset total_written w'
              else (False, w'))
      else (True, w))"
  by pat_completeness auto
termination
  by (relation "measure (\<lambda>(fd, input, start, written, w). length (script w))")
    (auto simp: syscall_def split: list.splits)

declare pl_read_exact.simps [simp del] pl_write_exact.simps [simp del]

definition sync_file :: "int \<Rightarrow> os \<Rightarrow> bool \<times> os" where
  "sync_file fd w = retry_until_zero (SysFdatasync fd) w"

definition sync_descriptor :: "int \<Rightarrow> os \<Rightarrow> bool \<times> os" where
  "sync_descriptor fd w = retry_until_zero (SysFsync fd) w"

definition restore_file_size :: "int \<Rightarrow> nat \<Rightarrow> os \<Rightarrow> bool \<times> os" where
  "restore_file_size fd sz w =
     (case retry_while_failed (SysFtruncate fd sz) w of (ok, w) \<Rightarrow>
        if \<not> ok then (False, w) else sync_file fd w)"

section \<open>Operations\<close>

definition last_index :: "persistent_log \<Rightarrow> u64" where
  "last_index l = of_nat (length (pl_entries l))"

definition last_term :: "persistent_log \<Rightarrow> u64" where
  "last_term l = (if pl_entries l = [] then 0 else entry_term (se_entry (last (pl_entries l))))"

definition entry_at :: "u64 \<Rightarrow> persistent_log \<Rightarrow> log_entry option" where
  "entry_at index l =
     (let latest_index = last_index l
      in if index = 0 \<or> index > latest_index then None
         else Some (se_entry (pl_entries l ! unat (index - 1))))"

function load_entries :: "bytes \<Rightarrow> nat \<Rightarrow> stored_entry list \<Rightarrow> log_open_error + stored_entry list" where
  "load_entries file offset entries =
     (if offset < length file
      then
        (let remaining = drop offset file
         in case decode_log_entry remaining of
              Inl codec_error \<Rightarrow>
                if codec_error = log_entry_codec_error.InputTooShort
                   \<or> codec_error = log_entry_codec_error.TruncatedRecord
                then Inl TruncatedRecord else Inl CorruptRecord
            | Inr decoded \<Rightarrow>
                if bytes_consumed decoded = 0 \<or> bytes_consumed decoded > length remaining
                then Inl CorruptRecord
                else if entry_index (decoded_entry decoded) \<noteq> of_nat (length entries) + 1
                then Inl NonSequentialIndex
                else load_entries file (offset + bytes_consumed decoded)
                       (entries @ [\<lparr>se_entry = decoded_entry decoded, se_offset = of_nat offset\<rparr>]))
      else Inr entries)"
  by pat_completeness auto
termination
  by (relation "measure (\<lambda>(file, offset, entries). length file - offset)") auto

declare load_entries.simps [simp del]

definition pl_open :: "bytes \<Rightarrow> os \<Rightarrow> (log_open_error + persistent_log) \<times> os" where
  "pl_open path w =
     (case syscall (SysOpenLog path) w of (f, w) \<Rightarrow>
      if ret f = -1 then (Inl log_open_error.IoError, w)
      else
        (let fd = ret f; leave = close_fd fd
         in case syscall (SysFstat fd) w of (st, w) \<Rightarrow>
            (case st of
               Stat st_size regular \<Rightarrow>
                 if sint st_size < 0 then (Inl log_open_error.IoError, leave w)
                 else
                   (case syscall (SysOpenDir (parent_of path)) w of (d, w) \<Rightarrow>
                    if ret d = -1 then (Inl log_open_error.IoError, leave w)
                    else
                      (case (case sync_descriptor fd w of (s1, w) \<Rightarrow>
                             if \<not> s1 then (False, w) else sync_descriptor (ret d) w) of (synced, w) \<Rightarrow>
                       case syscall (SysClose (ret d)) w of (close_result, w) \<Rightarrow>
                       if \<not> synced \<or> ret close_result = -1
                       then (Inl log_open_error.IoError, leave w)
                       else if st_size = 0
                       then (Inr \<lparr>pl_io_failed = False, pl_fd = fd, pl_entries = [],
                                  pl_file_size = st_size\<rparr>, w)
                       else
                         (case pl_read_exact fd (unat st_size) [] w of (ok, file_bytes, w) \<Rightarrow>
                          if \<not> ok then (Inl log_open_error.IoError, leave w)
                          else
                            (case load_entries file_bytes 0 [] of
                               Inl e \<Rightarrow> (Inl e, leave w)
                             | Inr entries \<Rightarrow>
                                 (Inr \<lparr>pl_io_failed = False, pl_fd = fd, pl_entries = entries,
                                       pl_file_size = st_size\<rparr>, w)))))
             | _ \<Rightarrow> (Inl log_open_error.IoError, leave w))))"

text \<open>\<open>std::numeric_limits<off_t>::max()\<close>\<close>

definition off_max :: u64 where
  "off_max = 0x7FFFFFFFFFFFFFFF"

definition append_entry ::
  "log_entry \<Rightarrow> persistent_log \<Rightarrow> os \<Rightarrow> log_append_result \<times> persistent_log \<times> os" where
  "append_entry entry l w =
     (if pl_io_failed l then (log_append_result.IoError, l, w)
      else if entry_index entry \<noteq> last_index l + 1 then (UnexpectedIndex, l, w)
      else
        (case encode_log_entry entry of
           Inl _ \<Rightarrow> (InvalidEntry, l, w)
         | Inr bs \<Rightarrow>
             (let start_offset = pl_file_size l; max_size = off_max
              in if start_offset > max_size \<or> of_nat (length bs) > max_size - start_offset
                 then (log_append_result.IoError, l, w)
                 else
                   (case pl_write_exact (pl_fd l) bs (unat start_offset) 0 w of (wrote, w) \<Rightarrow>
                    if \<not> wrote then
                      (case restore_file_size (pl_fd l) (unat start_offset) w of (restored, w) \<Rightarrow>
                         (log_append_result.IoError,
                          (if \<not> restored then l\<lparr>pl_io_failed := True\<rparr> else l), w))
                    else
                      (case sync_file (pl_fd l) w of (synced, w) \<Rightarrow>
                       if \<not> synced then
                         (case restore_file_size (pl_fd l) (unat start_offset) w of (restored, w) \<Rightarrow>
                            (log_append_result.IoError,
                             (if \<not> restored then l\<lparr>pl_io_failed := True\<rparr> else l), w))
                       else
                         (Appended,
                          l\<lparr>pl_entries := pl_entries l @ [\<lparr>se_entry = entry, se_offset = start_offset\<rparr>],
                            pl_file_size := pl_file_size l + of_nat (length bs)\<rparr>, w))))))"

definition truncate_suffix ::
  "u64 \<Rightarrow> persistent_log \<Rightarrow> os \<Rightarrow> log_truncate_result \<times> persistent_log \<times> os" where
  "truncate_suffix first_index_to_remove l w =
     (if pl_io_failed l then (log_truncate_result.IoError, l, w)
      else
        (let next_index = last_index l + 1
         in if first_index_to_remove = 0 \<or> first_index_to_remove > next_index
            then (InvalidIndex, l, w)
            else if first_index_to_remove = next_index then (Truncated, l, w)
            else
              (let new_file_size = se_offset (pl_entries l ! unat (first_index_to_remove - 1))
               in case retry_while_failed (SysFtruncate (pl_fd l) (unat new_file_size)) w of (ok, w) \<Rightarrow>
                  if \<not> ok then (log_truncate_result.IoError, l\<lparr>pl_io_failed := True\<rparr>, w)
                  else
                    (case sync_file (pl_fd l) w of (synced, w) \<Rightarrow>
                     if \<not> synced then (log_truncate_result.IoError, l\<lparr>pl_io_failed := True\<rparr>, w)
                     else (Truncated,
                           l\<lparr>pl_entries := take (unat (first_index_to_remove - 1)) (pl_entries l),
                             pl_file_size := new_file_size\<rparr>, w)))))"

section \<open>The class invariant\<close>

definition log_entries :: "persistent_log \<Rightarrow> log_entry list" where
  "log_entries l = map se_entry (pl_entries l)"

definition entry_bytes :: "log_entry \<Rightarrow> bytes" where
  "entry_bytes e = projr (encode_log_entry e)"

definition log_image :: "log_entry list \<Rightarrow> bytes" where
  "log_image es = concat (map entry_bytes es)"

definition encodable :: "log_entry \<Rightarrow> bool" where
  "encodable e \<longleftrightarrow> \<not> isl (encode_log_entry e)"

text \<open>Entry number \<open>i\<close> (from 1) carries index \<open>i\<close> and has an encoding.\<close>

definition sequential :: "log_entry list \<Rightarrow> bool" where
  "sequential es \<longleftrightarrow>
     (\<forall>i < length es. entry_index (es ! i) = of_nat (Suc i) \<and> encodable (es ! i))"

definition log_wf :: "persistent_log \<Rightarrow> bool" where
  "log_wf l \<longleftrightarrow>
     sequential (log_entries l)
     \<and> (\<forall>i < length (pl_entries l). unat (se_offset (pl_entries l ! i))
          = length (log_image (take i (log_entries l))))
     \<and> unat (pl_file_size l) = length (log_image (log_entries l))
     \<and> pl_file_size l \<le> off_max"

lemma length_log_entries [simp]: "length (log_entries l) = length (pl_entries l)"
  by (simp add: log_entries_def)

lemma log_image_Nil [simp]: "log_image [] = []"
  by (simp add: log_image_def)

lemma log_image_append [simp]: "log_image (xs @ ys) = log_image xs @ log_image ys"
  by (simp add: log_image_def)

lemma encodable_bytes: "encodable e \<Longrightarrow> encode_log_entry e = Inr (entry_bytes e)"
  by (cases "encode_log_entry e") (auto simp: encodable_def entry_bytes_def)

lemma encode_entry_bytes: "encode_log_entry e = Inr bs \<Longrightarrow> entry_bytes e = bs \<and> encodable e"
  by (simp add: encodable_def entry_bytes_def)

lemma sequential_snoc:
  "sequential (es @ [e]) \<longleftrightarrow> sequential es \<and> entry_index e = of_nat (Suc (length es)) \<and> encodable e"
  by (auto simp: sequential_def nth_append less_Suc_eq)

lemma sequential_take: "sequential es \<Longrightarrow> sequential (take n es)"
  by (auto simp: sequential_def)

lemma sequential_image_length: "sequential es \<Longrightarrow> 39 * length es \<le> length (log_image es)"
proof (induction es rule: rev_induct)
  case Nil
  then show ?case by simp
next
  case (snoc e es)
  then have "39 \<le> length (entry_bytes e)"
    by (auto simp: sequential_snoc dest!: encodable_bytes encode_log_entry_length)
  with snoc show ?case by (simp add: sequential_snoc log_image_def)
qed

lemma off_max_unat [simp]: "unat off_max = 9223372036854775807"
  by (simp add: off_max_def)

lemma log_wf_length: "log_wf l \<Longrightarrow> 39 * length (pl_entries l) \<le> 9223372036854775807"
  using sequential_image_length [of "log_entries l"]
  by (auto simp: log_wf_def word_le_nat_alt)

lemma log_wf_last_index: "log_wf l \<Longrightarrow> unat (last_index l) = length (pl_entries l)"
  using log_wf_length [of l] by (simp add: last_index_def unat_of_nat_64)

lemma entry_at_Some:
  "log_wf l \<Longrightarrow> entry_at i l = Some e \<longleftrightarrow>
     0 < unat i \<and> unat i \<le> length (pl_entries l) \<and> log_entries l ! (unat i - 1) = e"
  using log_wf_last_index [of l]
  by (auto simp: entry_at_def Let_def word_less_nat_alt word_le_nat_alt not_less unat_minus_one
      log_entries_def unat_gt_0)

lemma entry_at_None:
  "log_wf l \<Longrightarrow> entry_at i l = None \<longleftrightarrow> unat i = 0 \<or> length (pl_entries l) < unat i"
  using log_wf_last_index [of l]
  by (auto simp: entry_at_def Let_def word_less_nat_alt unat_eq_0)

lemma entry_at_eq:
  "log_wf l \<Longrightarrow> entry_at i l =
     (if 0 < unat i \<and> unat i \<le> length (log_entries l) then Some (log_entries l ! (unat i - 1)) else None)"
  using entry_at_Some [of l i] entry_at_None [of l i] by (cases "entry_at i l") auto

lemma last_term_eq:
  "last_term l = (if log_entries l = [] then 0 else entry_term (last (log_entries l)))"
  by (simp add: last_term_def log_entries_def last_map)

lemma next_index_nat: "log_wf l \<Longrightarrow> unat (last_index l + 1) = Suc (length (pl_entries l))"
proof -
  assume wf: "log_wf l"
  have "last_index l + 1 = of_nat (Suc (length (pl_entries l)))" by (simp add: last_index_def)
  moreover have "Suc (length (pl_entries l)) \<le> 18446744073709551615"
    using log_wf_length [OF wf] by linarith
  ultimately show ?thesis by (simp only: unat_word_of_nat_64)
qed

section \<open>Outcomes of the operations\<close>

lemma append_entry_outcome:
  assumes "append_entry e l w = (res, l', w')"
  shows "(res = Appended \<and> \<not> pl_io_failed l \<and> entry_index e = last_index l + 1
       \<and> (\<exists>bs. encode_log_entry e = Inr bs
            \<and> pl_file_size l \<le> off_max \<and> of_nat (length bs) \<le> off_max - pl_file_size l
            \<and> l' = l\<lparr>pl_entries := pl_entries l @ [\<lparr>se_entry = e, se_offset = pl_file_size l\<rparr>],
                     pl_file_size := pl_file_size l + of_nat (length bs)\<rparr>))
     \<or> (res \<noteq> Appended \<and> (l' = l \<or> res = log_append_result.IoError \<and> l' = l\<lparr>pl_io_failed := True\<rparr>))"
  using assms
  by (auto simp: append_entry_def Let_def not_less split: if_splits sum.splits prod.splits)

lemma append_entry_wf:
  assumes wf: "log_wf l" and ap: "append_entry e l w = (res, l', w')"
  shows "log_wf l'"
proof -
  consider (ok) bs where "encode_log_entry e = Inr bs" "entry_index e = last_index l + 1"
      "pl_file_size l \<le> off_max" "of_nat (length bs) \<le> off_max - pl_file_size l"
      "l' = l\<lparr>pl_entries := pl_entries l @ [\<lparr>se_entry = e, se_offset = pl_file_size l\<rparr>],
             pl_file_size := pl_file_size l + of_nat (length bs)\<rparr>"
    | (failed) "l' = l \<or> l' = l\<lparr>pl_io_failed := True\<rparr>"
    using append_entry_outcome [OF ap] by blast
  then show ?thesis
  proof cases
    case ok
    have small: "length bs < 2 ^ 64"
      using ok(1) by (auto simp: encode_log_entry_Inr length_entry_record)
    have fits: "length bs \<le> 9223372036854775807 - unat (pl_file_size l)"
      using ok(3,4) small unat_sub [of "pl_file_size l" off_max]
      by (simp add: word_le_nat_alt unat_of_nat_64 del: of_nat_le_iff)
    have le: "unat (pl_file_size l) \<le> 9223372036854775807"
      using ok(3) by (simp add: word_le_nat_alt)
    have grown: "unat (pl_file_size l + of_nat (length bs)) = unat (pl_file_size l) + length bs"
      using fits le small by (simp add: unat_word_ariths unat_of_nat_64)
    have es: "log_entries l' = log_entries l @ [e]"
      and pe: "pl_entries l' = pl_entries l @ [\<lparr>se_entry = e, se_offset = pl_file_size l\<rparr>]"
      and fs: "pl_file_size l' = pl_file_size l + of_nat (length bs)"
      using ok(5) by (simp_all add: log_entries_def)
    have "sequential (log_entries l')"
      using wf ok(2) encode_entry_bytes [OF ok(1)]
      by (simp add: es sequential_snoc log_wf_def last_index_def)
    moreover have "unat (pl_file_size l') = length (log_image (log_entries l'))"
      using wf grown encode_entry_bytes [OF ok(1)]
      by (simp add: es fs log_wf_def) (simp add: log_image_def)
    moreover have "unat (se_offset (pl_entries l' ! i)) = length (log_image (take i (log_entries l')))"
      if "i < length (pl_entries l')" for i
      using that wf by (auto simp: es pe log_wf_def nth_append less_Suc_eq)
    moreover have "pl_file_size l' \<le> off_max"
      using grown fits le by (simp add: fs word_le_nat_alt)
    ultimately show ?thesis by (simp add: log_wf_def)
  next
    case failed
    then show ?thesis using wf by (auto simp: log_wf_def log_entries_def)
  qed
qed

lemma append_entry_entries:
  "append_entry e l w = (res, l', w') \<Longrightarrow>
     log_entries l' = (if res = Appended then log_entries l @ [e] else log_entries l)"
  using append_entry_outcome [of e l w res l' w'] by (auto simp: log_entries_def)

lemma truncate_suffix_outcome:
  assumes "truncate_suffix i l w = (res, l', w')"
  shows "(res = Truncated \<and> \<not> pl_io_failed l \<and> i \<noteq> 0 \<and> i \<le> last_index l + 1
       \<and> (i = last_index l + 1 \<and> l' = l \<and> w' = w
          \<or> i < last_index l + 1 \<and>
            l' = l\<lparr>pl_entries := take (unat (i - 1)) (pl_entries l),
                   pl_file_size := se_offset (pl_entries l ! unat (i - 1))\<rparr>))
     \<or> (res \<noteq> Truncated \<and> (l' = l \<or> res = log_truncate_result.IoError \<and> l' = l\<lparr>pl_io_failed := True\<rparr>))"
  using assms
  by (auto simp: truncate_suffix_def Let_def not_less split: if_splits prod.splits)

lemma truncate_suffix_entries:
  assumes wf: "log_wf l" and tr: "truncate_suffix i l w = (res, l', w')"
  shows "if res = Truncated
    then 0 < unat i \<and> unat i \<le> Suc (length (pl_entries l))
         \<and> log_entries l' = take (unat i - 1) (log_entries l)
    else log_entries l' = log_entries l"
  using truncate_suffix_outcome [OF tr] next_index_nat [OF wf]
  by (auto simp: log_entries_def take_map word_le_nat_alt word_less_nat_alt unat_gt_0 unat_minus_one)

lemma truncate_suffix_wf:
  assumes wf: "log_wf l" and tr: "truncate_suffix i l w = (res, l', w')"
  shows "log_wf l'"
proof -
  consider (cut) "i \<noteq> 0" "i < last_index l + 1"
      "l' = l\<lparr>pl_entries := take (unat (i - 1)) (pl_entries l),
             pl_file_size := se_offset (pl_entries l ! unat (i - 1))\<rparr>"
    | (same) "l' = l \<or> l' = l\<lparr>pl_io_failed := True\<rparr>"
    using truncate_suffix_outcome [OF tr] by blast
  then show ?thesis
  proof cases
    case cut
    have n: "unat (i - 1) < length (pl_entries l)"
      using cut(1,2) next_index_nat [OF wf] by (simp add: word_less_nat_alt unat_minus_one unat_gt_0)
    have es: "log_entries l' = take (unat (i - 1)) (log_entries l)"
      and pe: "pl_entries l' = take (unat (i - 1)) (pl_entries l)"
      and fs: "pl_file_size l' = se_offset (pl_entries l ! unat (i - 1))"
      using cut(3) by (simp_all add: log_entries_def take_map)
    have fsize: "unat (pl_file_size l') = length (log_image (log_entries l'))"
      using wf n by (simp add: es fs log_wf_def)
    moreover have "length (log_image (log_entries l')) \<le> length (log_image (log_entries l))"
      unfolding es by (metis append_take_drop_id le_add1 length_append log_image_append)
    ultimately have "pl_file_size l' \<le> off_max"
      using wf by (simp add: log_wf_def word_le_nat_alt)
    moreover have "unat (se_offset (pl_entries l' ! j)) = length (log_image (take j (log_entries l')))"
      if "j < length (pl_entries l')" for j
      using that n wf by (simp add: es pe log_wf_def min_absorb1)
    ultimately show ?thesis
      using fsize wf by (simp add: log_wf_def es sequential_take)
  next
    case same
    then show ?thesis using wf by (auto simp: log_wf_def log_entries_def)
  qed
qed

section \<open>Parsing the file\<close>

text \<open>\<open>loaded file off es\<close>: the entries parsed so far are those of the first \<open>off\<close> bytes.\<close>

definition loaded :: "bytes \<Rightarrow> nat \<Rightarrow> stored_entry list \<Rightarrow> bool" where
  "loaded file off es \<longleftrightarrow>
     off \<le> length file \<and> sequential (map se_entry es) \<and> log_image (map se_entry es) = take off file
     \<and> (\<forall>i < length es. unat (se_offset (es ! i)) = length (log_image (take i (map se_entry es))))"

lemma loaded_snoc:
  assumes "loaded file off es" and "length file < 2 ^ 63"
    and "decode_log_entry (drop off file) = Inr d"
    and "entry_index (decoded_entry d) = of_nat (length es) + 1"
  shows "loaded file (off + bytes_consumed d)
           (es @ [\<lparr>se_entry = decoded_entry d, se_offset = of_nat off\<rparr>])"
proof -
  have d: "bytes_consumed d \<le> length file - off"
      "encode_log_entry (decoded_entry d) = Inr (take (bytes_consumed d) (drop off file))"
    using decode_log_entry_sound [OF assms(3)] by simp_all
  have "unat (word_of_nat off :: u64) = off"
    using assms(1,2) by (intro unat_of_nat_64) (simp add: loaded_def)
  then show ?thesis
    using assms(1,4) d encode_entry_bytes [OF d(2)]
    by (auto simp: loaded_def sequential_snoc nth_append less_Suc_eq take_add log_image_def)
qed

lemma load_entries_sound:
  "loaded bs k es \<Longrightarrow> length bs < 2 ^ 63 \<Longrightarrow> load_entries bs k es = Inr es'
     \<Longrightarrow> loaded bs (length bs) es'"
proof (induction bs k es arbitrary: es' rule: load_entries.induct)
  case (1 bs k es)
  show ?case
  proof (cases "k < length bs")
    case False
    with "1.prems" have "es' = es" "k = length bs"
      by (simp_all add: load_entries.simps [of bs k es] load_entries.simps [of bs "length bs" es] loaded_def)
    with "1.prems"(1) show ?thesis by simp
  next
    case True
    with "1.prems" obtain d where d: "decode_log_entry (drop k bs) = Inr d"
        "\<not> (bytes_consumed d = 0 \<or> bytes_consumed d > length (drop k bs))"
        "entry_index (decoded_entry d) = of_nat (length es) + 1"
      and rec: "load_entries bs (k + bytes_consumed d)
          (es @ [\<lparr>se_entry = decoded_entry d, se_offset = of_nat k\<rparr>]) = Inr es'"
      by (auto simp: load_entries.simps [of bs k es] Let_def split: sum.splits if_splits)
    have "loaded bs (k + bytes_consumed d)
        (es @ [\<lparr>se_entry = decoded_entry d, se_offset = of_nat k\<rparr>])"
      by (rule loaded_snoc [OF "1.prems"(1,2) d(1,3)])
    then show ?thesis
      using "1.IH" [OF True refl d(1,2)] d(3) "1.prems"(2) rec by simp
  qed
qed

text \<open>One step of the loop on a file that continues with an encoded entry.\<close>

lemma load_entries_step:
  assumes "encodable e" and "entry_index e = of_nat (Suc (length es))"
  shows "load_entries (pre @ entry_bytes e @ rest) (length pre) es =
    load_entries (pre @ entry_bytes e @ rest) (length pre + length (entry_bytes e))
      (es @ [\<lparr>se_entry = e, se_offset = of_nat (length pre)\<rparr>])"
proof -
  obtain d where d: "decode_log_entry (entry_bytes e @ rest) = Inr d" "decoded_entry d = e"
      "bytes_consumed d = length (entry_bytes e)"
    using entry_codec.decode_at_front [OF encodable_bytes [OF assms(1)]] by blast
  have "39 \<le> length (entry_bytes e)"
    using encode_log_entry_length [OF encodable_bytes [OF assms(1)]] .
  then have "entry_bytes e \<noteq> []" by auto
  then show ?thesis
    using d assms(2)
    by (subst load_entries.simps) (simp add: Let_def)
qed

lemma load_entries_image_from:
  "sequential (map se_entry st @ ys) \<Longrightarrow>
     \<exists>st'. load_entries (pre @ log_image ys @ rest) (length pre) st
             = load_entries (pre @ log_image ys @ rest) (length pre + length (log_image ys)) st'
         \<and> map se_entry st' = map se_entry st @ ys"
proof (induction ys arbitrary: pre st)
  case Nil
  then show ?case by auto
next
  case (Cons y ys)
  have "sequential (map se_entry st @ [y])"
    using sequential_take [OF Cons.prems, of "Suc (length st)"] by simp
  then have y: "encodable y" "entry_index y = of_nat (Suc (length st))"
    by (simp_all add: sequential_snoc)
  let ?st = "st @ [\<lparr>se_entry = y, se_offset = of_nat (length pre)\<rparr>]"
  have img: "log_image (y # ys) = entry_bytes y @ log_image ys" by (simp add: log_image_def)
  obtain st' where
      "load_entries ((pre @ entry_bytes y) @ log_image ys @ rest) (length (pre @ entry_bytes y)) ?st
        = load_entries ((pre @ entry_bytes y) @ log_image ys @ rest)
            (length (pre @ entry_bytes y) + length (log_image ys)) st'"
      "map se_entry st' = map se_entry ?st @ ys"
    using Cons.IH [of ?st "pre @ entry_bytes y"] Cons.prems by auto
  then show ?case
    using load_entries_step [OF y, of pre "log_image ys @ rest"]
    by (intro exI [of _ st']) (simp add: img add.assoc)
qed

lemma load_entries_image:
  assumes "sequential es"
  shows "\<exists>st. load_entries (log_image es) 0 [] = Inr st \<and> map se_entry st = es"
proof -
  obtain st where "load_entries (log_image es) 0 [] = load_entries (log_image es) (length (log_image es)) st"
      "map se_entry st = es"
    using load_entries_image_from [of "[]" es "[]" "[]"] assms by auto
  then show ?thesis by (simp add: load_entries.simps)
qed

text \<open>A file that ends in a proper part of an appended record is reported as truncated.\<close>

lemma load_entries_torn:
  assumes "sequential es" and "encodable e" and "0 < k" and "k < length (entry_bytes e)"
  shows "load_entries (log_image es @ take k (entry_bytes e)) 0 [] = Inl TruncatedRecord"
proof -
  let ?file = "log_image es @ take k (entry_bytes e)"
  obtain st where "load_entries ?file 0 [] = load_entries ?file (length (log_image es)) st"
    using load_entries_image_from [of "[]" es "[]" "take k (entry_bytes e)"] assms(1) by auto
  moreover have "decode_log_entry (take k (entry_bytes e)) =
      Inl (if k < 9 then log_entry_codec_error.InputTooShort
           else log_entry_codec_error.TruncatedRecord)"
    by (rule decode_torn_record [OF encodable_bytes [OF assms(2)] assms(4)])
  ultimately show ?thesis
    using assms by (simp add: load_entries.simps [of ?file "length (log_image es)"])
qed

lemma pl_read_exact_length:
  "pl_read_exact fd n acc w = (True, bs, w') \<Longrightarrow> length acc \<le> n \<Longrightarrow> length bs = n"
proof (induction fd n acc w arbitrary: bs w' rule: pl_read_exact.induct)
  case (1 fd n acc w)
  show ?case
  proof (cases "length acc < n")
    case False
    with "1.prems" show ?thesis by (simp add: pl_read_exact.simps [of fd n acc w])
  next
    case True
    obtain r v where s: "syscall (SysPread fd (n - length acc) (length acc)) w = (r, v)" by fastforce
    consider (data) "data_of r \<noteq> []" | (again) "data_of r = []" "r = Fail EINTR"
      | (stop) "data_of r = []" "r \<noteq> Fail EINTR" by blast
    then show ?thesis
    proof cases
      case data
      have "pl_read_exact fd n (acc @ take (n - length acc) (data_of r)) v = (True, bs, w')"
        using "1.prems"(1) True s data by (simp add: pl_read_exact.simps [of fd n acc w])
      then show ?thesis
        using "1.IH"(1) [OF True s [symmetric], of bs w'] data True by simp
    next
      case again
      then have "pl_read_exact fd n acc v = (True, bs, w')"
        using "1.prems"(1) True s by (simp add: pl_read_exact.simps [of fd n acc w])
      then show ?thesis
        using "1.IH"(2) [OF True s [symmetric], of bs w'] again True by simp
    next
      case stop
      then show ?thesis
        using "1.prems"(1) True s by (simp add: pl_read_exact.simps [of fd n acc w])
    qed
  qed
qed

lemma pl_open_wf:
  assumes "pl_open path w = (Inr l, w')"
  shows "log_wf l \<and> \<not> pl_io_failed l"
proof -
  consider (empty) "\<not> pl_io_failed l" "pl_entries l = []" "pl_file_size l = 0"
    | (read) sz bs fd v v' where "\<not> pl_io_failed l" "pl_file_size l = sz" "0 \<le> sint sz"
        "pl_read_exact fd (unat sz) [] v = (True, bs, v')"
        "load_entries bs 0 [] = Inr (pl_entries l)"
    using assms
    by (auto simp: pl_open_def Let_def not_less split: prod.splits if_splits sysres.splits sum.splits)
  then show ?thesis
  proof cases
    case empty
    then show ?thesis by (simp add: log_wf_def sequential_def log_entries_def)
  next
    case read
    have len: "length bs = unat sz" by (rule pl_read_exact_length [OF read(4)]) simp
    have small: "unat sz < 2 ^ 63"
    proof -
      have lt: "sint sz < 2 ^ 63" using sint_lt [of sz] by simp
      then have "uint sz = sint sz"
        using read(3) uint_sint [of sz] by (simp add: take_bit_int_eq_self)
      with lt have "uint sz < 2 ^ 63" by simp
      then show ?thesis by (simp add: unat_eq_nat_uint nat_less_iff del: nat_uint_eq)
    qed
    have "loaded bs (length bs) (pl_entries l)"
      by (rule load_entries_sound [of bs 0 "[]"]) (use read len small in \<open>auto simp: loaded_def sequential_def\<close>)
    then show ?thesis
      using read len small by (simp add: loaded_def log_wf_def log_entries_def word_le_nat_alt)
  qed
qed

section \<open>The file behind the log\<close>

text \<open>
  \<open>file_model fd contents\<close>: \<open>contents\<close> gives the file open on \<open>fd\<close> after a trace, with the
  documented effects: a successful \<open>pwrite\<close> stores the bytes it accepted at its offset, a
  successful \<open>ftruncate\<close> cuts or zero-fills, a failed call and the sync calls change nothing.
\<close>

definition store_at :: "nat \<Rightarrow> bytes \<Rightarrow> bytes \<Rightarrow> bytes" where
  "store_at off new old =
     take off old @ replicate (off - length old) 0 @ new @ drop (off + length new) old"

definition file_model :: "int \<Rightarrow> ((syscall \<times> sysres) list \<Rightarrow> bytes) \<Rightarrow> bool" where
  "file_model fd contents \<longleftrightarrow>
     (\<forall>tr bs off r. contents (tr @ [(SysPwrite fd bs off, r)]) =
        (if ret r > 0 then store_at off (take (nat (ret r)) bs) (contents tr) else contents tr))
   \<and> (\<forall>tr n r. contents (tr @ [(SysFtruncate fd n, r)]) =
        (if ret r \<noteq> -1 then take n (contents tr @ replicate n 0) else contents tr))
   \<and> (\<forall>tr r. contents (tr @ [(SysFdatasync fd, r)]) = contents tr)"

lemma file_model_syscall:
  "file_model fd contents \<Longrightarrow> syscall c w = (r, w') \<Longrightarrow>
     contents (trace w') = contents (trace w @ [(c, r)])"
  using syscall_trace [of c w] by simp

lemma file_retry_sync:
  assumes "file_model fd contents"
  shows "retry_until_zero c w = (ok, w') \<Longrightarrow> c = SysFdatasync fd \<Longrightarrow>
    contents (trace w') = contents (trace w)"
proof (induction c w arbitrary: ok w' rule: retry_until_zero.induct)
  case (1 c w)
  obtain r v where s: "syscall c w = (r, v)" by fastforce
  have v: "contents (trace v) = contents (trace w)"
    using file_model_syscall [OF assms s] assms "1.prems"(2) by (simp add: file_model_def)
  have un: "(if ret r = 0 then (True, v) else if r \<noteq> Fail EINTR then (False, v)
      else retry_until_zero c v) = (ok, w')"
    using "1.prems"(1) s by (simp add: retry_until_zero.simps [of c w])
  show ?case
    using un "1.prems"(2) v "1.IH" [OF s [symmetric], of ok w'] by (auto split: if_splits)
qed

lemma file_sync:
  "file_model fd contents \<Longrightarrow> sync_file fd w = (ok, w') \<Longrightarrow> contents (trace w') = contents (trace w)"
  unfolding sync_file_def by (rule file_retry_sync) simp_all

lemma file_truncate:
  assumes "file_model fd contents"
  shows "retry_while_failed c w = (ok, w') \<Longrightarrow> c = SysFtruncate fd n \<Longrightarrow>
    n \<le> length (contents (trace w)) \<Longrightarrow>
    contents (trace w') = (if ok then take n (contents (trace w)) else contents (trace w))"
proof (induction c w arbitrary: ok w' rule: retry_while_failed.induct)
  case (1 c w)
  obtain r v where s: "syscall c w = (r, v)" by fastforce
  have v: "contents (trace v) =
      (if ret r \<noteq> -1 then take n (contents (trace w)) else contents (trace w))"
    using file_model_syscall [OF assms(1) s] assms(1) "1.prems"(2,3) by (simp add: file_model_def)
  have un: "(if ret r \<noteq> -1 then (True, v) else if r \<noteq> Fail EINTR then (False, v)
      else retry_while_failed c v) = (ok, w')"
    using "1.prems"(1) s by (simp add: retry_while_failed.simps [of c w])
  show ?case
    using un "1.prems"(2,3) v "1.IH" [OF s [symmetric], of ok w'] by (auto split: if_splits)
qed

lemma file_write:
  assumes "file_model fd contents"
  shows "pl_write_exact fd input (length img) k w = (ok, w') \<Longrightarrow>
    contents (trace w) = img @ take k input \<Longrightarrow> k \<le> length input \<Longrightarrow>
    \<exists>j \<le> length input. contents (trace w') = img @ take j input \<and> (ok \<longrightarrow> j = length input)"
proof (induction k arbitrary: w rule: measure_induct_rule [where f = "\<lambda>k. length input - k"])
  case outer: (less k)
  show ?case
    using outer.prems
  proof (induction "length (script w)" arbitrary: w rule: less_induct)
    case less
    show ?case
    proof (cases "k < length input")
      case False
      with less.prems show ?thesis
        by (auto simp: pl_write_exact.simps [of fd input "length img" k w])
    next
      case True
      obtain r v where s: "syscall (SysPwrite fd (drop k input) (length img + k)) w = (r, v)"
        by fastforce
      let ?m = "min (nat (ret r)) (length input - k)"
      have v: "contents (trace v) =
          (if ret r > 0 then img @ take (k + ?m) input else contents (trace w))"
        using file_model_syscall [OF assms s] assms less.prems(2,3)
        by (simp add: file_model_def store_at_def take_add min_def)
      consider (more) "ret r > 0" | (again) "\<not> ret r > 0" "r = Fail EINTR"
        | (stop) "\<not> ret r > 0" "r \<noteq> Fail EINTR" by blast
      then show ?thesis
      proof cases
        case more
        have rec: "pl_write_exact fd input (length img) (k + nat (ret r)) v = (ok, w')"
          using less.prems(1) True s more by (simp add: pl_write_exact.simps [of fd input "length img" k w])
        show ?thesis
        proof (cases "k + nat (ret r) \<le> length input")
          case True
          then show ?thesis
            using outer.IH [OF _ rec] more v \<open>k < length input\<close> by (simp add: min_def split: if_splits)
        next
          case False
          then have "ok" "w' = v"
            using rec by (simp_all add: pl_write_exact.simps [of fd input "length img" "k + nat (ret r)" v])
          then show ?thesis using v more False \<open>k < length input\<close> by (auto simp: min_def)
        qed
      next
        case again
        have rec: "pl_write_exact fd input (length img) k v = (ok, w')"
          using less.prems(1) True s again by (simp add: pl_write_exact.simps [of fd input "length img" k w])
        have "length (script v) < length (script w)"
          using syscall_shorter [OF s] again by simp
        then show ?thesis using less.hyps rec v again less.prems(2,3) by simp
      next
        case stop
        then have "w' = v" "\<not> ok"
          using less.prems(1) True s by (simp_all add: pl_write_exact.simps [of fd input "length img" k w])
        then show ?thesis using v stop less.prems by auto
      qed
    qed
  qed
qed

lemma file_restore:
  assumes "file_model fd contents" and "contents (trace w) = img @ junk"
    and "restore_file_size fd (length img) w = (ok, w')" and ok
  shows "contents (trace w') = img"
proof -
  obtain t v where t: "retry_while_failed (SysFtruncate fd (length img)) w = (t, v)" by fastforce
  then have t': "t" "sync_file fd v = (True, w')"
    using assms(3,4) by (auto simp: restore_file_size_def split: if_splits)
  have "contents (trace v) = img"
    using file_truncate [OF assms(1) t refl] assms(2) t'(1) by simp
  then show ?thesis using file_sync [OF assms(1) t'(2)] by simp
qed

text \<open>
  \<open>file_matches\<close>: as long as the log accepts writes, its file is the encoding of its entries.
\<close>

definition file_matches :: "((syscall \<times> sysres) list \<Rightarrow> bytes) \<Rightarrow> persistent_log \<Rightarrow> os \<Rightarrow> bool" where
  "file_matches contents l w \<longleftrightarrow>
     (\<not> pl_io_failed l \<longrightarrow> contents (trace w) = log_image (log_entries l))"

lemma append_entry_file:
  assumes fm: "file_model (pl_fd l) contents" and wf: "log_wf l" and fits: "file_matches contents l w"
    and ap: "append_entry e l w = (res, l', w')"
  shows "file_matches contents l' w'"
proof (cases "pl_io_failed l \<or> w' = w \<and> l' = l")
  case True
  then show ?thesis using ap fits by (auto simp: append_entry_def file_matches_def)
next
  case False
  let ?img = "log_image (log_entries l)"
  have img: "contents (trace w) = ?img" "unat (pl_file_size l) = length ?img"
    using False fits wf by (simp_all add: file_matches_def log_wf_def)
  obtain bs ok v where enc: "encode_log_entry e = Inr bs"
    and wr: "pl_write_exact (pl_fd l) bs (length ?img) 0 w = (ok, v)"
    and rest: "(if \<not> ok then
         (case restore_file_size (pl_fd l) (length ?img) v of (restored, w) \<Rightarrow>
            (log_append_result.IoError, (if \<not> restored then l\<lparr>pl_io_failed := True\<rparr> else l), w))
       else (case sync_file (pl_fd l) v of (synced, w) \<Rightarrow>
          if \<not> synced then
            (case restore_file_size (pl_fd l) (length ?img) w of (restored, w) \<Rightarrow>
               (log_append_result.IoError, (if \<not> restored then l\<lparr>pl_io_failed := True\<rparr> else l), w))
          else (Appended,
            l\<lparr>pl_entries := pl_entries l @ [\<lparr>se_entry = e, se_offset = pl_file_size l\<rparr>],
              pl_file_size := pl_file_size l + of_nat (length bs)\<rparr>, w))) = (res, l', w')"
    using ap False img(2)
    by (auto simp: append_entry_def Let_def split: if_splits sum.splits prod.splits)
  obtain j where j: "j \<le> length bs" "contents (trace v) = ?img @ take j bs" "ok \<longrightarrow> j = length bs"
    using file_write [OF fm wr] img(1) by auto
  obtain synced u where sy: "sync_file (pl_fd l) v = (synced, u)" by fastforce
  have u: "contents (trace u) = ?img @ take j bs"
    using file_sync [OF fm sy] j(2) by simp
  show ?thesis
    using rest sy file_restore [OF fm j(2)] file_restore [OF fm u] u j encode_entry_bytes [OF enc]
    by (auto simp: file_matches_def log_entries_def log_image_def split: if_splits prod.splits)
qed

lemma truncate_suffix_file:
  assumes fm: "file_model (pl_fd l) contents" and wf: "log_wf l" and fits: "file_matches contents l w"
    and tr: "truncate_suffix i l w = (res, l', w')"
  shows "file_matches contents l' w'"
proof (cases "pl_io_failed l \<or> w' = w \<and> l' = l")
  case True
  then show ?thesis using tr fits by (auto simp: truncate_suffix_def file_matches_def)
next
  case False
  let ?n = "unat (i - 1)"
  have lt: "i \<noteq> 0" "i < last_index l + 1"
    using tr False by (auto simp: truncate_suffix_def Let_def split: if_splits)
  then have n: "?n < length (pl_entries l)"
    using next_index_nat [OF wf] by (simp add: word_less_nat_alt unat_minus_one unat_gt_0)
  let ?img = "log_image (take ?n (log_entries l))"
  have size: "unat (se_offset (pl_entries l ! ?n)) = length ?img"
    using wf n by (simp add: log_wf_def)
  have all: "contents (trace w) = ?img @ log_image (drop ?n (log_entries l))"
    using False fits by (simp add: file_matches_def flip: log_image_append)
  obtain ok v where t: "retry_while_failed (SysFtruncate (pl_fd l) (length ?img)) w = (ok, v)" by fastforce
  have v: "ok \<Longrightarrow> contents (trace v) = ?img"
    using file_truncate [OF fm t refl] all by simp
  obtain synced u where sy: "sync_file (pl_fd l) v = (synced, u)" by fastforce
  have u: "ok \<Longrightarrow> contents (trace u) = ?img" using file_sync [OF fm sy] v by simp
  show ?thesis
    using tr False lt t sy u size
    by (auto simp: truncate_suffix_def Let_def file_matches_def log_entries_def take_map not_less
        split: if_splits prod.splits)
qed

section \<open>The interface of a log store\<close>

locale log_store =
  fixes inv :: "'s \<Rightarrow> bool"
    and entries :: "'s \<Rightarrow> log_entry list"
    and append :: "log_entry \<Rightarrow> 's \<Rightarrow> 'w \<Rightarrow> 'a \<times> 's \<times> 'w"
    and truncate :: "u64 \<Rightarrow> 's \<Rightarrow> 'w \<Rightarrow> 't \<times> 's \<times> 'w"
    and appended :: 'a
    and truncated :: 't
  assumes inv_sequential: "inv s \<Longrightarrow> sequential (entries s)"
    and append_inv: "inv s \<Longrightarrow> append e s w = (r, s', w') \<Longrightarrow> inv s'"
    and append_entries: "inv s \<Longrightarrow> append e s w = (r, s', w') \<Longrightarrow>
      entries s' = (if r = appended then entries s @ [e] else entries s)"
    and truncate_inv: "inv s \<Longrightarrow> truncate i s w = (q, s', w') \<Longrightarrow> inv s'"
    and truncate_entries: "inv s \<Longrightarrow> truncate i s w = (q, s', w') \<Longrightarrow>
      entries s' = (if q = truncated then take (unat i - 1) (entries s) else entries s)"
begin

lemma appended_index:
  assumes "inv s" and "append e s w = (appended, s', w')"
  shows "entry_index e = of_nat (Suc (length (entries s))) \<and> encodable e"
  using inv_sequential [OF append_inv [OF assms]] append_entries [OF assms]
  by (simp add: sequential_snoc)

lemma replace_from:
  assumes "inv s" and "truncate i s w = (truncated, t, v)" and "append e t v = (appended, s', w')"
  shows "inv s' \<and> entries s' = take (unat i - 1) (entries s) @ [e]"
  using assms truncate_inv [OF assms(1,2)] truncate_entries [OF assms(1,2)]
    append_inv [of t e v] append_entries [of t e v] by auto

lemma truncate_prefix:
  assumes "inv s" and "truncate i s w = (r, s', w')" and "k < unat i"
  shows "take k (entries s') = take k (entries s)"
  using truncate_entries [OF assms(1,2)] assms(3) by (auto simp: min_def)

end

interpretation raft_log: log_store log_wf log_entries append_entry truncate_suffix Appended Truncated
proof (unfold_locales, goal_cases)
  case (1 s)
  then show ?case by (simp add: log_wf_def)
next
  case (2 s e w r s' w')
  then show ?case by (rule append_entry_wf)
next
  case (3 s e w r s' w')
  then show ?case by (intro append_entry_entries)
next
  case (4 s i w r s' w')
  then show ?case by (rule truncate_suffix_wf)
next
  case (5 s i w r s' w')
  then show ?case using truncate_suffix_entries [of s i w r s' w'] by (simp split: if_splits)
qed

section \<open>Histories of appends and truncations\<close>

datatype log_op = AppendOp log_entry | TruncateOp u64

primrec run_log_ops :: "log_op list \<Rightarrow> persistent_log \<Rightarrow> os \<Rightarrow> persistent_log \<times> os" where
  "run_log_ops [] l w = (l, w)"
| "run_log_ops (x # xs) l w =
     (case x of
        AppendOp e \<Rightarrow> (case append_entry e l w of (r, l, w) \<Rightarrow> run_log_ops xs l w)
      | TruncateOp i \<Rightarrow> (case truncate_suffix i l w of (r, l, w) \<Rightarrow> run_log_ops xs l w))"

lemma append_entry_fd: "append_entry e l w = (r, l', w') \<Longrightarrow> pl_fd l' = pl_fd l"
  by (drule append_entry_outcome) auto

lemma truncate_suffix_fd: "truncate_suffix i l w = (r, l', w') \<Longrightarrow> pl_fd l' = pl_fd l"
  by (drule truncate_suffix_outcome) auto

lemma run_log_ops_inv:
  "run_log_ops xs l w = (l', w') \<Longrightarrow> log_wf l \<Longrightarrow> file_model (pl_fd l) contents \<Longrightarrow>
     file_matches contents l w \<Longrightarrow> log_wf l' \<and> file_matches contents l' w'"
proof (induction xs arbitrary: l w)
  case Nil
  then show ?case by simp
next
  case (Cons x xs)
  show ?case
  proof (cases x)
    case (AppendOp e)
    obtain r k v where s: "append_entry e l w = (r, k, v)" by (metis prod_cases3)
    show ?thesis
      by (rule Cons.IH [of k v])
        (use Cons.prems AppendOp s append_entry_fd [OF s] append_entry_wf [OF _ s]
          append_entry_file [OF _ _ _ s] in simp_all)
  next
    case (TruncateOp i)
    obtain r k v where s: "truncate_suffix i l w = (r, k, v)" by (metis prod_cases3)
    show ?thesis
      by (rule Cons.IH [of k v])
        (use Cons.prems TruncateOp s truncate_suffix_fd [OF s] truncate_suffix_wf [OF _ s]
          truncate_suffix_file [OF _ _ _ s] in simp_all)
  qed
qed

text \<open>A concrete file for the samples: the calls of a trace folded over an empty file.\<close>

definition file_call :: "int \<Rightarrow> bytes \<Rightarrow> syscall \<times> sysres \<Rightarrow> bytes" where
  "file_call fd old cr =
     (case fst cr of
        SysPwrite d bs off \<Rightarrow>
          if d = fd \<and> ret (snd cr) > 0 then store_at off (take (nat (ret (snd cr))) bs) old else old
      | SysFtruncate d n \<Rightarrow> if d = fd \<and> ret (snd cr) \<noteq> -1 then take n (old @ replicate n 0) else old
      | _ \<Rightarrow> old)"

definition file_after :: "int \<Rightarrow> (syscall \<times> sysres) list \<Rightarrow> bytes" where
  "file_after fd tr = foldl (file_call fd) [] tr"

lemma file_after_model: "file_model fd (file_after fd)"
  by (simp add: file_model_def file_after_def file_call_def)

definition empty_log :: persistent_log where
  "empty_log = \<lparr>pl_io_failed = False, pl_fd = 5, pl_entries = [], pl_file_size = 0\<rparr>"

lemma empty_log_wf: "log_wf empty_log"
  by (simp add: empty_log_def log_wf_def sequential_def log_entries_def)

lemma empty_log_file: "file_matches (file_after 5) empty_log \<lparr>script = rs, trace = []\<rparr>"
  by (simp add: file_matches_def file_after_def empty_log_def log_entries_def)

definition sample_log :: persistent_log where
  "sample_log = \<lparr>pl_io_failed = False, pl_fd = 5,
     pl_entries = [\<lparr>se_entry = sample_entry, se_offset = 0\<rparr>], pl_file_size = 39\<rparr>"

lemma sample_entry_bytes:
  "encodable sample_entry" "entry_bytes sample_entry = entry_record 1 1 (command_layout sample_noop)"
  "length (entry_bytes sample_entry) = 39"
  using encode_entry_bytes [OF sample_entry_encoded]
  by (simp_all add: length_entry_record length_command_layout sample_noop_def)

lemma sample_log_entries [simp]: "log_entries sample_log = [sample_entry]"
  by (simp add: log_entries_def sample_log_def)

lemma sample_log_wf: "log_wf sample_log"
proof -
  have "sequential [sample_entry]"
    using sample_entry_bytes(1) by (simp add: sequential_def sample_entry_def)
  moreover have "length (log_image [sample_entry]) = 39"
    using sample_entry_bytes(3) by (simp add: log_image_def)
  ultimately show ?thesis unfolding log_wf_def sample_log_entries by (simp add: sample_log_def off_max_def)
qed

section \<open>Opening a file with known contents\<close>

text \<open>
  \<open>file_answers file\<close>: the documented answers of \<open>fstat\<close>, \<open>pread\<close> and \<open>fsync\<close> when the file
  holds \<open>file\<close>. Each call may fail; an \<open>fstat\<close> that succeeds reports the length, a \<open>pread\<close>
  that succeeds delivers some of the bytes asked for (none only at the end of the file).
  \<open>call_ok\<close>: the call did not fail, an interrupted \<open>pread\<close> or \<open>fsync\<close> not counted.
\<close>

fun file_answers :: "bytes \<Rightarrow> syscall \<times> sysres \<Rightarrow> bool" where
  "file_answers file (SysFstat fd, r) =
     (case r of Stat sz regular \<Rightarrow> sz = of_nat (length file) | Fail e \<Rightarrow> True | _ \<Rightarrow> False)"
| "file_answers file (SysPread fd n off, r) =
     (case r of
        Data bs \<Rightarrow> bs = take (length bs) (take n (drop off file)) \<and> (bs = [] \<longrightarrow> n = 0 \<or> length file \<le> off)
      | Fail e \<Rightarrow> True | _ \<Rightarrow> False)"
| "file_answers file (SysFsync fd, r) = (case r of Ret k \<Rightarrow> k = 0 | Fail e \<Rightarrow> True | _ \<Rightarrow> False)"
| "file_answers file (_, r) = True"

fun call_ok :: "syscall \<times> sysres \<Rightarrow> bool" where
  "call_ok (SysPread fd n off, r) = (ret r \<noteq> -1 \<or> r = Fail EINTR)"
| "call_ok (SysFsync fd, r) = (ret r \<noteq> -1 \<or> r = Fail EINTR)"
| "call_ok (_, r) = (ret r \<noteq> -1)"

text \<open>What opening a file with these contents returns when nothing fails.\<close>

definition reopened :: "bytes \<Rightarrow> int \<Rightarrow> log_open_error + persistent_log" where
  "reopened file fd =
     map_sum id (\<lambda>es. \<lparr>pl_io_failed = False, pl_fd = fd, pl_entries = es, pl_file_size = of_nat (length file)\<rparr>)
       (load_entries file 0 [])"

lemma load_entries_no_io_error: "load_entries bs k es \<noteq> Inl log_open_error.IoError"
proof (induction bs k es rule: load_entries.induct)
  case (1 bs k es)
  then show ?case
    by (subst load_entries.simps) (auto simp: Let_def split: sum.splits)
qed

lemma new_calls_within:
  "extends a b \<Longrightarrow> extends b c \<Longrightarrow> extends c d \<Longrightarrow> set (new_calls b c) \<subseteq> set (new_calls a d)"
  using new_calls_append [of b c d] new_calls_append [of a b d] extends_trans [of b c d] by auto

lemma retry_until_zero_refused:
  "retry_until_zero c w = (False, w') \<Longrightarrow>
     \<exists>r. (c, r) \<in> set (new_calls w w') \<and> ret r \<noteq> 0 \<and> r \<noteq> Fail EINTR"
proof (induction c w arbitrary: w' rule: retry_until_zero.induct)
  case (1 c w)
  obtain r v where s: "syscall c w = (r, v)" by (cases "syscall c w")
  note sv = syscall_extends [OF s]
  show ?case
  proof (cases "r = Fail EINTR")
    case True
    then have rec: "retry_until_zero c v = (False, w')"
      using "1.prems" s by (simp add: retry_until_zero.simps [of c w])
    then show ?thesis
      using "1.IH" [OF s [symmetric] _ _ rec] True retry_until_zero_calls [OF rec]
        new_calls_append [of w v w'] sv by auto
  next
    case False
    then show ?thesis
      using "1.prems" s sv by (auto simp: retry_until_zero.simps [of c w] split: if_splits)
  qed
qed

lemma sync_descriptor_calls:
  assumes "sync_descriptor fd w = (ok, w')"
  shows "extends w w'"
    and "\<forall>cr \<in> set (new_calls w w'). file_answers file cr \<and> call_ok cr \<Longrightarrow> ok"
proof -
  show "extends w w'"
    using assms retry_until_zero_calls [of "SysFsync fd" w ok w'] by (simp add: sync_descriptor_def)
  assume all: "\<forall>cr \<in> set (new_calls w w'). file_answers file cr \<and> call_ok cr"
  show ok
  proof (rule ccontr)
    assume "\<not> ok"
    then have "retry_until_zero (SysFsync fd) w = (False, w')"
      using assms by (simp add: sync_descriptor_def)
    from retry_until_zero_refused [OF this] obtain r where
      "(SysFsync fd, r) \<in> set (new_calls w w')" "ret r \<noteq> 0" "r \<noteq> Fail EINTR" by blast
    then show False using bspec [OF all, of "(SysFsync fd, r)"] by (cases r) auto
  qed
qed

lemma pl_read_exact_extends: "pl_read_exact fd n acc w = (ok, bs, w') \<Longrightarrow> extends w w'"
proof (induction fd n acc w arbitrary: ok bs w' rule: pl_read_exact.induct)
  case (1 fd n acc w)
  obtain r v where s: "syscall (SysPread fd (n - length acc) (length acc)) w = (r, v)" by fastforce
  then have "extends w v" using syscall_extends by simp
  then show ?case
    using "1.prems" "1.IH" s
    by (auto simp: pl_read_exact.simps [of fd n acc w] split: if_splits intro: extends_trans)
qed

lemma read_exact_file:
  "pl_read_exact fd n acc w = (ok, bs, w') \<Longrightarrow> acc = take (length acc) file \<Longrightarrow> n = length file \<Longrightarrow>
    \<forall>cr \<in> set (new_calls w w'). file_answers file cr \<Longrightarrow>
    (ok \<longrightarrow> bs = file) \<and> ((\<forall>cr \<in> set (new_calls w w'). call_ok cr) \<longrightarrow> ok)"
proof (induction fd n acc w arbitrary: ok bs w' rule: pl_read_exact.induct)
  case (1 fd n acc w)
  note len = "1.prems"(3) and answers = "1.prems"(4)
  show ?case
  proof (cases "length acc < n")
    case False
    then have "acc = file" using "1.prems"(2) len by (simp add: not_less)
    moreover have "pl_read_exact fd n acc w = (True, acc, w)"
      using False by (simp add: pl_read_exact.simps [of fd n acc w])
    ultimately show ?thesis using "1.prems"(1) by simp
  next
    case True
    obtain r v where s: "syscall (SysPread fd (n - length acc) (length acc)) w = (r, v)" by fastforce
    note sv = syscall_extends [OF s]
    have step: "set (new_calls w w') = insert (SysPread fd (n - length acc) (length acc), r) (set (new_calls v w'))"
      if "extends v w'"
      using sv new_calls_append [of w v w'] that by simp
    consider (data) "data_of r \<noteq> []" | (again) "data_of r = []" "r = Fail EINTR"
      | (stop) "data_of r = []" "r \<noteq> Fail EINTR" by blast
    then show ?thesis
    proof cases
      case data
      then obtain d where r: "r = Data d" "d \<noteq> []" by (cases r) auto
      let ?acc = "acc @ take (n - length acc) d"
      have rec: "pl_read_exact fd n ?acc v = (ok, bs, w')"
        using "1.prems"(1) True s data r by (simp add: pl_read_exact.simps [of fd n acc w])
      note st = step [OF pl_read_exact_extends [OF rec]]
      have d: "d = take (length d) (take (n - length acc) (drop (length acc) file))"
        using answers st r by simp
      then have "length d \<le> n - length acc" by (metis length_take min.cobounded1 min.cobounded2 min.absorb_iff1 le_trans)
      then have acc: "?acc = take (length ?acc) file"
        using d "1.prems"(2) by (simp add: take_add min_def split: if_splits)
      show ?thesis
        using "1.IH"(1) [OF True s [symmetric] data, of ok bs w'] acc rec r len answers st by auto
    next
      case again
      then have rec: "pl_read_exact fd n acc v = (ok, bs, w')"
        using "1.prems"(1) True s by (simp add: pl_read_exact.simps [of fd n acc w])
      show ?thesis
        using "1.IH"(2) [OF True s [symmetric] _ again(2) rec "1.prems"(2) len] again(1) answers
          step [OF pl_read_exact_extends [OF rec]] by auto
    next
      case stop
      then have "\<not> ok" "w' = v"
        using "1.prems"(1) True s by (simp_all add: pl_read_exact.simps [of fd n acc w])
      then show ?thesis
        using sv True len stop answers by (auto simp: split: sysres.splits)
    qed
  qed
qed

text \<open>\<open>pl_open\<close> on a file with known contents, whatever the answers: it fails with an i/o error,
  or returns what the record loop makes of the contents; it does the latter if no call fails.\<close>

lemma pl_open_reads:
  assumes run: "pl_open path w = (r, w')" and small: "length file < 2 ^ 63"
    and answers: "\<forall>cr \<in> set (new_calls w w'). file_answers file cr"
  shows "(r = Inl log_open_error.IoError \<and> (\<exists>cr \<in> set (new_calls w w'). \<not> call_ok cr))
    \<or> (\<exists>fd. r = reopened file fd)"
proof -
  let ?sz = "of_nat (length file) :: u64"
  have len: "unat ?sz = length file" using small by (intro unat_of_nat_64) simp
  have nonneg: "\<not> sint ?sz < 0"
  proof -
    have "signed_take_bit 63 (int (length file)) = int (length file)"
      by (rule signed_take_bit_int_eq_self) (use small in simp_all)
    then have "sint ?sz = int (length file)" by (simp add: signed_of_nat)
    then show ?thesis by linarith
  qed
  have empty: "?sz = 0 \<longleftrightarrow> file = []" using len by (metis length_0_conv unat_0 unat_eq_0)
  have close: "extends v (close_fd fd v)" for fd v using close_fd_calls by simp
  have seen: "set (new_calls a b) \<subseteq> set (new_calls w w')"
    if "extends w a" "extends a b" "extends b w'" for a b
    by (rule new_calls_within [OF that])
  obtain f w1 where s1: "syscall (SysOpenLog path) w = (f, w1)" by fastforce
  obtain st w2 where s2: "syscall (SysFstat (ret f)) w1 = (st, w2)" by fastforce
  obtain d w3 where s3: "syscall (SysOpenDir (parent_of path)) w2 = (d, w3)" by fastforce
  obtain a1 w4 where s4: "sync_descriptor (ret f) w3 = (a1, w4)" by fastforce
  obtain a2 w5 where s5: "(if \<not> a1 then (False, w4) else sync_descriptor (ret d) w4) = (a2, w5)" by fastforce
  obtain c w6 where s6: "syscall (SysClose (ret d)) w5 = (c, w6)" by fastforce
  obtain ok bs w7 where s7: "pl_read_exact (ret f) (length file) [] w6 = (ok, bs, w7)" by (metis prod_cases3)
  note c1 = syscall_extends [OF s1] and c2 = syscall_extends [OF s2] and c3 = syscall_extends [OF s3]
    and c6 = syscall_extends [OF s6]
  have e34: "extends w3 w4" and e45: "extends w4 w5" and e67: "extends w6 w7"
    using sync_descriptor_calls(1) [OF s4] s5 sync_descriptor_calls(1) [of "ret d" w4 a2 w5]
      pl_read_exact_extends [OF s7] by (auto split: if_splits)
  have ext: "extends w w1" "extends w w2" "extends w w3" "extends w w4" "extends w w5" "extends w w6"
    using c1 c2 c3 c6 e34 e45 extends_trans by blast+
  show ?thesis
  proof (cases "ret f = -1")
    case True
    then have "r = Inl log_open_error.IoError" "w' = w1" using run by (simp_all add: pl_open_def s1)
    then show ?thesis using c1 True by auto
  next
    case opened: False
    have w2': "extends w2 w'"
    proof -
      have rd: "extends w6 v" if "pl_read_exact (ret f) n [] w6 = (b, x, v)" for n b x v
        by (rule pl_read_exact_extends [OF that])
      have "extends w2 w3" "extends w2 w6" using c3 c6 e34 e45 extends_trans by blast+
      then show ?thesis
        using run opened
        by (auto simp: pl_open_def Let_def s1 s2 s3 s4 s5 s6 split: sysres.splits if_splits prod.splits sum.splits
          dest!: rd intro: close extends_trans)
    qed
    have "(SysFstat (ret f), st) \<in> set (new_calls w w')" using seen [OF ext(1) _ w2'] c2 by simp
    moreover from this have "file_answers file (SysFstat (ret f), st)" using answers by blast
    ultimately consider (failed) e where "st = Fail e" "(SysFstat (ret f), st) \<in> set (new_calls w w')"
      | (stat) reg where "st = Stat ?sz reg" by (cases st) auto
    then show ?thesis
    proof cases
      case failed
      then have "r = Inl log_open_error.IoError"
        using run opened by (simp add: pl_open_def s1 s2 Let_def)
      then show ?thesis using failed by (auto intro!: bexI [of _ "(SysFstat (ret f), st)"])
    next
      case stat
      have go: "pl_open path w =
        (if ret d = -1 then (Inl log_open_error.IoError, close_fd (ret f) w3)
         else if \<not> a2 \<or> ret c = -1 then (Inl log_open_error.IoError, close_fd (ret f) w6)
         else if file = [] then (reopened file (ret f), w6)
         else if \<not> ok then (Inl log_open_error.IoError, close_fd (ret f) w7)
         else case load_entries bs 0 [] of
             Inl e \<Rightarrow> (Inl e, close_fd (ret f) w7)
           | Inr es \<Rightarrow> (Inr \<lparr>pl_io_failed = False, pl_fd = ret f, pl_entries = es, pl_file_size = ?sz\<rparr>, w7))"
        using opened nonneg
        by (simp add: pl_open_def s1 s2 stat s3 s4 s5 s6 s7 len empty reopened_def load_entries.simps Let_def
          cong: if_cong)
      consider (dir) "ret d = -1" "w' = close_fd (ret f) w3" "r = Inl log_open_error.IoError"
        | (sync) "\<not> a2 \<or> ret c = -1" "w' = close_fd (ret f) w6" "r = Inl log_open_error.IoError"
        | (empty) "r = reopened file (ret f)"
        | (unread) "\<not> ok" "w' = close_fd (ret f) w7" "r = Inl log_open_error.IoError"
        | (loaded) "ok" "extends w7 w'" "r = map_sum id (\<lambda>es. \<lparr>pl_io_failed = False, pl_fd = ret f, pl_entries = es, pl_file_size = ?sz\<rparr>) (load_entries bs 0 [])"
        using run go close by (auto simp: reopened_def split: if_splits sum.splits)
      then show ?thesis
      proof cases
        case dir
        have "(SysOpenDir (parent_of path), d) \<in> set (new_calls w w')"
          using seen [OF ext(2), of w3] c3 close dir by simp
        then show ?thesis using dir by (auto intro!: bexI [of _ "(SysOpenDir (parent_of path), d)"])
      next
        case sync
        have tl: "extends w6 w'" using sync close by simp
        have e5: "extends w5 w'" "extends w4 w'" using tl c6 e45 extends_trans by blast+
        show ?thesis
        proof (cases "ret c = -1")
          case True
          then have "(SysClose (ret d), c) \<in> set (new_calls w w')" using seen [OF ext(5) _ tl] c6 by simp
          then show ?thesis using True sync by (auto intro!: bexI [of _ "(SysClose (ret d), c)"])
        next
          case False
          then have "\<exists>cr \<in> set (new_calls w3 w4) \<union> set (new_calls w4 w5). \<not> (file_answers file cr \<and> call_ok cr)"
            using sync sync_descriptor_calls(2) [OF s4] s5 sync_descriptor_calls(2) [of "ret d" w4 a2 w5]
            by (cases a1) auto
          then show ?thesis
            using seen [OF ext(3) e34 e5(2)] seen [OF ext(4) e45 e5(1)] answers sync by blast
        qed
      next
        case empty
        then show ?thesis by blast
      next
        case unread
        then have "set (new_calls w6 w7) \<subseteq> set (new_calls w w')" using seen [OF ext(6) e67] close by simp
        then show ?thesis using read_exact_file [OF s7, of "file"] answers unread by auto
      next
        case loaded
        then have "set (new_calls w6 w7) \<subseteq> set (new_calls w w')" using seen [OF ext(6) e67] by simp
        then have "bs = file" using read_exact_file [OF s7, of "file"] answers loaded(1) by auto
        then show ?thesis using loaded(3) by (auto simp: reopened_def)
      qed
    qed
  qed
qed

lemma log_wf_image_small: "log_wf l \<Longrightarrow> length (log_image (log_entries l)) < 2 ^ 63"
  by (auto simp: log_wf_def off_max_def word_le_nat_alt)

text \<open>The entries of a well-formed log fix the rest of it: their offsets and the file's size.\<close>

lemma log_wf_fixed:
  assumes "log_wf l" and "log_wf k" and "log_entries k = log_entries l"
  shows "pl_entries k = pl_entries l \<and> pl_file_size k = pl_file_size l"
proof
  have n: "length (pl_entries k) = length (pl_entries l)"
    using arg_cong [OF assms(3), of length] by (simp add: log_entries_def)
  show "pl_entries k = pl_entries l"
  proof (rule nth_equalityI [OF n])
    fix i assume i: "i < length (pl_entries k)"
    have "unat (se_offset (pl_entries k ! i)) = unat (se_offset (pl_entries l ! i))"
      using assms i n by (simp add: log_wf_def)
    moreover have "se_entry (pl_entries k ! i) = se_entry (pl_entries l ! i)"
      using arg_cong [OF assms(3), of "\<lambda>es. es ! i"] i n by (simp add: log_entries_def)
    ultimately show "pl_entries k ! i = pl_entries l ! i"
      by (intro stored_entry.equality) (simp_all add: word_unat_eq_iff)
  qed
  have "unat (pl_file_size k) = unat (pl_file_size l)" using assms by (simp add: log_wf_def)
  then show "pl_file_size k = pl_file_size l" by (simp add: word_unat_eq_iff)
qed

lemma reopened_image:
  assumes "log_wf l" and "\<not> pl_io_failed l" and "r = reopened (log_image (log_entries l)) fd"
    and "pl_open path w = (r, w')"
  shows "r = Inr (l\<lparr>pl_fd := fd\<rparr>)"
proof -
  obtain st where st: "load_entries (log_image (log_entries l)) 0 [] = Inr st" "map se_entry st = log_entries l"
    using load_entries_image [of "log_entries l"] assms(1) by (auto simp: log_wf_def)
  then obtain k where k: "r = Inr k" "log_entries k = log_entries l" "\<not> pl_io_failed k" "pl_fd k = fd"
    using assms(3) by (auto simp: reopened_def log_entries_def)
  have "log_wf k" using pl_open_wf assms(4) k(1) by blast
  then have "k = l\<lparr>pl_fd := fd\<rparr>"
    using log_wf_fixed [OF assms(1) _ k(2)] k assms(2) by simp
  then show ?thesis using k(1) by simp
qed

section \<open>Properties\<close>

text \<open>C21: The log survives a restart. After any sequence of appends and truncations on a well-formed
  log the class invariant holds, whatever the outcomes of the system calls and also when the log
  has stopped accepting writes. As long as it accepts writes, opening its file again, with any
  answers of the system that agree with the file's contents, gives the same log on the new
  descriptor (same entries, offsets and size); the only other outcome is an i/o error, and only if
  a system call failed. The contents are any function of the call trace with the documented
  effects of pwrite, ftruncate and fdatasync.\<close>

theorem log_survives_restart:
  assumes "run_log_ops xs l w = (l', w')" and "log_wf l" and "file_model (pl_fd l) contents"
    and "file_matches contents l w"
  shows "log_wf l' \<and>
    (\<not> pl_io_failed l' \<longrightarrow>
      (\<forall>path v r v'. pl_open path v = (r, v') \<longrightarrow>
        (\<forall>cr \<in> set (new_calls v v'). file_answers (contents (trace w')) cr) \<longrightarrow>
        (\<exists>fd. r = Inr (l'\<lparr>pl_fd := fd\<rparr>))
        \<or> (r = Inl log_open_error.IoError \<and> (\<exists>cr \<in> set (new_calls v v'). \<not> call_ok cr))))"
proof -
  have out: "log_wf l'" "file_matches contents l' w'" using run_log_ops_inv [OF assms] by simp_all
  show ?thesis
  proof (intro conjI impI allI, rule out(1))
    fix path v r v'
    assume ok: "\<not> pl_io_failed l'" and op: "pl_open path v = (r, v')"
      and "\<forall>cr \<in> set (new_calls v v'). file_answers (contents (trace w')) cr"
    moreover have "contents (trace w') = log_image (log_entries l')"
      using ok out(2) by (simp add: file_matches_def)
    ultimately show "(\<exists>fd. r = Inr (l'\<lparr>pl_fd := fd\<rparr>))
        \<or> (r = Inl log_open_error.IoError \<and> (\<exists>cr \<in> set (new_calls v v'). \<not> call_ok cr))"
      using pl_open_reads [OF op log_wf_image_small [OF out(1)]] reopened_image [OF out(1) ok _ op] by auto
  qed
qed

theorem log_survives_restart_witness:
  "\<exists>fd. fst (pl_open [108] \<lparr>script = [Ret 6, Stat 39 True, Ret 7, Ret 0, Fail EINTR, Ret 0, Ret 0,
        Data (entry_record 1 1 (command_layout sample_noop)), Ret 0], trace = []\<rparr>)
     = Inr ((fst (run_log_ops [AppendOp sample_entry] empty_log
         \<lparr>script = [Ret 39, Ret 0], trace = []\<rparr>))\<lparr>pl_fd := fd\<rparr>)"
proof -
  let ?w = "\<lparr>script = [Ret 39, Ret 0], trace = []\<rparr>" and ?bs = "entry_record 1 1 (command_layout sample_noop)"
  let ?w2 = "\<lparr>script = [], trace = [(SysPwrite 5 ?bs 0, Ret 39), (SysFdatasync 5, Ret 0)]\<rparr>"
  let ?l = "\<lparr>pl_io_failed = False, pl_fd = 5, pl_entries = [\<lparr>se_entry = sample_entry, se_offset = 0\<rparr>],
    pl_file_size = 39\<rparr>"
  let ?v = "\<lparr>script = [Ret 6, Stat 39 True, Ret 7, Ret 0, Fail EINTR, Ret 0, Ret 0, Data ?bs, Ret 0], trace = []\<rparr>"
  have len: "length ?bs = 39" by (simp add: length_entry_record length_command_layout sample_noop_def)
  have wr: "pl_write_exact 5 ?bs 0 0 ?w
      = (True, \<lparr>script = [Ret 0], trace = [(SysPwrite 5 ?bs 0, Ret 39)]\<rparr>)"
    by (subst pl_write_exact.simps, subst pl_write_exact.simps) (simp add: len syscall_def)
  have sy: "sync_file 5 \<lparr>script = [Ret 0], trace = [(SysPwrite 5 ?bs 0, Ret 39)]\<rparr> = (True, ?w2)"
    unfolding sync_file_def by (subst retry_until_zero.simps) (simp add: syscall_def)
  have idx: "entry_index sample_entry = 1" by (simp add: sample_entry_def)
  have "append_entry sample_entry empty_log ?w = (Appended, ?l, ?w2)"
    using wr sy len by (simp add: append_entry_def empty_log_def last_index_def sample_entry_encoded Let_def idx off_max_def)
  then have run: "run_log_ops [AppendOp sample_entry] empty_log ?w = (?l, ?w2)" by simp
  have cont: "file_after 5 (trace ?w2) = ?bs"
    using len by (simp add: file_after_def file_call_def store_at_def)
  have fd: "pl_fd empty_log = 5" by (simp add: empty_log_def)
  obtain r v' where op: "pl_open [108] ?v = (r, v')" by fastforce
  have ne: "?bs \<noteq> []" using len by auto
  have "\<forall>cr \<in> set (new_calls ?v v'). file_answers ?bs cr \<and> call_ok cr"
    using op len ne
    by (auto simp: pl_open_def syscall_def sync_descriptor_def retry_until_zero.simps pl_read_exact.simps
      close_fd_def new_calls_def Let_def split: sum.splits)
  moreover have "file_model (pl_fd empty_log) (file_after 5)" by (simp add: fd file_after_model)
  ultimately have "\<exists>fd. r = Inr (?l\<lparr>pl_fd := fd\<rparr>)"
    using mp [OF conjunct2 [OF log_survives_restart [OF run empty_log_wf _ empty_log_file, unfolded cont]]] op
    by fastforce
  then show ?thesis unfolding run fst_conv op .
qed

text \<open>C27: A crash during an append is recognised. If the file holds the records of a well-formed log
  followed by a proper part of the next record, opening it reports a truncated record: the torn
  record is neither accepted nor taken for corruption of the entries before it. The only other
  outcome is an i/o error, and only if a system call failed.\<close>

theorem torn_append_reported:
  assumes "sequential es" and "encodable e" and "0 < k" and "k < length (entry_bytes e)"
    and "length (log_image es @ take k (entry_bytes e)) < 2 ^ 63"
    and "pl_open path w = (r, w')"
    and "\<forall>cr \<in> set (new_calls w w'). file_answers (log_image es @ take k (entry_bytes e)) cr"
  shows "r = Inl TruncatedRecord
    \<or> (r = Inl log_open_error.IoError \<and> (\<exists>cr \<in> set (new_calls w w'). \<not> call_ok cr))"
  using pl_open_reads [OF assms(6,5,7)] load_entries_torn [OF assms(1-4)] by (auto simp: reopened_def)

theorem torn_append_reported_witness:
  "fst (pl_open [108] \<lparr>script = [Ret 3, Stat 51 True, Ret 4, Ret 0, Ret 0, Ret 0,
      Data (log_image [sample_entry] @ take 12 (entry_bytes sample_entry)), Ret 0], trace = []\<rparr>) = Inl TruncatedRecord"
proof -
  define bs where "bs = log_image [sample_entry] @ take 12 (entry_bytes sample_entry)"
  let ?w = "\<lparr>script = [Ret 3, Stat 51 True, Ret 4, Ret 0, Ret 0, Ret 0, Data bs, Ret 0], trace = []\<rparr>"
  have enc: "encodable sample_entry" "entry_bytes sample_entry = entry_record 1 1 (command_layout sample_noop)"
    using encode_entry_bytes [OF sample_entry_encoded] by simp_all
  have seq: "sequential [sample_entry]" using enc(1) by (simp add: sequential_def sample_entry_def)
  have n: "length (entry_bytes sample_entry) = 39"
    by (simp add: enc(2) length_entry_record length_command_layout sample_noop_def)
  have len: "length bs = 51" using n by (simp add: bs_def log_image_def)
  obtain r w' where op: "pl_open [108] ?w = (r, w')" by fastforce
  have ne: "bs \<noteq> []" using len by auto
  have "\<forall>cr \<in> set (new_calls ?w w'). file_answers bs cr \<and> call_ok cr"
    using op len ne
    by (auto simp: pl_open_def syscall_def sync_descriptor_def retry_until_zero.simps pl_read_exact.simps
      close_fd_def new_calls_def Let_def split: sum.splits)
  then have "r = Inl TruncatedRecord"
    using torn_append_reported [OF seq enc(1), of 12 "[108]" ?w r w'] n len op
    by (auto simp: bs_def)
  then show ?thesis using op by (simp add: bs_def)
qed

text \<open>An opened log satisfies the class invariant: entry i has index i and an encoding, its offset
  is the length of the records before it, the file size is the total, and writes are accepted.
  This holds for every content of the file and every answer of the system.\<close>

theorem opened_log_well_formed:
  "pl_open path w = (Inr l, w') \<Longrightarrow> log_wf l \<and> \<not> pl_io_failed l"
  by (rule pl_open_wf)

theorem opened_log_well_formed_witness:
  "log_wf \<lparr>pl_io_failed = False, pl_fd = 3, pl_entries = [], pl_file_size = 0\<rparr>"
proof -
  let ?w = "\<lparr>script = [Ret 3, Stat 0 True, Ret 4, Ret 0, Ret 0, Ret 0], trace = []\<rparr>"
  have "fst (pl_open [108] ?w) = Inr \<lparr>pl_io_failed = False, pl_fd = 3, pl_entries = [], pl_file_size = 0\<rparr>"
    by (simp add: pl_open_def syscall_def sync_descriptor_def retry_until_zero.simps Let_def)
  then show ?thesis
    using opened_log_well_formed [of "[108]" ?w] by (metis prod.collapse)
qed

text \<open>What a truncation does. It succeeds only for an index from 1 to one past the end and then keeps
  exactly the entries before that index; every other outcome leaves the entries as they were. The
  invariant holds in each case.\<close>

theorem truncate_keeps_prefix:
  assumes "log_wf l" and "truncate_suffix i l w = (res, l', w')"
  shows "log_wf l' \<and>
    (if res = Truncated
     then 0 < unat i \<and> unat i \<le> Suc (length (log_entries l)) \<and> log_entries l' = take (unat i - 1) (log_entries l)
     else log_entries l' = log_entries l)"
  using raft_log.truncate_inv [OF assms] truncate_suffix_entries [OF assms] by simp

theorem truncate_keeps_prefix_witness:
  "log_wf (fst (snd (truncate_suffix 1 empty_log \<lparr>script = [], trace = []\<rparr>)))
   \<and> fst (truncate_suffix 1 empty_log \<lparr>script = [], trace = []\<rparr>) = Truncated"
proof -
  have t: "truncate_suffix 1 empty_log \<lparr>script = [], trace = []\<rparr> = (Truncated, empty_log, \<lparr>script = [], trace = []\<rparr>)"
    by (simp add: truncate_suffix_def empty_log_def last_index_def)
  show ?thesis using truncate_keeps_prefix [OF empty_log_wf t] t by simp
qed

end
