(* ===== verification/Raft_Vote.thy ===== *)
theory Raft_Vote
  imports Persistent_Metadata Persistent_Log
begin

text \<open>
  The voter's side of an election (include/dkv/raft_vote.hpp, src/raft_vote.cpp).

  \<^item> \<open>handle_request_vote\<close> is the handler, with the durable term and vote threaded through it.
  \<^item> \<open>handle_request_vote_outcome\<close> is its complete case table; the rest follows from it: a
    granted vote is on the node's own durable record for the request's term, the candidate's
    log is at least as up to date as the voter's, the log is not touched.
\<close>

record request_vote =
  rv_term :: u64
  rv_candidate_id :: u64
  rv_last_log_index :: u64
  rv_last_log_term :: u64

record request_vote_reply =
  rvr_term :: u64
  rvr_vote_granted :: bool

datatype request_vote_handle_error = PersistenceError

definition candidate_log_is_up_to_date :: "request_vote \<Rightarrow> persistent_log \<Rightarrow> bool" where
  "candidate_log_is_up_to_date request log =
     (if rv_last_log_term request \<noteq> last_term log
      then rv_last_log_term request > last_term log
      else rv_last_log_index request \<ge> last_index log)"

definition handle_request_vote :: "persistent_log \<Rightarrow> request_vote \<Rightarrow> persistent_metadata \<Rightarrow> os
    \<Rightarrow> (request_vote_handle_error + request_vote_reply) \<times> persistent_metadata \<times> os" where
  "handle_request_vote log request metadata w =
     (case advance_term (rv_term request) metadata w of (term_result, metadata, w) \<Rightarrow>
        if term_result = metadata_update_result.IoError then (Inl PersistenceError, metadata, w)
        else
          (let state = pm_state metadata
           in if rv_term request = 0 \<or> rv_term request < current_term state
              then (Inr \<lparr>rvr_term = current_term state, rvr_vote_granted = False\<rparr>, metadata, w)
              else if (voted_for state \<noteq> None \<and> voted_for state \<noteq> Some (rv_candidate_id request))
                      \<or> \<not> candidate_log_is_up_to_date request log
              then (Inr \<lparr>rvr_term = current_term state, rvr_vote_granted = False\<rparr>, metadata, w)
              else
                (case vote_for (rv_candidate_id request) metadata w of (result, metadata, w) \<Rightarrow>
                   if result = Persisted \<or> result = Unchanged
                   then (Inr \<lparr>rvr_term = current_term (pm_state metadata), rvr_vote_granted = True\<rparr>,
                         metadata, w)
                   else if result = VoteConflict
                   then (Inr \<lparr>rvr_term = current_term (pm_state metadata), rvr_vote_granted = False\<rparr>,
                         metadata, w)
                   else (Inl PersistenceError, metadata, w))))"

section \<open>Outcome\<close>

lemma handle_request_vote_outcome:
  assumes "handle_request_vote log req m w = (res, m', w')"
  shows "case res of
      Inl e \<Rightarrow> pm_state m' = pm_state m \<or> pm_state m' = term_seen (rv_term req) (pm_state m)
    | Inr reply \<Rightarrow>
        \<not> pm_io_failed m
        \<and> rvr_term reply = current_term (pm_state m')
        \<and> current_term (pm_state m') = max (current_term (pm_state m)) (rv_term req)
        \<and> (if rvr_vote_granted reply
           then rv_term req \<noteq> 0 \<and> current_term (pm_state m') = rv_term req
                \<and> voted_for (pm_state m') = Some (rv_candidate_id req)
                \<and> voted_for (term_seen (rv_term req) (pm_state m)) \<in> {None, Some (rv_candidate_id req)}
                \<and> candidate_log_is_up_to_date req log
           else pm_state m' = term_seen (rv_term req) (pm_state m)
                \<and> (rv_term req = 0 \<or> rv_term req < current_term (pm_state m)
                   \<or> voted_for (pm_state m') \<notin> {None, Some (rv_candidate_id req)}
                   \<or> \<not> candidate_log_is_up_to_date req log))"
proof -
  let ?t = "rv_term req" and ?c = "rv_candidate_id req"
  obtain tr m1 w1 where a: "advance_term ?t m w = (tr, m1, w1)" by (metis prod_cases3)
  show ?thesis
  proof (cases "tr = metadata_update_result.IoError")
    case True
    with a assms advance_term_outcome [OF a] show ?thesis
      by (auto simp: handle_request_vote_def)
  next
    case False
    note seen = advance_term_seen [OF a False]
    have max: "current_term (pm_state m1) = max (current_term (pm_state m)) ?t"
      using seen by (auto simp: term_seen_def max_def)
    obtain vr m2 w2 where v: "vote_for ?c m1 w1 = (vr, m2, w2)" by (metis prod_cases3)
    note un = assms [unfolded handle_request_vote_def a prod.case Let_def v]
    show ?thesis
      using un False seen max vote_for_outcome [OF v]
      by (auto simp: not_less max_def split: if_splits)
  qed
qed

lemma handle_request_vote_store:
  assumes "handle_request_vote log req m w = (res, m', w')"
  shows "\<exists>us. run_updates advance_term vote_for us m w = (m', w')"
proof -
  let ?t = "rv_term req" and ?c = "rv_candidate_id req"
  obtain tr m1 w1 where a: "advance_term ?t m w = (tr, m1, w1)" by (metis prod_cases3)
  obtain vr m2 w2 where v: "vote_for ?c m1 w1 = (vr, m2, w2)" by (metis prod_cases3)
  have "(m', w') = (m1, w1) \<or> (m', w') = (m2, w2)"
    using assms a v by (auto simp: handle_request_vote_def Let_def split: if_splits)
  moreover have "run_updates advance_term vote_for [AdvanceTerm ?t] m w = (m1, w1)"
      "run_updates advance_term vote_for [AdvanceTerm ?t, VoteFor ?c] m w = (m2, w2)"
    using a v by simp_all
  ultimately show ?thesis by metis
qed

text \<open>The order on logs the up-to-date check implements: last term first, then length.\<close>

lemma up_to_date_iff:
  "candidate_log_is_up_to_date req log \<longleftrightarrow>
     last_term log < rv_last_log_term req
     \<or> last_term log = rv_last_log_term req \<and> last_index log \<le> rv_last_log_index req"
  by (auto simp: candidate_log_is_up_to_date_def)

section \<open>Properties\<close>

text \<open>C16: When a vote is granted. A reply to a vote request carries the node's term after the request,
  the maximum of both terms, and grants the vote if and only if the request's term is nonzero and
  not behind the node's, the node has not voted for another candidate in that term, and the
  candidate's log is at least as up to date: its last term is larger, or equal and the log at
  least as long. A granted vote is then the node's vote in its durable
  store, for exactly that term and candidate.\<close>

theorem vote_granted_iff:
  assumes "handle_request_vote log req m w = (Inr reply, m', w')"
  shows "rvr_term reply = max (current_term (pm_state m)) (rv_term req)
    \<and> current_term (pm_state m') = rvr_term reply
    \<and> (rvr_vote_granted reply \<longleftrightarrow>
        rv_term req \<noteq> 0 \<and> current_term (pm_state m) \<le> rv_term req
        \<and> voted_for (term_seen (rv_term req) (pm_state m)) \<in> {None, Some (rv_candidate_id req)}
        \<and> (last_term log < rv_last_log_term req
            \<or> last_term log = rv_last_log_term req \<and> last_index log \<le> rv_last_log_index req))
    \<and> (rvr_vote_granted reply \<longrightarrow>
        pm_state m' = \<lparr>current_term = rv_term req, voted_for = Some (rv_candidate_id req)\<rparr>)"
  using handle_request_vote_outcome [OF assms] unfolding up_to_date_iff
  by (cases "pm_state m'") (auto split: if_splits simp: max_def)

definition sample_vote_request :: request_vote where
  "sample_vote_request = \<lparr>rv_term = 3, rv_candidate_id = 2, rv_last_log_index = 0, rv_last_log_term = 0\<rparr>"

lemma sample_vote:
  "\<exists>tr. handle_request_vote empty_log sample_vote_request (sample_store None) \<lparr>script = good_answers, trace = []\<rparr>
     = (Inr \<lparr>rvr_term = 3, rvr_vote_granted = True\<rparr>, sample_store (Some 2), \<lparr>script = [], trace = tr\<rparr>)"
proof -
  have "valid_metadata \<lparr>current_term = 3, voted_for = Some 2\<rparr>" by (simp add: valid_metadata_def)
  then obtain tr where p: "persist \<lparr>current_term = 3, voted_for = Some 2\<rparr> (sample_store None)
      \<lparr>script = good_answers, trace = []\<rparr>
      = (Persisted, (sample_store None)\<lparr>pm_state := \<lparr>current_term = 3, voted_for = Some 2\<rparr>\<rparr>,
         \<lparr>script = [], trace = tr\<rparr>)"
    using persist_good_answers [of _ "sample_store None" "[]" "[]"] by (metis append_Nil2)
  have a: "advance_term 3 (sample_store None) w = (Unchanged, sample_store None, w)" for w
    by (simp add: advance_term_def sample_store_def)
  have v: "vote_for 2 (sample_store None) \<lparr>script = good_answers, trace = []\<rparr>
      = (Persisted, sample_store (Some 2), \<lparr>script = [], trace = tr\<rparr>)"
    using p by (simp add: vote_for_def sample_store_def)
  have s: "current_term (pm_state (sample_store v)) = 3" "voted_for (pm_state (sample_store v)) = v" for v
    by (simp_all add: sample_store_def)
  show ?thesis
    by (intro exI [of _ tr])
      (simp add: handle_request_vote_def sample_vote_request_def a v s candidate_log_is_up_to_date_def
        last_term_def last_index_def empty_log_def)
qed

theorem vote_granted_iff_witness:
  "last_index empty_log \<le> rv_last_log_index sample_vote_request
   \<and> pm_state (sample_store (Some 2)) = \<lparr>current_term = 3, voted_for = Some 2\<rparr>"
  using sample_vote
proof
  fix tr
  assume "handle_request_vote empty_log sample_vote_request (sample_store None) \<lparr>script = good_answers, trace = []\<rparr>
     = (Inr \<lparr>rvr_term = 3, rvr_vote_granted = True\<rparr>, sample_store (Some 2), \<lparr>script = [], trace = tr\<rparr>)"
  from vote_granted_iff [OF this] show ?thesis
    by (simp add: sample_vote_request_def empty_log_def last_index_def)
qed

end
