(* ===== verification/Raft_Election.thy ===== *)
theory Raft_Election
  imports Raft_Vote
begin

text \<open>
  The candidate's side of an election (include/dkv/raft_election.hpp, src/raft_election.cpp).

  \<^item> \<open>raft_election\<close> holds the private fields; the metadata and the log the class refers to are
    passed by its owner. \<open>election_role\<close> is the lazily computed role, \<open>start_election\<close>,
    \<open>handle_vote_reply\<close> and \<open>observe_leader\<close> the operations.
  \<^item> \<open>election_inv\<close> is the class invariant relative to the durable metadata: a candidacy is for
    a term the node itself voted in, a candidate has one vote and a leader two.
\<close>

datatype raft_role = Follower | Candidate | Leader

datatype election_start_error = AlreadyLeader | TermExhausted | PersistenceError

datatype vote_reply_outcome = Ignored | Recorded | BecameLeader | SteppedDown | PersistenceError

record raft_election =
  el_self_id :: u64
  el_peer_ids :: "u64 array2"
  el_role :: raft_role
  el_election_term :: u64
  el_replied :: "bool array2"
  el_granted_votes :: u32
  el_unusable :: bool

section \<open>Operations\<close>

text \<open>The constructor; \<open>None\<close> when it throws.\<close>

definition new_election :: "u64 \<Rightarrow> u64 array2 \<Rightarrow> raft_election option" where
  "new_election self_id peer_ids =
     (if get2 0 peer_ids = get2 1 peer_ids \<or> get2 0 peer_ids = self_id \<or> get2 1 peer_ids = self_id
      then None
      else Some \<lparr>el_self_id = self_id, el_peer_ids = peer_ids, el_role = Follower,
                 el_election_term = 0, el_replied = (False, False), el_granted_votes = 0,
                 el_unusable = False\<rparr>)"

definition election_role :: "persistent_metadata \<Rightarrow> raft_election \<Rightarrow> raft_role" where
  "election_role metadata e =
     (if el_role e \<noteq> Follower
         \<and> (current_term (pm_state metadata) \<noteq> el_election_term e
            \<or> voted_for (pm_state metadata) \<noteq> Some (el_self_id e))
      then Follower else el_role e)"

definition granted_votes :: "persistent_metadata \<Rightarrow> raft_election \<Rightarrow> u32" where
  "granted_votes metadata e =
     (if election_role metadata e = Follower then 0 else el_granted_votes e)"

definition become_follower :: "raft_election \<Rightarrow> raft_election" where
  "become_follower e = e\<lparr>el_role := Follower, el_election_term := 0, el_replied := (False, False),
     el_granted_votes := 0\<rparr>"

definition observe_leader :: "u64 \<Rightarrow> persistent_metadata \<Rightarrow> raft_election \<Rightarrow> raft_election" where
  "observe_leader trm metadata e =
     (if trm \<noteq> 0 \<and> trm = current_term (pm_state metadata) then become_follower e else e)"

definition refresh_role_from_metadata ::
  "persistent_metadata \<Rightarrow> raft_election \<Rightarrow> bool \<times> raft_election" where
  "refresh_role_from_metadata metadata e =
     (if el_role e \<noteq> Follower \<and> election_role metadata e = Follower
      then (True, become_follower e) else (False, e))"

definition start_election :: "persistent_log \<Rightarrow> persistent_metadata \<Rightarrow> raft_election \<Rightarrow> os
    \<Rightarrow> (election_start_error + request_vote) \<times> persistent_metadata \<times> raft_election \<times> os" where
  "start_election log metadata e w =
     (if el_unusable e then (Inl election_start_error.PersistenceError, metadata, e, w)
      else
        (case refresh_role_from_metadata metadata e of (_, e) \<Rightarrow>
         if el_role e = Leader then (Inl AlreadyLeader, metadata, e, w)
         else
           (let current = current_term (pm_state metadata)
            in if current = 0xFFFFFFFFFFFFFFFF then (Inl TermExhausted, metadata, e, w)
            else
              (let next_term = current + 1
               in case advance_term next_term metadata w of (term_result, metadata, w) \<Rightarrow>
                  if term_result \<noteq> Persisted
                  then (Inl election_start_error.PersistenceError, metadata,
                        (become_follower e)\<lparr>el_unusable := True\<rparr>, w)
                  else
                    (case vote_for (el_self_id e) metadata w of (vote_result, metadata, w) \<Rightarrow>
                     if vote_result \<noteq> Persisted \<and> vote_result \<noteq> Unchanged
                     then (Inl election_start_error.PersistenceError, metadata,
                           (become_follower e)\<lparr>el_unusable := True\<rparr>, w)
                     else
                       (Inr \<lparr>rv_term = next_term, rv_candidate_id = el_self_id e,
                             rv_last_log_index = last_index log, rv_last_log_term = last_term log\<rparr>,
                        metadata,
                        e\<lparr>el_role := Candidate, el_election_term := next_term,
                          el_replied := (False, False), el_granted_votes := 1\<rparr>, w))))))"

text \<open>The search loop over \<open>peer_ids_\<close>: the last index holding the peer, \<open>None\<close> for the end value.\<close>

definition peer_index_of :: "u64 array2 \<Rightarrow> u64 \<Rightarrow> nat option" where
  "peer_index_of peer_ids peer_id =
     foldl (\<lambda>found i. if get2 i peer_ids = peer_id then Some i else found) None [0, 1]"

definition handle_vote_reply :: "u64 \<Rightarrow> request_vote_reply \<Rightarrow> persistent_metadata \<Rightarrow> raft_election \<Rightarrow> os
    \<Rightarrow> vote_reply_outcome \<times> persistent_metadata \<times> raft_election \<times> os" where
  "handle_vote_reply peer_id reply metadata e w =
     (if el_unusable e then (PersistenceError, metadata, e, w)
      else
        (case refresh_role_from_metadata metadata e of (refreshed, e) \<Rightarrow>
         if refreshed then (SteppedDown, metadata, e, w)
         else
           (case peer_index_of (el_peer_ids e) peer_id of
              None \<Rightarrow> (Ignored, metadata, e, w)
            | Some peer_index \<Rightarrow>
                if rvr_term reply > current_term (pm_state metadata) then
                  (case advance_term (rvr_term reply) metadata w of (term_result, metadata, w) \<Rightarrow>
                   if term_result \<noteq> Persisted
                   then (PersistenceError, metadata, (become_follower e)\<lparr>el_unusable := True\<rparr>, w)
                   else (SteppedDown, metadata, become_follower e, w))
                else if el_role e \<noteq> Candidate \<or> rvr_term reply \<noteq> el_election_term e
                        \<or> get2 peer_index (el_replied e)
                then (Ignored, metadata, e, w)
                else
                  (let e = e\<lparr>el_replied := set2 peer_index True (el_replied e)\<rparr>
                   in if \<not> rvr_vote_granted reply then (Recorded, metadata, e, w)
                   else
                     (let e = e\<lparr>el_granted_votes := el_granted_votes e + 1\<rparr>
                      in if el_granted_votes e \<ge> 2
                         then (BecameLeader, metadata, e\<lparr>el_role := Leader\<rparr>, w)
                         else (Recorded, metadata, e, w))))))"

section \<open>The class invariant\<close>

definition election_inv :: "raft_metadata \<Rightarrow> raft_election \<Rightarrow> bool" where
  "election_inv m e \<longleftrightarrow>
     el_self_id e \<noteq> fst (el_peer_ids e) \<and> el_self_id e \<noteq> snd (el_peer_ids e)
     \<and> fst (el_peer_ids e) \<noteq> snd (el_peer_ids e)
     \<and> el_election_term e \<le> current_term m
     \<and> (el_election_term e = 0 \<longleftrightarrow> el_role e = Follower)
     \<and> (el_role e \<noteq> Follower \<longrightarrow> el_election_term e = current_term m \<longrightarrow> voted_for m = Some (el_self_id e))
     \<and> (el_unusable e \<longrightarrow> el_role e = Follower)
     \<and> el_granted_votes e = (case el_role e of Follower \<Rightarrow> 0 | Candidate \<Rightarrow> 1 | Leader \<Rightarrow> 2)"

lemma peer_index_of_iff:
  "peer_index_of ids p = (if snd ids = p then Some 1 else if fst ids = p then Some 0 else None)"
  by (simp add: peer_index_of_def)

lemma new_election_inv: "new_election self ids = Some e \<Longrightarrow> election_inv m e"
  by (auto simp: new_election_def election_inv_def split: if_splits)

lemma become_follower_inv: "election_inv m e \<Longrightarrow> election_inv m' (become_follower e)"
  by (simp add: election_inv_def become_follower_def)

lemma become_unusable_inv: "election_inv m e \<Longrightarrow> election_inv m' ((become_follower e)\<lparr>el_unusable := b\<rparr>)"
  by (simp add: election_inv_def become_follower_def)

lemma become_follower_fields [simp]:
  "el_role (become_follower e) = Follower" "el_self_id (become_follower e) = el_self_id e"
  "el_peer_ids (become_follower e) = el_peer_ids e" "el_unusable (become_follower e) = el_unusable e"
  "el_election_term (become_follower e) = 0"
  by (simp_all add: become_follower_def)

text \<open>The metadata may move under the election as a vote store moves: forward, votes kept.\<close>

definition metadata_le :: "raft_metadata \<Rightarrow> raft_metadata \<Rightarrow> bool" where
  "metadata_le m m' \<longleftrightarrow> current_term m \<le> current_term m'
     \<and> (current_term m' = current_term m \<longrightarrow> voted_for m \<noteq> None \<longrightarrow> voted_for m' = voted_for m)"

lemma metadata_le_refl [simp]: "metadata_le m m"
  by (simp add: metadata_le_def)

lemma metadata_le_trans [trans]: "metadata_le a b \<Longrightarrow> metadata_le b c \<Longrightarrow> metadata_le a c"
  unfolding metadata_le_def by (metis order_antisym order_trans)

lemma metadata_le_term_seen [simp]: "metadata_le m (term_seen t m)"
  by (auto simp: metadata_le_def term_seen_def)

lemma metadata_le_advance: "advance_term t m w = (r, m', w') \<Longrightarrow> metadata_le (pm_state m) (pm_state m')"
  by (drule advance_term_outcome) (auto simp: metadata_le_def)

lemma metadata_le_vote: "vote_for c m w = (r, m', w') \<Longrightarrow> metadata_le (pm_state m) (pm_state m')"
  by (drule vote_for_outcome) (auto simp: metadata_le_def)

lemma metadata_le_request_vote:
  "handle_request_vote log req m w = (res, m', w') \<Longrightarrow> metadata_le (pm_state m) (pm_state m')"
proof -
  assume run: "handle_request_vote log req m w = (res, m', w')"
  then obtain us where us: "run_updates advance_term vote_for us m w = (m', w')"
    using handle_request_vote_store by blast
  show ?thesis
    using metadata_store.run_updates_law [OF us] by (auto simp: metadata_le_def)
qed

lemma election_inv_mono: "election_inv m e \<Longrightarrow> metadata_le m m' \<Longrightarrow> election_inv m' e"
  unfolding election_inv_def metadata_le_def
  by (auto split: raft_role.splits)

lemma refresh_outcome:
  "refresh_role_from_metadata m e = (b, e') \<Longrightarrow>
     (b \<longleftrightarrow> el_role e \<noteq> election_role m e) \<and> el_role e' = election_role m e
     \<and> e' = (if b then become_follower e else e)"
  by (auto simp: refresh_role_from_metadata_def election_role_def become_follower_def split: if_splits)

lemma election_role_inv:
  "election_inv (pm_state m) e \<Longrightarrow>
     election_role m e = (if el_election_term e = current_term (pm_state m) then el_role e else Follower)"
  by (auto simp: election_role_def election_inv_def)

lemma start_election_outcome:
  assumes inv: "election_inv (pm_state m) e" and run: "start_election log m e w = (res, m', e', w')"
  shows "election_inv (pm_state m') e' \<and> metadata_le (pm_state m) (pm_state m')
    \<and> el_self_id e' = el_self_id e \<and> el_peer_ids e' = el_peer_ids e
    \<and> (case res of
         Inl err \<Rightarrow> (err = AlreadyLeader \<longrightarrow> election_role m e = Leader \<and> m' = m \<and> e' = e)
           \<and> (err \<noteq> AlreadyLeader \<longrightarrow> election_role m' e' \<noteq> Leader)
       | Inr req \<Rightarrow> election_role m e \<noteq> Leader
           \<and> current_term (pm_state m') = current_term (pm_state m) + 1
           \<and> current_term (pm_state m) < current_term (pm_state m')
           \<and> voted_for (pm_state m') = Some (el_self_id e)
           \<and> el_role e' = Candidate \<and> el_election_term e' = current_term (pm_state m')
           \<and> req = \<lparr>rv_term = current_term (pm_state m'), rv_candidate_id = el_self_id e,
                    rv_last_log_index = last_index log, rv_last_log_term = last_term log\<rparr>)"
proof (cases "el_unusable e")
  case True
  then show ?thesis using inv run by (auto simp: start_election_def election_inv_def election_role_def)
next
  case usable: False
  let ?next = "current_term (pm_state m) + 1"
  obtain b e1 where rf: "refresh_role_from_metadata m e = (b, e1)" by fastforce
  note e1 = refresh_outcome [OF rf]
  have inv1: "election_inv (pm_state m) e1"
    using e1 inv become_follower_inv [OF inv] by (simp split: if_splits)
  have same: "el_self_id e1 = el_self_id e" "el_peer_ids e1 = el_peer_ids e" using e1 by simp_all
  have role1: "election_role m e1 = el_role e1"
    using e1 by (auto simp: election_role_def split: if_splits)
  obtain tr m1 w1 where a: "advance_term ?next m w = (tr, m1, w1)" by (metis prod_cases3)
  obtain vr m2 w2 where v: "vote_for (el_self_id e) m1 w1 = (vr, m2, w2)" by (metis prod_cases3)
  note un = run [unfolded start_election_def rf prod.case Let_def same a v]
  note le = metadata_le_advance [OF a] metadata_le_trans [OF metadata_le_advance [OF a] metadata_le_vote [OF v]]
  consider (leader) "el_role e1 = Leader" | (last) "el_role e1 \<noteq> Leader" "current_term (pm_state m) = 0xFFFFFFFFFFFFFFFF"
    | (stale) "el_role e1 \<noteq> Leader" "current_term (pm_state m) \<noteq> 0xFFFFFFFFFFFFFFFF" "tr \<noteq> Persisted"
    | (vote) "el_role e1 \<noteq> Leader" "current_term (pm_state m) \<noteq> 0xFFFFFFFFFFFFFFFF" "tr = Persisted"
        "vr \<noteq> Persisted" "vr \<noteq> Unchanged"
    | (ok) "el_role e1 \<noteq> Leader" "current_term (pm_state m) \<noteq> 0xFFFFFFFFFFFFFFFF" "tr = Persisted"
        "vr = Persisted \<or> vr = Unchanged" by blast
  then show ?thesis
  proof cases
    case leader
    then have "res = Inl AlreadyLeader" "m' = m" "e' = e1" using un usable by simp_all
    moreover have "\<not> b" using e1 leader by auto
    then have "e1 = e" using e1 by simp
    ultimately show ?thesis using inv1 role1 leader by simp
  next
    case last
    then show ?thesis using un usable inv1 role1 same by auto
  next
    case stale
    then show ?thesis
      using un usable same le become_unusable_inv [OF inv1] by (auto simp: election_role_def)
  next
    case vote
    then show ?thesis
      using un usable same le become_unusable_inv [OF inv1] by (auto simp: election_role_def)
  next
    case ok
    have m1: "pm_state m1 = \<lparr>current_term = ?next, voted_for = None\<rparr>" "current_term (pm_state m) < ?next"
      using advance_term_outcome [OF a] ok by auto
    have m2: "current_term (pm_state m2) = ?next" "voted_for (pm_state m2) = Some (el_self_id e)"
      using vote_for_outcome [OF v] ok m1 by auto
    have nonzero: "?next \<noteq> 0" using m1(2) by auto
    have out: "res = Inr \<lparr>rv_term = ?next, rv_candidate_id = el_self_id e,
          rv_last_log_index = last_index log, rv_last_log_term = last_term log\<rparr>" "m' = m2"
        "e' = e1\<lparr>el_role := Candidate, el_election_term := ?next, el_replied := (False, False),
               el_granted_votes := 1\<rparr>"
      using un ok usable by auto
    have "\<not> el_unusable e1" using e1 usable by simp
    then have "election_inv (pm_state m2) e'"
      using inv1 m2 nonzero same by (simp add: election_inv_def out(3))
    moreover have "election_role m e \<noteq> Leader" using ok(1) e1 by metis
    ultimately show ?thesis
      using m2 m1(2) le(2) same by (simp add: out)
  qed
qed

lemma handle_vote_reply_outcome:
  assumes inv: "election_inv (pm_state m) e"
    and run: "handle_vote_reply p reply m e w = (res, m', e', w')"
  shows "election_inv (pm_state m') e' \<and> metadata_le (pm_state m) (pm_state m')
    \<and> el_self_id e' = el_self_id e \<and> el_peer_ids e' = el_peer_ids e
    \<and> (res = BecameLeader \<longrightarrow>
         m' = m \<and> w' = w \<and> election_role m e = Candidate \<and> election_role m e' = Leader
         \<and> el_election_term e' = current_term (pm_state m)
         \<and> p \<in> set (list2 (el_peer_ids e)) \<and> rvr_vote_granted reply
         \<and> rvr_term reply = current_term (pm_state m))
    \<and> (election_role m' e' = Leader \<longrightarrow> res \<noteq> BecameLeader \<longrightarrow> election_role m e = Leader)
    \<and> (res \<in> {Ignored, Recorded} \<longrightarrow> m' = m \<and> w' = w \<and> election_role m e' = election_role m e)
    \<and> (res \<in> {SteppedDown, PersistenceError} \<longrightarrow> election_role m' e' = Follower)"
proof (cases "el_unusable e")
  case True
  then show ?thesis using inv run by (auto simp: handle_vote_reply_def election_inv_def election_role_def)
next
  case usable: False
  obtain b e1 where rf: "refresh_role_from_metadata m e = (b, e1)" by fastforce
  note e1 = refresh_outcome [OF rf]
  show ?thesis
  proof (cases b)
    case True
    then show ?thesis
      using run usable rf e1 become_follower_inv [OF inv]
      by (auto simp: handle_vote_reply_def election_role_def)
  next
    case b: False
    then have e: "e1 = e" "el_role e = election_role m e" using e1 by auto
    show ?thesis
    proof (cases "peer_index_of (el_peer_ids e) p")
      case None
      then show ?thesis using run usable rf b e inv by (simp add: handle_vote_reply_def)
    next
      case (Some i)
      then have p: "p \<in> set (list2 (el_peer_ids e))" by (auto simp: peer_index_of_iff split: if_splits)
      show ?thesis
      proof (cases "rvr_term reply > current_term (pm_state m)")
        case True
        obtain tr m1 w1 where a: "advance_term (rvr_term reply) m w = (tr, m1, w1)" by (metis prod_cases3)
        then show ?thesis
          using run usable rf b e Some True metadata_le_advance [OF a] become_follower_inv [OF inv]
            become_unusable_inv [OF inv]
          by (auto simp: handle_vote_reply_def election_role_def split: if_splits)
      next
        case False
        have un: "(if el_role e \<noteq> Candidate \<or> rvr_term reply \<noteq> el_election_term e \<or> get2 i (el_replied e)
            then (Ignored, m, e, w)
            else if \<not> rvr_vote_granted reply
            then (Recorded, m, e\<lparr>el_replied := set2 i True (el_replied e)\<rparr>, w)
            else if el_granted_votes e + 1 \<ge> 2
            then (BecameLeader, m, e\<lparr>el_replied := set2 i True (el_replied e),
                    el_granted_votes := el_granted_votes e + 1, el_role := Leader\<rparr>, w)
            else (Recorded, m, e\<lparr>el_replied := set2 i True (el_replied e),
                    el_granted_votes := el_granted_votes e + 1\<rparr>, w)) = (res, m', e', w')"
          using run usable rf b e Some False
          by (simp add: handle_vote_reply_def Let_def cong: if_cong split del: if_split)
        show ?thesis
        proof (cases "el_role e \<noteq> Candidate \<or> rvr_term reply \<noteq> el_election_term e \<or> get2 i (el_replied e)")
          case True
          then have "res = Ignored" "m' = m" "e' = e" "w' = w" using un by simp_all
          then show ?thesis using inv by simp
        next
          case cand: False
          then have role: "el_role e = Candidate" "election_role m e = Candidate" using e(2) by simp_all
          have votes: "el_granted_votes e + 1 = 2" using inv role(1) by (simp add: election_inv_def)
          have trm: "el_election_term e = current_term (pm_state m)"
            using election_role_inv [OF inv] role by (simp split: if_splits)
          show ?thesis
          proof (cases "rvr_vote_granted reply")
            case False
            then have out: "res = Recorded" "m' = m" "w' = w" "e' = e\<lparr>el_replied := set2 i True (el_replied e)\<rparr>"
              using un cand by simp_all
            have "election_inv (pm_state m) e'" using inv by (simp add: election_inv_def out(4))
            moreover have "election_role m e' = election_role m e"
              by (simp add: election_role_def out(4))
            ultimately show ?thesis using out role by simp
          next
            case True
            then have out: "res = BecameLeader" "m' = m" "w' = w"
                "e' = e\<lparr>el_replied := set2 i True (el_replied e), el_granted_votes := 2, el_role := Leader\<rparr>"
              using un cand by (simp_all add: votes)
            have "election_inv (pm_state m) e'" using inv role(1) by (simp add: election_inv_def out(4))
            moreover have "election_role m e' = Leader"
              using role(2) by (auto simp: election_role_def out(4) split: if_splits)
            ultimately show ?thesis using True cand p role trm out by simp
          qed
        qed
      qed
    qed
  qed
qed

lemma observe_leader_inv: "election_inv m' e \<Longrightarrow> election_inv m' (observe_leader t m e)"
  by (simp add: observe_leader_def become_follower_inv)

section \<open>Properties\<close>

text \<open>C25: What it takes to become leader. A vote reply makes the node leader only if it was a candidate
  of its durable term, the reply is from one of its two peers, for that term, and grants the vote; the
  node has then two of three votes, its own and the peer's, and its metadata is not touched.\<close>

theorem leader_needs_majority:
  assumes "election_inv (pm_state m) e" and "handle_vote_reply p reply m e w = (BecameLeader, m', e', w')"
  shows "m' = m \<and> election_role m e = Candidate \<and> voted_for (pm_state m) = Some (el_self_id e)
    \<and> p \<in> set (list2 (el_peer_ids e)) \<and> p \<noteq> el_self_id e
    \<and> rvr_vote_granted reply \<and> rvr_term reply = current_term (pm_state m)
    \<and> granted_votes m' e' = 2"
proof -
  note out = handle_vote_reply_outcome [OF assms]
  have "voted_for (pm_state m) = Some (el_self_id e)"
    using out by (auto simp: election_role_def split: if_splits)
  moreover have "el_granted_votes e' = 2"
    using out by (auto simp: election_inv_def election_role_def split: if_splits)
  ultimately show ?thesis using out assms(1) by (auto simp: granted_votes_def election_inv_def)
qed

definition sample_candidate :: raft_election where
  "sample_candidate = \<lparr>el_self_id = 1, el_peer_ids = (2, 3), el_role = Candidate, el_election_term = 3,
     el_replied = (False, False), el_granted_votes = 1, el_unusable = False\<rparr>"

lemma sample_candidate_inv: "election_inv (pm_state (sample_store (Some 1))) sample_candidate"
  by (simp add: election_inv_def sample_store_def sample_candidate_def)

theorem leader_needs_majority_witness:
  "granted_votes (sample_store (Some 1))
     (fst (snd (snd (handle_vote_reply 2 \<lparr>rvr_term = 3, rvr_vote_granted = True\<rparr> (sample_store (Some 1))
        sample_candidate \<lparr>script = [], trace = []\<rparr>)))) = 2"
proof -
  let ?e = "sample_candidate\<lparr>el_replied := (True, False), el_granted_votes := 2, el_role := Leader\<rparr>"
  have h: "handle_vote_reply 2 \<lparr>rvr_term = 3, rvr_vote_granted = True\<rparr> (sample_store (Some 1))
      sample_candidate \<lparr>script = [], trace = []\<rparr> = (BecameLeader, sample_store (Some 1), ?e, \<lparr>script = [], trace = []\<rparr>)"
    by (simp add: handle_vote_reply_def refresh_role_from_metadata_def election_role_def sample_candidate_def
        sample_store_def peer_index_of_def Let_def)
  show ?thesis using leader_needs_majority [OF sample_candidate_inv h] unfolding h by simp
qed

text \<open>Starting an election. It succeeds only for a node that is not leader, moves to the next term
  without wrap-around, records the node's vote for itself durably before the request is returned,
  and asks for votes with the position and term of the last log entry.\<close>

theorem election_votes_for_itself_first:
  assumes "election_inv (pm_state m) e" and "start_election log m e w = (Inr req, m', e', w')"
  shows "election_role m e \<noteq> Leader \<and> current_term (pm_state m) < current_term (pm_state m')
    \<and> current_term (pm_state m') = current_term (pm_state m) + 1
    \<and> voted_for (pm_state m') = Some (el_self_id e) \<and> election_role m' e' = Candidate
    \<and> req = \<lparr>rv_term = current_term (pm_state m'), rv_candidate_id = el_self_id e,
             rv_last_log_index = last_index log, rv_last_log_term = last_term log\<rparr>"
  using start_election_outcome [OF assms] by (auto simp: election_role_def)

definition sample_follower :: raft_election where
  "sample_follower = \<lparr>el_self_id = 1, el_peer_ids = (2, 3), el_role = Follower, el_election_term = 0,
     el_replied = (False, False), el_granted_votes = 0, el_unusable = False\<rparr>"

lemma sample_start:
  "\<exists>req e' w'. start_election empty_log (sample_store None) sample_follower
     \<lparr>script = good_answers @ good_answers, trace = []\<rparr>
     = (Inr req, (sample_store None)\<lparr>pm_state := \<lparr>current_term = 4, voted_for = Some 1\<rparr>\<rparr>, e', w')"
proof -
  have "valid_metadata \<lparr>current_term = 4, voted_for = None\<rparr>" by (simp add: valid_metadata_def)
  then obtain t1 where p1: "persist \<lparr>current_term = 4, voted_for = None\<rparr> (sample_store None)
      \<lparr>script = good_answers @ good_answers, trace = []\<rparr>
      = (Persisted, (sample_store None)\<lparr>pm_state := \<lparr>current_term = 4, voted_for = None\<rparr>\<rparr>,
         \<lparr>script = good_answers, trace = t1\<rparr>)"
    using persist_good_answers by metis
  have "valid_metadata \<lparr>current_term = 4, voted_for = Some 1\<rparr>" by (simp add: valid_metadata_def)
  then obtain t2 where p2: "persist \<lparr>current_term = 4, voted_for = Some 1\<rparr>
      ((sample_store None)\<lparr>pm_state := \<lparr>current_term = 4, voted_for = None\<rparr>\<rparr>)
      \<lparr>script = good_answers, trace = t1\<rparr>
      = (Persisted, (sample_store None)\<lparr>pm_state := \<lparr>current_term = 4, voted_for = None\<rparr>,
           pm_state := \<lparr>current_term = 4, voted_for = Some 1\<rparr>\<rparr>, \<lparr>script = [], trace = t2\<rparr>)"
    using persist_good_answers by (metis append_Nil2)
  show ?thesis
    using p1 p2
    by (simp add: start_election_def refresh_role_from_metadata_def sample_follower_def advance_term_def
        vote_for_def sample_store_def Let_def)
qed

theorem election_votes_for_itself_first_witness:
  "\<exists>e' w'. snd (start_election empty_log (sample_store None) sample_follower
      \<lparr>script = good_answers @ good_answers, trace = []\<rparr>)
    = ((sample_store None)\<lparr>pm_state := \<lparr>current_term = 4, voted_for = Some 1\<rparr>\<rparr>, e', w')
    \<and> election_role ((sample_store None)\<lparr>pm_state := \<lparr>current_term = 4, voted_for = Some 1\<rparr>\<rparr>) e' = Candidate"
proof -
  have inv: "election_inv (pm_state (sample_store None)) sample_follower"
    by (simp add: election_inv_def sample_store_def sample_follower_def)
  obtain req e' w' where s: "start_election empty_log (sample_store None) sample_follower
     \<lparr>script = good_answers @ good_answers, trace = []\<rparr>
     = (Inr req, (sample_store None)\<lparr>pm_state := \<lparr>current_term = 4, voted_for = Some 1\<rparr>\<rparr>, e', w')"
    using sample_start by blast
  show ?thesis using election_votes_for_itself_first [OF inv s] s by auto
qed

text \<open>The last term is not left. A node that is not leader and whose term is the largest 64-bit value
  refuses to start an election instead of wrapping to term zero, and writes nothing.\<close>

theorem last_term_not_left:
  assumes "election_inv (pm_state m) e" and "current_term (pm_state m) = 2 ^ 64 - 1"
    and "\<not> el_unusable e" and "election_role m e \<noteq> Leader"
  shows "\<exists>e'. start_election log m e w = (Inl TermExhausted, m, e', w) \<and> election_role m e' = election_role m e"
proof -
  obtain b e1 where rf: "refresh_role_from_metadata m e = (b, e1)" by fastforce
  note e1 = refresh_outcome [OF rf]
  have "start_election log m e w = (Inl TermExhausted, m, e1, w)"
    using assms(2-4) rf e1 by (simp add: start_election_def)
  moreover have "election_role m e1 = election_role m e" using e1 by (auto simp: election_role_def split: if_splits)
  ultimately show ?thesis by blast
qed

theorem last_term_not_left_witness:
  "fst (start_election empty_log \<lparr>pm_path = [109], pm_state = \<lparr>current_term = 2 ^ 64 - 1, voted_for = None\<rparr>,
     pm_io_failed = False\<rparr> sample_follower \<lparr>script = [], trace = []\<rparr>) = Inl TermExhausted"
proof -
  let ?m = "\<lparr>pm_path = [109], pm_state = \<lparr>current_term = 2 ^ 64 - 1, voted_for = None\<rparr>, pm_io_failed = False\<rparr>"
  have "election_inv (pm_state ?m) sample_follower" "\<not> el_unusable sample_follower"
      "election_role ?m sample_follower \<noteq> Leader"
    by (simp_all add: election_inv_def sample_follower_def election_role_def)
  from last_term_not_left [OF this(1) _ this(2,3)] show ?thesis by (metis fst_conv raft_metadata.select_convs(1) persistent_metadata.select_convs(2))
qed

end
