(* ===== verification/Raft_Append.thy ===== *)
theory Raft_Append
  imports Persistent_Metadata Persistent_Log
begin

text \<open>
  The follower's side of replication (include/dkv/raft_append.hpp, src/raft_append.cpp).

  \<^item> \<open>valid_entries\<close> is the request check, \<open>append_entries_loop\<close> the loop over the entries and
    \<open>handle_append_entries\<close> the handler; the caller's \<open>commit_index\<close> is passed and returned.
  \<^item> \<open>merge_entries\<close> is the abstract effect on the log. \<open>append_entries_loop_outcome\<close> shows that
    the loop implements it, keeps \<open>log_wf\<close>, and never changes a committed entry, whether it
    succeeds or fails half way.
\<close>

record append_entries =
  ae_term :: u64
  ae_leader_id :: u64
  ae_prev_log_index :: u64
  ae_prev_log_term :: u64
  ae_entries :: "log_entry list"
  ae_leader_commit :: u64
  ae_read_context :: u64

record append_entries_reply =
  aer_term :: u64
  aer_success :: bool

datatype append_entries_handle_error = InvalidRequest | CommittedConflict | PersistenceError

section \<open>Operations\<close>

primrec valid_entries_loop :: "u64 \<Rightarrow> log_entry list \<Rightarrow> u64 \<Rightarrow> u64 \<Rightarrow> bool" where
  "valid_entries_loop request_term [] next_index previous_term = True"
| "valid_entries_loop request_term (entry # entries) next_index previous_term =
     (let next_index = next_index + 1
      in if entry_index entry \<noteq> next_index \<or> entry_term entry < previous_term
            \<or> entry_term entry > request_term \<or> isl (encode_log_entry entry)
         then False
         else valid_entries_loop request_term entries next_index (entry_term entry))"

definition valid_entries :: "append_entries \<Rightarrow> bool" where
  "valid_entries request =
     (if (ae_prev_log_index request = 0) \<noteq> (ae_prev_log_term request = 0)
         \<or> ae_prev_log_term request > ae_term request
         \<or> (ae_read_context request \<noteq> 0 \<and>
            (ae_prev_log_index request \<noteq> 0 \<or> ae_entries request \<noteq> []))
         \<or> length (ae_entries request) > unat (0xFFFFFFFFFFFFFFFF - ae_prev_log_index request)
      then False
      else valid_entries_loop (ae_term request) (ae_entries request)
             (ae_prev_log_index request) (ae_prev_log_term request))"

text \<open>The loop over \<open>request.entries\<close>: \<open>Some e\<close> when it returns the error \<open>e\<close>, \<open>None\<close> at its end.\<close>

primrec append_entries_loop :: "log_entry list \<Rightarrow> u64 \<Rightarrow> persistent_log \<Rightarrow> os
    \<Rightarrow> append_entries_handle_error option \<times> persistent_log \<times> os" where
  "append_entries_loop [] commit_index log w = (None, log, w)"
| "append_entries_loop (entry # entries) commit_index log w =
     (case entry_at (entry_index entry) log of
        Some existing \<Rightarrow>
          if entry_term existing = entry_term entry
          then (if entry_command existing \<noteq> entry_command entry then (Some InvalidRequest, log, w)
                else append_entries_loop entries commit_index log w)
          else if entry_index entry \<le> commit_index then (Some CommittedConflict, log, w)
          else
            (case truncate_suffix (entry_index entry) log w of (truncated, log, w) \<Rightarrow>
             if truncated \<noteq> Truncated then (Some PersistenceError, log, w)
             else
               (case append_entry entry log w of (appended, log, w) \<Rightarrow>
                if appended \<noteq> Appended then (Some PersistenceError, log, w)
                else append_entries_loop entries commit_index log w))
      | None \<Rightarrow>
          (case append_entry entry log w of (appended, log, w) \<Rightarrow>
           if appended \<noteq> Appended then (Some PersistenceError, log, w)
           else append_entries_loop entries commit_index log w))"

definition handle_append_entries ::
  "append_entries \<Rightarrow> persistent_metadata \<Rightarrow> persistent_log \<Rightarrow> u64 \<Rightarrow> os
     \<Rightarrow> (append_entries_handle_error + append_entries_reply)
        \<times> persistent_metadata \<times> persistent_log \<times> u64 \<times> os" where
  "handle_append_entries request metadata log commit_index w =
     (case advance_term (ae_term request) metadata w of (term_result, metadata, w) \<Rightarrow>
        if term_result = metadata_update_result.IoError
        then (Inl PersistenceError, metadata, log, commit_index, w)
        else
          (let current = current_term (pm_state metadata)
           in if ae_term request = 0 \<or> ae_term request < current
              then (Inr \<lparr>aer_term = current, aer_success = False\<rparr>, metadata, log, commit_index, w)
              else if \<not> valid_entries request \<or> commit_index > last_index log
              then (Inl InvalidRequest, metadata, log, commit_index, w)
              else if ae_prev_log_index request \<noteq> 0
                      \<and> (case entry_at (ae_prev_log_index request) log of
                           None \<Rightarrow> True
                         | Some previous \<Rightarrow> entry_term previous \<noteq> ae_prev_log_term request)
              then (Inr \<lparr>aer_term = current, aer_success = False\<rparr>, metadata, log, commit_index, w)
              else
                (case append_entries_loop (ae_entries request) commit_index log w of (failed, log, w) \<Rightarrow>
                   case failed of
                     Some e \<Rightarrow> (Inl e, metadata, log, commit_index, w)
                   | None \<Rightarrow>
                       (let matched_index =
                              ae_prev_log_index request + of_nat (length (ae_entries request))
                        in (Inr \<lparr>aer_term = current, aer_success = True\<rparr>, metadata, log,
                            max commit_index (min (ae_leader_commit request) matched_index), w)))))"

section \<open>The request check\<close>

definition batch_ok :: "u64 \<Rightarrow> nat \<Rightarrow> u64 \<Rightarrow> log_entry list \<Rightarrow> bool" where
  "batch_ok t p pt es \<longleftrightarrow>
     (\<forall>i < length es. entry_index (es ! i) = of_nat (p + Suc i) \<and> encodable (es ! i))
     \<and> sorted (pt # map entry_term es) \<and> (\<forall>e \<in> set es. entry_term e \<le> t)"

lemma batch_ok_Cons:
  "batch_ok t p pt (e # es) \<longleftrightarrow>
     entry_index e = of_nat p + 1 \<and> encodable e \<and> pt \<le> entry_term e \<and> entry_term e \<le> t
     \<and> batch_ok t (Suc p) (entry_term e) es"
  by (auto simp: batch_ok_def nth_Cons' All_less_Suc2)

lemma valid_entries_loop_iff:
  "valid_entries_loop t es (of_nat p) pt \<longleftrightarrow> batch_ok t p pt es"
proof (induction es arbitrary: p pt)
  case Nil
  then show ?case by (simp add: batch_ok_def)
next
  case (Cons e es)
  show ?case
    using Cons [of "Suc p"] by (auto simp: batch_ok_Cons encodable_def Let_def not_less algebra_simps)
qed

lemma valid_entries_iff:
  "valid_entries r \<longleftrightarrow>
     (ae_prev_log_index r = 0 \<longleftrightarrow> ae_prev_log_term r = 0)
     \<and> ae_prev_log_term r \<le> ae_term r
     \<and> (ae_read_context r \<noteq> 0 \<longrightarrow> ae_prev_log_index r = 0 \<and> ae_entries r = [])
     \<and> unat (ae_prev_log_index r) + length (ae_entries r) < 2 ^ 64
     \<and> batch_ok (ae_term r) (unat (ae_prev_log_index r)) (ae_prev_log_term r) (ae_entries r)"
proof -
  have "unat (0xFFFFFFFFFFFFFFFF - ae_prev_log_index r) = 2 ^ 64 - 1 - unat (ae_prev_log_index r)"
    by (subst unat_sub) (simp_all add: word_le_nat_alt)
  then show ?thesis
    using valid_entries_loop_iff [of "ae_term r" "ae_entries r" "unat (ae_prev_log_index r)"]
      unat_less_64 [of "ae_prev_log_index r"]
    by (auto simp: valid_entries_def not_less)
qed

section \<open>The effect on the log\<close>

text \<open>
  The log after a batch placed after position \<open>p\<close>: unchanged if it already holds the batch
  there, otherwise cut at \<open>p\<close> and extended by the batch.
\<close>

definition merge_entries :: "log_entry list \<Rightarrow> nat \<Rightarrow> log_entry list \<Rightarrow> log_entry list" where
  "merge_entries old p es =
     (if take (length es) (drop p old) = es then old else take p old @ es)"

lemma merge_entries_Nil [simp]: "merge_entries old p [] = old"
  by (simp add: merge_entries_def)

lemma merge_entries_same:
  "p < length old \<Longrightarrow> old ! p = e \<Longrightarrow> merge_entries old p (e # es) = merge_entries old (Suc p) es"
  by (auto simp: merge_entries_def Cons_nth_drop_Suc [symmetric] take_Suc_conv_app_nth)

lemma merge_entries_new:
  "p \<le> length old \<Longrightarrow> \<not> (p < length old \<and> old ! p = e) \<Longrightarrow>
     merge_entries old p (e # es) = merge_entries (take p old @ [e]) (Suc p) es"
  by (cases "p < length old")
    (auto simp: merge_entries_def Cons_nth_drop_Suc [symmetric])

lemma merge_entries_has_batch:
  "p \<le> length old \<Longrightarrow> take (p + length es) (merge_entries old p es) = take p old @ es"
  by (auto simp: merge_entries_def take_add)

lemma sequential_eqI:
  assumes "sequential es" and "i < length es" and "entry_index e = of_nat (Suc i)"
    and "entry_term (es ! i) = entry_term e" and "entry_command (es ! i) = entry_command e"
  shows "es ! i = e"
  using assms by (intro log_entry.equality) (simp_all add: sequential_def)

lemma append_entries_loop_outcome:
  assumes "log_wf l" and "p \<le> length (log_entries l)" and "p + length es < 2 ^ 64"
    and "batch_ok t p pt es" and "append_entries_loop es commit l w = (r, l', w')"
  shows "log_wf l'
    \<and> (\<exists>j \<le> length es. log_entries l' = log_entries l \<or> log_entries l' = take p (log_entries l) @ take j es)
    \<and> (unat commit \<le> length (log_entries l) \<longrightarrow>
         take (unat commit) (log_entries l') = take (unat commit) (log_entries l))
    \<and> (r = None \<longrightarrow> log_entries l' = merge_entries (log_entries l) p es)"
  using assms
proof (induction es arbitrary: p pt l w)
  case Nil
  then show ?case by auto
next
  case (Cons e es)
  let ?old = "log_entries l"
  have idx: "unat (entry_index e) = Suc p" and rest: "batch_ok t (Suc p) (entry_term e) es"
    and index: "entry_index e = of_nat (Suc p)"
    using Cons.prems(3,4) unat_of_nat_64 [of "Suc p"] by (simp_all add: batch_ok_Cons add.commute)
  have seq: "sequential ?old" using Cons.prems(1) by (rule raft_log.inv_sequential)
  have place: "log_wf k \<and> log_entries k = take p ?old @ [e] \<Longrightarrow>
      append_entries_loop es commit k v = (r, l', w') \<Longrightarrow> unat commit \<le> length ?old \<longrightarrow> unat commit \<le> p \<Longrightarrow>
      \<not> (p < length ?old \<and> ?old ! p = e) \<Longrightarrow> ?case" for k v
  proof -
    assume k: "log_wf k \<and> log_entries k = take p ?old @ [e]"
      and run: "append_entries_loop es commit k v = (r, l', w')"
      and c: "unat commit \<le> length ?old \<longrightarrow> unat commit \<le> p" and new: "\<not> (p < length ?old \<and> ?old ! p = e)"
    have len: "length (log_entries k) = Suc p" using k Cons.prems(2) by (simp del: length_log_entries)
    have IH: "log_wf l'
      \<and> (\<exists>j \<le> length es. log_entries l' = log_entries k \<or> log_entries l' = take (Suc p) (log_entries k) @ take j es)
      \<and> (unat commit \<le> length (log_entries k) \<longrightarrow>
           take (unat commit) (log_entries l') = take (unat commit) (log_entries k))
      \<and> (r = None \<longrightarrow> log_entries l' = merge_entries (log_entries k) (Suc p) es)"
      using Cons.IH [OF _ _ _ rest run] k len Cons.prems(3) by simp
    then obtain j where "j \<le> length es" "log_entries l' = log_entries k \<or> log_entries l' = take (Suc p) (log_entries k) @ take j es"
      by blast
    then have "\<exists>j \<le> length (e # es). log_entries l' = ?old \<or> log_entries l' = take p ?old @ take j (e # es)"
      using k len Cons.prems(2)
      by (intro exI [of _ "if log_entries l' = log_entries k then 1 else Suc j"]) auto
    moreover have "take (unat commit) (log_entries k) = take (unat commit) ?old" if "unat commit \<le> length ?old"
      using k c that Cons.prems(2) by (simp add: min_absorb1 del: length_log_entries)
    ultimately show ?case
      using IH c len k merge_entries_new [OF Cons.prems(2) new]
      by (auto simp del: length_log_entries)
  qed
  show ?case
  proof (cases "entry_at (entry_index e) l")
    case None
    then have p: "p = length ?old"
      using Cons.prems(1,2) idx by (simp add: entry_at_None)
    obtain a k v where ap: "append_entry e l w = (a, k, v)" by (metis prod_cases3)
    note k = raft_log.append_inv [OF Cons.prems(1) ap] raft_log.append_entries [OF Cons.prems(1) ap]
    show ?thesis
    proof (cases "a = Appended")
      case True
      then show ?thesis
        using place [of k v] k p Cons.prems(5) None ap by simp
    next
      case False
      then show ?thesis using k None ap Cons.prems(5) by auto
    qed
  next
    case (Some x)
    then have x: "p < length ?old" "?old ! p = x"
      using Cons.prems(1) idx by (simp_all add: entry_at_Some)
    show ?thesis
    proof (cases "entry_term x = entry_term e")
      case same: True
      show ?thesis
      proof (cases "entry_command x = entry_command e")
        case True
        have e: "?old ! p = e" using sequential_eqI [OF seq x(1) index] x(2) same True by simp
        have run: "append_entries_loop es commit l w = (r, l', w')"
          using Cons.prems(5) Some same True by simp
        have IH: "log_wf l'
          \<and> (\<exists>j \<le> length es. log_entries l' = ?old \<or> log_entries l' = take (Suc p) ?old @ take j es)
          \<and> (unat commit \<le> length ?old \<longrightarrow> take (unat commit) (log_entries l') = take (unat commit) ?old)
          \<and> (r = None \<longrightarrow> log_entries l' = merge_entries ?old (Suc p) es)"
          using Cons.IH [OF Cons.prems(1) _ _ rest run] x(1) Cons.prems(3) by simp
        then obtain j where "j \<le> length es" "log_entries l' = ?old \<or> log_entries l' = take (Suc p) ?old @ take j es"
          by blast
        then have "\<exists>j \<le> length (e # es). log_entries l' = ?old \<or> log_entries l' = take p ?old @ take j (e # es)"
          using x(1) e by (intro exI [of _ "Suc j"]) (auto simp: take_Suc_conv_app_nth)
        then show ?thesis using IH merge_entries_same [OF x(1) e] by auto
      next
        case False
        then show ?thesis using Cons.prems(1,5) Some same by auto
      qed
    next
      case other: False
      show ?thesis
      proof (cases "entry_index e \<le> commit")
        case True
        then show ?thesis using Cons.prems(1,5) Some other by auto
      next
        case False
        obtain q l1 w1 where tr: "truncate_suffix (entry_index e) l w = (q, l1, w1)" by (metis prod_cases3)
        note l1 = raft_log.truncate_inv [OF Cons.prems(1) tr] raft_log.truncate_entries [OF Cons.prems(1) tr]
        have commit: "unat commit \<le> p" using False idx by (simp add: word_le_nat_alt)
        obtain a k v where ap: "append_entry e l1 w1 = (a, k, v)" by (metis prod_cases3)
        note k = raft_log.append_inv [OF l1(1) ap] raft_log.append_entries [OF l1(1) ap]
        consider "q \<noteq> Truncated" | "q = Truncated" "a \<noteq> Appended" | "q = Truncated" "a = Appended" by blast
        then show ?thesis
        proof cases
          case 1
          then show ?thesis using l1 Cons.prems(5) Some other False tr by auto
        next
          case 2
          then have l': "l' = k" using Cons.prems(5) Some other False tr ap by simp
          have "log_entries k = take p ?old @ take 0 (e # es)"
            using k(2) l1(2) 2 idx by simp
          then show ?thesis
            using l' k 2 commit Cons.prems(5) Some other False tr ap
            by (auto simp: min_absorb1)
        next
          case 3
          then have "append_entries_loop es commit k v = (r, l', w')"
            using Cons.prems(5) Some other False tr ap by simp
          then show ?thesis
            using place [of k v] k l1(2) 3 idx commit x other by auto
        qed
      qed
    qed
  qed
qed

section \<open>Terms in a log\<close>

definition terms_ok :: "u64 \<Rightarrow> log_entry list \<Rightarrow> bool" where
  "terms_ok t es \<longleftrightarrow> sorted (map entry_term es) \<and> (\<forall>e \<in> set es. entry_term e \<le> t)"

lemma terms_ok_mono: "terms_ok t es \<Longrightarrow> t \<le> t' \<Longrightarrow> terms_ok t' es"
  by (auto simp: terms_ok_def intro: order_trans)

lemma terms_ok_snoc: "terms_ok t es \<Longrightarrow> entry_term e = t \<Longrightarrow> terms_ok t (es @ [e])"
  by (auto simp: terms_ok_def sorted_append)

section \<open>The handler\<close>

text \<open>The log holds an entry of term \<open>pt\<close> at position \<open>p\<close>; position 0 holds a fictitious one of term 0.\<close>

definition holds_at :: "nat \<Rightarrow> u64 \<Rightarrow> log_entry list \<Rightarrow> bool" where
  "holds_at p pt es \<longleftrightarrow> p \<le> length es \<and> (if p = 0 then pt = 0 else entry_term (es ! (p - 1)) = pt)"

lemma holds_at_check:
  assumes "log_wf l" and "i = 0 \<longleftrightarrow> t = 0"
  shows "(i \<noteq> 0 \<and> (case entry_at i l of None \<Rightarrow> True | Some e \<Rightarrow> entry_term e \<noteq> t))
    \<longleftrightarrow> \<not> holds_at (unat i) t (log_entries l)"
  using assms(2)
  by (auto simp: holds_at_def entry_at_eq [OF assms(1)] unat_eq_0)

definition accepted :: "append_entries \<Rightarrow> log_entry list \<Rightarrow> bool" where
  "accepted r es \<longleftrightarrow> valid_entries r
     \<and> holds_at (unat (ae_prev_log_index r)) (ae_prev_log_term r) es"

lemma handle_append_entries_outcome:
  assumes wf: "log_wf l"
    and run: "handle_append_entries req m l commit w = (res, m', l', commit', w')"
  shows "log_wf l'
    \<and> (pm_state m' = pm_state m \<or> pm_state m' = term_seen (ae_term req) (pm_state m))
    \<and> (log_entries l' = log_entries l \<or>
        accepted req (log_entries l) \<and> current_term (pm_state m') = ae_term req \<and>
        (\<exists>j \<le> length (ae_entries req).
           log_entries l' = take (unat (ae_prev_log_index req)) (log_entries l) @ take j (ae_entries req)))
    \<and> (unat commit \<le> length (log_entries l) \<longrightarrow>
        take (unat commit) (log_entries l') = take (unat commit) (log_entries l))
    \<and> (case res of
         Inl e \<Rightarrow> commit' = commit
       | Inr reply \<Rightarrow>
           \<not> pm_io_failed m
           \<and> pm_state m' = term_seen (ae_term req) (pm_state m)
           \<and> aer_term reply = current_term (pm_state m')
           \<and> (if aer_success reply
              then ae_term req \<noteq> 0 \<and> aer_term reply = ae_term req
                \<and> accepted req (log_entries l)
                \<and> unat commit \<le> length (log_entries l)
                \<and> log_entries l' = merge_entries (log_entries l) (unat (ae_prev_log_index req)) (ae_entries req)
                \<and> commit' = max commit (min (ae_leader_commit req)
                    (of_nat (unat (ae_prev_log_index req) + length (ae_entries req))))
              else commit' = commit \<and> l' = l
                \<and> (ae_term req = 0 \<or> ae_term req < current_term (pm_state m)
                   \<or> \<not> holds_at (unat (ae_prev_log_index req)) (ae_prev_log_term req) (log_entries l))))"
proof -
  let ?es = "ae_entries req" and ?p = "unat (ae_prev_log_index req)"
  obtain tr m1 w1 where a: "advance_term (ae_term req) m w = (tr, m1, w1)" by (metis prod_cases3)
  obtain f l2 w2 where lp: "append_entries_loop ?es commit l w1 = (f, l2, w2)" by (metis prod_cases3)
  note un = run [unfolded handle_append_entries_def a prod.case Let_def lp]
  show ?thesis
  proof (cases "tr = metadata_update_result.IoError")
    case True
    then show ?thesis using un wf advance_term_outcome [OF a] by auto
  next
    case ok: False
    note seen = advance_term_seen [OF a ok]
    show ?thesis
    proof (cases "ae_term req = 0 \<or> ae_term req < current_term (pm_state m1)")
      case True
      then show ?thesis using un ok wf seen by (auto simp: term_seen_def split: if_splits)
    next
      case live: False
      then have cur: "current_term (pm_state m1) = ae_term req"
        using seen by (auto simp: term_seen_def split: if_splits)
      show ?thesis
      proof (cases "valid_entries req \<and> commit \<le> last_index l")
        case False
        then show ?thesis using un ok live wf seen by (auto simp: not_le)
      next
        case valid: True
        note v = conjunct1 [OF valid, unfolded valid_entries_iff]
        have ok2: "valid_entries req" "\<not> last_index l < commit" using valid by auto
        have commit: "unat commit \<le> length (log_entries l)"
          using valid log_wf_last_index [OF wf] by (simp add: word_le_nat_alt)
        have chk: "(ae_prev_log_index req \<noteq> 0 \<and> (case entry_at (ae_prev_log_index req) l of
            None \<Rightarrow> True | Some e \<Rightarrow> entry_term e \<noteq> ae_prev_log_term req))
            \<longleftrightarrow> \<not> holds_at ?p (ae_prev_log_term req) (log_entries l)"
          by (rule holds_at_check [OF wf]) (use v in blast)
        note un2 = un [unfolded chk]
        show ?thesis
        proof (cases "holds_at ?p (ae_prev_log_term req) (log_entries l)")
          case False
          then show ?thesis using un2 ok live ok2 wf seen by auto
        next
          case True
          then have p: "?p \<le> length (log_entries l)" by (simp add: holds_at_def)
          have acc: "accepted req (log_entries l)" using ok2 True by (simp add: accepted_def)
          have io: "\<not> pm_io_failed m" using seen by blast
          have "?p + length ?es < 2 ^ 64"
            and "batch_ok (ae_term req) ?p (ae_prev_log_term req) ?es" using v by blast+
          note out = append_entries_loop_outcome [OF wf p this lp]
          have res: "(case f of Some e \<Rightarrow> (Inl e, m1, l2, commit, w2)
            | None \<Rightarrow> (Inr \<lparr>aer_term = current_term (pm_state m1), aer_success = True\<rparr>, m1, l2,
                max commit (min (ae_leader_commit req)
                  (ae_prev_log_index req + of_nat (length ?es))), w2)) = (res, m', l', commit', w')"
            using un2 ok live ok2 True by simp
          show ?thesis
          proof (cases f)
            case None
            then show ?thesis using res out seen acc cur commit live io by auto
          next
            case (Some e)
            then show ?thesis using res out seen acc cur commit by auto
          qed
        qed
      qed
    qed
  qed
qed

lemma handle_append_entries_commit:
  assumes wf: "log_wf l" and c: "unat commit \<le> length (log_entries l)"
    and run: "handle_append_entries req m l commit w = (res, m', l', commit', w')"
  shows "commit \<le> commit' \<and> unat commit' \<le> length (log_entries l')"
proof -
  note out = handle_append_entries_outcome [OF wf run]
  have "take (unat commit) (log_entries l') = take (unat commit) (log_entries l)" using out c by blast
  then have kept: "unat commit \<le> length (log_entries l')"
    using c by (metis length_take min.absorb_iff2 min.absorb2 min.cobounded1)
  show ?thesis
  proof (cases "\<exists>reply. res = Inr reply \<and> aer_success reply")
    case False
    then have "commit' = commit" using out by (auto split: sum.splits)
    then show ?thesis using kept by simp
  next
    case True
    let ?p = "unat (ae_prev_log_index req)" and ?n = "length (ae_entries req)"
    have s: "accepted req (log_entries l)"
        "log_entries l' = merge_entries (log_entries l) ?p (ae_entries req)"
        "commit' = max commit (min (ae_leader_commit req) (of_nat (?p + ?n)))"
      using True out by auto
    have "?p \<le> length (log_entries l)" "?p + ?n < 2 ^ 64"
      using s(1) by (simp_all add: accepted_def holds_at_def valid_entries_iff)
    then have "length (take (?p + ?n) (log_entries l')) = ?p + ?n"
      and u: "unat (of_nat (?p + ?n) :: u64) = ?p + ?n"
      using merge_entries_has_batch [of ?p "log_entries l" "ae_entries req"]
      by (simp_all add: s(2) unat_of_nat_64 del: of_nat_add)
    then have "?p + ?n \<le> length (log_entries l')" by simp
    then have "unat (min (ae_leader_commit req) (of_nat (?p + ?n))) \<le> length (log_entries l')"
      using u by (simp add: min_def word_le_nat_alt del: of_nat_add)
    then show ?thesis using kept by (simp add: s(3) max_def del: of_nat_add)
  qed
qed

text \<open>The terms of the log stay in order and below the node's term.\<close>

lemma terms_ok_batch:
  assumes "terms_ok t es" and "batch_ok t p pt bs" and "holds_at p pt es"
  shows "terms_ok t (take p es @ take j bs)"
proof -
  have pt: "entry_term e \<le> pt" if "e \<in> set (take p es)" for e
  proof -
    from that obtain i where "i < length (take p es)" "e = take p es ! i" by (metis in_set_conv_nth)
    then have i: "i < p" "i < length es" "e = es ! i" by simp_all
    have "map entry_term es ! i \<le> map entry_term es ! (p - 1)"
      using assms(1,3) i by (intro sorted_nth_mono) (auto simp: terms_ok_def holds_at_def)
    then show ?thesis using i assms(3) by (auto simp: holds_at_def)
  qed
  have sorted: "sorted (map entry_term (take p es))" "sorted (map entry_term (take j bs))"
    using assms(1,2) by (simp_all add: terms_ok_def batch_ok_def sorted_wrt_take flip: take_map)
  have bs: "pt \<le> entry_term e" "entry_term e \<le> t" if "e \<in> set (take j bs)" for e
    using that assms(2) by (auto simp: batch_ok_def dest: in_set_takeD)
  show ?thesis
    using sorted pt bs assms(1)
    by (auto simp: terms_ok_def sorted_append dest: in_set_takeD intro: order_trans)
qed

lemma handle_append_entries_terms:
  assumes wf: "log_wf l" and terms: "terms_ok (current_term (pm_state m)) (log_entries l)"
    and run: "handle_append_entries req m l commit w = (res, m', l', commit', w')"
  shows "terms_ok (current_term (pm_state m')) (log_entries l')"
proof -
  note out = handle_append_entries_outcome [OF wf run]
  have le: "current_term (pm_state m) \<le> current_term (pm_state m')"
  proof -
    have "pm_state m' = pm_state m \<or> pm_state m' = term_seen (ae_term req) (pm_state m)" using out by blast
    then show ?thesis by (auto simp: term_seen_def)
  qed
  consider "log_entries l' = log_entries l"
    | j where "accepted req (log_entries l)" "current_term (pm_state m') = ae_term req"
      "log_entries l' = take (unat (ae_prev_log_index req)) (log_entries l) @ take j (ae_entries req)"
    using out by blast
  then show ?thesis
  proof cases
    case 1
    then show ?thesis using terms le by (auto intro: terms_ok_mono)
  next
    case 2
    then have "batch_ok (ae_term req) (unat (ae_prev_log_index req)) (ae_prev_log_term req) (ae_entries req)"
      "holds_at (unat (ae_prev_log_index req)) (ae_prev_log_term req) (log_entries l)"
      by (simp_all add: accepted_def valid_entries_iff)
    then show ?thesis using terms_ok_batch [OF terms_ok_mono [OF terms le]] 2 by simp
  qed
qed

section \<open>Properties\<close>

text \<open>C17: What an accepted replication request does. A successful reply means that the request was for
  the node's term, valid, and consistent with the log at the previous position; the log is then the
  specification's merge (unchanged if it already holds the batch there, else cut at that position and
  extended by it), so it ends in or contains the batch, and the commit index is the larger of the old
  one and the leader's, the latter limited to the entries just matched.\<close>

theorem accepted_request_merges:
  assumes "log_wf l" and "handle_append_entries req m l commit w = (Inr reply, m', l', commit', w')"
    and "aer_success reply"
  shows "ae_term req \<noteq> 0 \<and> current_term (pm_state m') = ae_term req \<and> aer_term reply = ae_term req
    \<and> accepted req (log_entries l)
    \<and> log_entries l' = merge_entries (log_entries l) (unat (ae_prev_log_index req)) (ae_entries req)
    \<and> take (unat (ae_prev_log_index req) + length (ae_entries req)) (log_entries l')
        = take (unat (ae_prev_log_index req)) (log_entries l) @ ae_entries req
    \<and> commit' = max commit (min (ae_leader_commit req)
        (of_nat (unat (ae_prev_log_index req) + length (ae_entries req))))"
proof -
  note out = handle_append_entries_outcome [OF assms(1,2)]
  have acc: "accepted req (log_entries l)" using out assms(3) by auto
  then have "unat (ae_prev_log_index req) \<le> length (log_entries l)" by (simp add: accepted_def holds_at_def)
  from merge_entries_has_batch [OF this, of "ae_entries req"] show ?thesis
    using out assms(3) by auto
qed

definition sample_append :: append_entries where
  "sample_append = \<lparr>ae_term = 3, ae_leader_id = 2, ae_prev_log_index = 0, ae_prev_log_term = 0,
     ae_entries = [sample_entry], ae_leader_commit = 1, ae_read_context = 0\<rparr>"

lemma sample_append_accepted:
  "handle_append_entries sample_append (sample_store None) sample_log 0 w =
     (Inr \<lparr>aer_term = 3, aer_success = True\<rparr>, sample_store None, sample_log, 1, w)"
proof -
  have a: "advance_term 3 (sample_store None) w = (Unchanged, sample_store None, w)"
    by (simp add: advance_term_def sample_store_def)
  have s: "current_term (pm_state (sample_store None)) = 3" by (simp add: sample_store_def)
  have v: "valid_entries sample_append"
    using sample_entry_bytes(1)
    by (simp add: valid_entries_def sample_append_def sample_entry_def encodable_def Let_def)
  have at: "entry_at 1 sample_log = Some sample_entry" "last_index sample_log = 1"
    by (simp_all add: entry_at_def sample_log_def last_index_def)
  have "entry_index sample_entry = 1" by (simp add: sample_entry_def)
  then have "append_entries_loop [sample_entry] 0 sample_log w = (None, sample_log, w)" using at by simp
  then show ?thesis
    using a s v at by (simp add: handle_append_entries_def sample_append_def Let_def)
qed

theorem accepted_request_merges_witness:
  "log_entries sample_log = merge_entries (log_entries sample_log) 0 [sample_entry]"
  using accepted_request_merges [OF sample_log_wf sample_append_accepted [of "\<lparr>script = [], trace = []\<rparr>"]]
  by (simp add: sample_append_def)

text \<open>C18: Committed entries never change. Whatever request arrives and whatever the stores answer, even
  when the handler fails half way, the log stays well formed, the entries up to the commit index are
  the ones it had, and the commit index does not decrease and stays inside the log.\<close>

theorem committed_entries_kept:
  assumes "log_wf l" and "unat commit \<le> length (log_entries l)"
    and "handle_append_entries req m l commit w = (res, m', l', commit', w')"
  shows "log_wf l' \<and> take (unat commit) (log_entries l') = take (unat commit) (log_entries l)
    \<and> commit \<le> commit' \<and> unat commit' \<le> length (log_entries l')"
  using handle_append_entries_outcome [OF assms(1,3)] handle_append_entries_commit [OF assms] assms(2)
  by blast

theorem committed_entries_kept_witness:
  "take 1 (log_entries (fst (snd (snd (handle_append_entries sample_append (sample_store None) sample_log 1
     \<lparr>script = [], trace = []\<rparr>))))) = [sample_entry]"
proof -
  obtain res m l c w where h: "handle_append_entries sample_append (sample_store None) sample_log 1
      \<lparr>script = [], trace = []\<rparr> = (res, m, l, c, w)" by (metis prod_cases5)
  have "unat (1 :: u64) \<le> length (log_entries sample_log)" by simp
  from committed_entries_kept [OF sample_log_wf this h] show ?thesis unfolding h by simp
qed

text \<open>Refusals have no effect on the log. A negative reply leaves log and commit index untouched and is
  given exactly for a stale or zero term or for a log that lacks the previous entry.\<close>

theorem refused_request_no_effect:
  assumes "log_wf l" and "handle_append_entries req m l commit w = (Inr reply, m', l', commit', w')"
    and "\<not> aer_success reply"
  shows "l' = l \<and> commit' = commit \<and> pm_state m' = term_seen (ae_term req) (pm_state m)
    \<and> aer_term reply = current_term (pm_state m')
    \<and> (ae_term req = 0 \<or> ae_term req < current_term (pm_state m)
       \<or> \<not> holds_at (unat (ae_prev_log_index req)) (ae_prev_log_term req) (log_entries l))"
  using handle_append_entries_outcome [OF assms(1,2)] assms(3) by auto

theorem refused_request_no_effect_witness:
  "fst (snd (snd (handle_append_entries (sample_append\<lparr>ae_term := 2\<rparr>) (sample_store None) sample_log 0
     \<lparr>script = [], trace = []\<rparr>))) = sample_log"
proof -
  have h: "handle_append_entries (sample_append\<lparr>ae_term := 2\<rparr>) (sample_store None) sample_log 0
      \<lparr>script = [], trace = []\<rparr>
    = (Inr \<lparr>aer_term = 3, aer_success = False\<rparr>, sample_store None, sample_log, 0, \<lparr>script = [], trace = []\<rparr>)"
    by (simp add: handle_append_entries_def sample_append_def advance_term_def sample_store_def)
  from refused_request_no_effect [OF sample_log_wf h] show ?thesis unfolding h by simp
qed

text \<open>Terms in the log are ordered: if the entries' terms are nondecreasing and bounded by the node's
  term, they are so after any request.\<close>

theorem log_terms_stay_ordered:
  assumes "log_wf l" and "terms_ok (current_term (pm_state m)) (log_entries l)"
    and "handle_append_entries req m l commit w = (res, m', l', commit', w')"
  shows "terms_ok (current_term (pm_state m')) (log_entries l')"
  by (rule handle_append_entries_terms [OF assms])

theorem log_terms_stay_ordered_witness:
  "terms_ok (current_term (pm_state (sample_store None))) (log_entries sample_log)"
proof (rule log_terms_stay_ordered [OF sample_log_wf _ sample_append_accepted [of "\<lparr>script = [], trace = []\<rparr>"]])
  show "terms_ok (current_term (pm_state (sample_store None))) (log_entries sample_log)"
    by (simp add: terms_ok_def sample_store_def sample_entry_def)
qed

end
