(* ===== verification/Raft_Leader.thy ===== *)
theory Raft_Leader
  imports Raft_Election Raft_Append
begin

text \<open>
  The leader's side of replication (include/dkv/raft_leader.hpp, src/raft_leader.cpp).

  \<^item> \<open>raft_leader\<close> holds the object's own fields. The election, metadata, log and commit index it
    refers to belong to the node and are passed and returned.
  \<^item> \<open>make_request\<close>, \<open>append_command\<close>, \<open>handle_reply\<close>, \<open>advance_commit_index\<close>, \<open>active\<close>,
    \<open>progress\<close> are the operations.
  \<^item> \<open>leader_inv\<close> relates the per-peer progress and the outstanding requests to the log; every
    outstanding request is a slice of the log (\<open>request_of\<close>) the follower's check accepts.
\<close>

record peer_progress =
  next_index :: u64
  match_index :: u64

datatype leader_replication_error =
    NotLeader
  | UnknownPeer
  | InvalidBatchSize
  | InvalidCommand
  | IndexExhausted
  | PersistenceError
  | InconsistentState

datatype append_reply_outcome =
    Ignored
  | Retry
  | Recorded
  | Committed
  | SteppedDown
  | InconsistentFollower
  | PersistenceError

record peer_state =
  ps_id :: u64
  ps_progress :: peer_progress
  ps_pending :: "append_entries option"

record raft_leader =
  ld_self_id :: u64
  ld_term :: u64
  ld_peers :: "peer_state array2"
  ld_stopped :: bool

section \<open>Operations\<close>

text \<open>The constructor; \<open>None\<close> when it throws.\<close>

definition new_leader :: "raft_election \<Rightarrow> persistent_metadata \<Rightarrow> persistent_log \<Rightarrow> u64
    \<Rightarrow> raft_leader option" where
  "new_leader election metadata log commit_index =
     (let trm = current_term (pm_state metadata);
          self_id = el_self_id election;
          fresh = (\<lambda>id. \<lparr>ps_id = id,
            ps_progress = \<lparr>next_index = last_index log + 1, match_index = 0\<rparr>, ps_pending = None\<rparr>)
      in if trm = 0 \<or> last_index log \<ge> 0xFFFFFFFFFFFFFFFF - 1 \<or> commit_index > last_index log
            \<or> election_role metadata election \<noteq> Leader
            \<or> voted_for (pm_state metadata) \<noteq> Some self_id
         then None
         else Some \<lparr>ld_self_id = self_id, ld_term = trm,
                    ld_peers = (fresh (get2 0 (el_peer_ids election)), fresh (get2 1 (el_peer_ids election))),
                    ld_stopped = False\<rparr>)"

definition active :: "raft_election \<Rightarrow> persistent_metadata \<Rightarrow> raft_leader \<Rightarrow> bool" where
  "active election metadata ld \<longleftrightarrow>
     \<not> ld_stopped ld \<and> election_role metadata election = Leader
     \<and> current_term (pm_state metadata) = ld_term ld
     \<and> voted_for (pm_state metadata) = Some (ld_self_id ld)"

text \<open>The position of the peer in the array, \<open>None\<close> for the null pointer.\<close>

definition find_peer :: "u64 \<Rightarrow> raft_leader \<Rightarrow> nat option" where
  "find_peer peer_id ld = List.find (\<lambda>i. ps_id (get2 i (ld_peers ld)) = peer_id) [0, 1]"

definition progress :: "u64 \<Rightarrow> raft_leader \<Rightarrow> peer_progress option" where
  "progress peer_id ld = map_option (\<lambda>i. ps_progress (get2 i (ld_peers ld))) (find_peer peer_id ld)"

definition set_peer :: "nat \<Rightarrow> peer_state \<Rightarrow> raft_leader \<Rightarrow> raft_leader" where
  "set_peer i p ld = ld\<lparr>ld_peers := set2 i p (ld_peers ld)\<rparr>"

text \<open>The loop that fills \<open>request.entries\<close>; \<open>None\<close> when an entry is missing.\<close>

function collect_entries :: "persistent_log \<Rightarrow> nat \<Rightarrow> u64 \<Rightarrow> log_entry list \<Rightarrow> log_entry list option" where
  "collect_entries log max_entries index entries =
     (if index \<le> last_index log \<and> length entries < max_entries
      then
        (case entry_at index log of
           None \<Rightarrow> None
         | Some entry \<Rightarrow>
             if index = last_index log then Some (entries @ [entry])
             else collect_entries log max_entries (index + 1) (entries @ [entry]))
      else Some entries)"
  by pat_completeness auto
termination
  by (relation "measure (\<lambda>(log, max_entries, index, entries). max_entries - length entries)") auto

declare collect_entries.simps [simp del]

definition make_request :: "raft_election \<Rightarrow> persistent_metadata \<Rightarrow> persistent_log \<Rightarrow> u64
    \<Rightarrow> u64 \<Rightarrow> nat \<Rightarrow> raft_leader \<Rightarrow> (leader_replication_error + append_entries) \<times> raft_leader" where
  "make_request election metadata log commit_index peer_id max_entries ld =
     (case find_peer peer_id ld of
        None \<Rightarrow> (Inl UnknownPeer, ld)
      | Some i \<Rightarrow>
          (let peer = get2 i (ld_peers ld)
           in if \<not> active election metadata ld then (Inl NotLeader, ld)
           else if max_entries = 0 then (Inl InvalidBatchSize, ld)
           else if commit_index > last_index log then (Inl InconsistentState, ld)
           else
             (case ps_pending peer of
                Some request \<Rightarrow> (Inr request, ld)
              | None \<Rightarrow>
                  (let nxt = next_index (ps_progress peer)
                   in if nxt = 0 \<or> nxt > last_index log + 1 then (Inl InconsistentState, ld)
                   else
                     (let previous_index = nxt - 1
                      in case (if previous_index \<noteq> 0
                               then map_option entry_term (entry_at previous_index log)
                               else Some 0) of
                           None \<Rightarrow> (Inl InconsistentState, ld)
                         | Some previous_term \<Rightarrow>
                             (case collect_entries log max_entries nxt [] of
                                None \<Rightarrow> (Inl InconsistentState, ld)
                              | Some entries \<Rightarrow>
                                  (let request = \<lparr>ae_term = ld_term ld, ae_leader_id = ld_self_id ld,
                                         ae_prev_log_index = previous_index,
                                         ae_prev_log_term = previous_term, ae_entries = entries,
                                         ae_leader_commit = commit_index, ae_read_context = 0\<rparr>
                                   in (Inr request,
                                       set_peer i (peer\<lparr>ps_pending := Some request\<rparr>) ld))))))))"

definition append_command :: "raft_election \<Rightarrow> persistent_metadata \<Rightarrow> command
    \<Rightarrow> persistent_log \<Rightarrow> raft_leader \<Rightarrow> os
    \<Rightarrow> (leader_replication_error + u64) \<times> persistent_log \<times> raft_leader \<times> os" where
  "append_command election metadata c log ld w =
     (if \<not> active election metadata ld then (Inl NotLeader, log, ld, w)
      else if last_index log \<ge> 0xFFFFFFFFFFFFFFFF - 1 then (Inl IndexExhausted, log, ld, w)
      else
        (let index = last_index log + 1
         in case append_entry \<lparr>entry_index = index, entry_term = ld_term ld, entry_command = c\<rparr> log w of
              (result, log, w) \<Rightarrow>
                if result = Appended then (Inr index, log, ld, w)
                else if result = log_append_result.InvalidEntry then (Inl InvalidCommand, log, ld, w)
                else if result = log_append_result.IoError
                then (Inl leader_replication_error.PersistenceError, log, ld\<lparr>ld_stopped := True\<rparr>, w)
                else (Inl InconsistentState, log, ld, w)))"

lemma unat_pred: "(c :: u64) < i \<Longrightarrow> unat (i - 1) = unat i - 1"
  by (rule unat_minus_one) auto

lemma unat_pred_decreases: "(c :: u64) < i \<Longrightarrow> unat (i - 1) < unat i"
  by (auto simp: unat_pred word_less_nat_alt)

text \<open>The downward search of \<open>advance_commit_index\<close>; the result is the new commit index.\<close>

function commit_search :: "raft_leader \<Rightarrow> persistent_log \<Rightarrow> u64 \<Rightarrow> u64 \<Rightarrow> u64 option" where
  "commit_search ld log commit_index index =
     (if index > commit_index
      then
        (if (case entry_at index log of None \<Rightarrow> True | Some entry \<Rightarrow> entry_term entry \<noteq> ld_term ld)
         then commit_search ld log commit_index (index - 1)
         else if match_index (ps_progress (get2 0 (ld_peers ld))) \<ge> index
                 \<or> match_index (ps_progress (get2 1 (ld_peers ld))) \<ge> index
         then Some index
         else commit_search ld log commit_index (index - 1))
      else None)"
  by pat_completeness auto

termination
  by (relation "measure (\<lambda>(ld, log, commit_index, index). unat index)") (auto intro: unat_pred_decreases)

declare commit_search.simps [simp del]

definition advance_commit_index :: "raft_leader \<Rightarrow> persistent_log \<Rightarrow> u64 \<Rightarrow> bool \<times> u64" where
  "advance_commit_index ld log commit_index =
     (case commit_search ld log commit_index (last_index log) of
        Some index \<Rightarrow> (True, index)
      | None \<Rightarrow> (False, commit_index))"

definition handle_reply :: "raft_election \<Rightarrow> persistent_log \<Rightarrow> u64 \<Rightarrow> append_entries
    \<Rightarrow> append_entries_reply \<Rightarrow> persistent_metadata \<Rightarrow> u64 \<Rightarrow> raft_leader \<Rightarrow> os
    \<Rightarrow> append_reply_outcome \<times> persistent_metadata \<times> u64 \<times> raft_leader \<times> os" where
  "handle_reply election log peer_id sent_request reply metadata commit_index ld w =
     (case find_peer peer_id ld of
        None \<Rightarrow> (Ignored, metadata, commit_index, ld, w)
      | Some i \<Rightarrow>
          if \<not> active election metadata ld then (Ignored, metadata, commit_index, ld, w)
          else if aer_term reply > ld_term ld then
            (case advance_term (aer_term reply) metadata w of (result, metadata, w) \<Rightarrow>
               (if result \<noteq> Persisted then PersistenceError else SteppedDown,
                metadata, commit_index, ld\<lparr>ld_stopped := True\<rparr>, w))
          else
            (let peer = get2 i (ld_peers ld); prog = ps_progress peer
             in if aer_term reply \<noteq> ld_term ld \<or> ps_pending peer = None
                   \<or> ps_pending peer \<noteq> Some sent_request
                then (Ignored, metadata, commit_index, ld, w)
                else if \<not> aer_success reply then
                  (let lowest_next = match_index prog + 1
                   in if next_index prog \<le> lowest_next
                      then (InconsistentFollower, metadata, commit_index,
                            set_peer i (peer\<lparr>ps_pending := None\<rparr>) ld, w)
                      else (Retry, metadata, commit_index,
                            set_peer i (peer\<lparr>ps_pending := None,
                              ps_progress := prog\<lparr>next_index := next_index prog - 1\<rparr>\<rparr>) ld, w))
                else
                  (let matched_index = ae_prev_log_index sent_request
                         + of_nat (length (ae_entries sent_request));
                       new_match = max (match_index prog) matched_index;
                       ld = set_peer i (peer\<lparr>ps_pending := None,
                         ps_progress := \<lparr>next_index = new_match + 1, match_index = new_match\<rparr>\<rparr>) ld
                   in case advance_commit_index ld log commit_index of
                        (True, commit_index) \<Rightarrow> (Committed, metadata, commit_index, ld, w)
                      | (False, commit_index) \<Rightarrow> (Recorded, metadata, commit_index, ld, w))))"

section \<open>Requests are slices of the log\<close>

definition prev_term_of :: "nat \<Rightarrow> log_entry list \<Rightarrow> u64" where
  "prev_term_of p es = (if p = 0 then 0 else entry_term (es ! (p - 1)))"

text \<open>\<open>request_of r t self es\<close>: a replication request of the leader \<open>self\<close> of term \<open>t\<close> with log \<open>es\<close>.\<close>

definition request_of :: "append_entries \<Rightarrow> u64 \<Rightarrow> u64 \<Rightarrow> log_entry list \<Rightarrow> bool" where
  "request_of r t self es \<longleftrightarrow>
     ae_term r = t \<and> ae_leader_id r = self \<and> ae_read_context r = 0
     \<and> unat (ae_prev_log_index r) + length (ae_entries r) \<le> length es
     \<and> ae_prev_log_term r = prev_term_of (unat (ae_prev_log_index r)) es
     \<and> ae_entries r = take (length (ae_entries r)) (drop (unat (ae_prev_log_index r)) es)"

lemma collect_entries_slice:
  assumes wf: "log_wf l"
  shows "0 < unat index \<Longrightarrow> length entries \<le> n \<Longrightarrow>
    collect_entries l n index entries =
      Some (entries @ take (n - length entries) (drop (unat index - 1) (log_entries l)))"
proof (induction "n - length entries" arbitrary: index entries rule: less_induct)
  case less
  let ?es = "log_entries l" and ?k = "unat index - 1"
  show ?case
  proof (cases "index \<le> last_index l \<and> length entries < n")
    case False
    then show ?thesis
      using less.prems log_wf_last_index [OF wf]
      by (subst collect_entries.simps) (auto simp: word_le_nat_alt)
  next
    case True
    then have k: "?k < length ?es" "unat index \<le> length ?es"
      using less.prems log_wf_last_index [OF wf] by (auto simp: word_le_nat_alt)
    have at: "entry_at index l = Some (?es ! ?k)"
      using k less.prems by (simp add: entry_at_eq [OF wf])
    have hd: "take (n - length entries) (drop ?k ?es) =
        ?es ! ?k # take (n - Suc (length entries)) (drop (unat index) ?es)"
    proof -
      have n: "n - length entries = Suc (n - Suc (length entries))" using True by auto
      have "drop ?k ?es = ?es ! ?k # drop (unat index) ?es"
        using k less.prems by (simp add: Cons_nth_drop_Suc [symmetric])
      then show ?thesis by (simp only: n take_Suc_Cons)
    qed
    show ?thesis
    proof (cases "index = last_index l")
      case last: True
      then have "drop (unat index) ?es = []" using log_wf_last_index [OF wf] by simp
      then show ?thesis using True at hd last by (subst collect_entries.simps) simp
    next
      case False
      then have "index < last_index l" using True by (auto simp: order_less_le)
      then have succ: "unat (index + 1) = Suc (unat index)"
        by (rule unat_next)
      have "collect_entries l n index entries = collect_entries l n (index + 1) (entries @ [?es ! ?k])"
        using True at False by (subst collect_entries.simps) simp
      also have "\<dots> = Some ((entries @ [?es ! ?k]) @
          take (n - length (entries @ [?es ! ?k])) (drop (unat (index + 1) - 1) ?es))"
        by (rule less.hyps) (use True succ in auto)
      finally show ?thesis using hd succ by simp
    qed
  qed
qed

lemma request_of_mono: "request_of r t self es \<Longrightarrow> request_of r t self (es @ xs)"
  by (auto simp: request_of_def prev_term_of_def nth_append)

lemma encodable_term: "encodable e \<Longrightarrow> entry_term e \<noteq> 0"
  using encodable_bytes [of e] by (auto simp: encode_log_entry_Inr)

lemma sequential_term: "sequential es \<Longrightarrow> i < length es \<Longrightarrow> entry_term (es ! i) \<noteq> 0"
  by (auto simp: sequential_def encodable_term)

text \<open>What a leader of a log with ordered terms sends passes the follower's check.\<close>

lemma request_valid:
  assumes r: "request_of r t self es" and seq: "sequential es" and terms: "terms_ok t es"
    and len: "length es < 2 ^ 64"
  shows "valid_entries r"
proof -
  let ?p = "unat (ae_prev_log_index r)" and ?n = "length (ae_entries r)"
  have le: "?p + ?n \<le> length es" and es: "ae_entries r = take ?n (drop ?p es)"
    and pt: "ae_prev_log_term r = prev_term_of ?p es" and t: "ae_term r = t"
    using r by (simp_all add: request_of_def)
  have nth: "ae_entries r ! i = es ! (?p + i)" if "i < ?n" for i
    by (subst es) (use that le in simp)
  have zero: "ae_prev_log_index r = 0 \<longleftrightarrow> ae_prev_log_term r = 0"
    using le sequential_term [OF seq, of "?p - 1"] by (auto simp: pt prev_term_of_def unat_eq_0)
  have pt_le: "ae_prev_log_term r \<le> t"
    using terms le by (auto simp: pt prev_term_of_def terms_ok_def)
  have "set (ae_entries r) \<subseteq> set es"
    by (subst es) (meson set_take_subset set_drop_subset order_trans)
  then have upper: "\<forall>e \<in> set (ae_entries r). entry_term e \<le> t" using terms by (auto simp: terms_ok_def)
  have lower: "\<forall>e \<in> set (ae_entries r). ae_prev_log_term r \<le> entry_term e"
  proof
    fix e assume "e \<in> set (ae_entries r)"
    then obtain i where i: "i < ?n" "e = es ! (?p + i)" by (metis in_set_conv_nth nth)
    show "ae_prev_log_term r \<le> entry_term e"
    proof (cases "?p = 0")
      case False
      then have "map entry_term es ! (?p - 1) \<le> map entry_term es ! (?p + i)"
        using terms i le by (intro sorted_nth_mono) (auto simp: terms_ok_def)
      then show ?thesis using False i le by (simp add: pt prev_term_of_def)
    qed (simp add: pt prev_term_of_def)
  qed
  have "sorted (map entry_term (ae_entries r))"
    by (subst es) (use terms in \<open>simp add: terms_ok_def sorted_wrt_take sorted_wrt_drop flip: take_map drop_map\<close>)
  then have "batch_ok t ?p (ae_prev_log_term r) (ae_entries r)"
    using seq nth le upper lower by (auto simp: batch_ok_def sequential_def)
  then show ?thesis
    using zero pt_le le len t r by (auto simp: valid_entries_iff request_of_def)
qed

section \<open>The leader's invariant\<close>

text \<open>\<open>n\<close> bounds the batch size of the outstanding requests.\<close>

definition peer_inv :: "nat \<Rightarrow> u64 \<Rightarrow> u64 \<Rightarrow> log_entry list \<Rightarrow> peer_state \<Rightarrow> bool" where
  "peer_inv n t self es p \<longleftrightarrow>
     unat (match_index (ps_progress p)) < unat (next_index (ps_progress p))
     \<and> unat (next_index (ps_progress p)) \<le> Suc (length es)
     \<and> (\<forall>r. ps_pending p = Some r \<longrightarrow> request_of r t self es \<and> length (ae_entries r) \<le> n)"

definition leader_inv :: "nat \<Rightarrow> raft_leader \<Rightarrow> log_entry list \<Rightarrow> bool" where
  "leader_inv n ld es \<longleftrightarrow>
     peer_inv n (ld_term ld) (ld_self_id ld) es (fst (ld_peers ld))
     \<and> peer_inv n (ld_term ld) (ld_self_id ld) es (snd (ld_peers ld))"

definition leader_ids :: "raft_leader \<Rightarrow> u64 array2" where
  "leader_ids ld = (ps_id (fst (ld_peers ld)), ps_id (snd (ld_peers ld)))"

lemma leader_inv_mono: "leader_inv n ld es \<Longrightarrow> leader_inv n ld (es @ xs)"
  by (auto simp: leader_inv_def peer_inv_def intro: request_of_mono)

lemma leader_inv_peer: "leader_inv n ld es \<Longrightarrow> peer_inv n (ld_term ld) (ld_self_id ld) es (get2 i (ld_peers ld))"
  by (simp add: leader_inv_def get2_def)

lemma leader_inv_set_peer:
  "leader_inv n ld es \<Longrightarrow> peer_inv n (ld_term ld) (ld_self_id ld) es p \<Longrightarrow> leader_inv n (set_peer i p ld) es"
  by (simp add: leader_inv_def set_peer_def set2_def)

lemma leader_inv_stopped [simp]: "leader_inv n (ld\<lparr>ld_stopped := b\<rparr>) es \<longleftrightarrow> leader_inv n ld es"
  by (simp add: leader_inv_def)

lemma leader_ids_stopped [simp]: "leader_ids (ld\<lparr>ld_stopped := b\<rparr>) = leader_ids ld"
  by (simp add: leader_ids_def)

lemma set_peer_fields [simp]:
  "ld_term (set_peer i p ld) = ld_term ld" "ld_self_id (set_peer i p ld) = ld_self_id ld"
  "ld_stopped (set_peer i p ld) = ld_stopped ld"
  by (simp_all add: set_peer_def)

lemma leader_ids_set_peer [simp]:
  "ps_id p = ps_id (get2 i (ld_peers ld)) \<Longrightarrow> leader_ids (set_peer i p ld) = leader_ids ld"
  by (simp add: leader_ids_def set_peer_def set2_def get2_def)

lemma active_set_peer [simp]: "active el m (set_peer i p ld) \<longleftrightarrow> active el m ld"
  by (simp add: active_def)

lemma find_peer_iff:
  "find_peer p ld = (if ps_id (fst (ld_peers ld)) = p then Some 0
     else if ps_id (snd (ld_peers ld)) = p then Some 1 else None)"
  by (simp add: find_peer_def)

lemma find_peer_None: "find_peer p ld = None \<longleftrightarrow> p \<notin> set (list2 (leader_ids ld))"
  by (auto simp: find_peer_iff leader_ids_def)

lemma find_peer_Some: "find_peer p ld = Some i \<Longrightarrow> ps_id (get2 i (ld_peers ld)) = p"
  by (auto simp: find_peer_iff split: if_splits)

lemma new_leader_inv:
  assumes "new_leader el m l commit = Some ld" and wf: "log_wf l"
  shows "leader_inv n ld (log_entries l) \<and> leader_ids ld = el_peer_ids el \<and> ld_self_id ld = el_self_id el
    \<and> ld_term ld = current_term (pm_state m) \<and> active el m ld"
  using assms(1) next_index_nat [OF wf]
  by (auto simp: new_leader_def Let_def leader_inv_def peer_inv_def leader_ids_def active_def split: if_splits)

lemma make_request_outcome:
  assumes wf: "log_wf l" and inv: "leader_inv n ld (log_entries l)" and act: "active el m ld"
    and p: "p \<in> set (list2 (leader_ids ld))" and k: "0 < k" "k \<le> n"
    and commit: "unat commit \<le> length (log_entries l)"
  obtains r ld' where "make_request el m l commit p k ld = (Inr r, ld')"
    "request_of r (ld_term ld) (ld_self_id ld) (log_entries l)" "length (ae_entries r) \<le> n"
    "leader_inv n ld' (log_entries l)" "leader_ids ld' = leader_ids ld" "ld_term ld' = ld_term ld"
    "ld_self_id ld' = ld_self_id ld" "ld_stopped ld' = ld_stopped ld"
proof -
  let ?es = "log_entries l"
  obtain i where i: "find_peer p ld = Some i" using p find_peer_None [of p ld] by auto
  let ?peer = "get2 i (ld_peers ld)" and ?nx = "next_index (ps_progress (get2 i (ld_peers ld)))"
  have peer: "peer_inv n (ld_term ld) (ld_self_id ld) ?es ?peer" by (rule leader_inv_peer [OF inv])
  have c: "\<not> last_index l < commit"
    using commit log_wf_last_index [OF wf] by (simp add: word_less_nat_alt not_less)
  show ?thesis
  proof (cases "ps_pending ?peer")
    case (Some r)
    then show ?thesis
      using that [of r ld] i act k c peer inv by (simp add: make_request_def Let_def peer_inv_def)
  next
    case None
    have nx: "0 < unat ?nx" "unat ?nx \<le> Suc (length ?es)" using peer by (auto simp: peer_inv_def)
    then have nx': "?nx \<noteq> 0" "\<not> ?nx > last_index l + 1"
      using next_index_nat [OF wf] by (auto simp: word_less_nat_alt)
    have pred: "unat (?nx - 1) = unat ?nx - 1" using nx'(1) by (rule unat_minus_one)
    have pt: "(if ?nx - 1 \<noteq> 0 then map_option entry_term (entry_at (?nx - 1) l) else Some 0)
        = Some (prev_term_of (unat ?nx - 1) ?es)"
      using nx pred by (auto simp: entry_at_eq [OF wf] prev_term_of_def unat_eq_0 [symmetric])
    let ?r = "\<lparr>ae_term = ld_term ld, ae_leader_id = ld_self_id ld, ae_prev_log_index = ?nx - 1,
      ae_prev_log_term = prev_term_of (unat ?nx - 1) ?es,
      ae_entries = take k (drop (unat ?nx - 1) ?es), ae_leader_commit = commit, ae_read_context = 0\<rparr>"
    have req: "request_of ?r (ld_term ld) (ld_self_id ld) ?es" "length (ae_entries ?r) \<le> n"
      using nx pred k by (auto simp: request_of_def min_def)
    have "make_request el m l commit p k ld = (Inr ?r, set_peer i (?peer\<lparr>ps_pending := Some ?r\<rparr>) ld)"
      using i act k c None nx' pt collect_entries_slice [OF wf nx(1), of "[]" k]
      by (simp add: make_request_def Let_def del: split_paired_All)
    then show ?thesis
      by (rule that) (use req inv peer in \<open>auto intro!: leader_inv_set_peer simp: peer_inv_def\<close>)
  qed
qed

lemma append_command_outcome:
  assumes wf: "log_wf l" and act: "active el m ld"
    and run: "append_command el m c l ld w = (res, l', ld', w')"
  shows "log_wf l' \<and> ld_term ld' = ld_term ld \<and> ld_self_id ld' = ld_self_id ld
    \<and> ld_peers ld' = ld_peers ld
    \<and> (case res of
         Inl e \<Rightarrow> log_entries l' = log_entries l \<and> (e \<noteq> leader_replication_error.PersistenceError \<longrightarrow> ld' = ld)
       | Inr i \<Rightarrow> ld' = ld \<and> unat i = Suc (length (log_entries l))
           \<and> log_entries l' = log_entries l @ [\<lparr>entry_index = i, entry_term = ld_term ld, entry_command = c\<rparr>])"
proof -
  let ?e = "\<lparr>entry_index = last_index l + 1, entry_term = ld_term ld, entry_command = c\<rparr>"
  obtain r l1 w1 where ap: "append_entry ?e l w = (r, l1, w1)" by (metis prod_cases3)
  note l1 = raft_log.append_inv [OF wf ap] raft_log.append_entries [OF wf ap]
  show ?thesis
    using run act ap l1 wf next_index_nat [OF wf]
    by (auto simp: append_command_def Let_def split: if_splits)
qed

section \<open>The commit rule\<close>

text \<open>An entry of the leader's term that the leader and at least one of the two followers hold.\<close>

definition committable :: "raft_leader \<Rightarrow> log_entry list \<Rightarrow> u64 \<Rightarrow> bool" where
  "committable ld es i \<longleftrightarrow>
     0 < unat i \<and> unat i \<le> length es \<and> entry_term (es ! (unat i - 1)) = ld_term ld
     \<and> (i \<le> match_index (ps_progress (fst (ld_peers ld))) \<or> i \<le> match_index (ps_progress (snd (ld_peers ld))))"

lemma commit_search_spec:
  assumes wf: "log_wf l"
  shows "case commit_search ld l c i of
      None \<Rightarrow> \<forall>k. c < k \<and> k \<le> i \<longrightarrow> \<not> committable ld (log_entries l) k
    | Some j \<Rightarrow> c < j \<and> j \<le> i \<and> committable ld (log_entries l) j
        \<and> (\<forall>k. j < k \<and> k \<le> i \<longrightarrow> \<not> committable ld (log_entries l) k)"
proof (induction "unat i" arbitrary: i rule: less_induct)
  case less
  show ?case
  proof (cases "c < i")
    case False
    then show ?thesis by (auto simp: commit_search.simps [of ld l c i])
  next
    case True
    have le: "k \<le> i \<longleftrightarrow> k = i \<or> k \<le> i - 1" for k
      using unat_pred [OF True] True
      by (cases "k = i") (auto simp: word_le_nat_alt word_less_nat_alt word_unat_eq_iff)
    have q: "committable ld (log_entries l) i \<longleftrightarrow>
        \<not> (case entry_at i l of None \<Rightarrow> True | Some e \<Rightarrow> entry_term e \<noteq> ld_term ld)
        \<and> (match_index (ps_progress (get2 0 (ld_peers ld))) \<ge> i \<or> match_index (ps_progress (get2 1 (ld_peers ld))) \<ge> i)"
      by (auto simp: committable_def entry_at_eq [OF wf])
    have step: "commit_search ld l c i =
        (if committable ld (log_entries l) i then Some i else commit_search ld l c (i - 1))"
      using True by (subst commit_search.simps) (auto simp: q)
    show ?thesis
    proof (cases "committable ld (log_entries l) i")
      case yes: True
      then show ?thesis using step True by auto
    next
      case False
      note IH = less.hyps [OF unat_pred_decreases [OF True]]
      show ?thesis
        using IH step False by (auto simp: le split: option.splits)
    qed
  qed
qed

lemma advance_commit_index_outcome:
  assumes wf: "log_wf l" and run: "advance_commit_index ld l c = (b, c')"
  shows "(if b then c < c' \<and> committable ld (log_entries l) c' else c' = c)
    \<and> (\<forall>k. c' < k \<longrightarrow> \<not> committable ld (log_entries l) k)"
proof -
  have out: "k \<le> last_index l" if "committable ld (log_entries l) k" for k
    using that log_wf_last_index [OF wf] by (simp add: committable_def word_le_nat_alt)
  show ?thesis
    using run commit_search_spec [OF wf, where ld = ld and c = c and i = "last_index l"] out
    by (auto simp: advance_commit_index_def split: option.splits)
qed

lemma leader_inv_matched:
  assumes wf: "log_wf l" and r: "request_of r t self (log_entries l)"
    and m: "unat m < unat nx" "unat nx \<le> Suc (length (log_entries l))"
  defines "new \<equiv> max m (ae_prev_log_index r + of_nat (length (ae_entries r)))"
  shows "peer_inv n t self (log_entries l)
    (p\<lparr>ps_pending := None, ps_progress := \<lparr>next_index = new + 1, match_index = new\<rparr>\<rparr>)"
proof -
  let ?k = "unat (ae_prev_log_index r) + length (ae_entries r)"
  have len: "length (log_entries l) < 2 ^ 63" using log_wf_length [OF wf] by simp
  have "ae_prev_log_index r + of_nat (length (ae_entries r)) = of_nat ?k" by simp
  moreover have k: "?k \<le> length (log_entries l)" using r by (simp add: request_of_def)
  moreover have "unat (of_nat ?k :: u64) = ?k" using k len by (intro unat_of_nat_64) simp
  ultimately have "unat (ae_prev_log_index r + of_nat (length (ae_entries r))) = ?k" by (simp only:)
  then have new: "unat new \<le> length (log_entries l)"
    using k m by (auto simp: new_def max_def)
  then have "unat (new + 1) = Suc (unat new)"
    using len by (intro unat_next [of _ "0xFFFFFFFFFFFFFFFF"]) (simp add: word_less_nat_alt)
  then show ?thesis using new by (simp add: peer_inv_def)
qed

text \<open>\<open>ld'\<close> is \<open>ld\<close> with some progress made: same owner, term, peers and stop flag.\<close>

definition same_leadership :: "raft_leader \<Rightarrow> raft_leader \<Rightarrow> bool" where
  "same_leadership ld ld' \<longleftrightarrow> leader_ids ld' = leader_ids ld \<and> ld_term ld' = ld_term ld
     \<and> ld_self_id ld' = ld_self_id ld \<and> ld_stopped ld' = ld_stopped ld"

lemma same_leadership_refl [simp]: "same_leadership ld ld"
  by (simp add: same_leadership_def)

lemma same_leadership_trans: "same_leadership a b \<Longrightarrow> same_leadership b c \<Longrightarrow> same_leadership a c"
  by (simp add: same_leadership_def)

lemma same_leadership_set_peer:
  "ps_id p = ps_id (get2 i (ld_peers ld)) \<Longrightarrow> same_leadership ld (set_peer i p ld)"
  by (simp add: same_leadership_def)

lemma same_leadership_active: "same_leadership ld ld' \<Longrightarrow> active el m ld' \<longleftrightarrow> active el m ld"
  by (simp add: same_leadership_def active_def)

text \<open>The peer's record after a rejected and after a matching request.\<close>

definition backed_off :: "peer_state \<Rightarrow> peer_state" where
  "backed_off p =
     (if next_index (ps_progress p) \<le> match_index (ps_progress p) + 1 then p\<lparr>ps_pending := None\<rparr>
      else p\<lparr>ps_pending := None,
             ps_progress := (ps_progress p)\<lparr>next_index := next_index (ps_progress p) - 1\<rparr>\<rparr>)"

definition matched_to :: "append_entries \<Rightarrow> peer_state \<Rightarrow> peer_state" where
  "matched_to r p =
     (let new = max (match_index (ps_progress p)) (ae_prev_log_index r + of_nat (length (ae_entries r)))
      in p\<lparr>ps_pending := None, ps_progress := \<lparr>next_index = new + 1, match_index = new\<rparr>\<rparr>)"

lemma peer_updates_id [simp]: "ps_id (backed_off p) = ps_id p" "ps_id (matched_to r p) = ps_id p"
  by (simp_all add: backed_off_def matched_to_def Let_def)

lemma handle_reply_cases:
  assumes run: "handle_reply el l p sent reply m c ld w = (res, m', c', ld', w')"
  obtains (ignored) "res = Ignored" "m' = m" "c' = c" "ld' = ld" "w' = w"
  | (newer) r where "active el m ld" "aer_term reply > ld_term ld" "p \<in> set (list2 (leader_ids ld))"
      "advance_term (aer_term reply) m w = (r, m', w')"
      "res = (if r \<noteq> Persisted then PersistenceError else SteppedDown)" "c' = c"
      "ld' = ld\<lparr>ld_stopped := True\<rparr>"
  | (failed) i where "active el m ld" "p \<in> set (list2 (leader_ids ld))" "aer_term reply = ld_term ld"
      "ps_pending (get2 i (ld_peers ld)) = Some sent" "\<not> aer_success reply"
      "res \<in> {InconsistentFollower, Retry}" "m' = m" "c' = c" "w' = w"
      "ld' = set_peer i (backed_off (get2 i (ld_peers ld))) ld" "find_peer p ld = Some i"
  | (matched) i b where "active el m ld" "p \<in> set (list2 (leader_ids ld))" "aer_term reply = ld_term ld"
      "ps_pending (get2 i (ld_peers ld)) = Some sent" "aer_success reply"
      "res = (if b then Committed else Recorded)" "m' = m" "w' = w"
      "ld' = set_peer i (matched_to sent (get2 i (ld_peers ld))) ld"
      "advance_commit_index ld' l c = (b, c')" "find_peer p ld = Some i"
proof (cases "find_peer p ld")
  case None
  then show ?thesis using run ignored by (simp add: handle_reply_def)
next
  case (Some i)
  let ?peer = "get2 i (ld_peers ld)"
  have p: "p \<in> set (list2 (leader_ids ld))" using Some find_peer_None [of p ld] by auto
  show ?thesis
  proof (cases "active el m ld")
    case False
    then show ?thesis using run ignored Some by (simp add: handle_reply_def)
  next
    case act: True
    show ?thesis
    proof (cases "aer_term reply > ld_term ld")
      case True
      obtain r m1 w1 where a: "advance_term (aer_term reply) m w = (r, m1, w1)" by (metis prod_cases3)
      then show ?thesis
        using run Some act True p by (intro newer [of r]) (auto simp: handle_reply_def)
    next
      case False
      show ?thesis
      proof (cases "aer_term reply \<noteq> ld_term ld \<or> ps_pending ?peer \<noteq> Some sent")
        case True
        then show ?thesis
          using run Some act False by (intro ignored) (auto simp: handle_reply_def Let_def)
      next
        case live: False
        show ?thesis
        proof (cases "aer_success reply")
          case fail: False
          show ?thesis
            by (rule failed [of i])
              (use run Some act False live fail p in
                \<open>auto simp: handle_reply_def Let_def backed_off_def split: if_splits\<close>)
        next
          case True
          obtain b c1 where adv: "advance_commit_index (set_peer i (matched_to sent ?peer) ld) l c = (b, c1)"
            by fastforce
          show ?thesis
            by (rule matched [of i b])
              (use run Some act False live True p adv in
                \<open>auto simp: handle_reply_def Let_def matched_to_def split: bool.splits\<close>)
        qed
      qed
    qed
  qed
qed

lemma handle_reply_outcome:
  assumes wf: "log_wf l" and run: "handle_reply el l p sent reply m c ld w = (res, m', c', ld', w')"
  shows "metadata_le (pm_state m) (pm_state m')
    \<and> (if res \<in> {SteppedDown, PersistenceError}
       then active el m ld \<and> ld' = ld\<lparr>ld_stopped := True\<rparr> \<and> c' = c \<and> aer_term reply > ld_term ld
         \<and> (res = SteppedDown \<longrightarrow> current_term (pm_state m') = aer_term reply)
       else m' = m \<and> w' = w \<and> same_leadership ld ld')
    \<and> (res = Ignored \<longrightarrow> ld' = ld)
    \<and> (res \<in> {Retry, Recorded, Committed, InconsistentFollower} \<longrightarrow>
         active el m ld \<and> p \<in> set (list2 (leader_ids ld)) \<and> aer_term reply = ld_term ld
         \<and> (aer_success reply \<longleftrightarrow> res \<in> {Recorded, Committed}))
    \<and> (if res = Committed then c < c' \<and> committable ld' (log_entries l) c' else c' = c)"
  using run
proof (cases rule: handle_reply_cases)
  case (newer r)
  then show ?thesis using metadata_le_advance [OF newer(4)] advance_term_outcome [OF newer(4)] by auto
next
  case (matched i b)
  then show ?thesis
    using advance_commit_index_outcome [OF wf matched(10)] by (auto intro: same_leadership_set_peer)
qed (auto intro: same_leadership_set_peer)

lemma backed_off_inv: "peer_inv n t self es p \<Longrightarrow> peer_inv n t self es (backed_off p)"
proof -
  assume inv: "peer_inv n t self es p"
  let ?m = "match_index (ps_progress p)" and ?nx = "next_index (ps_progress p)"
  have lt: "?m < ?nx" using inv by (simp add: peer_inv_def word_less_nat_alt)
  have "\<not> ?nx \<le> ?m + 1 \<Longrightarrow> unat ?m < unat (?nx - 1)"
    using unat_next [OF lt] unat_pred [OF lt] by (simp add: word_le_nat_alt)
  then show ?thesis using inv unat_pred [OF lt] by (auto simp: backed_off_def peer_inv_def)
qed

lemma handle_reply_inv:
  assumes wf: "log_wf l" and run: "handle_reply el l p sent reply m c ld w = (res, m', c', ld', w')"
    and inv: "leader_inv n ld (log_entries l)"
  shows "leader_inv n ld' (log_entries l)
    \<and> (res \<in> {Retry, Recorded, Committed, InconsistentFollower} \<longrightarrow>
         request_of sent (ld_term ld) (ld_self_id ld) (log_entries l))"
  using run
proof (cases rule: handle_reply_cases)
  case (failed i)
  note peer = leader_inv_peer [OF inv, of i]
  show ?thesis
    using failed leader_inv_set_peer [OF inv backed_off_inv [OF peer]] peer
    by (auto simp: peer_inv_def)
next
  case (matched i b)
  note peer = leader_inv_peer [OF inv, of i, unfolded peer_inv_def]
  have sent: "request_of sent (ld_term ld) (ld_self_id ld) (log_entries l)" using peer matched(4) by simp
  have "peer_inv n (ld_term ld) (ld_self_id ld) (log_entries l) (matched_to sent (get2 i (ld_peers ld)))"
    unfolding matched_to_def Let_def
    by (rule leader_inv_matched [OF wf sent, where nx = "next_index (ps_progress (get2 i (ld_peers ld)))"])
      (use peer in simp_all)
  then show ?thesis using matched leader_inv_set_peer [OF inv] sent by auto
qed (use inv in auto)

text \<open>Unconditionally: a request changes nothing but the outstanding request of one peer.\<close>

lemma make_request_same:
  "make_request el m l commit p k ld = (res, ld') \<Longrightarrow> same_leadership ld ld'"
  by (auto simp: make_request_def Let_def intro!: same_leadership_set_peer
      split: option.splits if_splits)

lemma make_request_unusable:
  "\<not> active el m ld \<or> p \<notin> set (list2 (leader_ids ld)) \<Longrightarrow> \<exists>e. make_request el m l commit p k ld = (Inl e, ld)"
  using find_peer_None [of p ld] by (auto simp: make_request_def Let_def split: option.splits)

section \<open>A follower that accepts a leader's request\<close>

text \<open>Two logs match if they agree up to every position where both hold an entry of the same term.\<close>

definition logs_match :: "log_entry list \<Rightarrow> log_entry list \<Rightarrow> bool" where
  "logs_match xs ys \<longleftrightarrow>
     (\<forall>i. i < length xs \<longrightarrow> i < length ys \<longrightarrow> entry_term (xs ! i) = entry_term (ys ! i) \<longrightarrow>
        take (Suc i) xs = take (Suc i) ys)"

lemma logs_match_prefix:
  assumes "logs_match xs ys" and "holds_at p (prev_term_of p ys) xs" and "p \<le> length ys"
  shows "take p xs = take p ys"
proof (cases p)
  case (Suc q)
  then show ?thesis using assms by (auto simp: logs_match_def holds_at_def prev_term_of_def)
qed simp

lemma logs_match_take: "logs_match (take n ys) ys"
  by (auto simp: logs_match_def min_def)

lemma logs_match_merge:
  assumes "logs_match xs ys" and "take p xs = take p ys" and "p + n \<le> length ys" and "p \<le> length xs"
  defines "new \<equiv> merge_entries xs p (take n (drop p ys))"
  shows "logs_match new ys \<and> take (p + n) new = take (p + n) ys"
proof -
  have n: "length (take n (drop p ys)) = n" using assms(3) by simp
  have "take (p + n) new = take p xs @ take n (drop p ys)"
    using merge_entries_has_batch [OF assms(4), of "take n (drop p ys)"] n by (simp add: new_def)
  then have pre: "take (p + n) new = take (p + n) ys" by (simp add: assms(2) take_add)
  have "new = xs \<or> new = take (p + n) ys"
    by (auto simp: new_def merge_entries_def assms(2) take_add)
  then have "logs_match new ys" using assms(1) logs_match_take by auto
  with pre show ?thesis by simp
qed

section \<open>Properties\<close>

text \<open>C20: Replication copies the leader's log. If a follower whose log matches the leader's accepts a
  request cut from the leader's log, then afterwards the two logs are equal up to the end of the
  request and still match: the positions the leader counts as replicated really hold its entries.\<close>

theorem accepted_request_copies_leader_log:
  assumes "log_wf l" and "logs_match (log_entries l) es" and "request_of req t leader es"
    and "handle_append_entries req m l commit w = (Inr reply, m', l', commit', w')" and "aer_success reply"
  shows "logs_match (log_entries l') es
    \<and> take (unat (ae_prev_log_index req) + length (ae_entries req)) (log_entries l')
      = take (unat (ae_prev_log_index req) + length (ae_entries req)) es"
proof -
  let ?p = "unat (ae_prev_log_index req)" and ?n = "length (ae_entries req)"
  have out: "accepted req (log_entries l)" "log_entries l' = merge_entries (log_entries l) ?p (ae_entries req)"
    using handle_append_entries_outcome [OF assms(1,4)] assms(5) by auto
  have r: "?p + ?n \<le> length es" "ae_entries req = take ?n (drop ?p es)" "ae_prev_log_term req = prev_term_of ?p es"
    using assms(3) by (simp_all add: request_of_def)
  have h: "holds_at ?p (prev_term_of ?p es) (log_entries l)" using out(1) r(3) by (simp add: accepted_def)
  have "take ?p (log_entries l) = take ?p es"
    by (rule logs_match_prefix [OF assms(2) h]) (use r(1) in simp)
  moreover have "?p \<le> length (log_entries l)" using h by (simp add: holds_at_def)
  ultimately show ?thesis using logs_match_merge [OF assms(2) _ r(1)] r(2) out(2) by metis
qed

theorem accepted_request_copies_leader_log_witness:
  "take 1 (log_entries sample_log) = take 1 [sample_entry]"
proof -
  have "logs_match (log_entries sample_log) [sample_entry]" by (simp add: logs_match_def)
  moreover have "request_of sample_append 3 2 [sample_entry]"
    by (simp add: request_of_def sample_append_def prev_term_of_def)
  ultimately show ?thesis
    using accepted_request_copies_leader_log [OF sample_log_wf _ _
        sample_append_accepted [of "\<lparr>script = [], trace = []\<rparr>"]]
    by (simp add: sample_append_def)
qed

text \<open>Every request a leader makes passes the follower's validity check. An active leader with a
  known peer always gets a request (its outstanding one, or a fresh slice of its log starting at the
  peer's next index, of at most the batch size), never an error, and that request is valid in the
  sense of the follower's check.\<close>

theorem leader_requests_are_valid:
  assumes "log_wf l" and "leader_inv n ld (log_entries l)" and "active el m ld"
    and "p \<in> set (list2 (leader_ids ld))" and "0 < k" and "k \<le> n"
    and "unat commit \<le> length (log_entries l)" and "terms_ok (ld_term ld) (log_entries l)"
  shows "\<exists>r ld'. make_request el m l commit p k ld = (Inr r, ld')
    \<and> request_of r (ld_term ld) (ld_self_id ld) (log_entries l) \<and> length (ae_entries r) \<le> n
    \<and> valid_entries r \<and> leader_inv n ld' (log_entries l)"
proof -
  obtain r ld' where r: "make_request el m l commit p k ld = (Inr r, ld')"
      "request_of r (ld_term ld) (ld_self_id ld) (log_entries l)" "length (ae_entries r) \<le> n"
      "leader_inv n ld' (log_entries l)"
    using make_request_outcome [OF assms(1-4,5,6,7)] by metis
  have "sequential (log_entries l)" using assms(1) by (rule raft_log.inv_sequential)
  moreover have "length (log_entries l) < 2 ^ 64" using log_wf_length [OF assms(1)] by simp
  ultimately have "valid_entries r" using request_valid [OF r(2) _ assms(8)] by simp
  with r show ?thesis by blast
qed

definition sample_leader_election :: raft_election where
  "sample_leader_election = sample_candidate\<lparr>el_role := Leader, el_granted_votes := 2\<rparr>"

definition sample_leader :: raft_leader where
  "sample_leader = \<lparr>ld_self_id = 1, ld_term = 3,
     ld_peers = (\<lparr>ps_id = 2, ps_progress = \<lparr>next_index = 1, match_index = 0\<rparr>, ps_pending = None\<rparr>,
                 \<lparr>ps_id = 3, ps_progress = \<lparr>next_index = 2, match_index = 1\<rparr>, ps_pending = None\<rparr>),
     ld_stopped = False\<rparr>"

lemma sample_leader_ok:
  "leader_inv 4 sample_leader [sample_entry]" "active sample_leader_election (sample_store (Some 1)) sample_leader"
  "leader_ids sample_leader = (2, 3)" "ld_term sample_leader = 3"
  by (simp_all add: leader_inv_def peer_inv_def sample_leader_def active_def election_role_def
      sample_leader_election_def sample_candidate_def sample_store_def leader_ids_def)

theorem leader_requests_are_valid_witness:
  "\<exists>r ld'. make_request sample_leader_election (sample_store (Some 1)) sample_log 0 2 4 sample_leader = (Inr r, ld')
     \<and> valid_entries r"
proof -
  have "terms_ok 3 [sample_entry]" by (simp add: terms_ok_def sample_entry_def)
  then show ?thesis
    using leader_requests_are_valid [OF sample_log_wf _ sample_leader_ok(2), of 4 2 4 0]
    by (auto simp: sample_leader_ok)
qed

text \<open>C19: The commit rule. The leader's search returns the greatest index above the commit index whose
  entry is of the leader's own term and is held by at least one of the two followers, so by a majority
  of three with the leader; it moves nothing exactly when there is no such index.\<close>

theorem commit_index_is_greatest_committable:
  assumes "log_wf l"
  shows "case advance_commit_index ld l c of
      (True, c') \<Rightarrow> c < c' \<and> committable ld (log_entries l) c'
        \<and> (\<forall>k. c' < k \<longrightarrow> \<not> committable ld (log_entries l) k)
    | (False, c') \<Rightarrow> c' = c \<and> (\<forall>k. c < k \<longrightarrow> \<not> committable ld (log_entries l) k)"
proof -
  obtain b c' where bc: "advance_commit_index ld l c = (b, c')" by fastforce
  show ?thesis
    using advance_commit_index_outcome [OF assms bc] by (cases b) (simp_all add: bc)
qed

theorem commit_index_is_greatest_committable_witness:
  "advance_commit_index (sample_leader\<lparr>ld_term := 1\<rparr>) sample_log 0 = (True, 1)"
proof -
  have one: "k = 1" if "committable (sample_leader\<lparr>ld_term := 1\<rparr>) [sample_entry] k" for k
    using that by (auto simp: committable_def word_unat_eq_iff)
  have yes: "committable (sample_leader\<lparr>ld_term := 1\<rparr>) [sample_entry] 1"
    by (simp add: committable_def sample_leader_def sample_entry_def)
  obtain b c where bc: "advance_commit_index (sample_leader\<lparr>ld_term := 1\<rparr>) sample_log 0 = (b, c)" by fastforce
  show ?thesis
    using commit_index_is_greatest_committable [OF sample_log_wf,
        where ld = "sample_leader\<lparr>ld_term := 1\<rparr>" and c = 0] one yes
    by (cases b) (auto simp: bc)
qed

text \<open>
  \<open>probing\<close>: the leader asks one peer again and again (\<open>make_request\<close>) and each request is rejected in its
  term, until \<open>handle_reply\<close> no longer answers \<open>Retry\<close> or \<open>n\<close> replies have come; the results of
  \<open>handle_reply\<close> in order.
\<close>

primrec probing :: "raft_election \<Rightarrow> persistent_metadata \<Rightarrow> persistent_log \<Rightarrow> u64 \<Rightarrow> u64 \<Rightarrow> nat \<Rightarrow> os
    \<Rightarrow> nat \<Rightarrow> raft_leader \<Rightarrow> append_reply_outcome list" where
  "probing el m l c p k w 0 ld = []"
| "probing el m l c p k w (Suc n) ld =
     (case make_request el m l c p k ld of
        (Inl e, ld) \<Rightarrow> []
      | (Inr req, ld) \<Rightarrow>
          (case handle_reply el l p req \<lparr>aer_term = ld_term ld, aer_success = False\<rparr> m c ld w of
             (res, m, c, ld, w) \<Rightarrow> res # (if res = Retry then probing el m l c p k w n ld else [])))"

lemma make_request_peer:
  assumes "make_request el m l c p k ld = (Inr req, ld')" and "find_peer p ld = Some i"
  shows "ps_pending (get2 i (ld_peers ld')) = Some req \<and> find_peer p ld' = Some i \<and> ld_term ld' = ld_term ld
    \<and> ps_progress (get2 i (ld_peers ld')) = ps_progress (get2 i (ld_peers ld))"
  using assms
  by (auto simp: make_request_def Let_def set_peer_def set2_def get2_def find_peer_iff
      split: option.splits if_splits)

text \<open>One rejected reply.\<close>

lemma rejected_reply:
  assumes "leader_inv n ld es" and "active el m ld" and "find_peer p ld = Some i"
    and "ps_pending (get2 i (ld_peers ld)) = Some sent"
    and "aer_term reply = ld_term ld" and "\<not> aer_success reply"
  shows "\<exists>res ld'. handle_reply el l p sent reply m c ld w = (res, m, c, ld', w)
    \<and> leader_inv n ld' es \<and> active el m ld' \<and> find_peer p ld' = Some i
    \<and> get2 (1 - i) (ld_peers ld') = get2 (1 - i) (ld_peers ld)
    \<and> ps_pending (get2 i (ld_peers ld')) = None
    \<and> match_index (ps_progress (get2 i (ld_peers ld'))) = match_index (ps_progress (get2 i (ld_peers ld)))
    \<and> (if unat (next_index (ps_progress (get2 i (ld_peers ld)))) = Suc (unat (match_index (ps_progress (get2 i (ld_peers ld)))))
       then res = InconsistentFollower
         \<and> next_index (ps_progress (get2 i (ld_peers ld'))) = next_index (ps_progress (get2 i (ld_peers ld)))
       else res = Retry
         \<and> unat (next_index (ps_progress (get2 i (ld_peers ld')))) = unat (next_index (ps_progress (get2 i (ld_peers ld)))) - 1)"
proof -
  let ?p = "get2 i (ld_peers ld)"
  let ?m = "match_index (ps_progress ?p)" and ?nx = "next_index (ps_progress ?p)"
  note peer = leader_inv_peer [OF assms(1), of i]
  have lt: "?m < ?nx" using peer by (simp add: peer_inv_def word_less_nat_alt)
  have low: "?nx \<le> ?m + 1 \<longleftrightarrow> unat ?nx = Suc (unat ?m)"
    using unat_next [OF lt] lt by (auto simp: word_le_nat_alt word_less_nat_alt)
  have i: "i = 0 \<or> i = 1" using assms(3) by (auto simp: find_peer_iff split: if_splits)
  let ?ld = "set_peer i (backed_off ?p) ld"
  have run: "handle_reply el l p sent reply m c ld w
      = (if ?nx \<le> ?m + 1 then InconsistentFollower else Retry, m, c, ?ld, w)"
    using assms by (simp add: handle_reply_def Let_def backed_off_def)
  have at: "get2 i (ld_peers ?ld) = backed_off ?p" "get2 (1 - i) (ld_peers ?ld) = get2 (1 - i) (ld_peers ld)"
    "find_peer p ?ld = Some i" "active el m ?ld"
    using i assms(2,3) by (auto simp: set_peer_def find_peer_iff active_def split: if_splits)
  have "leader_inv n ?ld es" by (rule leader_inv_set_peer [OF assms(1) backed_off_inv [OF peer]])
  then show ?thesis
    using run at low unat_pred [OF lt] by (auto simp: backed_off_def)
qed

lemma probing_ends:
  assumes wf: "log_wf l" and k: "0 < k" "k \<le> n" and c: "unat c \<le> length (log_entries l)"
  shows "leader_inv n ld (log_entries l) \<Longrightarrow> active el m ld \<Longrightarrow> find_peer p ld = Some i \<Longrightarrow>
    unat (next_index (ps_progress (get2 i (ld_peers ld)))) = Suc (unat (match_index (ps_progress (get2 i (ld_peers ld)))) + d) \<Longrightarrow>
    d < q \<Longrightarrow> probing el m l c p k w q ld = replicate d Retry @ [InconsistentFollower]"
proof (induction q arbitrary: ld d)
  case 0
  then show ?case by simp
next
  case (Suc q)
  have p: "p \<in> set (list2 (leader_ids ld))" using find_peer_None [of p ld] Suc.prems(3) by auto
  obtain req ld1 where mk: "make_request el m l c p k ld = (Inr req, ld1)" and inv: "leader_inv n ld1 (log_entries l)"
    by (rule make_request_outcome [OF wf Suc.prems(1,2) p k c])
  note one = make_request_peer [OF mk Suc.prems(3)]
  have act: "active el m ld1" using Suc.prems(2) same_leadership_active [OF make_request_same [OF mk]] by blast
  obtain res ld2 where h: "handle_reply el l p req \<lparr>aer_term = ld_term ld1, aer_success = False\<rparr> m c ld1 w = (res, m, c, ld2, w)"
    "leader_inv n ld2 (log_entries l)" "active el m ld2" "find_peer p ld2 = Some i"
    "match_index (ps_progress (get2 i (ld_peers ld2))) = match_index (ps_progress (get2 i (ld_peers ld1)))"
    "if unat (next_index (ps_progress (get2 i (ld_peers ld1)))) = Suc (unat (match_index (ps_progress (get2 i (ld_peers ld1)))))
     then res = InconsistentFollower
     else res = Retry
       \<and> unat (next_index (ps_progress (get2 i (ld_peers ld2)))) = unat (next_index (ps_progress (get2 i (ld_peers ld1)))) - 1"
    using rejected_reply [OF inv act _ _ _ _, of p i req "\<lparr>aer_term = ld_term ld1, aer_success = False\<rparr>" l c w] one
    by (auto split: if_splits)
  show ?case
  proof (cases d)
    case 0
    then show ?thesis using mk h one Suc.prems(4) by simp
  next
    case (Suc e)
    have "res = Retry" "probing el m l c p k w q ld2 = replicate e Retry @ [InconsistentFollower]"
      using h one Suc Suc.prems(4,5) by (auto intro!: Suc.IH)
    then show ?thesis using mk h(1) Suc by simp
  qed
qed

text \<open>C32: Backing off ends. When a leader hears, in its term, that a peer rejected the request outstanding
  to it, the handling of the reply forgets the request and changes nothing else but that peer's next index: this is
  lowered by one, for a retry, as long as something lies between it and the match index; right above the
  match index it stays and the peer is reported as an inconsistent follower. So a peer that goes on
  rejecting is asked again exactly once for each index in between, and then reported.\<close>

theorem backoff_decreases:
  assumes "log_wf l" and "leader_inv n ld (log_entries l)" and "active el m ld" and "find_peer p ld = Some i"
    and "ps_pending (get2 i (ld_peers ld)) = Some sent"
    and "aer_term reply = ld_term ld" and "\<not> aer_success reply"
    and "0 < k" and "k \<le> n" and "unat c \<le> length (log_entries l)"
    and "peer = get2 i (ld_peers ld)"
  shows "(\<exists>res nx. handle_reply el l p sent reply m c ld w
        = (res, m, c, set_peer i (peer\<lparr>ps_pending := None, ps_progress := (ps_progress peer)\<lparr>next_index := nx\<rparr>\<rparr>) ld, w)
      \<and> (if unat (next_index (ps_progress peer)) = Suc (unat (match_index (ps_progress peer)))
         then res = InconsistentFollower \<and> nx = next_index (ps_progress peer)
         else res = Retry \<and> unat nx = unat (next_index (ps_progress peer)) - 1
           \<and> unat (match_index (ps_progress peer)) < unat nx))
    \<and> (\<forall>q. let between = unat (next_index (ps_progress peer)) - unat (match_index (ps_progress peer)) - 1
        in between < q \<longrightarrow> probing el m l c p k w q ld = replicate between Retry @ [InconsistentFollower])"
proof (intro conjI allI)
  let ?m = "match_index (ps_progress peer)" and ?nx = "next_index (ps_progress peer)"
  have lt: "?m < ?nx" using leader_inv_peer [OF assms(2), of i] assms(11) by (simp add: peer_inv_def word_less_nat_alt)
  have low: "?nx \<le> ?m + 1 \<longleftrightarrow> unat ?nx = Suc (unat ?m)"
    using unat_next [OF lt] lt by (auto simp: word_le_nat_alt word_less_nat_alt)
  have "handle_reply el l p sent reply m c ld w
      = (if ?nx \<le> ?m + 1 then InconsistentFollower else Retry, m, c, set_peer i (backed_off peer) ld, w)"
    using assms by (simp add: handle_reply_def Let_def backed_off_def)
  then show "\<exists>res nx. handle_reply el l p sent reply m c ld w
        = (res, m, c, set_peer i (peer\<lparr>ps_pending := None, ps_progress := (ps_progress peer)\<lparr>next_index := nx\<rparr>\<rparr>) ld, w)
      \<and> (if unat ?nx = Suc (unat ?m) then res = InconsistentFollower \<and> nx = ?nx
         else res = Retry \<and> unat nx = unat ?nx - 1 \<and> unat ?m < unat nx)"
    using low unat_pred [OF lt] lt
    by (intro exI [of _ "if ?nx \<le> ?m + 1 then InconsistentFollower else Retry"]
        exI [of _ "if ?nx \<le> ?m + 1 then ?nx else ?nx - 1"])
      (auto simp: backed_off_def word_less_nat_alt)
  fix q
  show "let between = unat ?nx - unat ?m - 1
      in between < q \<longrightarrow> probing el m l c p k w q ld = replicate between Retry @ [InconsistentFollower]"
    unfolding Let_def
    by (intro impI, rule probing_ends [OF assms(1,8,9,10,2,3,4)])
      (use lt assms(11) in \<open>simp_all add: word_less_nat_alt\<close>)
qed

text \<open>A leader of one entry that has sent it to a peer it believes to hold nothing: the request is rejected.\<close>

definition probing_leader :: raft_leader where
  "probing_leader = sample_leader\<lparr>ld_peers := (\<lparr>ps_id = 2, ps_progress = \<lparr>next_index = 2, match_index = 0\<rparr>,
       ps_pending = Some \<lparr>ae_term = 3, ae_leader_id = 1, ae_prev_log_index = 1, ae_prev_log_term = 1,
         ae_entries = [], ae_leader_commit = 0, ae_read_context = 0\<rparr>\<rparr>, snd (ld_peers sample_leader))\<rparr>"

theorem backoff_decreases_witness:
  "probing sample_leader_election (sample_store (Some 1)) sample_log 0 2 4 \<lparr>script = [], trace = []\<rparr> 5 probing_leader
     = [Retry, InconsistentFollower]"
proof -
  let ?sent = "\<lparr>ae_term = 3, ae_leader_id = 1, ae_prev_log_index = 1, ae_prev_log_term = 1,
     ae_entries = [], ae_leader_commit = 0, ae_read_context = 0\<rparr>"
  have inv: "leader_inv 4 probing_leader (log_entries sample_log)"
    by (simp add: leader_inv_def peer_inv_def probing_leader_def sample_leader_def request_of_def prev_term_of_def
        sample_log_entries sample_entry_def)
  have act: "active sample_leader_election (sample_store (Some 1)) probing_leader"
    using sample_leader_ok(2) by (simp add: probing_leader_def active_def)
  have at: "find_peer 2 probing_leader = Some 0"
      "ps_pending (get2 0 (ld_peers probing_leader)) = Some ?sent" "ld_term probing_leader = 3"
    by (simp_all add: probing_leader_def find_peer_iff sample_leader_def)
  have nx: "next_index (ps_progress (get2 0 (ld_peers probing_leader))) = 2"
    "match_index (ps_progress (get2 0 (ld_peers probing_leader))) = 0"
    by (simp_all add: probing_leader_def)
  note th = backoff_decreases [OF sample_log_wf inv act at(1,2) _ _ _ _ _ refl,
      where reply = "\<lparr>aer_term = 3, aer_success = False\<rparr>" and k = 4 and c = 0 and w = "\<lparr>script = [], trace = []\<rparr>"]
  show ?thesis
    using spec [OF conjunct2 [OF th], of 5] at(3) nx by (simp add: Let_def)
qed

end
