(* ===== verification/Kv_State_Machine.thy ===== *)
theory Kv_State_Machine
  imports Persistent_Log
begin

text \<open>
  The replicated state machine (src/kv_state_machine.cpp).

  \<^item> \<open>kv_state\<close> holds the three private fields; \<open>kv_apply\<close>, \<open>kv_get\<close>, \<open>kv_request_result\<close>
    are the operations. The map of results is only looked up and added to, never iterated,
    so a map models it.
  \<^item> The abstract specification: \<open>plain_apply\<close> is the effect of a command that is executed,
    \<open>effective\<close> drops the commands whose request id already occurred, \<open>kv_replay\<close> runs a whole
    log, and \<open>kv_replay_data\<close> shows that the table after a log is the plain execution of its
    effective commands: each request takes effect at most once.
\<close>

datatype apply_result = Applied | KeyNotFound | RequestConflict | InvalidCommand | UnexpectedIndex

record applied_request =
  ar_command :: command
  ar_result :: apply_result
  ar_index :: u64
  ar_term :: u64

record kv_state =
  kv_data :: "bytes \<rightharpoonup> bytes"
  kv_requests :: "request_id \<rightharpoonup> applied_request"
  kv_last_applied :: u64

definition kv_init :: kv_state where
  "kv_init = \<lparr>kv_data = Map.empty, kv_requests = Map.empty, kv_last_applied = 0\<rparr>"

section \<open>Operations\<close>

definition kv_get :: "bytes \<Rightarrow> kv_state \<Rightarrow> bytes option" where
  "kv_get key s = kv_data s key"

definition kv_request_result :: "request_id \<Rightarrow> kv_state \<Rightarrow> applied_request option" where
  "kv_request_result rid s = kv_requests s rid"

definition kv_apply :: "u64 \<Rightarrow> command \<Rightarrow> u64 \<Rightarrow> kv_state \<Rightarrow> apply_result \<times> kv_state" where
  "kv_apply log_index c log_term s =
     (if log_index \<noteq> kv_last_applied s + 1 then (UnexpectedIndex, s)
      else if cmd_type c = Delete \<and> cmd_value c \<noteq> []
           \<or> cmd_type c = NoOp \<and> (cmd_key c \<noteq> [] \<or> cmd_value c \<noteq> [] \<or> cmd_request_id c \<noteq> None)
      then (InvalidCommand, s)
      else
        (case (case cmd_request_id c of None \<Rightarrow> None | Some rid \<Rightarrow> kv_request_result rid s) of
           Some prior \<Rightarrow>
             (if ar_command prior = c then ar_result prior else RequestConflict,
              s\<lparr>kv_last_applied := log_index\<rparr>)
         | None \<Rightarrow>
             (case (case cmd_type c of
                      Put \<Rightarrow> (Applied, s\<lparr>kv_data := (kv_data s)(cmd_key c \<mapsto> cmd_value c)\<rparr>)
                    | Delete \<Rightarrow>
                        if cmd_value c \<noteq> [] then (InvalidCommand, s)
                        else if kv_data s (cmd_key c) \<noteq> None
                        then (Applied, s\<lparr>kv_data := (kv_data s)(cmd_key c := None)\<rparr>)
                        else (KeyNotFound, s)
                    | NoOp \<Rightarrow>
                        if cmd_value c \<noteq> [] \<or> cmd_key c \<noteq> [] then (InvalidCommand, s)
                        else (Applied, s)) of
                (result, s') \<Rightarrow>
                  if result = InvalidCommand then (result, s')
                  else
                    (let s' = s'\<lparr>kv_last_applied := log_index\<rparr>
                     in (result,
                         (case cmd_request_id c of
                            None \<Rightarrow> s'
                          | Some rid \<Rightarrow>
                              s'\<lparr>kv_requests := (kv_requests s')(rid \<mapsto>
                                  \<lparr>ar_command = c, ar_result = result, ar_index = log_index,
                                   ar_term = log_term\<rparr>)\<rparr>))))))"

section \<open>The effect of one application\<close>

lemma kv_apply_shape:
  "command_shape_ok c \<longleftrightarrow>
     \<not> (cmd_type c = Delete \<and> cmd_value c \<noteq> []
        \<or> cmd_type c = NoOp \<and> (cmd_key c \<noteq> [] \<or> cmd_value c \<noteq> [] \<or> cmd_request_id c \<noteq> None))"
  by (auto simp: command_shape_ok_def split: command_type.splits)

lemma kv_apply_rejects:
  "log_index \<noteq> kv_last_applied s + 1 \<Longrightarrow> kv_apply log_index c t s = (UnexpectedIndex, s)"
  "log_index = kv_last_applied s + 1 \<Longrightarrow> \<not> command_shape_ok c \<Longrightarrow>
     kv_apply log_index c t s = (InvalidCommand, s)"
  by (auto simp: kv_apply_def command_shape_ok_def split: command_type.splits)

text \<open>The effect of a command that is executed, on the table alone.\<close>

definition plain_apply :: "command \<Rightarrow> (bytes \<rightharpoonup> bytes) \<Rightarrow> (bytes \<rightharpoonup> bytes)" where
  "plain_apply c m =
     (case cmd_type c of
        Put \<Rightarrow> m(cmd_key c \<mapsto> cmd_value c)
      | Delete \<Rightarrow> m(cmd_key c := None)
      | NoOp \<Rightarrow> m)"

definition plain_result :: "command \<Rightarrow> (bytes \<rightharpoonup> bytes) \<Rightarrow> apply_result" where
  "plain_result c m = (if cmd_type c = Delete \<and> m (cmd_key c) = None then KeyNotFound else Applied)"

lemma plain_apply_absent: "m k = None \<Longrightarrow> m(k := None) = m"
  by auto

lemma kv_apply_fresh:
  assumes "command_shape_ok c"
    and "\<And>rid. cmd_request_id c = Some rid \<Longrightarrow> kv_requests s rid = None"
  shows "kv_apply (kv_last_applied s + 1) c t s =
    (plain_result c (kv_data s),
     \<lparr>kv_data = plain_apply c (kv_data s),
      kv_requests = (case cmd_request_id c of
         None \<Rightarrow> kv_requests s
       | Some rid \<Rightarrow> (kv_requests s)(rid \<mapsto>
           \<lparr>ar_command = c, ar_result = plain_result c (kv_data s),
            ar_index = kv_last_applied s + 1, ar_term = t\<rparr>)),
      kv_last_applied = kv_last_applied s + 1\<rparr>)"
proof -
  have "s = \<lparr>kv_data = kv_data s, kv_requests = kv_requests s, kv_last_applied = kv_last_applied s\<rparr>"
    by simp
  then show ?thesis
    using assms
    by (cases "cmd_type c"; cases "cmd_request_id c")
      (auto simp: kv_apply_def kv_apply_shape kv_request_result_def plain_apply_def plain_result_def
        Let_def plain_apply_absent)
qed

lemma kv_apply_repeated:
  assumes "command_shape_ok c" and "cmd_request_id c = Some rid" and "kv_requests s rid = Some prior"
  shows "kv_apply (kv_last_applied s + 1) c t s =
    (if ar_command prior = c then ar_result prior else RequestConflict,
     s\<lparr>kv_last_applied := kv_last_applied s + 1\<rparr>)"
  using assms by (auto simp: kv_apply_def kv_apply_shape kv_request_result_def)

lemma kv_apply_last_applied:
  "kv_apply i c t s = (r, s') \<Longrightarrow>
     kv_last_applied s' = (if r = UnexpectedIndex \<and> i \<noteq> kv_last_applied s + 1 \<or> \<not> command_shape_ok c
       then kv_last_applied s else kv_last_applied s + 1)"
  by (auto simp: kv_apply_def Let_def kv_apply_shape split: if_splits option.splits command_type.splits)

section \<open>Replaying a log\<close>

text \<open>
  \<open>applies\<close> runs the entries of a log through \<open>kv_apply\<close> in order, as the apply loop does, and
  \<open>kv_replay\<close> does so from the initial state. \<open>effective seen cs\<close> is what is left of the commands
  when those whose request id occurred before are dropped.
\<close>

definition apply_entry :: "kv_state \<Rightarrow> log_entry \<Rightarrow> kv_state" where
  "apply_entry s e = snd (kv_apply (entry_index e) (entry_command e) (entry_term e) s)"

definition kv_replay :: "log_entry list \<Rightarrow> kv_state" where
  "kv_replay es = foldl apply_entry kv_init es"

fun effective :: "request_id list \<Rightarrow> command list \<Rightarrow> command list" where
  "effective seen [] = []"
| "effective seen (c # cs) =
     (case cmd_request_id c of
        None \<Rightarrow> c # effective seen cs
      | Some rid \<Rightarrow> if rid \<in> set seen then effective seen cs else c # effective (rid # seen) cs)"

definition plain_run :: "command list \<Rightarrow> (bytes \<rightharpoonup> bytes) \<Rightarrow> (bytes \<rightharpoonup> bytes)" where
  "plain_run cs m = foldl (\<lambda>m c. plain_apply c m) m cs"

lemma plain_run_simps [simp]:
  "plain_run [] m = m"
  "plain_run (c # cs) m = plain_run cs (plain_apply c m)"
  by (simp_all add: plain_run_def)

lemma kv_replay_Nil [simp]: "kv_replay [] = kv_init"
  by (simp add: kv_replay_def)

lemma kv_replay_snoc: "kv_replay (es @ [e]) = apply_entry (kv_replay es) e"
  by (simp add: kv_replay_def)

lemma apply_entry_run:
  assumes "dom (kv_requests s) = set seen"
    and "\<forall>e \<in> set es. command_shape_ok (entry_command e)"
    and "\<forall>i < length es. entry_index (es ! i) = kv_last_applied s + of_nat (Suc i)"
  shows "kv_data (foldl apply_entry s es) = plain_run (effective seen (map entry_command es)) (kv_data s)
    \<and> kv_last_applied (foldl apply_entry s es) = kv_last_applied s + of_nat (length es)"
  using assms
proof (induction es arbitrary: s seen)
  case Nil
  then show ?case by simp
next
  case (Cons e es)
  let ?c = "entry_command e" and ?s = "apply_entry s e"
  have shape: "command_shape_ok ?c" and idx: "entry_index e = kv_last_applied s + 1"
    using Cons.prems(2,3) by auto
  note step = kv_apply_fresh [OF shape, of s "entry_term e"] kv_apply_repeated [OF shape, of _ s _ "entry_term e"]
  have seen: "kv_requests s rid = None \<longleftrightarrow> rid \<notin> set seen" for rid
    using Cons.prems(1) by auto
  have last: "kv_last_applied ?s = kv_last_applied s + 1"
    using shape by (auto simp: apply_entry_def idx kv_apply_last_applied [OF surjective_pairing])
  have next_idx: "\<forall>i < length es. entry_index (es ! i) = kv_last_applied ?s + of_nat (Suc i)"
    using Cons.prems(3) last by (auto simp: algebra_simps)
  show ?case
  proof (cases "\<exists>rid. cmd_request_id ?c = Some rid \<and> rid \<in> set seen")
    case True
    then obtain rid prior where r: "cmd_request_id ?c = Some rid" "rid \<in> set seen"
        "kv_requests s rid = Some prior"
      using seen by fastforce
    then have "?s = s\<lparr>kv_last_applied := kv_last_applied s + 1\<rparr>"
      using step(2) [OF r(1,3)] by (simp add: apply_entry_def idx)
    then show ?thesis
      using Cons.IH [of ?s seen] Cons.prems(1,2) next_idx r last by (simp add: algebra_simps)
  next
    case False
    then have fresh: "\<And>rid. cmd_request_id ?c = Some rid \<Longrightarrow> kv_requests s rid = None"
      using seen by blast
    let ?seen = "case cmd_request_id ?c of None \<Rightarrow> seen | Some rid \<Rightarrow> rid # seen"
    have data: "kv_data ?s = plain_apply ?c (kv_data s)" "dom (kv_requests ?s) = set ?seen"
      using step(1) [OF fresh] Cons.prems(1) by (simp_all add: apply_entry_def idx split: option.splits)
    have "effective seen (map entry_command (e # es)) = ?c # effective ?seen (map entry_command es)"
      using False by (auto split: option.splits)
    then show ?thesis
      using Cons.IH [OF data(2)] Cons.prems(2) next_idx data(1) last by (simp add: algebra_simps)
  qed
qed

lemma encodable_shape: "encodable e \<Longrightarrow> command_shape_ok (entry_command e)"
  using encodable_bytes [of e] by (auto simp: encode_log_entry_Inr encode_command_Inr)

lemma sequential_shapes: "sequential es \<Longrightarrow> e \<in> set es \<Longrightarrow> command_shape_ok (entry_command e)"
  by (auto simp: sequential_def in_set_conv_nth intro: encodable_shape)

lemma kv_replay_data:
  assumes "sequential es"
  shows "kv_data (kv_replay es) = plain_run (effective [] (map entry_command es)) Map.empty"
    and "kv_last_applied (kv_replay es) = of_nat (length es)"
proof -
  have "kv_data (foldl apply_entry kv_init es)
      = plain_run (effective [] (map entry_command es)) (kv_data kv_init)
    \<and> kv_last_applied (foldl apply_entry kv_init es) = kv_last_applied kv_init + of_nat (length es)"
    using assms sequential_shapes [OF assms]
    by (intro apply_entry_run) (auto simp: kv_init_def sequential_def)
  then show "kv_data (kv_replay es) = plain_run (effective [] (map entry_command es)) Map.empty"
    and "kv_last_applied (kv_replay es) = of_nat (length es)"
    by (simp_all add: kv_replay_def kv_init_def)
qed

text \<open>A recorded result is that of the command's one execution and never changes.\<close>

lemma kv_apply_keeps_requests:
  "kv_requests s rid = Some prior \<Longrightarrow> kv_requests (snd (kv_apply i c t s)) rid = Some prior"
  by (auto simp: kv_apply_def kv_request_result_def Let_def split: option.splits command_type.splits)

lemma effective_ids_distinct:
  "distinct (List.map_filter cmd_request_id (effective seen cs))
   \<and> set (List.map_filter cmd_request_id (effective seen cs)) \<inter> set seen = {}"
proof (induction cs arbitrary: seen)
  case Nil
  then show ?case by simp
next
  case (Cons c cs)
  show ?case
  proof (cases "cmd_request_id c")
    case None
    then show ?thesis using Cons [of seen] by simp
  next
    case (Some rid)
    then show ?thesis using Cons [of seen] Cons [of "rid # seen"] by auto
  qed
qed

section \<open>Properties\<close>

text \<open>C24: Applying a log is exactly-once execution. The table left by applying the entries of a
  well-formed log in order is the plain execution of its effective commands, those whose request
  id did not occur earlier in the log, and no request id is executed twice; the state machine ends
  at the last index of the log.\<close>

theorem replay_executes_each_request_once:
  assumes "sequential es"
  shows "kv_data (kv_replay es) = plain_run (effective [] (map entry_command es)) Map.empty
    \<and> distinct (List.map_filter cmd_request_id (effective [] (map entry_command es)))
    \<and> kv_last_applied (kv_replay es) = of_nat (length es)"
  using kv_replay_data [OF assms] effective_ids_distinct [of "[]" "map entry_command es"] by simp

definition sample_put :: "nat \<Rightarrow> u8 \<Rightarrow> log_entry" where
  "sample_put i v = \<lparr>entry_index = of_nat i, entry_term = 1,
     entry_command = \<lparr>cmd_type = Put, cmd_key = [107], cmd_value = [v],
       cmd_request_id = Some (request_id_of (replicate 16 7))\<rparr>\<rparr>"

lemma sample_put_encodable: "0 < i \<Longrightarrow> i < 100 \<Longrightarrow> encodable (sample_put i v)"
proof -
  assume i: "0 < i" "i < 100"
  then have "unat (of_nat i :: u64) = i" by (intro unat_of_nat_64) simp
  then have nz: "(of_nat i :: u64) \<noteq> 0" using i by auto
  have "encode_log_entry (sample_put i v) =
      Inr (entry_record (of_nat i) 1 (command_layout (entry_command (sample_put i v))))"
    using nz
    by (simp add: encode_log_entry_Inr encode_command_Inr command_shape_ok_def length_command_layout
        sample_put_def)
  then show ?thesis by (simp add: encodable_def)
qed

lemma sample_puts_sequential: "sequential [sample_put 1 1, sample_put 2 2]"
  by (auto simp: sequential_def less_Suc_eq sample_put_encodable) (simp_all add: sample_put_def)

theorem replay_executes_each_request_once_witness:
  "kv_data (kv_replay [sample_put 1 1, sample_put 2 2]) [107] = Some [1]
   \<and> kv_last_applied (kv_replay [sample_put 1 1, sample_put 2 2]) = 2"
  using replay_executes_each_request_once [OF sample_puts_sequential]
  by (simp add: sample_put_def plain_apply_def)

text \<open>A repeated request id never executes again: it answers with the recorded result if the
  command is the same and with a conflict otherwise, and leaves table and results unchanged. The
  recorded result of an executed request never changes.\<close>

theorem repeated_request_not_executed:
  assumes "command_shape_ok c" and "cmd_request_id c = Some rid"
    and "kv_request_result rid s = Some prior"
  shows "kv_apply (kv_last_applied s + 1) c t s =
      (if ar_command prior = c then ar_result prior else RequestConflict,
       s\<lparr>kv_last_applied := kv_last_applied s + 1\<rparr>)
    \<and> kv_request_result rid (snd (kv_apply i d u s)) = Some prior"
  using assms kv_apply_repeated [OF assms(1,2)] kv_apply_keeps_requests
  by (simp add: kv_request_result_def)

theorem repeated_request_not_executed_witness:
  "fst (kv_apply 2 (entry_command (sample_put 2 2)) 1 (kv_replay [sample_put 1 1])) = RequestConflict"
proof -
  let ?c = "entry_command (sample_put 1 1)" and ?s = "kv_replay [sample_put 1 1]"
  let ?ar = "\<lparr>ar_command = ?c, ar_result = Applied, ar_index = 1, ar_term = 1\<rparr>"
  have s: "kv_request_result (request_id_of (replicate 16 7)) ?s = Some ?ar" "kv_last_applied ?s = 1"
    by (simp_all add: kv_replay_def apply_entry_def kv_apply_def kv_init_def kv_request_result_def
        sample_put_def Let_def)
  show ?thesis
    using repeated_request_not_executed [of "entry_command (sample_put 2 2)" "request_id_of (replicate 16 7)" ?s ?ar 1] s
    by (simp add: sample_put_def command_shape_ok_def)
qed

text \<open>Every outcome of one application. A command at the wrong index or of a malformed shape is
  rejected without effect; otherwise \<open>last_applied\<close> advances by one and, for a first occurrence,
  the table changes as the command says, the result tells whether a deleted key existed, and the
  result is recorded under the request id.\<close>

theorem apply_outcomes:
  "kv_apply i c t s =
     (if i \<noteq> kv_last_applied s + 1 then (UnexpectedIndex, s)
      else if \<not> command_shape_ok c then (InvalidCommand, s)
      else
        (case Option.bind (cmd_request_id c) (kv_requests s) of
           Some prior \<Rightarrow> (if ar_command prior = c then ar_result prior else RequestConflict,
                          s\<lparr>kv_last_applied := i\<rparr>)
         | None \<Rightarrow>
             (plain_result c (kv_data s),
              \<lparr>kv_data = plain_apply c (kv_data s),
               kv_requests = (case cmd_request_id c of
                  None \<Rightarrow> kv_requests s
                | Some rid \<Rightarrow> (kv_requests s)(rid \<mapsto>
                    \<lparr>ar_command = c, ar_result = plain_result c (kv_data s), ar_index = i, ar_term = t\<rparr>)),
               kv_last_applied = i\<rparr>)))"
  using kv_apply_rejects [where s = s and c = c and t = t] kv_apply_fresh [of c s t]
    kv_apply_repeated [of c _ s _ t]
  by (cases "cmd_request_id c") (auto split: option.splits)

end
