(* ===== verification/Raft_Apply.thy ===== *)
theory Raft_Apply
  imports Kv_State_Machine
begin

text \<open>
  Application of the committed log prefix to the state machine (src/raft_apply.cpp).

  \<^item> \<open>apply_committed\<close> is the function; its while loop is \<open>apply_loop\<close>, which ends because
    every round that goes on moves \<open>last_applied\<close> one step towards the commit index.
  \<^item> \<open>apply_committed_complete\<close>: on a well-formed log and a commit index inside it the loop
    never fails, reports the indices from \<open>last_applied + 1\<close> to the commit index, and leaves
    the state that replaying the committed prefix gives.
\<close>

record applied_log_entry =
  al_index :: u64
  al_result :: apply_result

datatype apply_committed_error =
    CommitBeyondLog
  | StateAheadOfCommit
  | MissingEntry
  | InvalidCommand
  | UnexpectedIndex

lemma kv_apply_progress:
  assumes "kv_apply (kv_last_applied s + 1) c t s = (r, s')"
    and "r \<noteq> apply_result.InvalidCommand"
  shows "kv_last_applied s' = kv_last_applied s + 1"
proof -
  have "command_shape_ok c"
    using assms kv_apply_rejects(2) [of "kv_last_applied s + 1" s c t] by (cases "command_shape_ok c") auto
  then show ?thesis using kv_apply_last_applied [OF assms(1)] by simp
qed

lemma apply_step_measure:
  assumes "kv_last_applied s < commit" and "(r, s') = kv_apply (kv_last_applied s + 1) c t s"
    and "r \<noteq> apply_result.InvalidCommand"
  shows "unat commit - unat (kv_last_applied s') < unat commit - unat (kv_last_applied s)"
  using kv_apply_progress [OF assms(2) [symmetric] assms(3)] unat_next [OF assms(1)] assms(1)
  by (simp add: word_less_nat_alt)

function apply_loop :: "persistent_log \<Rightarrow> u64 \<Rightarrow> kv_state \<Rightarrow> applied_log_entry list
    \<Rightarrow> (apply_committed_error + applied_log_entry list) \<times> kv_state" where
  "apply_loop log commit_index state applied =
     (if kv_last_applied state < commit_index
      then
        (let index = kv_last_applied state + 1
         in case entry_at index log of
              None \<Rightarrow> (Inl MissingEntry, state)
            | Some entry \<Rightarrow>
                (case kv_apply index (entry_command entry) (entry_term entry) state of (result, state') \<Rightarrow>
                   if result = apply_result.InvalidCommand then (Inl InvalidCommand, state')
                   else if result = apply_result.UnexpectedIndex then (Inl UnexpectedIndex, state')
                   else apply_loop log commit_index state'
                          (applied @ [\<lparr>al_index = index, al_result = result\<rparr>])))
      else (Inr applied, state))"
  by pat_completeness auto
termination
  by (relation "measure (\<lambda>(log, commit, s, applied). unat commit - unat (kv_last_applied s))")
    (auto dest: apply_step_measure)

declare apply_loop.simps [simp del]

definition apply_committed :: "persistent_log \<Rightarrow> kv_state \<Rightarrow> u64
    \<Rightarrow> (apply_committed_error + applied_log_entry list) \<times> kv_state" where
  "apply_committed log state commit_index =
     (if commit_index > last_index log then (Inl CommitBeyondLog, state)
      else if kv_last_applied state > commit_index then (Inl StateAheadOfCommit, state)
      else apply_loop log commit_index state [])"

lemma replay_take_Suc:
  "k < length es \<Longrightarrow> kv_replay (take (Suc k) es) = apply_entry (kv_replay (take k es)) (es ! k)"
  by (simp add: take_Suc_conv_app_nth kv_replay_snoc)

text \<open>The state after replaying \<open>n\<close> entries, and the report of the entries after it.\<close>

definition apply_report :: "log_entry list \<Rightarrow> nat \<Rightarrow> nat \<Rightarrow> applied_log_entry list" where
  "apply_report es k n =
     map (\<lambda>i. \<lparr>al_index = of_nat (Suc i),
               al_result = fst (kv_apply (entry_index (es ! i)) (entry_command (es ! i))
                                  (entry_term (es ! i)) (kv_replay (take i es)))\<rparr>) [k..<n]"

lemma apply_report_step:
  "k < n \<Longrightarrow> apply_report es k n = apply_report es k (Suc k) @ apply_report es (Suc k) n"
  by (simp add: apply_report_def upt_conv_Cons)

lemma kv_requests_results:
  assumes "\<forall>ar \<in> ran (kv_requests s). ar_result ar \<in> {Applied, KeyNotFound}"
  shows "\<forall>ar \<in> ran (kv_requests (snd (kv_apply i c t s))). ar_result ar \<in> {Applied, KeyNotFound}"
proof -
  have upd: "\<forall>ar \<in> ran (m(k \<mapsto> v)). P ar" if "\<forall>ar \<in> ran m. P ar" "P v"
    for m :: "request_id \<rightharpoonup> applied_request" and k v P
    using that by (auto simp: ran_def)
  show ?thesis
    using assms
    by (auto simp: kv_apply_def kv_request_result_def Let_def intro!: upd
        split: option.splits command_type.splits)
qed

lemma replay_results:
  "\<forall>ar \<in> ran (kv_requests (kv_replay es)). ar_result ar \<in> {Applied, KeyNotFound}"
proof (induction es rule: rev_induct)
  case Nil
  then show ?case by (simp add: kv_init_def)
next
  case (snoc e es)
  then show ?case unfolding kv_replay_snoc apply_entry_def by (rule kv_requests_results)
qed

lemma kv_apply_accepts:
  assumes "command_shape_ok c" and "\<forall>ar \<in> ran (kv_requests s). ar_result ar \<in> {Applied, KeyNotFound}"
  shows "fst (kv_apply (kv_last_applied s + 1) c t s) \<in> {Applied, KeyNotFound, RequestConflict}"
proof (cases "\<exists>rid prior. cmd_request_id c = Some rid \<and> kv_requests s rid = Some prior")
  case True
  then obtain rid prior where "cmd_request_id c = Some rid" "kv_requests s rid = Some prior" by blast
  moreover from this have "prior \<in> ran (kv_requests s)" by (simp add: ranI)
  ultimately show ?thesis using kv_apply_repeated [OF assms(1)] assms(2) by auto
next
  case False
  then have "\<And>rid. cmd_request_id c = Some rid \<Longrightarrow> kv_requests s rid = None" by auto
  from kv_apply_fresh [OF assms(1) this] show ?thesis by (simp add: plain_result_def)
qed

lemma apply_loop_complete:
  assumes wf: "log_wf l" and n: "unat commit \<le> length (pl_entries l)"
  shows "k \<le> unat commit \<Longrightarrow>
    apply_loop l commit (kv_replay (take k (log_entries l))) applied =
      (Inr (applied @ apply_report (log_entries l) k (unat commit)),
       kv_replay (take (unat commit) (log_entries l)))"
proof (induction k arbitrary: applied rule: measure_induct_rule [where f = "\<lambda>k. unat commit - k"])
  case (less k)
  let ?es = "log_entries l" and ?s = "kv_replay (take k (log_entries l))"
  have seq: "sequential ?es" using wf by (simp add: log_wf_def)
  have last: "kv_last_applied ?s = of_nat k"
    using kv_replay_data(2) [OF sequential_take [OF seq]] less.prems n by (simp add: min_absorb2)
  have k: "unat (word_of_nat k :: u64) = k"
    using less.prems unat_less_64 [of commit] by (intro unat_of_nat_64) simp
  show ?case
  proof (cases "k < unat commit")
    case False
    then have "k = unat commit" using less.prems by simp
    then show ?thesis
      using last k by (subst apply_loop.simps) (simp add: word_less_nat_alt apply_report_def)
  next
    case True
    let ?e = "?es ! k"
    have lt: "kv_last_applied ?s < commit" using last k True by (simp add: word_less_nat_alt)
    have idx: "unat (kv_last_applied ?s + 1) = Suc k" using unat_next [OF lt] last k by simp
    have e: "entry_index ?e = kv_last_applied ?s + 1" "encodable ?e"
      using seq True n last by (auto simp: sequential_def algebra_simps)
    have at: "entry_at (kv_last_applied ?s + 1) l = Some ?e"
      using entry_at_Some [OF wf, of "kv_last_applied ?s + 1" ?e] idx True n by simp
    obtain r s' where ap: "kv_apply (kv_last_applied ?s + 1) (entry_command ?e) (entry_term ?e) ?s = (r, s')"
      by fastforce
    have r: "r \<in> {Applied, KeyNotFound, RequestConflict}"
      using kv_apply_accepts [OF encodable_shape [OF e(2)] replay_results] ap by (metis fst_conv)
    have s': "s' = kv_replay (take (Suc k) ?es)"
      using ap e(1) True n by (simp add: replay_take_Suc apply_entry_def)
    have rep: "apply_report ?es k (Suc k) = [\<lparr>al_index = kv_last_applied ?s + 1, al_result = r\<rparr>]"
      using ap e(1) by (simp add: apply_report_def last)
    have "apply_loop l commit ?s applied =
        apply_loop l commit s' (applied @ [\<lparr>al_index = kv_last_applied ?s + 1, al_result = r\<rparr>])"
      using lt at ap r by (subst apply_loop.simps) (auto simp: Let_def)
    then show ?thesis
      using less.IH [of "Suc k"] True s' rep apply_report_step [OF True, of ?es] by simp
  qed
qed

text \<open>\<open>applied_prefix s l\<close>: the state is the replay of the entries up to \<open>last_applied\<close>.\<close>

definition applied_prefix :: "kv_state \<Rightarrow> persistent_log \<Rightarrow> bool" where
  "applied_prefix s l \<longleftrightarrow>
     unat (kv_last_applied s) \<le> length (pl_entries l)
     \<and> s = kv_replay (take (unat (kv_last_applied s)) (log_entries l))"

lemma apply_committed_outcome:
  assumes wf: "log_wf l" and pre: "applied_prefix s l"
  shows "apply_committed l s commit =
    (if length (pl_entries l) < unat commit then (Inl CommitBeyondLog, s)
     else if unat commit < unat (kv_last_applied s) then (Inl StateAheadOfCommit, s)
     else (Inr (apply_report (log_entries l) (unat (kv_last_applied s)) (unat commit)),
           kv_replay (take (unat commit) (log_entries l))))"
  using log_wf_last_index [OF wf] pre
    apply_loop_complete [OF wf, of commit "unat (kv_last_applied s)" "[]"]
  by (auto simp: apply_committed_def word_less_nat_alt not_less applied_prefix_def)

lemma replay_prefix_applied:
  assumes wf: "log_wf l" and n: "n \<le> length (pl_entries l)"
  shows "unat (kv_last_applied (kv_replay (take n (log_entries l)))) = n"
    and "applied_prefix (kv_replay (take n (log_entries l))) l"
proof -
  have "n < 2 ^ 64" using n log_wf_length [OF wf] by simp
  then show *: "unat (kv_last_applied (kv_replay (take n (log_entries l)))) = n"
    using kv_replay_data(2) [OF sequential_take, of "log_entries l" n] wf n
    by (simp add: log_wf_def min_absorb2 unat_of_nat_64)
  with n show "applied_prefix (kv_replay (take n (log_entries l))) l"
    by (simp add: applied_prefix_def)
qed

lemma applied_prefix_init [simp]: "applied_prefix kv_init l"
  by (simp add: applied_prefix_def kv_init_def)

lemma applied_prefix_same_entries:
  "applied_prefix s l \<Longrightarrow> take (unat (kv_last_applied s)) (log_entries l')
       = take (unat (kv_last_applied s)) (log_entries l)
     \<Longrightarrow> applied_prefix s l'"
  unfolding applied_prefix_def
  by (metis length_log_entries length_take min.absorb_iff2 min.cobounded1)

section \<open>Properties\<close>

text \<open>C30: On a well-formed log, a state machine that is the replay of a prefix and a commit index inside
  the log never hit an error: the apply loop ends, reports the indices after the last applied one up to
  the commit index in order, and leaves the replay of exactly the committed prefix.\<close>

theorem committed_prefix_applied:
  assumes "log_wf l" and "applied_prefix s l" and "kv_last_applied s \<le> commit" and "commit \<le> last_index l"
  shows "\<exists>report. apply_committed l s commit = (Inr report, kv_replay (take (unat commit) (log_entries l)))
    \<and> map al_index report = map of_nat [Suc (unat (kv_last_applied s))..<Suc (unat commit)]"
proof -
  have le: "unat (kv_last_applied s) \<le> unat commit" "unat commit \<le> length (pl_entries l)"
    using assms log_wf_last_index [OF assms(1)] by (simp_all add: word_le_nat_alt)
  have "apply_committed l s commit = (Inr (apply_report (log_entries l) (unat (kv_last_applied s)) (unat commit)),
      kv_replay (take (unat commit) (log_entries l)))"
    using le by (simp add: apply_committed_outcome [OF assms(1,2)])
  moreover have "map al_index (apply_report es k n) = map of_nat [Suc k..<Suc n]" for es k n
  proof -
    have "map of_nat [Suc k..<Suc n] = map (\<lambda>i. of_nat (Suc i) :: u64) [k..<n]"
      by (simp only: map_Suc_upt [symmetric] map_map comp_def)
    then show ?thesis by (simp add: apply_report_def comp_def)
  qed
  ultimately show ?thesis by blast
qed

theorem committed_prefix_applied_witness:
  "kv_last_applied (snd (apply_committed sample_log kv_init 1)) = 1"
proof -
  have e: "kv_last_applied kv_init = 0" "last_index sample_log = 1"
    by (simp_all add: kv_init_def last_index_def sample_log_def)
  obtain report where "apply_committed sample_log kv_init 1 = (Inr report, kv_replay [sample_entry])"
    using committed_prefix_applied [OF sample_log_wf applied_prefix_init, of 1] e by auto
  then show ?thesis
    by (simp add: kv_replay_def apply_entry_def kv_apply_def sample_entry_def sample_noop_def kv_init_def)
qed

text \<open>A commit index outside the log, or behind what is already applied, is refused before anything
  is applied.\<close>

theorem bad_commit_index_refused:
  "last_index l < commit \<or> commit < kv_last_applied s \<Longrightarrow>
     apply_committed l s commit = (Inl (if last_index l < commit then CommitBeyondLog else StateAheadOfCommit), s)"
  by (auto simp: apply_committed_def)

theorem bad_commit_index_refused_witness:
  "apply_committed sample_log kv_init 2 = (Inl CommitBeyondLog, kv_init)"
  using bad_commit_index_refused [of sample_log 2 kv_init] by (simp add: last_index_def sample_log_def)

end
