(* ===== verification/Raft_Node.thy ===== *)
theory Raft_Node
  imports Raft_Leader Raft_Apply
begin

text \<open>
  One Raft node (include/dkv/raft_node.hpp, src/raft_node.cpp): the composition of the durable
  stores, the election, the leader's replication state and the state machine.

  \<^item> \<open>raft_node\<close> holds the object's fields. \<open>leader_\<close>, a unique pointer, is an option; the map of
    read rounds is the list of its entries in key order (the program iterates it).
  \<^item> One definition per event handler: \<open>on_election_timeout\<close>, \<open>on_heartbeat_timeout\<close>,
    \<open>on_request_vote\<close>, \<open>on_vote_reply\<close>, \<open>on_append_entries\<close>, \<open>on_append_reply\<close>, \<open>propose\<close>,
    \<open>read_barrier\<close>, and \<open>node_open\<close>. An error discards the actions collected so far, as the
    return of the other variant does.
  \<^item> \<open>node_step\<close> runs one event. What every event keeps is in the theory Raft_Node_Inv.
\<close>

datatype raft_message =
    MRequestVote request_vote
  | MRequestVoteReply request_vote_reply
  | MAppendEntries append_entries
  | MAppendEntriesReply append_entries_reply

record outbound_raft_message =
  ob_peer_id :: u64
  ob_message :: raft_message

record ready_read =
  rr_id :: u64
  rr_index :: u64

record raft_node_actions =
  messages :: "outbound_raft_message list"
  applied :: "applied_log_entry list"
  ready_reads :: "ready_read list"
  proposed_index :: "u64 option"
  started_read_id :: "u64 option"
  reset_election_timer :: bool
  schedule_heartbeat :: bool

datatype raft_node_error =
    InvalidPeer
  | InvalidRequest
  | NotLeader
  | InvalidCommand
  | TermExhausted
  | PersistenceError
  | InconsistentState
  | Stopped

datatype raft_node_open_error = InvalidConfiguration | MetadataError | LogError

record raft_node =
  nd_self_id :: u64
  nd_peer_ids :: "u64 array2"
  nd_metadata :: persistent_metadata
  nd_log :: persistent_log
  nd_state :: kv_state
  nd_commit_index :: u64
  nd_election :: raft_election
  nd_leader :: "raft_leader option"
  nd_read_rounds :: "(u64 \<times> append_entries option) list"
  nd_next_read_id :: u64
  nd_known_leader :: "u64 option"
  nd_stopped :: bool

type_synonym node_result = "(raft_node_error + raft_node_actions) \<times> raft_node \<times> os"

definition no_actions :: raft_node_actions where
  "no_actions = \<lparr>messages = [], applied = [], ready_reads = [], proposed_index = None,
     started_read_id = None, reset_election_timer = False, schedule_heartbeat = False\<rparr>"

section \<open>Opening a node\<close>

text \<open>\<open>data_dir / name\<close> for a relative name.\<close>

definition path_join :: "bytes \<Rightarrow> bytes \<Rightarrow> bytes" where
  "path_join dir name = (if dir = [] \<or> last dir = 47 then dir @ name else dir @ [47] @ name)"

definition raft_meta_name :: bytes where
  "raft_meta_name = [0x72, 0x61, 0x66, 0x74, 0x2E, 0x6D, 0x65, 0x74, 0x61]"

definition raft_log_name :: bytes where
  "raft_log_name = [0x72, 0x61, 0x66, 0x74, 0x2E, 0x6C, 0x6F, 0x67]"

definition node_open :: "u64 \<Rightarrow> u64 array2 \<Rightarrow> bytes \<Rightarrow> os \<Rightarrow> (raft_node_open_error + raft_node) \<times> os" where
  "node_open self_id peer_ids data_dir w =
     (if get2 0 peer_ids = get2 1 peer_ids \<or> get2 0 peer_ids = self_id \<or> get2 1 peer_ids = self_id
      then (Inl InvalidConfiguration, w)
      else
        (case pm_open (path_join data_dir raft_meta_name) w of (metadata_result, w) \<Rightarrow>
         case metadata_result of
           Inl _ \<Rightarrow> (Inl MetadataError, w)
         | Inr metadata \<Rightarrow>
             (case pl_open (path_join data_dir raft_log_name) w of (log_result, w) \<Rightarrow>
              case log_result of
                Inl _ \<Rightarrow> (Inl LogError, w)
              | Inr log \<Rightarrow>
                  (case new_election self_id peer_ids of
                     None \<Rightarrow> (Inl InvalidConfiguration, w)
                   | Some election \<Rightarrow>
                       (Inr \<lparr>nd_self_id = self_id, nd_peer_ids = peer_ids, nd_metadata = metadata,
                             nd_log = log, nd_state = kv_init, nd_commit_index = 0,
                             nd_election = election, nd_leader = None, nd_read_rounds = [],
                             nd_next_read_id = 1, nd_known_leader = None, nd_stopped = False\<rparr>, w)))))"

section \<open>Private helpers\<close>

definition node_term :: "raft_node \<Rightarrow> u64" where
  "node_term nd = current_term (pm_state (nd_metadata nd))"

definition node_role :: "raft_node \<Rightarrow> raft_role" where
  "node_role nd = election_role (nd_metadata nd) (nd_election nd)"

definition leader_active :: "raft_node \<Rightarrow> raft_leader \<Rightarrow> bool" where
  "leader_active nd ld = active (nd_election nd) (nd_metadata nd) ld"

definition node_peer_progress :: "u64 \<Rightarrow> raft_node \<Rightarrow> peer_progress option" where
  "node_peer_progress peer_id nd =
     (case nd_leader nd of
        Some ld \<Rightarrow> if leader_active nd ld then progress peer_id ld else None
      | None \<Rightarrow> None)"

definition is_peer :: "u64 \<Rightarrow> raft_node \<Rightarrow> bool" where
  "is_peer peer_id nd \<longleftrightarrow> peer_id = get2 0 (nd_peer_ids nd) \<or> peer_id = get2 1 (nd_peer_ids nd)"

definition drop_leadership :: "raft_node \<Rightarrow> raft_node" where
  "drop_leadership nd = nd\<lparr>nd_leader := None, nd_read_rounds := [], nd_known_leader := None\<rparr>"

definition stop :: "raft_node_error \<Rightarrow> raft_node \<Rightarrow> os \<Rightarrow> node_result" where
  "stop error nd w = (Inl error, drop_leadership (nd\<lparr>nd_stopped := True\<rparr>), w)"

definition add_messages :: "outbound_raft_message list \<Rightarrow> raft_node_actions \<Rightarrow> raft_node_actions" where
  "add_messages ms actions = actions\<lparr>messages := messages actions @ ms\<rparr>"

definition queue_append :: "u64 \<Rightarrow> raft_node_actions \<Rightarrow> raft_node \<Rightarrow> bool \<times> raft_node_actions \<times> raft_node" where
  "queue_append peer_id actions nd =
     (case nd_leader nd of
        None \<Rightarrow> (False, actions, nd)
      | Some ld \<Rightarrow>
          (case make_request (nd_election nd) (nd_metadata nd) (nd_log nd) (nd_commit_index nd) peer_id 4 ld of
             (Inl _, ld) \<Rightarrow> (False, actions, nd\<lparr>nd_leader := Some ld\<rparr>)
           | (Inr request, ld) \<Rightarrow>
               (True, add_messages [\<lparr>ob_peer_id = peer_id, ob_message = MAppendEntries request\<rparr>] actions,
                nd\<lparr>nd_leader := Some ld\<rparr>)))"

text \<open>\<open>for (id : peer_ids_) if (!queue_append(id, actions)) return false;\<close>\<close>

primrec queue_appends :: "u64 list \<Rightarrow> raft_node_actions \<Rightarrow> raft_node \<Rightarrow> bool \<times> raft_node_actions \<times> raft_node" where
  "queue_appends [] actions nd = (True, actions, nd)"
| "queue_appends (peer_id # peer_ids) actions nd =
     (case queue_append peer_id actions nd of (ok, actions, nd) \<Rightarrow>
        if \<not> ok then (False, actions, nd) else queue_appends peer_ids actions nd)"

definition apply_ready :: "raft_node_actions \<Rightarrow> raft_node \<Rightarrow> bool \<times> raft_node_actions \<times> raft_node" where
  "apply_ready actions nd =
     (case apply_committed (nd_log nd) (nd_state nd) (nd_commit_index nd) of
        (Inl _, state) \<Rightarrow> (False, actions, nd\<lparr>nd_state := state\<rparr>)
      | (Inr entries, state) \<Rightarrow> (True, actions\<lparr>applied := entries\<rparr>, nd\<lparr>nd_state := state\<rparr>))"

definition current_term_committed :: "raft_node \<Rightarrow> bool" where
  "current_term_committed nd =
     (if nd_commit_index nd = 0 \<or> kv_last_applied (nd_state nd) < nd_commit_index nd then False
      else (case entry_at (nd_commit_index nd) (nd_log nd) of
              None \<Rightarrow> False
            | Some entry \<Rightarrow> entry_term entry = node_term nd))"

definition read_probe :: "u64 \<Rightarrow> raft_node \<Rightarrow> append_entries" where
  "read_probe read_id nd =
     \<lparr>ae_term = node_term nd, ae_leader_id = nd_self_id nd, ae_prev_log_index = 0, ae_prev_log_term = 0,
      ae_entries = [], ae_leader_commit = nd_commit_index nd, ae_read_context = read_id\<rparr>"

definition to_peers :: "append_entries \<Rightarrow> raft_node \<Rightarrow> outbound_raft_message list" where
  "to_peers request nd =
     map (\<lambda>p. \<lparr>ob_peer_id = p, ob_message = MAppendEntries request\<rparr>) (list2 (nd_peer_ids nd))"

primrec start_rounds :: "raft_node \<Rightarrow> (u64 \<times> append_entries option) list
    \<Rightarrow> raft_node_actions \<Rightarrow> (u64 \<times> append_entries option) list \<times> raft_node_actions" where
  "start_rounds nd [] actions = ([], actions)"
| "start_rounds nd (round # rounds) actions =
     (case round of
        (read_id, Some probe) \<Rightarrow>
          (case start_rounds nd rounds actions of (rounds, actions) \<Rightarrow> (round # rounds, actions))
      | (read_id, None) \<Rightarrow>
          (case start_rounds nd rounds (add_messages (to_peers (read_probe read_id nd) nd) actions) of
             (rounds, actions) \<Rightarrow> ((read_id, Some (read_probe read_id nd)) # rounds, actions)))"

definition start_waiting_reads :: "raft_node_actions \<Rightarrow> raft_node \<Rightarrow> raft_node_actions \<times> raft_node" where
  "start_waiting_reads actions nd =
     (if \<not> current_term_committed nd then (actions, nd)
      else (case start_rounds nd (nd_read_rounds nd) actions of
              (rounds, actions) \<Rightarrow> (actions, nd\<lparr>nd_read_rounds := rounds\<rparr>)))"

section \<open>Event handlers\<close>

definition on_election_timeout :: "raft_node \<Rightarrow> os \<Rightarrow> node_result" where
  "on_election_timeout nd w =
     (if nd_stopped nd then (Inl Stopped, nd, w)
      else
        (case start_election (nd_log nd) (nd_metadata nd) (nd_election nd) w of (result, metadata, election, w) \<Rightarrow>
           let nd = nd\<lparr>nd_metadata := metadata, nd_election := election\<rparr>
           in case result of
                Inl error \<Rightarrow>
                  if error = AlreadyLeader then (Inr no_actions, nd, w)
                  else stop (if error = election_start_error.TermExhausted then TermExhausted
                             else PersistenceError) nd w
              | Inr request \<Rightarrow>
                  (let nd = drop_leadership nd
                   in (Inr (no_actions\<lparr>reset_election_timer := True,
                         messages := map (\<lambda>p. \<lparr>ob_peer_id = p, ob_message = MRequestVote request\<rparr>)
                                       (list2 (nd_peer_ids nd))\<rparr>), nd, w))))"

definition on_heartbeat_timeout :: "raft_node \<Rightarrow> os \<Rightarrow> node_result" where
  "on_heartbeat_timeout nd w =
     (if nd_stopped nd then (Inl Stopped, nd, w)
      else
        (case nd_leader nd of
           None \<Rightarrow> (Inr no_actions, nd, w)
         | Some ld \<Rightarrow>
             if \<not> leader_active nd ld then (Inr no_actions, drop_leadership nd, w)
             else
               (case queue_appends (list2 (nd_peer_ids nd)) (no_actions\<lparr>schedule_heartbeat := True\<rparr>) nd of
                  (ok, actions, nd) \<Rightarrow>
                    if \<not> ok then stop InconsistentState nd w
                    else
                      (Inr (add_messages
                         (concat (map (\<lambda>round. case snd round of None \<Rightarrow> [] | Some probe \<Rightarrow> to_peers probe nd)
                                   (nd_read_rounds nd))) actions), nd, w))))"

definition on_request_vote :: "u64 \<Rightarrow> request_vote \<Rightarrow> raft_node \<Rightarrow> os \<Rightarrow> node_result" where
  "on_request_vote peer_id request nd w =
     (if nd_stopped nd then (Inl Stopped, nd, w)
      else if \<not> is_peer peer_id nd then (Inl InvalidPeer, nd, w)
      else if rv_candidate_id request \<noteq> peer_id then (Inl InvalidRequest, nd, w)
      else
        (let old_term = node_term nd
         in case handle_request_vote (nd_log nd) request (nd_metadata nd) w of (result, metadata, w) \<Rightarrow>
            let nd = nd\<lparr>nd_metadata := metadata\<rparr>
            in case result of
                 Inl _ \<Rightarrow> stop PersistenceError nd w
               | Inr reply \<Rightarrow>
                   (let nd = (if node_term nd > old_term then drop_leadership nd else nd)
                    in (Inr (no_actions\<lparr>
                          reset_election_timer := node_term nd > old_term \<or> rvr_vote_granted reply,
                          messages := [\<lparr>ob_peer_id = peer_id, ob_message = MRequestVoteReply reply\<rparr>]\<rparr>),
                        nd, w))))"

definition noop_command :: command where
  "noop_command = \<lparr>cmd_type = NoOp, cmd_key = [], cmd_value = [], cmd_request_id = None\<rparr>"

definition on_vote_reply :: "u64 \<Rightarrow> request_vote_reply \<Rightarrow> raft_node \<Rightarrow> os \<Rightarrow> node_result" where
  "on_vote_reply peer_id reply nd w =
     (if nd_stopped nd then (Inl Stopped, nd, w)
      else if \<not> is_peer peer_id nd then (Inl InvalidPeer, nd, w)
      else
        (case handle_vote_reply peer_id reply (nd_metadata nd) (nd_election nd) w of
           (outcome, metadata, election, w) \<Rightarrow>
             let nd = nd\<lparr>nd_metadata := metadata, nd_election := election\<rparr>
             in if outcome = vote_reply_outcome.PersistenceError then stop PersistenceError nd w
             else if outcome = vote_reply_outcome.SteppedDown
             then (Inr (no_actions\<lparr>reset_election_timer := True\<rparr>), drop_leadership nd, w)
             else if outcome \<noteq> BecameLeader then (Inr no_actions, nd, w)
             else
               (let nd = nd\<lparr>nd_known_leader := Some (nd_self_id nd)\<rparr>
                in case new_leader (nd_election nd) (nd_metadata nd) (nd_log nd) (nd_commit_index nd) of
                     None \<Rightarrow> stop InconsistentState nd w
                   | Some ld \<Rightarrow>
                       (case append_command (nd_election nd) (nd_metadata nd) noop_command (nd_log nd) ld w of
                          (appended, log, ld, w) \<Rightarrow>
                            let nd = nd\<lparr>nd_log := log, nd_leader := Some ld\<rparr>
                            in case appended of
                                 Inl _ \<Rightarrow> stop PersistenceError nd w
                               | Inr _ \<Rightarrow>
                                   (case queue_appends (list2 (nd_peer_ids nd))
                                           (no_actions\<lparr>schedule_heartbeat := True\<rparr>) nd of
                                      (ok, actions, nd) \<Rightarrow>
                                        if \<not> ok then stop InconsistentState nd w
                                        else (Inr actions, nd, w))))))"

definition on_append_entries :: "u64 \<Rightarrow> append_entries \<Rightarrow> raft_node \<Rightarrow> os \<Rightarrow> node_result" where
  "on_append_entries peer_id request nd w =
     (if nd_stopped nd then (Inl Stopped, nd, w)
      else if \<not> is_peer peer_id nd then (Inl InvalidPeer, nd, w)
      else if ae_leader_id request \<noteq> peer_id then (Inl InvalidRequest, nd, w)
      else
        (let old_term = node_term nd
         in case handle_append_entries request (nd_metadata nd) (nd_log nd) (nd_commit_index nd) w of
              (result, metadata, log, commit_index, w) \<Rightarrow>
                let nd = nd\<lparr>nd_metadata := metadata, nd_log := log, nd_commit_index := commit_index\<rparr>;
                    nd = (if node_term nd > old_term then drop_leadership nd else nd)
                in case result of
                     Inl error \<Rightarrow>
                       if error = append_entries_handle_error.InvalidRequest then (Inl InvalidRequest, nd, w)
                       else stop (if error = append_entries_handle_error.PersistenceError
                                  then PersistenceError else InconsistentState) nd w
                   | Inr reply \<Rightarrow>
                       (let live = (ae_term request \<noteq> 0 \<and> ae_term request = aer_term reply);
                            nd = (if live
                                  then (drop_leadership (nd\<lparr>nd_election :=
                                          observe_leader (ae_term request) (nd_metadata nd) (nd_election nd)\<rparr>))
                                       \<lparr>nd_known_leader := Some peer_id\<rparr>
                                  else nd);
                            actions = no_actions\<lparr>reset_election_timer := live\<rparr>
                        in case (if aer_success reply then apply_ready actions nd else (True, actions, nd)) of
                             (ok, actions, nd) \<Rightarrow>
                               if \<not> ok then stop InconsistentState nd w
                               else (Inr (add_messages [\<lparr>ob_peer_id = peer_id,
                                       ob_message = MAppendEntriesReply reply\<rparr>] actions), nd, w))))"

text \<open>
  The part of \<open>on_append_reply\<close> between the early returns and the read rounds: the branch on
  \<open>Retry\<close>, \<open>Committed\<close> and \<open>Recorded\<close>; \<open>False\<close> where the program stops the node.
\<close>

definition after_append_reply :: "append_reply_outcome \<Rightarrow> u64 \<Rightarrow> raft_node \<Rightarrow> bool \<times> raft_node_actions \<times> raft_node" where
  "after_append_reply outcome peer_id nd =
     (case outcome of
        Retry \<Rightarrow> queue_append peer_id no_actions nd
      | Committed \<Rightarrow>
          (case apply_ready no_actions nd of (ok, actions, nd) \<Rightarrow>
             if \<not> ok then (False, actions, nd)
             else
               (case queue_appends (list2 (nd_peer_ids nd)) actions nd of (ok, actions, nd) \<Rightarrow>
                  if \<not> ok then (False, actions, nd)
                  else (case start_waiting_reads actions nd of (actions, nd) \<Rightarrow> (True, actions, nd))))
      | Recorded \<Rightarrow>
          (case (case nd_leader nd of None \<Rightarrow> None | Some ld \<Rightarrow> progress peer_id ld) of
             None \<Rightarrow> (False, no_actions, nd)
           | Some prog \<Rightarrow>
               if next_index prog \<le> last_index (nd_log nd) then queue_append peer_id no_actions nd
               else (True, no_actions, nd))
      | _ \<Rightarrow> (True, no_actions, nd))"

text \<open>The end of \<open>on_append_reply\<close>: a reply to a probe of a read round completes the round.\<close>

definition finish_read :: "append_entries \<Rightarrow> append_entries_reply \<Rightarrow> raft_node_actions \<Rightarrow> raft_node \<Rightarrow> os
    \<Rightarrow> node_result" where
  "finish_read sent_request reply actions nd w =
     (if ae_read_context sent_request \<noteq> 0 \<and> aer_term reply = node_term nd \<and> aer_success reply
      then
        (case map_of (nd_read_rounds nd) (ae_read_context sent_request) of
           Some (Some probe) \<Rightarrow>
             if probe = sent_request then
               (let index = ae_leader_commit probe
                in if kv_last_applied (nd_state nd) < index then stop InconsistentState nd w
                else
                  (Inr (actions\<lparr>ready_reads := ready_reads actions
                          @ [\<lparr>rr_id = ae_read_context sent_request, rr_index = index\<rparr>]\<rparr>),
                   nd\<lparr>nd_read_rounds := filter (\<lambda>round. fst round \<noteq> ae_read_context sent_request)
                                         (nd_read_rounds nd)\<rparr>, w))
             else (Inr actions, nd, w)
         | _ \<Rightarrow> (Inr actions, nd, w))
      else (Inr actions, nd, w))"

definition on_append_reply :: "u64 \<Rightarrow> append_entries \<Rightarrow> append_entries_reply \<Rightarrow> raft_node \<Rightarrow> os
    \<Rightarrow> node_result" where
  "on_append_reply peer_id sent_request reply nd w =
     (if nd_stopped nd then (Inl Stopped, nd, w)
      else if \<not> is_peer peer_id nd then (Inl InvalidPeer, nd, w)
      else
        (case nd_leader nd of
           None \<Rightarrow>
             if aer_term reply > node_term nd then
               (case advance_term (aer_term reply) (nd_metadata nd) w of (result, metadata, w) \<Rightarrow>
                  let nd = nd\<lparr>nd_metadata := metadata\<rparr>
                  in if result \<noteq> Persisted then stop PersistenceError nd w
                     else (Inr (no_actions\<lparr>reset_election_timer := True\<rparr>), drop_leadership nd, w))
             else (Inr no_actions, nd, w)
         | Some ld \<Rightarrow>
             (case handle_reply (nd_election nd) (nd_log nd) peer_id sent_request reply (nd_metadata nd)
                     (nd_commit_index nd) ld w of
                (outcome, metadata, commit_index, ld, w) \<Rightarrow>
                  let nd = nd\<lparr>nd_metadata := metadata, nd_commit_index := commit_index, nd_leader := Some ld\<rparr>
                  in if outcome = append_reply_outcome.PersistenceError then stop PersistenceError nd w
                  else if outcome = InconsistentFollower then stop InconsistentState nd w
                  else if outcome = append_reply_outcome.SteppedDown
                  then (Inr (no_actions\<lparr>reset_election_timer := True\<rparr>), drop_leadership nd, w)
                  else
                    (case after_append_reply outcome peer_id nd of (ok, actions, nd) \<Rightarrow>
                       if \<not> ok then stop InconsistentState nd w
                       else finish_read sent_request reply actions nd w))))"

definition append_as_leader :: "command \<Rightarrow> raft_node \<Rightarrow> os \<Rightarrow> node_result" where
  "append_as_leader c nd w =
     (if nd_stopped nd then (Inl Stopped, nd, w)
      else
        (case nd_leader nd of
           None \<Rightarrow> (Inl NotLeader, nd, w)
         | Some ld \<Rightarrow>
             if \<not> leader_active nd ld then (Inl NotLeader, nd, w)
             else
               (case append_command (nd_election nd) (nd_metadata nd) c (nd_log nd) ld w of
                  (result, log, ld, w) \<Rightarrow>
                    let nd = nd\<lparr>nd_log := log, nd_leader := Some ld\<rparr>
                    in case result of
                         Inl error \<Rightarrow>
                           if error = leader_replication_error.InvalidCommand then (Inl InvalidCommand, nd, w)
                           else stop (if error = leader_replication_error.PersistenceError
                                      then PersistenceError else InconsistentState) nd w
                       | Inr index \<Rightarrow>
                           (case queue_appends (list2 (nd_peer_ids nd))
                                   (no_actions\<lparr>proposed_index := Some index\<rparr>) nd of
                              (ok, actions, nd) \<Rightarrow>
                                if \<not> ok then stop InconsistentState nd w else (Inr actions, nd, w)))))"

definition propose :: "command \<Rightarrow> raft_node \<Rightarrow> os \<Rightarrow> node_result" where
  "propose c nd w =
     (if nd_stopped nd then (Inl Stopped, nd, w)
      else
        (case nd_leader nd of
           None \<Rightarrow> (Inl NotLeader, nd, w)
         | Some ld \<Rightarrow>
             if \<not> leader_active nd ld then (Inl NotLeader, nd, w)
             else if cmd_type c = NoOp then (Inl InvalidCommand, nd, w)
             else append_as_leader c nd w))"

text \<open>\<open>std::map::emplace\<close> on the list of entries in key order: an existing key keeps its value.\<close>

primrec emplace :: "u64 \<Rightarrow> 'v \<Rightarrow> (u64 \<times> 'v) list \<Rightarrow> (u64 \<times> 'v) list" where
  "emplace k v [] = [(k, v)]"
| "emplace k v (x # xs) =
     (if k < fst x then (k, v) # x # xs else if k = fst x then x # xs else x # emplace k v xs)"

definition read_barrier :: "raft_node \<Rightarrow> os \<Rightarrow> node_result" where
  "read_barrier nd w =
     (if nd_stopped nd then (Inl Stopped, nd, w)
      else
        (case nd_leader nd of
           None \<Rightarrow> (Inl NotLeader, nd, w)
         | Some ld \<Rightarrow>
             if \<not> leader_active nd ld then (Inl NotLeader, nd, w)
             else if nd_next_read_id nd = 0 then stop InconsistentState nd w
             else
               (let read_id = nd_next_read_id nd;
                    nd = nd\<lparr>nd_next_read_id := read_id + 1,
                            nd_read_rounds := emplace read_id None (nd_read_rounds nd)\<rparr>
                in case start_waiting_reads (no_actions\<lparr>started_read_id := Some read_id\<rparr>) nd of
                     (actions, nd) \<Rightarrow> (Inr actions, nd, w))))"

section \<open>One event\<close>

datatype node_event =
    ElectionTimeout
  | HeartbeatTimeout
  | ReceiveRequestVote u64 request_vote
  | ReceiveVoteReply u64 request_vote_reply
  | ReceiveAppendEntries u64 append_entries
  | ReceiveAppendReply u64 append_entries append_entries_reply
  | Propose command
  | ReadBarrier

fun node_step :: "node_event \<Rightarrow> raft_node \<Rightarrow> os \<Rightarrow> node_result" where
  "node_step ElectionTimeout nd w = on_election_timeout nd w"
| "node_step HeartbeatTimeout nd w = on_heartbeat_timeout nd w"
| "node_step (ReceiveRequestVote p r) nd w = on_request_vote p r nd w"
| "node_step (ReceiveVoteReply p r) nd w = on_vote_reply p r nd w"
| "node_step (ReceiveAppendEntries p r) nd w = on_append_entries p r nd w"
| "node_step (ReceiveAppendReply p sent r) nd w = on_append_reply p sent r nd w"
| "node_step (Propose c) nd w = propose c nd w"
| "node_step ReadBarrier nd w = read_barrier nd w"

end
