(* ===== verification/Raft_Node_Inv.thy ===== *)
theory Raft_Node_Inv
  imports Raft_Node
begin

text \<open>
  What every event of a node keeps, whatever message it is given and whatever the system answers.

  \<^item> \<open>core_inv\<close>, \<open>lead_inv\<close>, \<open>reads_inv\<close>, together \<open>node_inv\<close>: the invariant of the node's fields.
  \<^item> \<open>node_le\<close>: what is never taken back.
  \<^item> one lemma per helper and handler, then \<open>node_step_sound\<close> for every event and
    \<open>node_open_inv\<close> for a freshly opened node.
\<close>

section \<open>The node's invariant\<close>

abbreviation node_entries :: "raft_node \<Rightarrow> log_entry list" where
  "node_entries nd \<equiv> log_entries (nd_log nd)"

text \<open>
  \<open>core_inv\<close>: the log is well formed with ordered terms up to the node's term, the state machine
  is the replay of a prefix of it, \<open>last_applied \<le> commit_index \<le> last_index\<close>, and the election
  fits the durable vote.
\<close>

definition core_inv :: "raft_node \<Rightarrow> bool" where
  "core_inv nd \<longleftrightarrow>
     log_wf (nd_log nd) \<and> terms_ok (node_term nd) (node_entries nd)
     \<and> applied_prefix (nd_state nd) (nd_log nd)
     \<and> kv_last_applied (nd_state nd) \<le> nd_commit_index nd
     \<and> unat (nd_commit_index nd) \<le> length (node_entries nd)
     \<and> election_inv (pm_state (nd_metadata nd)) (nd_election nd)
     \<and> el_self_id (nd_election nd) = nd_self_id nd \<and> el_peer_ids (nd_election nd) = nd_peer_ids nd"

text \<open>
  \<open>lead_inv\<close>: the replication state exists exactly while the node is leader, belongs to its term
  and is active; without it there are no read rounds.
\<close>

definition lead_inv :: "raft_node \<Rightarrow> bool" where
  "lead_inv nd \<longleftrightarrow>
     (case nd_leader nd of
        Some ld \<Rightarrow> leader_active nd ld \<and> leader_ids ld = nd_peer_ids nd \<and> ld_self_id ld = nd_self_id nd
      | None \<Rightarrow> (nd_stopped nd \<or> node_role nd \<noteq> Leader) \<and> nd_read_rounds nd = [])"

text \<open>
  \<open>reads_inv\<close>: the read rounds are in key order with keys below the next one, and a started round
  carries a probe of this term and leader whose read index is applied.
\<close>

definition round_ok :: "raft_node \<Rightarrow> u64 \<times> append_entries option \<Rightarrow> bool" where
  "round_ok nd round \<longleftrightarrow>
     fst round \<noteq> 0 \<and> (nd_next_read_id nd \<noteq> 0 \<longrightarrow> fst round < nd_next_read_id nd)
     \<and> (\<forall>probe. snd round = Some probe \<longrightarrow>
          probe = \<lparr>ae_term = node_term nd, ae_leader_id = nd_self_id nd, ae_prev_log_index = 0,
                   ae_prev_log_term = 0, ae_entries = [], ae_leader_commit = ae_leader_commit probe,
                   ae_read_context = fst round\<rparr>
          \<and> ae_leader_commit probe \<le> kv_last_applied (nd_state nd))"

definition reads_inv :: "raft_node \<Rightarrow> bool" where
  "reads_inv nd \<longleftrightarrow>
     sorted_wrt (<) (map fst (nd_read_rounds nd)) \<and> (\<forall>round \<in> set (nd_read_rounds nd). round_ok nd round)"

definition node_inv :: "raft_node \<Rightarrow> bool" where
  "node_inv nd \<longleftrightarrow> core_inv nd \<and> lead_inv nd \<and> reads_inv nd"

text \<open>
  \<open>node_le\<close>: what no event takes back: the term and the vote in it, the commit index, the
  committed entries, the applied prefix, the stop flag.
\<close>

definition node_le :: "raft_node \<Rightarrow> raft_node \<Rightarrow> bool" where
  "node_le nd nd' \<longleftrightarrow>
     nd_self_id nd' = nd_self_id nd \<and> nd_peer_ids nd' = nd_peer_ids nd
     \<and> metadata_le (pm_state (nd_metadata nd)) (pm_state (nd_metadata nd'))
     \<and> nd_commit_index nd \<le> nd_commit_index nd'
     \<and> take (unat (nd_commit_index nd)) (node_entries nd') = take (unat (nd_commit_index nd)) (node_entries nd)
     \<and> kv_last_applied (nd_state nd) \<le> kv_last_applied (nd_state nd')
     \<and> (nd_stopped nd \<longrightarrow> nd_stopped nd')"

lemma node_le_refl [simp]: "node_le nd nd"
  by (simp add: node_le_def)

lemma node_le_trans [trans]:
  assumes "node_le a b" and "node_le b c"
  shows "node_le a c"
proof -
  have "unat (nd_commit_index a) \<le> unat (nd_commit_index b)"
    using assms(1) by (simp add: node_le_def word_le_nat_alt)
  then have "take (unat (nd_commit_index a)) (node_entries c) = take (unat (nd_commit_index a)) (node_entries b)"
    using assms(2) unfolding node_le_def by (metis min.absorb1 take_take)
  then show ?thesis
    using assms by (auto simp: node_le_def intro: metadata_le_trans)
qed

lemma is_peer_iff: "is_peer p nd \<longleftrightarrow> p \<in> set (list2 (nd_peer_ids nd))"
  by (auto simp: is_peer_def)

lemma core_inv_fields [simp]:
  "core_inv (nd\<lparr>nd_leader := x\<rparr>) \<longleftrightarrow> core_inv nd"
  "core_inv (nd\<lparr>nd_read_rounds := rs\<rparr>) \<longleftrightarrow> core_inv nd"
  "core_inv (nd\<lparr>nd_next_read_id := i\<rparr>) \<longleftrightarrow> core_inv nd"
  "core_inv (nd\<lparr>nd_known_leader := k\<rparr>) \<longleftrightarrow> core_inv nd"
  "core_inv (nd\<lparr>nd_stopped := b\<rparr>) \<longleftrightarrow> core_inv nd"
  "core_inv (drop_leadership nd) \<longleftrightarrow> core_inv nd"
  by (simp_all add: core_inv_def node_term_def drop_leadership_def)

lemma node_le_fields [simp]:
  "node_le a (nd\<lparr>nd_leader := x\<rparr>) \<longleftrightarrow> node_le a nd"
  "node_le a (nd\<lparr>nd_read_rounds := rs\<rparr>) \<longleftrightarrow> node_le a nd"
  "node_le a (nd\<lparr>nd_next_read_id := i\<rparr>) \<longleftrightarrow> node_le a nd"
  "node_le a (nd\<lparr>nd_known_leader := k\<rparr>) \<longleftrightarrow> node_le a nd"
  "node_le a (drop_leadership nd) \<longleftrightarrow> node_le a nd"
  by (simp_all add: node_le_def drop_leadership_def)

lemma drop_leadership_fields [simp]:
  "nd_self_id (drop_leadership nd) = nd_self_id nd" "nd_peer_ids (drop_leadership nd) = nd_peer_ids nd"
  "nd_metadata (drop_leadership nd) = nd_metadata nd" "nd_log (drop_leadership nd) = nd_log nd"
  "nd_state (drop_leadership nd) = nd_state nd" "nd_commit_index (drop_leadership nd) = nd_commit_index nd"
  "nd_election (drop_leadership nd) = nd_election nd" "nd_leader (drop_leadership nd) = None"
  "nd_read_rounds (drop_leadership nd) = []" "nd_stopped (drop_leadership nd) = nd_stopped nd"
  "nd_next_read_id (drop_leadership nd) = nd_next_read_id nd"
  "node_term (drop_leadership nd) = node_term nd" "node_role (drop_leadership nd) = node_role nd"
  by (simp_all add: drop_leadership_def node_term_def node_role_def)

lemma drop_leadership_inv: "core_inv nd \<Longrightarrow> nd_stopped nd \<or> node_role nd \<noteq> Leader \<Longrightarrow> node_inv (drop_leadership nd)"
  by (simp add: node_inv_def lead_inv_def reads_inv_def)

text \<open>Stopping is always sound.\<close>

lemma stop_sound:
  assumes "stop e nd w = (r, nd', w')" and "core_inv nd" and "node_le a nd"
  shows "node_inv nd' \<and> node_le a nd' \<and> nd_stopped nd' \<and> r = Inl e"
proof -
  have nd': "nd' = drop_leadership (nd\<lparr>nd_stopped := True\<rparr>)" "r = Inl e" using assms(1) by (simp_all add: stop_def)
  have "node_inv nd'" unfolding nd' by (rule drop_leadership_inv) (use assms(2) in simp_all)
  moreover have "node_le a nd'" using assms(3) by (auto simp: nd' node_le_def)
  ultimately show ?thesis by (simp add: nd')
qed

lemma core_inv_metadata:
  assumes "core_inv nd" and "metadata_le (pm_state (nd_metadata nd)) (pm_state m)"
    and "election_inv (pm_state m) el" and "el_self_id el = nd_self_id nd" "el_peer_ids el = nd_peer_ids nd"
  shows "core_inv (nd\<lparr>nd_metadata := m, nd_election := el\<rparr>) \<and> node_le nd (nd\<lparr>nd_metadata := m, nd_election := el\<rparr>)"
  using assms
  by (auto simp: core_inv_def node_le_def node_term_def metadata_le_def intro: terms_ok_mono)

lemma core_inv_metadata_only:
  assumes "core_inv nd" and "metadata_le (pm_state (nd_metadata nd)) (pm_state m)"
  shows "core_inv (nd\<lparr>nd_metadata := m\<rparr>) \<and> node_le nd (nd\<lparr>nd_metadata := m\<rparr>)"
  using assms election_inv_mono [of "pm_state (nd_metadata nd)" "nd_election nd" "pm_state m"]
  by (auto simp: core_inv_def node_le_def node_term_def metadata_le_def intro: terms_ok_mono)

lemma reads_inv_same:
  assumes "reads_inv nd" and "nd_read_rounds nd' = nd_read_rounds nd" "nd_next_read_id nd' = nd_next_read_id nd"
    and "node_term nd' = node_term nd" "nd_self_id nd' = nd_self_id nd"
    and "kv_last_applied (nd_state nd) \<le> kv_last_applied (nd_state nd')"
  shows "reads_inv nd'"
  using assms unfolding reads_inv_def round_ok_def by (auto intro: order_trans)

lemma stale_role: "election_inv (pm_state (nd_metadata nd)) el \<Longrightarrow> metadata_le (pm_state (nd_metadata nd)) (pm_state m) \<Longrightarrow>
    current_term (pm_state m) \<noteq> current_term (pm_state (nd_metadata nd)) \<Longrightarrow> election_role m el = Follower"
  unfolding election_inv_def metadata_le_def election_role_def
  by (auto simp: order_le_less dest: order_less_le_trans)

lemma same_metadata_role:
  "election_inv (pm_state m) el \<Longrightarrow> metadata_le (pm_state m) (pm_state m') \<Longrightarrow>
     current_term (pm_state m') = current_term (pm_state m) \<Longrightarrow> election_role m' el = election_role m el"
  unfolding election_inv_def metadata_le_def election_role_def by auto

section \<open>The helpers keep the invariant\<close>

text \<open>\<open>leader_moved nd nd'\<close>: only the progress of the replication state changed.\<close>

definition leader_moved :: "raft_node \<Rightarrow> raft_node \<Rightarrow> bool" where
  "leader_moved nd nd' \<longleftrightarrow>
     nd' = nd\<lparr>nd_leader := nd_leader nd'\<rparr> \<and> rel_option same_leadership (nd_leader nd) (nd_leader nd')"

lemma leader_moved_refl [simp]: "leader_moved nd nd"
  by (simp add: leader_moved_def option.rel_refl)

lemma leader_moved_trans: "leader_moved a b \<Longrightarrow> leader_moved b c \<Longrightarrow> leader_moved a c"
proof -
  assume a: "leader_moved a b" and b: "leader_moved b c"
  have "c = a\<lparr>nd_leader := nd_leader c\<rparr>"
    using a b unfolding leader_moved_def by (metis raft_node.update_convs(8) raft_node.surjective)
  moreover have "rel_option same_leadership (nd_leader a) (nd_leader c)"
    using a b by (auto simp: leader_moved_def intro: same_leadership_trans elim!: option.rel_cases)
  ultimately show ?thesis by (simp add: leader_moved_def)
qed

lemma leader_moved_fields:
  assumes "leader_moved nd nd'"
  shows "nd_self_id nd' = nd_self_id nd" "nd_peer_ids nd' = nd_peer_ids nd" "nd_metadata nd' = nd_metadata nd"
    "nd_log nd' = nd_log nd" "nd_state nd' = nd_state nd" "nd_commit_index nd' = nd_commit_index nd"
    "nd_election nd' = nd_election nd" "nd_read_rounds nd' = nd_read_rounds nd"
    "nd_next_read_id nd' = nd_next_read_id nd" "nd_stopped nd' = nd_stopped nd"
    "nd_known_leader nd' = nd_known_leader nd"
    "node_term nd' = node_term nd" "node_role nd' = node_role nd"
proof -
  have "nd' = nd\<lparr>nd_leader := nd_leader nd'\<rparr>" using assms by (simp add: leader_moved_def)
  then obtain x where nd': "nd' = nd\<lparr>nd_leader := x\<rparr>" by blast
  show "nd_self_id nd' = nd_self_id nd" "nd_peer_ids nd' = nd_peer_ids nd" "nd_metadata nd' = nd_metadata nd"
    "nd_log nd' = nd_log nd" "nd_state nd' = nd_state nd" "nd_commit_index nd' = nd_commit_index nd"
    "nd_election nd' = nd_election nd" "nd_read_rounds nd' = nd_read_rounds nd"
    "nd_next_read_id nd' = nd_next_read_id nd" "nd_stopped nd' = nd_stopped nd"
    "nd_known_leader nd' = nd_known_leader nd"
    "node_term nd' = node_term nd" "node_role nd' = node_role nd"
    unfolding nd' by (simp_all add: node_term_def node_role_def)
qed

lemma leader_moved_inv:
  assumes "leader_moved nd nd'"
  shows "core_inv nd' \<longleftrightarrow> core_inv nd" "lead_inv nd' \<longleftrightarrow> lead_inv nd" "reads_inv nd' \<longleftrightarrow> reads_inv nd"
    "node_inv nd' \<longleftrightarrow> node_inv nd" "node_le a nd' \<longleftrightarrow> node_le a nd"
proof -
  note f = leader_moved_fields [OF assms]
  show core: "core_inv nd' \<longleftrightarrow> core_inv nd" by (simp add: core_inv_def f)
  have "rel_option same_leadership (nd_leader nd) (nd_leader nd')" using assms by (simp add: leader_moved_def)
  then show lead: "lead_inv nd' \<longleftrightarrow> lead_inv nd"
    by (cases rule: option.rel_cases)
      (auto simp: lead_inv_def leader_active_def f same_leadership_def active_def)
  show reads: "reads_inv nd' \<longleftrightarrow> reads_inv nd" by (simp add: reads_inv_def round_ok_def f)
  show "node_inv nd' \<longleftrightarrow> node_inv nd" by (simp add: node_inv_def core lead reads)
  show "node_le a nd' \<longleftrightarrow> node_le a nd" by (simp add: node_le_def f)
qed

lemma queue_append_moved: "queue_append p a nd = (ok, a', nd') \<Longrightarrow> leader_moved nd nd'"
  by (auto simp: queue_append_def leader_moved_def option.rel_refl dest: make_request_same
      split: option.splits prod.splits sum.splits)

lemma queue_appends_moved: "queue_appends ps a nd = (ok, a', nd') \<Longrightarrow> leader_moved nd nd'"
proof (induction ps arbitrary: a nd)
  case Nil
  then show ?case by simp
next
  case (Cons p ps)
  obtain ok1 a1 nd1 where q: "queue_append p a nd = (ok1, a1, nd1)" by (metis prod_cases3)
  then show ?case
    using Cons.prems Cons.IH [of a1 nd1] queue_append_moved [OF q]
    by (auto split: if_splits intro: leader_moved_trans)
qed

lemma apply_ready_sound:
  assumes core: "core_inv nd" and run: "apply_ready a nd = (ok, a', nd')"
  shows "ok \<and> core_inv nd' \<and> node_le nd nd'
    \<and> nd' = nd\<lparr>nd_state := kv_replay (take (unat (nd_commit_index nd)) (node_entries nd))\<rparr>
    \<and> kv_last_applied (nd_state nd') = nd_commit_index nd
    \<and> a' = a\<lparr>applied := apply_report (node_entries nd) (unat (kv_last_applied (nd_state nd)))
                            (unat (nd_commit_index nd))\<rparr>"
proof -
  have wf: "log_wf (nd_log nd)" and pre: "applied_prefix (nd_state nd) (nd_log nd)"
    and le: "kv_last_applied (nd_state nd) \<le> nd_commit_index nd"
    and len: "unat (nd_commit_index nd) \<le> length (pl_entries (nd_log nd))"
    using core by (simp_all add: core_inv_def)
  let ?s = "kv_replay (take (unat (nd_commit_index nd)) (node_entries nd))"
  have out: "nd' = nd\<lparr>nd_state := ?s\<rparr> \<and> ok
      \<and> a' = a\<lparr>applied := apply_report (node_entries nd) (unat (kv_last_applied (nd_state nd)))
                            (unat (nd_commit_index nd))\<rparr>"
    using run apply_committed_outcome [OF wf pre, of "nd_commit_index nd"] le len
    by (simp add: apply_ready_def word_le_nat_alt)
  note rep = replay_prefix_applied [OF wf len]
  have last: "kv_last_applied ?s = nd_commit_index nd" using rep(1) by (simp add: word_unat_eq_iff)
  have "core_inv nd'" using core out rep(2) last by (simp add: core_inv_def node_term_def)
  moreover have "node_le nd nd'" using out last le by (simp add: node_le_def)
  ultimately show ?thesis using out last by simp
qed

lemma start_rounds_rounds:
  assumes "start_rounds nd rs a = (rs', a')"
  shows "rs' = map (\<lambda>r. (fst r, Some (case snd r of None \<Rightarrow> read_probe (fst r) nd | Some p \<Rightarrow> p))) rs"
  using assms
proof (induction rs arbitrary: rs' a a')
  case Nil
  then show ?case by simp
next
  case (Cons r rs)
  obtain i p where r: "r = (i, p)" by fastforce
  obtain rs1 a1 where s: "start_rounds nd rs (if p = None then add_messages (to_peers (read_probe i nd) nd) a else a) = (rs1, a1)"
    by fastforce
  then show ?case using Cons.prems Cons.IH [OF s] r by (cases p) auto
qed

lemma start_waiting_reads_sound:
  assumes core: "core_inv nd" and reads: "reads_inv nd" and run: "start_waiting_reads a nd = (a', nd')"
  shows "nd' = nd\<lparr>nd_read_rounds := nd_read_rounds nd'\<rparr> \<and> reads_inv nd' \<and> (nd_read_rounds nd = [] \<longrightarrow> nd' = nd)"
proof (cases "current_term_committed nd")
  case False
  then show ?thesis using run reads by (simp add: start_waiting_reads_def)
next
  case True
  then have commit: "nd_commit_index nd \<le> kv_last_applied (nd_state nd)"
    by (simp add: current_term_committed_def not_less split: if_splits)
  let ?f = "\<lambda>r. (fst r, Some (case snd r of None \<Rightarrow> read_probe (fst r) nd | Some p \<Rightarrow> p))"
  obtain rs a1 where s: "start_rounds nd (nd_read_rounds nd) a = (rs, a1)" by fastforce
  have nd': "nd' = nd\<lparr>nd_read_rounds := map ?f (nd_read_rounds nd)\<rparr>"
    using run True s start_rounds_rounds [OF s] by (simp add: start_waiting_reads_def)
  have "round_ok nd' (?f r)" if "round_ok nd r" for r
    using that commit
    by (cases "snd r") (auto simp: round_ok_def nd' read_probe_def node_term_def)
  then have "reads_inv nd'" using reads by (auto simp: reads_inv_def nd' comp_def)
  then show ?thesis using nd' by (cases nd) auto
qed

section \<open>Every handler keeps the invariant\<close>

definition sound_step :: "raft_node \<Rightarrow> raft_node \<Rightarrow> bool" where
  "sound_step nd nd' \<longleftrightarrow> node_inv nd' \<and> node_le nd nd'"

lemma sound_step_refl: "node_inv nd \<Longrightarrow> sound_step nd nd"
  by (simp add: sound_step_def)

lemma stop_sound_step: "stop e nd w = (r, nd', w') \<Longrightarrow> core_inv nd \<Longrightarrow> node_le a nd \<Longrightarrow> sound_step a nd'"
  using stop_sound [of e nd w r nd' w' a] by (simp add: sound_step_def)

lemma core_election: "core_inv nd \<Longrightarrow> election_inv (pm_state (nd_metadata nd)) (nd_election nd)"
  by (simp add: core_inv_def)

lemma moved_or_stopped:
  assumes "leader_moved nd nd1" and "node_inv nd" and "node_le a nd"
    and "(if \<not> ok then stop e nd1 w else (x, nd1, w)) = (r, nd', w')"
  shows "sound_step a nd'"
proof -
  have "node_inv nd1" "core_inv nd1" "node_le a nd1"
    using assms(2,3) leader_moved_inv [OF assms(1)] by (simp_all add: node_inv_def)
  then show ?thesis using assms(4) by (cases ok) (auto simp: sound_step_def dest: stop_sound)
qed

lemma on_election_timeout_sound:
  assumes inv: "node_inv nd" and run: "on_election_timeout nd w = (r, nd', w')"
  shows "sound_step nd nd'"
proof (cases "nd_stopped nd")
  case True
  then show ?thesis using inv run by (simp add: on_election_timeout_def sound_step_refl)
next
  case False
  have core: "core_inv nd" using inv by (simp add: node_inv_def)
  obtain res m el v where s: "start_election (nd_log nd) (nd_metadata nd) (nd_election nd) w = (res, m, el, v)"
    by (metis prod_cases4)
  note out = start_election_outcome [OF core_election [OF core] s]
  let ?nd = "nd\<lparr>nd_metadata := m, nd_election := el\<rparr>"
  have c: "core_inv ?nd" "node_le nd ?nd"
    using core_inv_metadata [OF core, of m el] out core by (auto simp: core_inv_def)
  show ?thesis
  proof (cases res)
    case (Inl e)
    show ?thesis
    proof (cases "e = AlreadyLeader")
      case True
      then have "nd' = nd" using run False s Inl out by (simp add: on_election_timeout_def)
      then show ?thesis using inv by (simp add: sound_step_refl)
    next
      case other: False
      then show ?thesis
        using run False s Inl c by (auto simp: on_election_timeout_def intro: stop_sound_step)
    qed
  next
    case (Inr req)
    have "node_role ?nd \<noteq> Leader"
      using out Inr by (simp add: node_role_def election_role_def)
    then have "node_inv (drop_leadership ?nd)" by (intro drop_leadership_inv c) simp
    moreover have "nd' = drop_leadership ?nd" using run False s Inr by (simp add: on_election_timeout_def Let_def)
    ultimately show ?thesis using c(2) by (simp add: sound_step_def)
  qed
qed

lemma on_heartbeat_timeout_sound:
  assumes inv: "node_inv nd" and run: "on_heartbeat_timeout nd w = (r, nd', w')"
  shows "sound_step nd nd'"
proof (cases "nd_stopped nd \<or> nd_leader nd = None")
  case True
  then show ?thesis using inv run by (auto simp: on_heartbeat_timeout_def sound_step_refl split: if_splits)
next
  case False
  then obtain ld where ld: "nd_leader nd = Some ld" and live: "\<not> nd_stopped nd" by auto
  have act: "leader_active nd ld" and core: "core_inv nd"
    using inv ld by (simp_all add: node_inv_def lead_inv_def)
  obtain ok a nd1 where q: "queue_appends (list2 (nd_peer_ids nd)) (no_actions\<lparr>schedule_heartbeat := True\<rparr>) nd
      = (ok, a, nd1)" by (metis prod_cases3)
  have "(if \<not> ok then stop InconsistentState nd1 w
      else (Inr (add_messages (concat (map (\<lambda>round. case snd round of None \<Rightarrow> [] | Some probe \<Rightarrow> to_peers probe nd1)
        (nd_read_rounds nd1))) a), nd1, w)) = (r, nd', w')"
    using run ld live act q by (simp add: on_heartbeat_timeout_def split del: if_split)
  then show ?thesis by (rule moved_or_stopped [OF queue_appends_moved [OF q] inv, rotated]) simp
qed

lemma on_request_vote_sound:
  assumes inv: "node_inv nd" and run: "on_request_vote p req nd w = (r, nd', w')"
  shows "sound_step nd nd'"
proof (cases "nd_stopped nd \<or> \<not> is_peer p nd \<or> rv_candidate_id req \<noteq> p")
  case True
  then show ?thesis using inv run by (auto simp: on_request_vote_def sound_step_refl split: if_splits)
next
  case False
  have core: "core_inv nd" and lead: "lead_inv nd" and reads: "reads_inv nd" using inv by (simp_all add: node_inv_def)
  obtain res m v where h: "handle_request_vote (nd_log nd) req (nd_metadata nd) w = (res, m, v)"
    by (metis prod_cases3)
  note le = metadata_le_request_vote [OF h]
  let ?nd = "nd\<lparr>nd_metadata := m\<rparr>"
  note c = core_inv_metadata_only [OF core le]
  show ?thesis
  proof (cases res)
    case (Inl e)
    then show ?thesis
      using run False h c by (auto simp: on_request_vote_def Let_def intro: stop_sound_step)
  next
    case (Inr reply)
    show ?thesis
    proof (cases "node_term ?nd > node_term nd")
      case True
      have "node_role ?nd \<noteq> Leader"
        using stale_role [OF core_election [OF core] le] True by (auto simp: node_role_def node_term_def)
      then have "node_inv (drop_leadership ?nd)" by (intro drop_leadership_inv) (use c in auto)
      moreover have "nd' = drop_leadership ?nd"
        using run False h Inr True by (simp add: on_request_vote_def Let_def)
      ultimately show ?thesis using c by (simp add: sound_step_def)
    next
      case same: False
      have t: "current_term (pm_state m) = current_term (pm_state (nd_metadata nd))"
        using same le by (auto simp: node_term_def metadata_le_def)
      have "nd' = ?nd" using run False h Inr same by (simp add: on_request_vote_def Let_def)
      moreover have "lead_inv ?nd"
        using lead t same_metadata_role [OF core_election [OF core] le t] le
        by (auto simp: lead_inv_def leader_active_def active_def node_role_def metadata_le_def split: option.splits)
      moreover have "reads_inv ?nd" using reads by (rule reads_inv_same) (simp_all add: node_term_def t)
      ultimately show ?thesis using c by (simp add: sound_step_def node_inv_def)
    qed
  qed
qed

lemma core_inv_grow:
  assumes core: "core_inv nd" and wf: "log_wf l" and es: "log_entries l = node_entries nd @ xs"
    and terms: "terms_ok (node_term nd) (log_entries l)"
  shows "core_inv (nd\<lparr>nd_log := l\<rparr>) \<and> node_le nd (nd\<lparr>nd_log := l\<rparr>)"
proof -
  have len: "length (log_entries l) = length (node_entries nd) + length xs"
    using es by (simp del: length_log_entries)
  have commit: "unat (nd_commit_index nd) \<le> length (node_entries nd)"
    and last: "unat (kv_last_applied (nd_state nd)) \<le> length (node_entries nd)"
    using core by (simp_all add: core_inv_def applied_prefix_def)
  have "applied_prefix (nd_state nd) l"
    by (rule applied_prefix_same_entries [of _ "nd_log nd"])
      (use core last in \<open>simp_all add: core_inv_def es\<close>)
  then show ?thesis
    using core wf terms commit len by (simp add: core_inv_def node_le_def node_term_def es)
qed

lemma core_inv_append_command:
  assumes core: "core_inv nd" and act: "leader_active nd ld"
    and run: "append_command (nd_election nd) (nd_metadata nd) c (nd_log nd) ld w = (res, l', ld', w')"
  shows "core_inv (nd\<lparr>nd_log := l'\<rparr>) \<and> node_le nd (nd\<lparr>nd_log := l'\<rparr>)"
proof -
  have wf: "log_wf (nd_log nd)" and terms: "terms_ok (node_term nd) (node_entries nd)"
    using core by (simp_all add: core_inv_def)
  have t: "ld_term ld = node_term nd" using act by (simp add: leader_active_def active_def node_term_def)
  note out = append_command_outcome [OF wf act [unfolded leader_active_def] run]
  show ?thesis
  proof (cases res)
    case (Inl e)
    then show ?thesis using core_inv_grow [OF core, of l' "[]"] out terms by simp
  next
    case (Inr i)
    then show ?thesis
      using core_inv_grow [OF core, of l' "[\<lparr>entry_index = i, entry_term = ld_term ld, entry_command = c\<rparr>]"]
        out terms_ok_snoc [OF terms, of "\<lparr>entry_index = i, entry_term = ld_term ld, entry_command = c\<rparr>"] t
      by simp
  qed
qed

lemma lead_inv_log [simp]: "lead_inv (nd\<lparr>nd_log := l\<rparr>) \<longleftrightarrow> lead_inv nd"
  by (simp add: lead_inv_def leader_active_def node_role_def split: option.split)

lemma reads_inv_log [simp]: "reads_inv (nd\<lparr>nd_log := l\<rparr>) \<longleftrightarrow> reads_inv nd"
  by (simp add: reads_inv_def round_ok_def node_term_def)

lemma reads_inv_leader [simp]: "reads_inv (nd\<lparr>nd_leader := x\<rparr>) \<longleftrightarrow> reads_inv nd"
  by (simp add: reads_inv_def round_ok_def node_term_def)

lemma on_vote_reply_sound:
  assumes inv: "node_inv nd" and run: "on_vote_reply p reply nd w = (r, nd', w')"
  shows "sound_step nd nd'"
proof (cases "nd_stopped nd \<or> \<not> is_peer p nd")
  case True
  then show ?thesis using inv run by (auto simp: on_vote_reply_def sound_step_refl split: if_splits)
next
  case False
  have core: "core_inv nd" and lead: "lead_inv nd" and reads: "reads_inv nd" using inv by (simp_all add: node_inv_def)
  obtain res m el v where h: "handle_vote_reply p reply (nd_metadata nd) (nd_election nd) w = (res, m, el, v)"
    by (metis prod_cases4)
  note out = handle_vote_reply_outcome [OF core_election [OF core] h]
  let ?nd = "nd\<lparr>nd_metadata := m, nd_election := el\<rparr>"
  have c: "core_inv ?nd" "node_le nd ?nd"
    using core_inv_metadata [OF core, of m el] out core by (auto simp: core_inv_def)
  consider (failed) "res = vote_reply_outcome.PersistenceError" | (down) "res = vote_reply_outcome.SteppedDown"
    | (none) "res \<in> {vote_reply_outcome.Ignored, vote_reply_outcome.Recorded}" | (won) "res = BecameLeader"
    by (cases res) auto
  then show ?thesis
  proof cases
    case failed
    then show ?thesis using run False h c by (auto simp: on_vote_reply_def intro: stop_sound_step)
  next
    case down
    then have "node_role ?nd \<noteq> Leader" using out by (simp add: node_role_def)
    then have "node_inv (drop_leadership ?nd)" by (intro drop_leadership_inv c) simp
    moreover have "nd' = drop_leadership ?nd" using run False h down by (simp add: on_vote_reply_def)
    ultimately show ?thesis using c(2) by (simp add: sound_step_def)
  next
    case none
    then have same: "m = nd_metadata nd" "election_role m el = election_role m (nd_election nd)" using out by auto
    have "lead_inv ?nd"
      using lead same by (auto simp: lead_inv_def leader_active_def active_def node_role_def split: option.splits)
    moreover have "reads_inv ?nd" by (rule reads_inv_same [OF reads]) (simp_all add: node_term_def same)
    moreover have "nd' = ?nd" using run False h none by (auto simp: on_vote_reply_def)
    ultimately show ?thesis using c by (simp add: sound_step_def node_inv_def)
  next
    case won
    then have won': "m = nd_metadata nd" "election_role m (nd_election nd) = Candidate" "election_role m el = Leader"
      using out by auto
    have idle: "nd_leader nd = None" "nd_read_rounds nd = []"
      using lead won'(1,2) by (auto simp: lead_inv_def leader_active_def active_def split: option.splits)
    let ?kn = "?nd\<lparr>nd_known_leader := Some (nd_self_id ?nd)\<rparr>"
    have ck: "core_inv ?kn" "node_le nd ?kn" using c by simp_all
    show ?thesis
    proof (cases "new_leader el m (nd_log nd) (nd_commit_index nd)")
      case None
      then show ?thesis
        using run False h won ck by (auto simp: on_vote_reply_def Let_def intro: stop_sound_step)
    next
      case (Some ld)
      have wf: "log_wf (nd_log nd)" using core by (simp add: core_inv_def)
      note ld = new_leader_inv [OF Some wf]
      have act: "leader_active ?kn ld" using ld by (simp add: leader_active_def)
      obtain ap l ld1 w1 where a: "append_command el m noop_command (nd_log nd) ld v = (ap, l, ld1, w1)"
        by (metis prod_cases4)
      have cl: "core_inv (?kn\<lparr>nd_log := l\<rparr>)" "node_le ?kn (?kn\<lparr>nd_log := l\<rparr>)"
        using core_inv_append_command [OF ck(1) act] a by simp_all
      let ?ndl = "?kn\<lparr>nd_log := l, nd_leader := Some ld1\<rparr>"
      have le: "node_le nd ?ndl" "core_inv ?ndl" using node_le_trans [OF ck(2) cl(2)] cl(1) by simp_all
      show ?thesis
      proof (cases ap)
        case (Inl e)
        then show ?thesis
          using run False h won Some a le by (auto simp: on_vote_reply_def Let_def intro: stop_sound_step)
      next
        case (Inr i)
        then have "ld1 = ld"
          using append_command_outcome [OF wf, of el m ld noop_command v ap l ld1 w1] a ld by simp
        then have "lead_inv ?ndl"
          using act ld core by (simp add: lead_inv_def leader_active_def core_inv_def out)
        moreover have "reads_inv ?ndl" using idle by (simp add: reads_inv_def)
        ultimately have inv': "node_inv ?ndl" using le by (simp add: node_inv_def)
        obtain ok acts nd1 where q: "queue_appends (list2 (nd_peer_ids ?ndl))
            (no_actions\<lparr>schedule_heartbeat := True\<rparr>) ?ndl = (ok, acts, nd1)" by (metis prod_cases3)
        have "(if \<not> ok then stop InconsistentState nd1 w1 else (Inr acts, nd1, w1)) = (r, nd', w')"
          using run False h won Some a Inr q by (simp add: on_vote_reply_def Let_def split del: if_split)
        then show ?thesis by (rule moved_or_stopped [OF queue_appends_moved [OF q] inv' le(1)])
      qed
    qed
  qed
qed

lemma node_inv_known_leader [simp]: "node_inv (nd\<lparr>nd_known_leader := k\<rparr>) \<longleftrightarrow> node_inv nd"
  by (simp add: node_inv_def lead_inv_def reads_inv_def round_ok_def leader_active_def node_role_def
      node_term_def split: option.split)

lemma apply_ready_node:
  assumes inv: "node_inv nd" and run: "apply_ready a nd = (ok, a', nd')"
  shows "ok \<and> node_inv nd' \<and> node_le nd nd'"
proof -
  have core: "core_inv nd" using inv by (simp add: node_inv_def)
  note out = apply_ready_sound [OF core run]
  define s where "s = kv_replay (take (unat (nd_commit_index nd)) (node_entries nd))"
  have nd': "nd' = nd\<lparr>nd_state := s\<rparr>" and le: "node_le nd nd'" and ok: ok and core': "core_inv nd'"
    unfolding s_def using out by blast+
  have "lead_inv nd'"
    using inv by (simp add: nd' node_inv_def lead_inv_def leader_active_def node_role_def split: option.splits)
  moreover have "reads_inv nd'"
  proof (rule reads_inv_same [of nd])
    show "reads_inv nd" using inv by (simp add: node_inv_def)
    show "kv_last_applied (nd_state nd) \<le> kv_last_applied (nd_state nd')" using le by (simp add: node_le_def)
  qed (simp_all add: nd' node_term_def)
  ultimately show ?thesis using ok core' le by (simp add: node_inv_def)
qed

lemma core_inv_append_entries:
  assumes core: "core_inv nd"
    and run: "handle_append_entries req (nd_metadata nd) (nd_log nd) (nd_commit_index nd) w = (res, m, l, c, w')"
  shows "core_inv (nd\<lparr>nd_metadata := m, nd_log := l, nd_commit_index := c\<rparr>)
    \<and> node_le nd (nd\<lparr>nd_metadata := m, nd_log := l, nd_commit_index := c\<rparr>)"
proof -
  have wf: "log_wf (nd_log nd)" and terms: "terms_ok (current_term (pm_state (nd_metadata nd))) (node_entries nd)"
    and pre: "applied_prefix (nd_state nd) (nd_log nd)" and la: "kv_last_applied (nd_state nd) \<le> nd_commit_index nd"
    and ci: "unat (nd_commit_index nd) \<le> length (node_entries nd)"
    using core by (simp_all add: core_inv_def node_term_def)
  note out = handle_append_entries_outcome [OF wf run] and commit = handle_append_entries_commit [OF wf ci run]
  have wf': "log_wf l" using out by (rule conjunct1)
  have le: "metadata_le (pm_state (nd_metadata nd)) (pm_state m)"
  proof -
    have "pm_state m = pm_state (nd_metadata nd) \<or> pm_state m = term_seen (ae_term req) (pm_state (nd_metadata nd))"
      using out by blast
    then show ?thesis by auto
  qed
  have kept: "take (unat (nd_commit_index nd)) (log_entries l) = take (unat (nd_commit_index nd)) (node_entries nd)"
    using out ci by blast
  have "unat (kv_last_applied (nd_state nd)) \<le> unat (nd_commit_index nd)" using la by (simp add: word_le_nat_alt)
  then have "take (unat (kv_last_applied (nd_state nd))) (log_entries l) =
      take (unat (kv_last_applied (nd_state nd))) (node_entries nd)"
    using kept by (metis min.absorb1 take_take)
  then have pre': "applied_prefix (nd_state nd) l" by (rule applied_prefix_same_entries [OF pre])
  have terms': "terms_ok (current_term (pm_state m)) (log_entries l)"
    by (rule handle_append_entries_terms [OF wf terms run])
  have la': "kv_last_applied (nd_state nd) \<le> c" using la commit by (meson order_trans)
  show ?thesis
    using core wf' terms' pre' la' commit le kept election_inv_mono [OF core_election [OF core] le]
    by (simp add: core_inv_def node_le_def node_term_def)
qed

lemma observe_leader_role: "t \<noteq> 0 \<Longrightarrow> t = current_term (pm_state m) \<Longrightarrow> election_role m' (observe_leader t m el) = Follower"
  by (simp add: observe_leader_def election_role_def)

lemma observe_leader_ids [simp]:
  "el_self_id (observe_leader t m el) = el_self_id el" "el_peer_ids (observe_leader t m el) = el_peer_ids el"
  by (simp_all add: observe_leader_def)

lemma lead_inv_same_term:
  assumes "lead_inv nd" and "core_inv nd" and "metadata_le (pm_state (nd_metadata nd)) (pm_state m)"
    and "current_term (pm_state m) = node_term nd"
  shows "lead_inv (nd\<lparr>nd_metadata := m, nd_log := l, nd_commit_index := c\<rparr>)"
  using assms(1,3,4) same_metadata_role [OF core_election [OF assms(2)] assms(3)]
  by (auto simp: lead_inv_def leader_active_def active_def node_role_def node_term_def metadata_le_def
      split: option.splits)

lemma on_append_entries_sound:
  assumes inv: "node_inv nd" and run: "on_append_entries p req nd w = (r, nd', w')"
  shows "sound_step nd nd'"
proof (cases "nd_stopped nd \<or> \<not> is_peer p nd \<or> ae_leader_id req \<noteq> p")
  case True
  then show ?thesis using inv run by (auto simp: on_append_entries_def sound_step_refl split: if_splits)
next
  case False
  have core: "core_inv nd" and lead: "lead_inv nd" and reads: "reads_inv nd" using inv by (simp_all add: node_inv_def)
  obtain res m l c v where h: "handle_append_entries req (nd_metadata nd) (nd_log nd) (nd_commit_index nd) w
      = (res, m, l, c, v)" by (metis prod_cases5)
  let ?nd = "nd\<lparr>nd_metadata := m, nd_log := l, nd_commit_index := c\<rparr>"
  have c1: "core_inv ?nd" "node_le nd ?nd" using core_inv_append_entries [OF core h] by blast+
  have le: "metadata_le (pm_state (nd_metadata nd)) (pm_state m)" using c1(2) by (simp add: node_le_def)
  define nd2 where "nd2 = (if node_term ?nd > node_term nd then drop_leadership ?nd else ?nd)"
  have inv2: "node_inv nd2" "node_le nd nd2"
  proof -
    show "node_le nd nd2" using c1 by (simp add: nd2_def)
    show "node_inv nd2"
    proof (cases "node_term ?nd > node_term nd")
      case True
      have "node_role ?nd \<noteq> Leader"
        using stale_role [OF core_election [OF core] le] True by (auto simp: node_role_def node_term_def)
      then show ?thesis using True drop_leadership_inv [OF c1(1)] by (simp add: nd2_def)
    next
      case same: False
      then have t: "current_term (pm_state m) = node_term nd"
        using le by (auto simp: node_term_def metadata_le_def)
      have "lead_inv ?nd" by (rule lead_inv_same_term [OF lead core le t])
      moreover have "reads_inv ?nd" using reads t by (intro reads_inv_same [OF reads]) (simp_all add: node_term_def)
      ultimately show ?thesis using same c1 by (simp add: node_inv_def nd2_def)
    qed
  qed
  have core2: "core_inv nd2" using inv2 by (simp add: node_inv_def)
  show ?thesis
  proof (cases res)
    case (Inl e)
    show ?thesis
    proof (cases "e = append_entries_handle_error.InvalidRequest")
      case True
      then have "nd' = nd2" using run False h Inl by (simp add: on_append_entries_def Let_def nd2_def)
      then show ?thesis using inv2 by (simp add: sound_step_def)
    next
      case other: False
      have "stop (if e = append_entries_handle_error.PersistenceError then PersistenceError else InconsistentState)
          nd2 v = (r, nd', w')"
        using run False h Inl other by (simp add: on_append_entries_def Let_def nd2_def split del: if_split)
      then show ?thesis by (rule stop_sound_step [OF _ core2 inv2(2)])
    qed
  next
    case (Inr reply)
    let ?live = "ae_term req \<noteq> 0 \<and> ae_term req = aer_term reply"
    define ndo where "ndo = nd2\<lparr>nd_election := observe_leader (ae_term req) (nd_metadata nd2) (nd_election nd2)\<rparr>"
    define nd3 where "nd3 = (if ?live then (drop_leadership ndo)\<lparr>nd_known_leader := Some p\<rparr> else nd2)"
    have meta: "nd_metadata nd2 = m" by (simp add: nd2_def)
    have inv3: "node_inv nd3" "node_le nd nd3"
    proof -
      have co: "core_inv ndo" "node_le nd ndo"
        using core2 inv2(2) observe_leader_inv [OF core_election [OF core2]]
        by (simp_all add: core_inv_def node_le_def node_term_def ndo_def)
      have "aer_term reply = current_term (pm_state m)"
        using handle_append_entries_outcome [OF _ h] core Inr by (simp add: core_inv_def)
      then have "?live \<Longrightarrow> node_role ndo = Follower"
        using meta by (auto simp: node_role_def observe_leader_role ndo_def)
      then have "?live \<Longrightarrow> node_inv (drop_leadership ndo)" by (intro drop_leadership_inv co) auto
      then show "node_inv nd3" using inv2(1) by (auto simp: nd3_def)
      show "node_le nd nd3" using co inv2(2) by (simp add: nd3_def)
    qed
    let ?acts = "no_actions\<lparr>reset_election_timer := ?live\<rparr>"
    obtain ok acts nd4 where ap: "(if aer_success reply then apply_ready ?acts nd3 else (True, ?acts, nd3))
        = (ok, acts, nd4)" by (metis prod_cases3)
    have nd4: "ok \<and> node_inv nd4 \<and> node_le nd3 nd4"
    proof (cases "aer_success reply")
      case True
      then have "apply_ready ?acts nd3 = (ok, acts, nd4)" using ap by simp
      from apply_ready_node [OF inv3(1) this] show ?thesis .
    next
      case False
      then show ?thesis using ap inv3(1) by (auto split del: if_split)
    qed
    note un = run [unfolded on_append_entries_def h prod.case Let_def Inr sum.case,
        folded nd2_def, folded ndo_def, folded nd3_def, unfolded ap prod.case]
    have "nd' = nd4"
      using un \<open>\<not> (nd_stopped nd \<or> \<not> is_peer p nd \<or> ae_leader_id req \<noteq> p)\<close> nd4 by simp
    then show ?thesis using nd4 node_le_trans [OF inv3(2)] by (simp add: sound_step_def)
  qed
qed

lemma start_waiting_reads_node:
  assumes inv: "node_inv nd" and run: "start_waiting_reads a nd = (a', nd')"
  shows "node_inv nd' \<and> node_le nd nd'"
proof -
  have parts: "core_inv nd" "lead_inv nd" "reads_inv nd" using inv by (simp_all add: node_inv_def)
  define rs where "rs = nd_read_rounds nd'"
  have nd': "nd' = nd\<lparr>nd_read_rounds := rs\<rparr>" and reads: "reads_inv nd'"
    and none: "nd_read_rounds nd = [] \<longrightarrow> nd' = nd"
    unfolding rs_def using start_waiting_reads_sound [OF parts(1,3) run] by blast+
  have "lead_inv nd'"
  proof (cases "nd_leader nd")
    case None
    then show ?thesis using parts(2) none by (simp add: lead_inv_def)
  next
    case (Some ld)
    then show ?thesis using parts(2) by (simp add: nd' lead_inv_def leader_active_def)
  qed
  then show ?thesis using parts(1) reads by (simp add: node_inv_def nd')
qed

lemma after_append_reply_sound:
  assumes inv: "node_inv nd" and run: "after_append_reply out p nd = (ok, a, nd')"
  shows "node_inv nd' \<and> node_le nd nd'"
proof -
  have moved: "node_inv y \<and> node_le nd y" if "leader_moved x y" "node_inv x" "node_le nd x" for x y
    using that leader_moved_inv [OF that(1)] by simp
  consider (retry) "out = Retry" | (committed) "out = Committed" | (recorded) "out = append_reply_outcome.Recorded"
    | (none) "out \<notin> {Retry, Committed, append_reply_outcome.Recorded}" by blast
  then show ?thesis
  proof cases
    case retry
    then have "leader_moved nd nd'" using run queue_append_moved by (simp add: after_append_reply_def)
    then show ?thesis using moved inv by simp
  next
    case none
    then have "nd' = nd" using run by (cases out) (simp_all add: after_append_reply_def)
    then show ?thesis using inv by simp
  next
    case recorded
    then have "nd' = nd \<or> (\<exists>a ok b. queue_append p a nd = (ok, b, nd'))"
      using run by (auto simp: after_append_reply_def split: option.splits if_splits)
    then show ?thesis using moved inv queue_append_moved by fastforce
  next
    case committed
    obtain ok1 a1 nd1 where ap: "apply_ready no_actions nd = (ok1, a1, nd1)" by (metis prod_cases3)
    note n1 = apply_ready_node [OF inv ap]
    obtain ok2 a2 nd2 where q: "queue_appends (list2 (nd_peer_ids nd1)) a1 nd1 = (ok2, a2, nd2)" by (metis prod_cases3)
    have n2: "node_inv nd2 \<and> node_le nd nd2" using moved [OF queue_appends_moved [OF q]] n1 by simp
    obtain a3 nd3 where sw: "start_waiting_reads a2 nd2 = (a3, nd3)" by fastforce
    have n3: "node_inv nd3 \<and> node_le nd nd3"
      using start_waiting_reads_node [OF conjunct1 [OF n2] sw] n2 node_le_trans by blast
    have "nd' = (if ok2 then nd3 else nd2)"
      using run committed ap q sw n1 by (auto simp: after_append_reply_def split: if_splits)
    then show ?thesis using n2 n3 by simp
  qed
qed

lemma finish_read_sound:
  assumes inv: "node_inv nd" and le: "node_le x nd" and run: "finish_read sent reply a nd w = (r, nd', w')"
  shows "sound_step x nd'"
proof -
  let ?f = "filter (\<lambda>round. fst round \<noteq> ae_read_context sent) (nd_read_rounds nd)"
  have core: "core_inv nd" using inv by (simp add: node_inv_def)
  have sub: "node_inv (nd\<lparr>nd_read_rounds := ?f\<rparr>)"
    using inv
    by (auto simp: node_inv_def lead_inv_def reads_inv_def round_ok_def leader_active_def node_role_def
        node_term_def sorted_wrt_map intro: sorted_wrt_filter split: option.splits)
  show ?thesis
    using run inv le sub core stop_sound_step [of InconsistentState nd w r nd' w' x]
    by (auto simp: finish_read_def sound_step_def Let_def split: if_splits option.splits)
qed

lemma handle_reply_node:
  assumes inv: "node_inv nd" and ld: "nd_leader nd = Some ld"
    and h: "handle_reply (nd_election nd) (nd_log nd) p sent reply (nd_metadata nd) (nd_commit_index nd) ld w
      = (out, m, c, ld1, v)"
    and go: "out \<noteq> append_reply_outcome.PersistenceError" "out \<noteq> append_reply_outcome.SteppedDown"
  shows "node_inv (nd\<lparr>nd_metadata := m, nd_commit_index := c, nd_leader := Some ld1\<rparr>)"
proof -
  have core: "core_inv nd" and lead: "lead_inv nd" and reads: "reads_inv nd" using inv by (simp_all add: node_inv_def)
  have wf: "log_wf (nd_log nd)" using core by (simp add: core_inv_def)
  note o = handle_reply_outcome [OF wf h]
  have same: "m = nd_metadata nd" "same_leadership ld ld1" using o go by auto
  have commit: "nd_commit_index nd \<le> c \<and> unat c \<le> length (node_entries nd)"
    using o core by (auto simp: core_inv_def committable_def split: if_splits)
  define nd1 where "nd1 = nd\<lparr>nd_metadata := m, nd_commit_index := c, nd_leader := Some ld1\<rparr>"
  have "core_inv nd1"
    using core commit by (auto simp: nd1_def core_inv_def node_term_def same)
  moreover have "lead_inv nd1"
    using lead ld same by (simp add: lead_inv_def nd1_def leader_active_def same_leadership_active)
      (simp add: same_leadership_def)
  moreover have "reads_inv nd1" by (rule reads_inv_same [OF reads]) (simp_all add: nd1_def node_term_def same)
  ultimately show ?thesis by (simp add: node_inv_def nd1_def)
qed

lemma on_append_reply_sound:
  assumes inv: "node_inv nd" and run: "on_append_reply p sent reply nd w = (r, nd', w')"
  shows "sound_step nd nd'"
proof (cases "nd_stopped nd \<or> \<not> is_peer p nd")
  case True
  then show ?thesis using inv run by (auto simp: on_append_reply_def sound_step_refl split: if_splits)
next
  case False
  have core: "core_inv nd" and lead: "lead_inv nd" and reads: "reads_inv nd" using inv by (simp_all add: node_inv_def)
  show ?thesis
  proof (cases "nd_leader nd")
    case None
    show ?thesis
    proof (cases "aer_term reply > node_term nd")
      case no: False
      then show ?thesis using run False None inv by (simp add: on_append_reply_def sound_step_refl)
    next
      case True
      obtain q m v where a: "advance_term (aer_term reply) (nd_metadata nd) w = (q, m, v)" by (metis prod_cases3)
      note c = core_inv_metadata_only [OF core metadata_le_advance [OF a]]
      have un: "(if q \<noteq> Persisted then stop PersistenceError (nd\<lparr>nd_metadata := m\<rparr>) v
          else (Inr (no_actions\<lparr>reset_election_timer := True\<rparr>), drop_leadership (nd\<lparr>nd_metadata := m\<rparr>), v))
          = (r, nd', w')"
        using run False None True a by (simp add: on_append_reply_def Let_def split del: if_split)
      show ?thesis
      proof (cases "q = Persisted")
        case no: False
        then show ?thesis using un c by (auto intro: stop_sound_step)
      next
        case yes: True
        have "current_term (pm_state m) \<noteq> current_term (pm_state (nd_metadata nd))"
          using advance_term_outcome [OF a] yes by auto
        then have "node_role (nd\<lparr>nd_metadata := m\<rparr>) \<noteq> Leader"
          using stale_role [OF core_election [OF core] metadata_le_advance [OF a]] by (simp add: node_role_def)
        then have "node_inv (drop_leadership (nd\<lparr>nd_metadata := m\<rparr>))"
          by (intro drop_leadership_inv) (use c in auto)
        then show ?thesis using un yes c by (auto simp: sound_step_def)
      qed
    qed
  next
    case (Some ld)
    have ld: "leader_active nd ld" "leader_ids ld = nd_peer_ids nd" "ld_self_id ld = nd_self_id nd"
      using lead Some by (simp_all add: lead_inv_def)
    have wf: "log_wf (nd_log nd)" using core by (simp add: core_inv_def)
    obtain out m c ld1 v where h: "handle_reply (nd_election nd) (nd_log nd) p sent reply (nd_metadata nd)
        (nd_commit_index nd) ld w = (out, m, c, ld1, v)" by (metis prod_cases5)
    note o = handle_reply_outcome [OF wf h]
    define nd1 where "nd1 = nd\<lparr>nd_metadata := m, nd_commit_index := c, nd_leader := Some ld1\<rparr>"
    have commit: "nd_commit_index nd \<le> c \<and> unat c \<le> length (node_entries nd)"
      using o core by (auto simp: core_inv_def committable_def split: if_splits)
    have c1: "core_inv nd1 \<and> node_le nd nd1"
      using core_inv_metadata_only [OF core conjunct1 [OF o]] commit
      by (auto simp: nd1_def core_inv_def node_le_def node_term_def)
    note un = run [unfolded on_append_reply_def Some option.case h prod.case Let_def, folded nd1_def]
    consider (io) "out \<in> {append_reply_outcome.PersistenceError, InconsistentFollower}"
      | (down) "out = append_reply_outcome.SteppedDown"
      | (go) "out \<notin> {append_reply_outcome.PersistenceError, InconsistentFollower, append_reply_outcome.SteppedDown}"
      by blast
    then show ?thesis
    proof cases
      case io
      then show ?thesis using un False c1 by (auto intro: stop_sound_step)
    next
      case down
      then have "current_term (pm_state m) \<noteq> current_term (pm_state (nd_metadata nd))"
        using o ld(1) by (auto simp: leader_active_def active_def)
      then have "node_role nd1 \<noteq> Leader"
        using stale_role [OF core_election [OF core] conjunct1 [OF o]] by (simp add: node_role_def nd1_def)
      then have "node_inv (drop_leadership nd1)" by (intro drop_leadership_inv) (use c1 in auto)
      then show ?thesis using un False down c1 by (auto simp: sound_step_def)
    next
      case go
      have inv1: "node_inv nd1"
        unfolding nd1_def by (rule handle_reply_node [OF inv Some h]) (use go in auto)
      obtain ok a nd2 where af: "after_append_reply out p nd1 = (ok, a, nd2)" by (metis prod_cases3)
      note n2 = after_append_reply_sound [OF inv1 af]
      have le2: "node_le nd nd2" using c1 n2 node_le_trans by blast
      have "(if \<not> ok then stop InconsistentState nd2 v else finish_read sent reply a nd2 v) = (r, nd', w')"
        using un False go af by (simp split del: if_split)
      then show ?thesis
        using n2 le2 finish_read_sound [OF _ le2, of sent reply a v r nd' w']
          stop_sound_step [of InconsistentState nd2 v r nd' w' nd]
        by (cases ok) (auto simp: node_inv_def)
    qed
  qed
qed

lemma append_as_leader_sound:
  assumes inv: "node_inv nd" and run: "append_as_leader cmd nd w = (r, nd', w')"
  shows "sound_step nd nd'"
proof (cases "nd_stopped nd \<or> nd_leader nd = None")
  case True
  then show ?thesis using inv run by (auto simp: append_as_leader_def sound_step_refl split: if_splits)
next
  case False
  then obtain ld where ld: "nd_leader nd = Some ld" and live: "\<not> nd_stopped nd" by auto
  have core: "core_inv nd" and lead: "lead_inv nd" and reads: "reads_inv nd" using inv by (simp_all add: node_inv_def)
  have act: "leader_active nd ld" using lead ld by (simp add: lead_inv_def)
  have wf: "log_wf (nd_log nd)" using core by (simp add: core_inv_def)
  obtain ap l ld1 v where a: "append_command (nd_election nd) (nd_metadata nd) cmd (nd_log nd) ld w = (ap, l, ld1, v)"
    by (metis prod_cases4)
  define nd1 where "nd1 = nd\<lparr>nd_log := l, nd_leader := Some ld1\<rparr>"
  have c1: "core_inv nd1" "node_le nd nd1"
    using core_inv_append_command [OF core act a] by (simp_all add: nd1_def)
  note o = append_command_outcome [OF wf act [unfolded leader_active_def] a]
  have keep: "ld1 = ld \<Longrightarrow> node_inv nd1"
    using c1 lead reads ld by (simp add: nd1_def node_inv_def lead_inv_def leader_active_def)
  note un = run [unfolded append_as_leader_def ld option.case a prod.case Let_def, folded nd1_def]
  show ?thesis
  proof (cases ap)
    case (Inl e)
    show ?thesis
    proof (cases "e = leader_replication_error.InvalidCommand")
      case True
      then have "nd' = nd1" "ld1 = ld" using un live act Inl o by auto
      then show ?thesis using keep c1 by (simp add: sound_step_def)
    next
      case other: False
      then show ?thesis using un live act Inl c1 by (auto intro: stop_sound_step)
    qed
  next
    case (Inr i)
    then have inv1: "node_inv nd1" using keep o by simp
    obtain ok acts nd2 where q: "queue_appends (list2 (nd_peer_ids nd1)) (no_actions\<lparr>proposed_index := Some i\<rparr>) nd1
        = (ok, acts, nd2)" by (metis prod_cases3)
    have "(if \<not> ok then stop InconsistentState nd2 v else (Inr acts, nd2, v)) = (r, nd', w')"
      using un live act Inr q by (simp split del: if_split)
    then show ?thesis by (rule moved_or_stopped [OF queue_appends_moved [OF q] inv1 c1(2)])
  qed
qed

lemma propose_sound:
  assumes inv: "node_inv nd" and run: "propose cmd nd w = (r, nd', w')"
  shows "sound_step nd nd'"
  using append_as_leader_sound [OF inv, of cmd w r nd' w'] run inv
  by (auto simp: propose_def sound_step_refl split: if_splits option.splits)

lemma set_emplace: "set (emplace k v xs) \<subseteq> insert (k, v) (set xs)"
  by (induction xs) auto

lemma sorted_emplace: "sorted_wrt (<) (map fst xs) \<Longrightarrow> sorted_wrt (<) (map fst (emplace k v xs))"
proof (induction xs)
  case Nil
  then show ?case by simp
next
  case (Cons x xs)
  have "\<forall>y \<in> set (emplace k v xs). y = (k, v) \<or> y \<in> set xs" using set_emplace [of k v xs] by blast
  then show ?case using Cons by (fastforce simp: order_less_trans)
qed

lemma read_barrier_entered:
  assumes inv: "node_inv nd" and ld: "nd_leader nd = Some ld" and id: "nd_next_read_id nd \<noteq> 0"
  shows "node_inv (nd\<lparr>nd_next_read_id := nd_next_read_id nd + 1,
    nd_read_rounds := emplace (nd_next_read_id nd) None (nd_read_rounds nd)\<rparr>)"
proof -
  let ?i = "nd_next_read_id nd"
  define nd1 where "nd1 = nd\<lparr>nd_next_read_id := ?i + 1, nd_read_rounds := emplace ?i None (nd_read_rounds nd)\<rparr>"
  have core: "core_inv nd" and lead: "lead_inv nd" and reads: "reads_inv nd" using inv by (simp_all add: node_inv_def)
  have grow: "a < ?i + 1" if "?i + 1 \<noteq> 0" "a < ?i \<or> a = ?i" for a :: u64
    using that unat_succ [OF that(1)] by (auto simp: word_less_nat_alt)
  have "round_ok nd1 x" if "x \<in> set (emplace ?i None (nd_read_rounds nd))" for x
    using that set_emplace [of ?i None "nd_read_rounds nd"] reads id grow
    by (auto simp: reads_inv_def round_ok_def nd1_def node_term_def)
  then have "reads_inv nd1"
    using reads by (simp add: reads_inv_def nd1_def sorted_emplace)
  moreover have "lead_inv nd1" using lead ld by (simp add: lead_inv_def nd1_def leader_active_def)
  ultimately have "node_inv nd1" using core by (simp add: node_inv_def nd1_def)
  then show ?thesis by (simp add: nd1_def)
qed

lemma read_barrier_sound:
  assumes inv: "node_inv nd" and run: "read_barrier nd w = (r, nd', w')"
  shows "sound_step nd nd'"
proof (cases "nd_stopped nd \<or> nd_leader nd = None")
  case True
  then show ?thesis using inv run by (auto simp: read_barrier_def sound_step_refl split: if_splits)
next
  case False
  then obtain ld where ld: "nd_leader nd = Some ld" and live: "\<not> nd_stopped nd" by auto
  have core: "core_inv nd" and lead: "lead_inv nd" and reads: "reads_inv nd" using inv by (simp_all add: node_inv_def)
  have act: "leader_active nd ld" using lead ld by (simp add: lead_inv_def)
  note un = run [unfolded read_barrier_def ld option.case]
  show ?thesis
  proof (cases "nd_next_read_id nd = 0")
    case True
    then show ?thesis using un live act core by (auto intro: stop_sound_step)
  next
    case id: False
    let ?i = "nd_next_read_id nd"
    define nd1 where "nd1 = nd\<lparr>nd_next_read_id := ?i + 1, nd_read_rounds := emplace ?i None (nd_read_rounds nd)\<rparr>"
    have inv1: "node_inv nd1" unfolding nd1_def by (rule read_barrier_entered [OF inv ld id])
    obtain a nd2 where sw: "start_waiting_reads (no_actions\<lparr>started_read_id := Some ?i\<rparr>) nd1 = (a, nd2)" by fastforce
    have "nd' = nd2" using un live act id sw by (simp add: Let_def nd1_def)
    moreover have "node_le nd nd1" by (simp add: nd1_def)
    ultimately show ?thesis
      using start_waiting_reads_node [OF inv1 sw] node_le_trans by (auto simp: sound_step_def)
  qed
qed

lemma node_step_sound:
  assumes "node_inv nd" and "node_step ev nd w = (r, nd', w')"
  shows "sound_step nd nd'"
  using assms
  by (cases ev)
    (auto intro: on_election_timeout_sound on_heartbeat_timeout_sound on_request_vote_sound
      on_vote_reply_sound on_append_entries_sound on_append_reply_sound propose_sound read_barrier_sound)

lemma node_open_inv:
  assumes run: "node_open self peers dir w = (Inr nd, w')"
    and terms: "terms_ok (node_term nd) (node_entries nd)"
  shows "node_inv nd \<and> nd_self_id nd = self \<and> nd_peer_ids nd = peers"
proof -
  obtain m w1 l w2 el where o: "pm_open (path_join dir raft_meta_name) w = (Inr m, w1)"
      "pl_open (path_join dir raft_log_name) w1 = (Inr l, w2)" "new_election self peers = Some el"
      "nd = \<lparr>nd_self_id = self, nd_peer_ids = peers, nd_metadata = m, nd_log = l, nd_state = kv_init,
             nd_commit_index = 0, nd_election = el, nd_leader = None, nd_read_rounds = [],
             nd_next_read_id = 1, nd_known_leader = None, nd_stopped = False\<rparr>"
    using run by (auto simp: node_open_def split: if_splits prod.splits sum.splits option.splits)
  have "log_wf l" using pl_open_wf [OF o(2)] by simp
  moreover have "el_self_id el = self" "el_peer_ids el = peers" "el_role el = Follower"
    using o(3) by (auto simp: new_election_def split: if_splits)
  ultimately show ?thesis
    using new_election_inv [OF o(3)] terms
    by (simp add: o(4) node_inv_def core_inv_def lead_inv_def reads_inv_def node_term_def node_role_def
        election_role_def) (simp add: kv_init_def)
qed

section \<open>Runs of one node\<close>

text \<open>Any sequence of events; after each the script of system answers continues.\<close>

primrec node_run :: "node_event list \<Rightarrow> raft_node \<Rightarrow> os \<Rightarrow> raft_node \<times> os" where
  "node_run [] nd w = (nd, w)"
| "node_run (ev # evs) nd w = (case node_step ev nd w of (r, nd', w') \<Rightarrow> node_run evs nd' w')"

lemma node_run_sound: "node_inv nd \<Longrightarrow> node_run evs nd w = (nd', w') \<Longrightarrow> sound_step nd nd'"
proof (induction evs arbitrary: nd w)
  case Nil
  then show ?case by (simp add: sound_step_refl)
next
  case (Cons ev evs)
  obtain r nd1 w1 where s: "node_step ev nd w = (r, nd1, w1)" by (metis prod_cases3)
  have "sound_step nd nd1" using Cons.prems(1) s by (rule node_step_sound)
  then show ?case
    using Cons.IH [of nd1 w1] Cons.prems(2) s node_le_trans by (auto simp: sound_step_def)
qed

definition sample_node :: raft_node where
  "sample_node = \<lparr>nd_self_id = 1, nd_peer_ids = (2, 3), nd_metadata = sample_store None, nd_log = sample_log,
     nd_state = kv_init, nd_commit_index = 0, nd_election = sample_follower, nd_leader = None,
     nd_read_rounds = [], nd_next_read_id = 1, nd_known_leader = None, nd_stopped = False\<rparr>"

lemma sample_node_inv: "node_inv sample_node"
proof -
  have "terms_ok 3 [sample_entry]" by (simp add: terms_ok_def sample_entry_def)
  moreover have "election_inv \<lparr>current_term = 3, voted_for = None\<rparr> sample_follower"
    by (simp add: election_inv_def sample_follower_def)
  ultimately show ?thesis
    by (simp add: node_inv_def core_inv_def lead_inv_def reads_inv_def sample_node_def sample_log_wf node_term_def
        node_role_def election_role_def sample_store_def)
      (simp add: sample_follower_def kv_init_def)
qed

section \<open>Properties\<close>

lemma sample_open:
  "\<exists>nd w'. node_open 1 (2, 3) [100] \<lparr>script = [Ret 3, Fail ENOENT, Ret 0, Ret 4, Stat 0 True, Ret 5, Ret 0, Ret 0, Ret 0],
     trace = []\<rparr> = (Inr nd, w') \<and> node_entries nd = []"
proof -
  have fn: "filename (path_join [100] raft_meta_name) \<noteq> []"
    by (simp add: filename_def path_join_def raft_meta_name_def)
  show ?thesis
    by (simp add: node_open_def pm_open_def pl_open_def syscall_def fn sync_descriptor_def
        retry_until_zero.simps new_election_def close_fd_def Let_def log_entries_def)
qed

text \<open>C10: The node's invariant. It holds for a node freshly opened from its files, provided the stored term
  covers the stored log, and every event, with any message and any answers of the system, keeps it: the log
  is well formed with terms in order and bounded by the node's term; the state machine is the replay of
  a prefix of the log; last applied, commit index and last index are in this order; the election state
  fits the durable vote; the replication state exists exactly while the node leads its current term;
  every started read round carries an applied read index.\<close>

theorem every_event_keeps_invariant:
  assumes "node_inv nd \<or>
    (node_open self peers dir v = (Inr nd, v') \<and> terms_ok (node_term nd) (node_entries nd))"
  shows "node_inv nd \<and> node_inv (fst (node_run evs nd w))"
proof -
  have start: "node_inv nd" using assms node_open_inv by blast
  obtain nd' w' where r: "node_run evs nd w = (nd', w')" by fastforce
  show ?thesis using start node_run_sound [OF start r] by (simp add: r sound_step_def)
qed

theorem every_event_keeps_invariant_witness:
  "node_inv (fst (node_run [ElectionTimeout, HeartbeatTimeout, ReceiveAppendEntries 2 sample_append, ReadBarrier]
     sample_node \<lparr>script = good_answers @ good_answers, trace = []\<rparr>))
   \<and> (\<exists>nd w'. node_open 1 (2, 3) [100] \<lparr>script = [Ret 3, Fail ENOENT, Ret 0, Ret 4, Stat 0 True, Ret 5, Ret 0, Ret 0, Ret 0],
        trace = []\<rparr> = (Inr nd, w') \<and> node_inv (fst (node_run [ElectionTimeout] nd \<lparr>script = good_answers, trace = []\<rparr>)))"
proof (intro conjI)
  show "node_inv (fst (node_run [ElectionTimeout, HeartbeatTimeout, ReceiveAppendEntries 2 sample_append, ReadBarrier]
     sample_node \<lparr>script = good_answers @ good_answers, trace = []\<rparr>))"
    using every_event_keeps_invariant [OF disjI1 [OF sample_node_inv]] by blast
  obtain nd w' where o: "node_open 1 (2, 3) [100]
      \<lparr>script = [Ret 3, Fail ENOENT, Ret 0, Ret 4, Stat 0 True, Ret 5, Ret 0, Ret 0, Ret 0], trace = []\<rparr> = (Inr nd, w')"
    "node_entries nd = []"
    using sample_open by blast
  have "terms_ok (node_term nd) (node_entries nd)" by (simp add: o(2) terms_ok_def)
  then show "\<exists>nd w'. node_open 1 (2, 3) [100] \<lparr>script = [Ret 3, Fail ENOENT, Ret 0, Ret 4, Stat 0 True, Ret 5, Ret 0, Ret 0, Ret 0],
        trace = []\<rparr> = (Inr nd, w') \<and> node_inv (fst (node_run [ElectionTimeout] nd \<lparr>script = good_answers, trace = []\<rparr>))"
    using every_event_keeps_invariant [OF disjI2 [OF conjI [OF o(1)]]] o(1) by blast
qed

text \<open>C11: What no sequence of events takes back: the term does not decrease and a vote in it is kept, the
  commit index and the applied index do not decrease, the committed entries stay the ones they were,
  and a stopped node stays stopped.\<close>

theorem nothing_committed_is_lost:
  assumes "node_inv nd" and "node_run evs nd w = (nd', w')"
  shows "metadata_le (pm_state (nd_metadata nd)) (pm_state (nd_metadata nd'))
    \<and> nd_commit_index nd \<le> nd_commit_index nd'
    \<and> take (unat (nd_commit_index nd)) (log_entries (nd_log nd'))
        = take (unat (nd_commit_index nd)) (log_entries (nd_log nd))
    \<and> kv_last_applied (nd_state nd) \<le> kv_last_applied (nd_state nd')
    \<and> (nd_stopped nd \<longrightarrow> nd_stopped nd')"
  using node_run_sound [OF assms] by (simp add: sound_step_def node_le_def)

theorem nothing_committed_is_lost_witness:
  "current_term (pm_state (nd_metadata (fst (node_run [HeartbeatTimeout] sample_node \<lparr>script = [], trace = []\<rparr>)))) \<ge> 3"
proof -
  obtain nd' w' where r: "node_run [HeartbeatTimeout] sample_node \<lparr>script = [], trace = []\<rparr> = (nd', w')" by fastforce
  show ?thesis
    using nothing_committed_is_lost [OF sample_node_inv r] unfolding r
    by (simp add: metadata_le_def sample_node_def sample_store_def)
qed

text \<open>A node that was opened from its files starts with the invariant, provided the stored term covers
  the terms in the stored log, as it does when the files were written by such nodes.\<close>

theorem opened_node_has_invariant:
  assumes "node_open self peers dir w = (Inr nd, w')"
    and "terms_ok (node_term nd) (log_entries (nd_log nd))"
  shows "node_inv nd \<and> nd_self_id nd = self \<and> nd_peer_ids nd = peers \<and> nd_leader nd = None \<and> nd_commit_index nd = 0"
proof -
  have "nd_leader nd = None" "nd_commit_index nd = 0"
    using assms(1) by (auto simp: node_open_def split: if_splits prod.splits sum.splits option.splits)
  then show ?thesis using node_open_inv [OF assms] by simp
qed

theorem opened_node_has_invariant_witness:
  "\<exists>nd w'. node_open 1 (2, 3) [100] \<lparr>script = [Ret 3, Fail ENOENT, Ret 0, Ret 4, Stat 0 True, Ret 5, Ret 0, Ret 0, Ret 0],
     trace = []\<rparr> = (Inr nd, w') \<and> node_inv nd"
  using sample_open
proof (elim exE conjE)
  fix nd w'
  assume o: "node_open 1 (2, 3) [100] \<lparr>script = [Ret 3, Fail ENOENT, Ret 0, Ret 4, Stat 0 True, Ret 5, Ret 0, Ret 0, Ret 0],
     trace = []\<rparr> = (Inr nd, w')" and "node_entries nd = []"
  then have "terms_ok (node_term nd) (log_entries (nd_log nd))" by (simp add: terms_ok_def)
  from opened_node_has_invariant [OF o this] o show ?thesis by blast
qed

text \<open>A stopped node does nothing: every event is answered with the error, changes no field and makes
  no system call.\<close>

theorem stopped_node_refuses_everything:
  "nd_stopped nd \<Longrightarrow> node_step ev nd w = (Inl Stopped, nd, w)"
  by (cases ev)
    (simp_all add: on_election_timeout_def on_heartbeat_timeout_def on_request_vote_def on_vote_reply_def
      on_append_entries_def on_append_reply_def propose_def read_barrier_def)

theorem stopped_node_refuses_everything_witness:
  "node_step ElectionTimeout (sample_node\<lparr>nd_stopped := True\<rparr>) \<lparr>script = [], trace = []\<rparr>
     = (Inl Stopped, sample_node\<lparr>nd_stopped := True\<rparr>, \<lparr>script = [], trace = []\<rparr>)"
  by (rule stopped_node_refuses_everything) simp

end
