(* ===== verification/Raft_Node_Lead.thy ===== *)
theory Raft_Node_Lead
  imports Raft_Node_Inv
begin

text \<open>
  What one event of a node means for its leadership, its log and the messages it sends.

  \<^item> \<open>repl_inv\<close>: the replication state fits the log; with \<open>node_inv\<close> it is \<open>full_inv\<close>, which
    every event keeps.
  \<^item> \<open>lead_step\<close>: a node that leads after an event led before it in the same term, and its log has
    only grown (\<open>on_vote_reply\<close>, which can win an election, has its own lemma).
  \<^item> \<open>sent_ok\<close>: what each message says is true of its sender after the event.
\<close>

section \<open>The invariant of the replication state\<close>

definition leads :: "raft_node \<Rightarrow> bool" where
  "leads nd \<longleftrightarrow> nd_leader nd \<noteq> None"

definition pending_commits :: "raft_leader \<Rightarrow> u64 \<Rightarrow> bool" where
  "pending_commits ld c \<longleftrightarrow>
     (\<forall>p \<in> set (list2 (ld_peers ld)). \<forall>r. ps_pending p = Some r \<longrightarrow> ae_leader_commit r \<le> c)"

definition repl_inv :: "raft_node \<Rightarrow> bool" where
  "repl_inv nd \<longleftrightarrow>
     (\<forall>ld. nd_leader nd = Some ld \<longrightarrow>
        leader_inv 4 ld (node_entries nd) \<and> pending_commits ld (nd_commit_index nd)
        \<and> nd_known_leader nd = Some (nd_self_id nd) \<and> \<not> nd_stopped nd)"

definition full_inv :: "raft_node \<Rightarrow> bool" where
  "full_inv nd \<longleftrightarrow> node_inv nd \<and> repl_inv nd"

lemma full_inv_parts: "full_inv nd \<Longrightarrow> node_inv nd" "full_inv nd \<Longrightarrow> repl_inv nd" "full_inv nd \<Longrightarrow> core_inv nd"
  by (simp_all add: full_inv_def node_inv_def)

lemma repl_inv_None: "nd_leader nd = None \<Longrightarrow> repl_inv nd"
  by (simp add: repl_inv_def)

lemma leads_drop [simp]: "\<not> leads (drop_leadership nd)"
  by (simp add: leads_def)

lemma repl_drop [simp]: "repl_inv (drop_leadership nd)"
  by (simp add: repl_inv_None)

lemma leading_node:
  assumes "node_inv nd" and "nd_leader nd = Some ld"
  shows "leader_active nd ld" "leader_ids ld = nd_peer_ids nd" "ld_self_id ld = nd_self_id nd"
    "ld_term ld = node_term nd" "voted_for (pm_state (nd_metadata nd)) = Some (nd_self_id nd)"
    "node_role nd = Leader" "node_term nd \<noteq> 0"
proof -
  show act: "leader_active nd ld" and ids: "leader_ids ld = nd_peer_ids nd" and self: "ld_self_id ld = nd_self_id nd"
    using assms by (simp_all add: node_inv_def lead_inv_def)
  show trm: "ld_term ld = node_term nd" and "voted_for (pm_state (nd_metadata nd)) = Some (nd_self_id nd)"
    and role: "node_role nd = Leader"
    using act self by (simp_all add: leader_active_def active_def node_term_def node_role_def)
  have "election_inv (pm_state (nd_metadata nd)) (nd_election nd)"
    using assms(1) by (simp add: node_inv_def core_inv_def)
  then show "node_term nd \<noteq> 0"
    using role by (auto simp: election_inv_def node_role_def election_role_def node_term_def split: if_splits)
qed

section \<open>Messages\<close>

definition msgs :: "raft_node_error + raft_node_actions \<Rightarrow> outbound_raft_message list" where
  "msgs r = (case r of Inl _ \<Rightarrow> [] | Inr a \<Rightarrow> messages a)"

definition is_probe :: "append_entries \<Rightarrow> raft_node \<Rightarrow> bool" where
  "is_probe q nd \<longleftrightarrow> ae_term q = node_term nd \<and> ae_leader_id q = nd_self_id nd
     \<and> ae_prev_log_index q = 0 \<and> ae_prev_log_term q = 0 \<and> ae_entries q = [] \<and> ae_read_context q \<noteq> 0
     \<and> (nd_next_read_id nd \<noteq> 0 \<longrightarrow> ae_read_context q < nd_next_read_id nd)"

definition sent_ok :: "raft_node \<Rightarrow> outbound_raft_message \<Rightarrow> bool" where
  "sent_ok nd m \<longleftrightarrow> ob_peer_id m \<in> set (list2 (nd_peer_ids nd))
     \<and> (case ob_message m of
          MRequestVote q \<Rightarrow>
            q = \<lparr>rv_term = node_term nd, rv_candidate_id = nd_self_id nd,
                 rv_last_log_index = last_index (nd_log nd), rv_last_log_term = last_term (nd_log nd)\<rparr>
            \<and> node_role nd = Candidate \<and> voted_for (pm_state (nd_metadata nd)) = Some (nd_self_id nd)
        | MRequestVoteReply y \<Rightarrow>
            rvr_vote_granted y \<longrightarrow> rvr_term y = node_term nd \<and> rvr_term y \<noteq> 0
              \<and> voted_for (pm_state (nd_metadata nd)) = Some (ob_peer_id m)
        | MAppendEntries q \<Rightarrow>
            leads nd \<and> ae_leader_commit q \<le> nd_commit_index nd
            \<and> (request_of q (node_term nd) (nd_self_id nd) (node_entries nd) \<and> length (ae_entries q) \<le> 4
               \<or> is_probe q nd)
        | MAppendEntriesReply y \<Rightarrow> aer_term y = node_term nd \<and> (aer_success y \<longrightarrow> \<not> leads nd))"

lemma msgs_simps [simp]: "msgs (Inl e) = []" "msgs (Inr a) = messages a"
  by (simp_all add: msgs_def)

lemma messages_no_actions [simp]: "messages no_actions = []"
  by (simp add: no_actions_def)

lemma add_messages_messages [simp]: "messages (add_messages ms a) = messages a @ ms"
  by (simp add: add_messages_def)

section \<open>Requests to the peers\<close>

text \<open>A request for a peer of a leading node always succeeds.\<close>

lemma make_request_commits:
  assumes "make_request el m l c p k ld = (Inr r, ld')" and "pending_commits ld c"
  shows "pending_commits ld' c \<and> ae_leader_commit r \<le> c"
  using assms
  by (auto simp: make_request_def Let_def pending_commits_def set_peer_def set2_def get2_def
      split: option.splits if_splits)

lemma handle_reply_commits:
  assumes run: "handle_reply el l p sent reply m c ld w = (res, m', c', ld', w')" and "pending_commits ld c" and "c \<le> c'"
  shows "pending_commits ld' c'"
proof -
  have clear: "ps_pending (backed_off q) = None" "ps_pending (matched_to sent q) = None" for q
    by (simp_all add: backed_off_def matched_to_def Let_def)
  have "ld_peers ld' = ld_peers ld \<or> (\<exists>i q. ld' = set_peer i q ld \<and> ps_pending q = None)"
    using run
  proof (cases rule: handle_reply_cases)
    case (failed i)
    then show ?thesis using clear by blast
  next
    case (matched i b)
    then show ?thesis using clear by blast
  qed simp_all
  then show ?thesis
    using assms(2,3) by (auto simp: pending_commits_def set_peer_def set2_def split: if_splits)
qed

lemma queue_append_leading:
  assumes inv: "full_inv nd" and lead: "leads nd" and p: "p \<in> set (list2 (nd_peer_ids nd))"
    and run: "queue_append p a nd = (ok, a', nd')"
  shows "ok \<and> full_inv nd' \<and> leads nd' \<and> leader_moved nd nd'
    \<and> (\<exists>m. a' = add_messages [m] a \<and> ob_peer_id m = p \<and> sent_ok nd' m \<and> (\<exists>q. ob_message m = MAppendEntries q))"
proof -
  obtain ld where ld: "nd_leader nd = Some ld" using lead by (auto simp: leads_def)
  note n = leading_node [OF full_inv_parts(1) [OF inv] ld]
  have wf: "log_wf (nd_log nd)" and commit: "unat (nd_commit_index nd) \<le> length (node_entries nd)"
    using full_inv_parts(3) [OF inv] by (simp_all add: core_inv_def)
  have linv: "leader_inv 4 ld (node_entries nd)" "pending_commits ld (nd_commit_index nd)"
    using full_inv_parts(2) [OF inv] ld by (simp_all add: repl_inv_def)
  have p': "p \<in> set (list2 (leader_ids ld))" using p n(2) by simp
  obtain r ld' where mk: "make_request (nd_election nd) (nd_metadata nd) (nd_log nd) (nd_commit_index nd) p 4 ld = (Inr r, ld')"
    and r: "request_of r (ld_term ld) (ld_self_id ld) (node_entries nd)" "length (ae_entries r) \<le> 4"
    and ld': "leader_inv 4 ld' (node_entries nd)"
    by (rule make_request_outcome [OF wf linv(1) n(1) [unfolded leader_active_def] p' _ _ commit, of 4]) simp_all
  note c = make_request_commits [OF mk linv(2)]
  have out: "ok" "a' = add_messages [\<lparr>ob_peer_id = p, ob_message = MAppendEntries r\<rparr>] a" "nd' = nd\<lparr>nd_leader := Some ld'\<rparr>"
    using run ld mk by (simp_all add: queue_append_def)
  note moved = queue_append_moved [OF run]
  have "repl_inv nd'" using full_inv_parts(2) [OF inv] ld ld' c by (simp add: repl_inv_def out)
  then have "full_inv nd'" using leader_moved_inv(4) [OF moved] full_inv_parts(1) [OF inv] by (simp add: full_inv_def)
  moreover have "sent_ok nd' \<lparr>ob_peer_id = p, ob_message = MAppendEntries r\<rparr>"
    using p r c n(3,4) by (simp add: sent_ok_def out leads_def node_term_def)
  ultimately show ?thesis using out moved by (auto simp: leads_def)
qed

lemma sent_ok_moved:
  assumes "leader_moved nd nd'"
  shows "sent_ok nd' m \<longleftrightarrow> sent_ok nd m"
proof -
  have "leads nd' \<longleftrightarrow> leads nd" using assms by (auto simp: leader_moved_def leads_def elim: option.rel_cases)
  then show ?thesis
    by (simp add: sent_ok_def leader_moved_fields [OF assms] is_probe_def split: raft_message.split)
qed

lemma queue_appends_leading:
  assumes "full_inv nd" and "leads nd" and "set ps \<subseteq> set (list2 (nd_peer_ids nd))"
    and "queue_appends ps a nd = (ok, a', nd')"
  shows "ok \<and> full_inv nd' \<and> leads nd' \<and> leader_moved nd nd'
    \<and> (\<exists>ms. a' = add_messages ms a \<and> map ob_peer_id ms = ps
        \<and> (\<forall>m \<in> set ms. sent_ok nd' m \<and> (\<exists>q. ob_message m = MAppendEntries q)))"
  using assms
proof (induction ps arbitrary: a nd)
  case Nil
  then show ?case by (auto simp: add_messages_def intro: exI [of _ "[]"])
next
  case (Cons p ps)
  obtain ok1 a1 nd1 where q: "queue_append p a nd = (ok1, a1, nd1)" by (metis prod_cases3)
  have p: "p \<in> set (list2 (nd_peer_ids nd))" using Cons.prems(3) by simp
  note q1 = queue_append_leading [OF Cons.prems(1,2) p q]
  then obtain m where m: "a1 = add_messages [m] a" "ob_peer_id m = p" "sent_ok nd1 m"
    "\<exists>q. ob_message m = MAppendEntries q" by blast
  have run: "queue_appends ps a1 nd1 = (ok, a', nd')" using Cons.prems(4) q q1 by simp
  have sub: "set ps \<subseteq> set (list2 (nd_peer_ids nd1))"
    using Cons.prems(3) leader_moved_fields(2) [of nd nd1] q1 by auto
  have IH: "ok \<and> full_inv nd' \<and> leads nd' \<and> leader_moved nd1 nd'
    \<and> (\<exists>ms. a' = add_messages ms a1 \<and> map ob_peer_id ms = ps
        \<and> (\<forall>m \<in> set ms. sent_ok nd' m \<and> (\<exists>q. ob_message m = MAppendEntries q)))"
    using Cons.IH [OF _ _ sub run] q1 by blast
  then obtain ms where ms: "a' = add_messages ms a1" "map ob_peer_id ms = ps"
    "\<forall>m \<in> set ms. sent_ok nd' m \<and> (\<exists>q. ob_message m = MAppendEntries q)" by blast
  have "a' = add_messages (m # ms) a" using ms m by (simp add: add_messages_def)
  moreover have "sent_ok nd' m" using m(3) sent_ok_moved [of nd1 nd' m] IH by blast
  moreover have "leader_moved nd nd'" using q1 IH leader_moved_trans by blast
  ultimately show ?case using IH ms m by (intro conjI) (auto intro!: exI [of _ "m # ms"])
qed

section \<open>Every handler\<close>

definition lead_step :: "raft_node \<Rightarrow> raft_node \<Rightarrow> bool" where
  "lead_step nd nd' \<longleftrightarrow>
     (leads nd' \<longrightarrow> leads nd \<and> node_term nd' = node_term nd \<and> (\<exists>xs. node_entries nd' = node_entries nd @ xs))"

definition handled :: "raft_node \<Rightarrow> raft_node_error + raft_node_actions \<Rightarrow> raft_node \<Rightarrow> bool" where
  "handled nd r nd' \<longleftrightarrow> repl_inv nd' \<and> lead_step nd nd' \<and> (\<forall>m \<in> set (msgs r). sent_ok nd' m)"

lemma lead_step_refl [simp]: "lead_step nd nd"
  by (simp add: lead_step_def)

lemma lead_step_drop [simp]: "lead_step nd (drop_leadership nd')"
  by (simp add: lead_step_def)

lemma handled_quiet: "repl_inv nd \<Longrightarrow> msgs r = [] \<Longrightarrow> handled nd r nd"
  by (simp add: handled_def)

lemma handled_drop: "\<forall>m \<in> set (msgs r). sent_ok (drop_leadership nd') m \<Longrightarrow> handled nd r (drop_leadership nd')"
  by (simp add: handled_def)

lemma handled_stop: "stop e nd1 w = (r, nd', w') \<Longrightarrow> handled nd r nd'"
  by (auto simp: stop_def intro: handled_drop)

lemma stop_result:
  "stop e nd w = (r, nd', w') \<Longrightarrow> nd_log nd' = nd_log nd \<and> nd_metadata nd' = nd_metadata nd
     \<and> nd_commit_index nd' = nd_commit_index nd \<and> nd_stopped nd' \<and> \<not> leads nd' \<and> r = Inl e"
  by (auto simp: stop_def)

lemma on_election_timeout_handled:
  assumes inv: "full_inv nd" and run: "on_election_timeout nd w = (r, nd', w')"
  shows "handled nd r nd'"
proof (cases "nd_stopped nd")
  case True
  then show ?thesis using inv run by (auto simp: on_election_timeout_def full_inv_def intro: handled_quiet)
next
  case False
  have core: "core_inv nd" using full_inv_parts(3) [OF inv] .
  obtain res m el v where s: "start_election (nd_log nd) (nd_metadata nd) (nd_election nd) w = (res, m, el, v)"
    by (metis prod_cases4)
  note out = start_election_outcome [OF core_election [OF core] s]
  show ?thesis
  proof (cases res)
    case (Inl e)
    show ?thesis
    proof (cases "e = AlreadyLeader")
      case True
      then have "nd' = nd" "r = Inr no_actions" using run False s Inl out by (simp_all add: on_election_timeout_def)
      then show ?thesis using inv by (auto simp: full_inv_def intro: handled_quiet)
    next
      case other: False
      then show ?thesis
        using run False s Inl by (auto simp: on_election_timeout_def intro: handled_stop)
    qed
  next
    case (Inr req)
    let ?nd = "drop_leadership (nd\<lparr>nd_metadata := m, nd_election := el\<rparr>)"
    have r: "nd' = ?nd" "msgs r = map (\<lambda>p. \<lparr>ob_peer_id = p, ob_message = MRequestVote req\<rparr>) (list2 (nd_peer_ids nd))"
      using run False s Inr by (auto simp: on_election_timeout_def Let_def)
    have "el_self_id (nd_election nd) = nd_self_id nd" using core by (simp add: core_inv_def)
    then have "sent_ok ?nd \<lparr>ob_peer_id = p, ob_message = MRequestVote req\<rparr>" if "p \<in> set (list2 (nd_peer_ids nd))" for p
      using that out Inr by (simp add: sent_ok_def node_term_def node_role_def election_role_def)
    then show ?thesis unfolding r(1) by (intro handled_drop) (auto simp: r(2) simp del: set_list2)
  qed
qed

lemma to_peers_messages: "set (to_peers q nd) = (\<lambda>p. \<lparr>ob_peer_id = p, ob_message = MAppendEntries q\<rparr>) ` set (list2 (nd_peer_ids nd))"
  by (simp add: to_peers_def)

lemma probe_sent_ok:
  assumes "leads nd" and "is_probe q nd" and "ae_leader_commit q \<le> nd_commit_index nd" and "m \<in> set (to_peers q nd)"
  shows "sent_ok nd m"
  using assms by (auto simp: to_peers_messages sent_ok_def)

lemma round_probe:
  assumes "node_inv nd" and "round \<in> set (nd_read_rounds nd)" and "snd round = Some q"
  shows "is_probe q nd \<and> ae_leader_commit q \<le> nd_commit_index nd"
proof -
  have "round_ok nd round" using assms(1,2) by (simp add: node_inv_def reads_inv_def)
  with assms(3) have "q = \<lparr>ae_term = node_term nd, ae_leader_id = nd_self_id nd, ae_prev_log_index = 0,
      ae_prev_log_term = 0, ae_entries = [], ae_leader_commit = ae_leader_commit q, ae_read_context = fst round\<rparr>"
    "ae_leader_commit q \<le> kv_last_applied (nd_state nd)" "fst round \<noteq> 0"
    "nd_next_read_id nd \<noteq> 0 \<longrightarrow> fst round < nd_next_read_id nd"
    by (auto simp: round_ok_def)
  moreover have "kv_last_applied (nd_state nd) \<le> nd_commit_index nd"
    using assms(1) by (simp add: node_inv_def core_inv_def)
  ultimately show ?thesis
    unfolding is_probe_def by (metis append_entries.select_convs order_trans)
qed

lemma on_heartbeat_timeout_handled:
  assumes inv: "full_inv nd" and run: "on_heartbeat_timeout nd w = (r, nd', w')"
  shows "handled nd r nd' \<and> (leads nd \<longrightarrow> leads nd' \<and> (\<exists>a. r = Inr a \<and> schedule_heartbeat a
      \<and> (\<forall>p \<in> set (list2 (nd_peer_ids nd)). \<exists>q. \<lparr>ob_peer_id = p, ob_message = MAppendEntries q\<rparr> \<in> set (messages a))))"
proof (cases "nd_stopped nd \<or> nd_leader nd = None")
  case True
  then show ?thesis
    using inv run by (auto simp: on_heartbeat_timeout_def full_inv_def leads_def repl_inv_def intro: handled_quiet split: if_splits)
next
  case False
  then obtain ld where ld: "nd_leader nd = Some ld" and live: "\<not> nd_stopped nd" and lead: "leads nd" by (auto simp: leads_def)
  have act: "leader_active nd ld" using leading_node(1) full_inv_parts(1) [OF inv] ld by blast
  obtain ok a nd1 where q: "queue_appends (list2 (nd_peer_ids nd)) (no_actions\<lparr>schedule_heartbeat := True\<rparr>) nd
      = (ok, a, nd1)" by (metis prod_cases3)
  have q1: "ok \<and> full_inv nd1 \<and> leads nd1 \<and> leader_moved nd nd1
    \<and> (\<exists>ms. a = add_messages ms (no_actions\<lparr>schedule_heartbeat := True\<rparr>) \<and> map ob_peer_id ms = list2 (nd_peer_ids nd)
        \<and> (\<forall>m \<in> set ms. sent_ok nd1 m \<and> (\<exists>q. ob_message m = MAppendEntries q)))"
    by (rule queue_appends_leading [OF inv lead _ q]) simp
  then obtain ms where ms: "a = add_messages ms (no_actions\<lparr>schedule_heartbeat := True\<rparr>)" "\<forall>m \<in> set ms. sent_ok nd1 m"
    "map ob_peer_id ms = list2 (nd_peer_ids nd)" "\<forall>m \<in> set ms. \<exists>q. ob_message m = MAppendEntries q"
    by blast
  have sent: "\<exists>q. \<lparr>ob_peer_id = p, ob_message = MAppendEntries q\<rparr> \<in> set (messages a)"
    if p: "p \<in> set (list2 (nd_peer_ids nd))" for p
  proof -
    obtain m where m: "m \<in> set ms" "ob_peer_id m = p" using p ms(3) by (metis imageE image_set)
    then obtain q where "ob_message m = MAppendEntries q" using ms(4) by blast
    with m have "m = \<lparr>ob_peer_id = p, ob_message = MAppendEntries q\<rparr>" by simp
    with m(1) show ?thesis by (auto simp: ms(1))
  qed
  let ?probes = "concat (map (\<lambda>round. case snd round of None \<Rightarrow> [] | Some probe \<Rightarrow> to_peers probe nd1) (nd_read_rounds nd1))"
  have res: "nd' = nd1" "r = Inr (add_messages ?probes a)"
    using run ld live act q q1 by (auto simp: on_heartbeat_timeout_def)
  have "sent_ok nd1 m" if "m \<in> set ?probes" for m
    using that q1 round_probe [of nd1] full_inv_parts(1) [of nd1] probe_sent_ok [of nd1 _ m]
    by (fastforce split: option.splits)
  moreover have "sent_ok nd1 m" if "m \<in> set (messages a)" for m
    using that ms by (simp add: no_actions_def)
  ultimately have "\<forall>m \<in> set (msgs r). sent_ok nd' m" by (auto simp: res)
  moreover have "lead_step nd nd'"
    using q1 leader_moved_fields [of nd nd1] lead by (simp add: lead_step_def res)
  ultimately have "handled nd r nd'" using q1 full_inv_parts(2) by (simp add: handled_def res)
  moreover have "schedule_heartbeat (add_messages ?probes a)" by (simp add: ms(1) add_messages_def)
  moreover have "\<exists>q. \<lparr>ob_peer_id = p, ob_message = MAppendEntries q\<rparr> \<in> set (messages (add_messages ?probes a))"
    if "p \<in> set (list2 (nd_peer_ids nd))" for p
    using sent [OF that] by (metis UnI1 add_messages_messages set_append)
  ultimately show ?thesis using q1 unfolding res by blast
qed

lemma on_request_vote_handled:
  assumes inv: "full_inv nd" and run: "on_request_vote p req nd w = (r, nd', w')"
  shows "handled nd r nd'"
proof (cases "nd_stopped nd \<or> \<not> is_peer p nd \<or> rv_candidate_id req \<noteq> p")
  case True
  then show ?thesis
    using inv run by (auto simp: on_request_vote_def full_inv_def intro: handled_quiet split: if_splits)
next
  case False
  obtain res m v where h: "handle_request_vote (nd_log nd) req (nd_metadata nd) w = (res, m, v)"
    by (metis prod_cases3)
  let ?nd = "nd\<lparr>nd_metadata := m\<rparr>"
  define nd1 where "nd1 = (if node_term ?nd > node_term nd then drop_leadership ?nd else ?nd)"
  show ?thesis
  proof (cases res)
    case (Inl e)
    then show ?thesis using run False h by (auto simp: on_request_vote_def Let_def intro: handled_stop)
  next
    case (Inr reply)
    have r: "nd' = nd1" "msgs r = [\<lparr>ob_peer_id = p, ob_message = MRequestVoteReply reply\<rparr>]"
      using run False h Inr by (auto simp: on_request_vote_def Let_def nd1_def)
    have le: "metadata_le (pm_state (nd_metadata nd)) (pm_state m)" by (rule metadata_le_request_vote [OF h])
    have meta: "nd_metadata nd1 = m" "node_entries nd1 = node_entries nd" "nd_peer_ids nd1 = nd_peer_ids nd"
      by (simp_all add: nd1_def)
    have "sent_ok nd1 \<lparr>ob_peer_id = p, ob_message = MRequestVoteReply reply\<rparr>"
      using False handle_request_vote_outcome [OF h] Inr
      by (auto simp: sent_ok_def meta node_term_def is_peer_iff split: if_splits)
    moreover have "repl_inv nd1 \<and> lead_step nd nd1"
    proof (cases "node_term ?nd > node_term nd")
      case True
      then show ?thesis by (simp add: nd1_def)
    next
      case same: False
      then have "node_term ?nd = node_term nd" using le by (auto simp: node_term_def metadata_le_def)
      then show ?thesis
        using same full_inv_parts(2) [OF inv] by (simp add: nd1_def lead_step_def leads_def repl_inv_def)
    qed
    ultimately show ?thesis by (simp add: handled_def r)
  qed
qed

text \<open>
  A vote reply: either nothing is won and \<open>lead_step\<close> holds, or the node becomes leader of its
  term, appends its no-op entry and sends it.
\<close>

definition wins :: "u64 \<Rightarrow> request_vote_reply \<Rightarrow> raft_node \<Rightarrow> raft_node \<Rightarrow> bool" where
  "wins p reply nd nd' \<longleftrightarrow>
     \<not> leads nd \<and> \<not> nd_stopped nd \<and> node_role nd = Candidate \<and> leads nd' \<and> is_peer p nd
     \<and> rvr_vote_granted reply \<and> rvr_term reply = node_term nd
     \<and> nd_metadata nd' = nd_metadata nd \<and> voted_for (pm_state (nd_metadata nd)) = Some (nd_self_id nd)
     \<and> node_entries nd' = node_entries nd @ [\<lparr>entry_index = of_nat (Suc (length (node_entries nd))),
         entry_term = node_term nd, entry_command = noop_command\<rparr>]
     \<and> nd_commit_index nd' = nd_commit_index nd"

lemma on_vote_reply_handled:
  assumes inv: "full_inv nd" and run: "on_vote_reply p reply nd w = (r, nd', w')"
  shows "repl_inv nd' \<and> (lead_step nd nd' \<and> node_entries nd' = node_entries nd \<or> wins p reply nd nd')
    \<and> (\<forall>m \<in> set (msgs r). sent_ok nd' m)"
proof (cases "nd_stopped nd \<or> \<not> is_peer p nd")
  case True
  then show ?thesis
    using inv run by (auto simp: on_vote_reply_def full_inv_def split: if_splits)
next
  case False
  have core: "core_inv nd" and lead: "lead_inv nd" and repl: "repl_inv nd"
    using inv by (simp_all add: full_inv_def node_inv_def)
  obtain res m el v where h: "handle_vote_reply p reply (nd_metadata nd) (nd_election nd) w = (res, m, el, v)"
    by (metis prod_cases4)
  note out = handle_vote_reply_outcome [OF core_election [OF core] h]
  let ?nd = "nd\<lparr>nd_metadata := m, nd_election := el\<rparr>"
  have c: "core_inv ?nd" using core_inv_metadata [OF core, of m el] out core by (auto simp: core_inv_def)
  have ids: "el_self_id el = nd_self_id nd" "el_peer_ids el = nd_peer_ids nd" using out core by (simp_all add: core_inv_def)
  consider (failed) "res = vote_reply_outcome.PersistenceError" | (down) "res = vote_reply_outcome.SteppedDown"
    | (none) "res \<in> {vote_reply_outcome.Ignored, vote_reply_outcome.Recorded}" | (won) "res = BecameLeader"
    by (cases res) auto
  then show ?thesis
  proof cases
    case failed
    then have "stop PersistenceError ?nd v = (r, nd', w')" using run False h by (simp add: on_vote_reply_def)
    from handled_stop [OF this, of nd] stop_result [OF this] show ?thesis by (simp add: handled_def)
  next
    case down
    then have "nd' = drop_leadership ?nd" "msgs r = []" using run False h by (auto simp: on_vote_reply_def no_actions_def)
    then show ?thesis by simp
  next
    case none
    then have same: "m = nd_metadata nd" using out by auto
    have "nd' = ?nd" "msgs r = []" using run False h none by (auto simp: on_vote_reply_def)
    then show ?thesis using repl same by (simp add: repl_inv_def lead_step_def leads_def node_term_def)
  next
    case won
    then have won': "m = nd_metadata nd" "election_role m (nd_election nd) = Candidate" "election_role m el = Leader"
      using out by auto
    have idle: "nd_leader nd = None"
      using lead won'(1,2) by (auto simp: lead_inv_def leader_active_def active_def split: option.splits)
    let ?kn = "?nd\<lparr>nd_known_leader := Some (nd_self_id ?nd)\<rparr>"
    show ?thesis
    proof (cases "new_leader el m (nd_log nd) (nd_commit_index nd)")
      case None
      then have "stop InconsistentState ?kn v = (r, nd', w')"
        using run False h won by (simp add: on_vote_reply_def Let_def)
      from handled_stop [OF this, of nd] stop_result [OF this] show ?thesis by (simp add: handled_def)
    next
      case (Some ld)
      have wf: "log_wf (nd_log nd)" using core by (simp add: core_inv_def)
      note ld = new_leader_inv [OF Some wf]
      obtain ap l ld1 w1 where a: "append_command el m noop_command (nd_log nd) ld v = (ap, l, ld1, w1)"
        by (metis prod_cases4)
      have ld_act: "active el m ld" using ld by simp
      note ao = append_command_outcome [OF wf ld_act a]
      let ?ndl = "?kn\<lparr>nd_log := l, nd_leader := Some ld1\<rparr>"
      show ?thesis
      proof (cases ap)
        case (Inl e)
        then have "stop PersistenceError ?ndl w1 = (r, nd', w')"
          using run False h won Some a by (simp add: on_vote_reply_def Let_def)
        from handled_stop [OF this, of nd] stop_result [OF this] ao Inl show ?thesis by (simp add: handled_def)
      next
        case (Inr i)
        then have l: "ld1 = ld" "unat i = Suc (length (node_entries nd))"
          "log_entries l = node_entries nd @ [\<lparr>entry_index = i, entry_term = ld_term ld, entry_command = noop_command\<rparr>]"
          using ao by simp_all
        have kn: "core_inv ?kn" "leader_active ?kn ld"
          using c ld_act by (simp_all add: leader_active_def)
        have cl: "core_inv (?kn\<lparr>nd_log := l\<rparr>)"
          using core_inv_append_command [OF kn] a by simp
        have "leader_inv 4 ld (node_entries nd)" using ld by blast
        then have linv: "leader_inv 4 ld (log_entries l)" unfolding l(3) by (rule leader_inv_mono)
        have fresh: "pending_commits ld c" for c
          using Some by (auto simp: new_leader_def Let_def pending_commits_def split: if_splits)
        have "repl_inv ?ndl" using linv fresh l(1) False by (simp add: repl_inv_def)
        moreover have "node_inv ?ndl"
        proof -
          have "lead_inv ?ndl"
            using kn(2) ld l(1) by (simp add: lead_inv_def leader_active_def ids)
          moreover have "nd_read_rounds nd = []" using lead idle by (simp add: lead_inv_def)
          ultimately show ?thesis using cl by (simp add: node_inv_def reads_inv_def)
        qed
        ultimately have full: "full_inv ?ndl" by (simp add: full_inv_def)
        have leads: "leads ?ndl" by (simp add: leads_def)
        obtain ok acts nd1 where q: "queue_appends (list2 (nd_peer_ids ?ndl))
            (no_actions\<lparr>schedule_heartbeat := True\<rparr>) ?ndl = (ok, acts, nd1)" by (metis prod_cases3)
        have q1: "ok \<and> full_inv nd1 \<and> leads nd1 \<and> leader_moved ?ndl nd1
          \<and> (\<exists>ms. acts = add_messages ms (no_actions\<lparr>schedule_heartbeat := True\<rparr>)
              \<and> map ob_peer_id ms = list2 (nd_peer_ids ?ndl)
              \<and> (\<forall>m \<in> set ms. sent_ok nd1 m \<and> (\<exists>q. ob_message m = MAppendEntries q)))"
          by (rule queue_appends_leading [OF full leads _ q]) simp
        then obtain ms where ms: "acts = add_messages ms (no_actions\<lparr>schedule_heartbeat := True\<rparr>)"
          "\<forall>m \<in> set ms. sent_ok nd1 m" by blast
        have res: "nd' = nd1" "r = Inr acts"
          using run False h won Some a Inr q q1 by (auto simp: on_vote_reply_def Let_def)
        have "i = of_nat (Suc (length (node_entries nd)))" using l(2) [symmetric] by simp
        moreover have "ld_term ld = node_term nd" using ld won'(1) by (simp add: node_term_def)
        moreover have "p \<in> set (list2 (nd_peer_ids nd))" "rvr_vote_granted reply" "rvr_term reply = node_term nd"
          using False out won by (auto simp: is_peer_iff node_term_def)
        ultimately have "wins p reply nd nd1"
          using False leader_moved_fields [of ?ndl nd1] q1 l idle won'(1,2) leading_node(5) [OF full_inv_parts(1) [OF full]]
          by (simp add: wins_def leads_def node_role_def is_peer_iff del: set_list2)
        then show ?thesis using q1 ms full_inv_parts(2) by (simp add: res no_actions_def)
      qed
    qed
  qed
qed

end
