(* ===== verification/Raft_Append_Prefix.thy ===== *)
theory Raft_Append_Prefix
  imports Raft_Append
begin

text \<open>
  Two sharper facts on the follower's handler (src/raft_append.cpp): whatever the stores answer, a
  prefix on which the log already agrees with the request survives, and a request refused as
  invalid has not touched the log.
\<close>

lemma append_entries_loop_keeps:
  assumes "log_wf l" and "p \<le> length (log_entries l)" and "p + length es < 2 ^ 64"
    and "batch_ok t p pt es" and "append_entries_loop es commit l w = (r, l', w')"
    and "n \<le> length (log_entries l)" and "take n (log_entries l) = take n (take p (log_entries l) @ es)"
  shows "take n (log_entries l') = take n (log_entries l)"
  using assms
proof (induction es arbitrary: p pt l w)
  case Nil
  then show ?case by simp
next
  case (Cons e es)
  let ?old = "log_entries l"
  have idx: "unat (entry_index e) = Suc p" and rest: "batch_ok t (Suc p) (entry_term e) es"
    and index: "entry_index e = of_nat (Suc p)"
    using Cons.prems(3,4) unat_of_nat_64 [of "Suc p"] by (simp_all add: batch_ok_Cons add.commute)
  have seq: "sequential ?old" using Cons.prems(1) by (rule raft_log.inv_sequential)
  have place: "take n (log_entries l') = take n ?old"
    if k: "log_wf k" "log_entries k = take p ?old @ [e]" and run: "append_entries_loop es commit k v = (r, l', w')"
      and np: "n \<le> p" for k v
  proof -
    have len: "length (log_entries k) = Suc p" using k Cons.prems(2) by (simp del: length_log_entries)
    have kn: "take n (log_entries k) = take n ?old" using k(2) np Cons.prems(2) by (simp add: min_absorb1)
    have "take n (log_entries l') = take n (log_entries k)"
      by (rule Cons.IH [OF k(1) _ _ rest run]) (use len np Cons.prems(3) in simp_all)
    then show ?thesis using kn by simp
  qed
  have cut: "n \<le> p" if "\<not> (p < length ?old \<and> ?old ! p = e)"
  proof (rule ccontr)
    assume "\<not> n \<le> p"
    then have n: "p < n" "p < length ?old" using Cons.prems(6) by auto
    have "take n ?old ! p = take n (take p ?old @ e # es) ! p" using Cons.prems(7) by simp
    then have "?old ! p = e" using n by (simp add: nth_append)
    with n that show False by simp
  qed
  show ?case
  proof (cases "entry_at (entry_index e) l")
    case None
    then have p: "p = length ?old"
      using Cons.prems(1,2) idx by (simp add: entry_at_None)
    obtain a k v where ap: "append_entry e l w = (a, k, v)" by (metis prod_cases3)
    note k = raft_log.append_inv [OF Cons.prems(1) ap] raft_log.append_entries [OF Cons.prems(1) ap]
    show ?thesis
    proof (cases "a = Appended")
      case True
      then show ?thesis
        using place [of k v] k p Cons.prems(5,6) None ap by simp
    next
      case False
      then show ?thesis using k None ap Cons.prems(5) by auto
    qed
  next
    case (Some x)
    then have x: "p < length ?old" "?old ! p = x"
      using Cons.prems(1) idx by (simp_all add: entry_at_Some)
    show ?thesis
    proof (cases "entry_term x = entry_term e")
      case same: True
      show ?thesis
      proof (cases "entry_command x = entry_command e")
        case True
        have e: "?old ! p = e" using sequential_eqI [OF seq x(1) index] x(2) same True by simp
        have run: "append_entries_loop es commit l w = (r, l', w')"
          using Cons.prems(5) Some same True by simp
        have "take (Suc p) ?old = take p ?old @ [e]" using x(1) e by (simp add: take_Suc_conv_app_nth)
        then show ?thesis
          using Cons.prems(3,6,7) x(1) by (intro Cons.IH [OF Cons.prems(1) _ _ rest run]) simp_all
      next
        case False
        then show ?thesis using Cons.prems(1,5) Some same by auto
      qed
    next
      case other: False
      show ?thesis
      proof (cases "entry_index e \<le> commit")
        case True
        then show ?thesis using Cons.prems(1,5) Some other by auto
      next
        case False
        have np: "n \<le> p" by (rule cut) (use x other in auto)
        obtain q l1 w1 where tr: "truncate_suffix (entry_index e) l w = (q, l1, w1)" by (metis prod_cases3)
        note l1 = raft_log.truncate_inv [OF Cons.prems(1) tr] raft_log.truncate_entries [OF Cons.prems(1) tr]
        obtain a k v where ap: "append_entry e l1 w1 = (a, k, v)" by (metis prod_cases3)
        note k = raft_log.append_inv [OF l1(1) ap] raft_log.append_entries [OF l1(1) ap]
        consider "q \<noteq> Truncated" | "q = Truncated" "a \<noteq> Appended" | "q = Truncated" "a = Appended" by blast
        then show ?thesis
        proof cases
          case 1
          then show ?thesis using l1 Cons.prems(5) Some other False tr by auto
        next
          case 2
          then show ?thesis
            using k l1(2) idx np Cons.prems(5) Some other False tr ap by (auto simp: min_absorb1)
        next
          case 3
          then have "append_entries_loop es commit k v = (r, l', w')"
            using Cons.prems(5) Some other False tr ap by simp
          then show ?thesis
            using place [of k v] k l1(2) 3 idx np by simp
        qed
      qed
    qed
  qed
qed

text \<open>Once the loop appends it goes on appending, so it cannot meet an entry to compare with.\<close>

lemma append_entries_loop_appending:
  assumes "log_wf l" and "p = length (log_entries l)" and "p + length es < 2 ^ 64"
    and "batch_ok t p pt es" and "append_entries_loop es commit l w = (r, l', w')"
  shows "r \<noteq> Some InvalidRequest"
  using assms
proof (induction es arbitrary: p pt l w)
  case Nil
  then show ?case by simp
next
  case (Cons e es)
  have idx: "unat (entry_index e) = Suc p" and rest: "batch_ok t (Suc p) (entry_term e) es"
    using Cons.prems(3,4) unat_of_nat_64 [of "Suc p"] by (simp_all add: batch_ok_Cons add.commute)
  have none: "entry_at (entry_index e) l = None"
    using Cons.prems(1,2) idx by (simp add: entry_at_None)
  obtain a k v where ap: "append_entry e l w = (a, k, v)" by (metis prod_cases3)
  note k = raft_log.append_inv [OF Cons.prems(1) ap] raft_log.append_entries [OF Cons.prems(1) ap]
  show ?case
  proof (cases "a = Appended")
    case True
    then have len: "length (log_entries k) = Suc p" using k Cons.prems(2) by (simp del: length_log_entries)
    have run: "append_entries_loop es commit k v = (r, l', w')"
      using True none ap Cons.prems(5) by simp
    show ?thesis
      by (rule Cons.IH [OF k(1) _ _ rest run]) (use len Cons.prems(3) in simp_all)
  next
    case False
    then show ?thesis using none ap Cons.prems(5) by auto
  qed
qed

lemma append_entries_loop_invalid:
  assumes "log_wf l" and "p \<le> length (log_entries l)" and "p + length es < 2 ^ 64"
    and "batch_ok t p pt es" and "append_entries_loop es commit l w = (Some InvalidRequest, l', w')"
  shows "l' = l"
  using assms
proof (induction es arbitrary: p pt l w)
  case Nil
  then show ?case by simp
next
  case (Cons e es)
  let ?old = "log_entries l"
  have idx: "unat (entry_index e) = Suc p" and rest: "batch_ok t (Suc p) (entry_term e) es"
    using Cons.prems(3,4) unat_of_nat_64 [of "Suc p"] by (simp_all add: batch_ok_Cons add.commute)
  have tail: "append_entries_loop es commit k v \<noteq> (Some InvalidRequest, l', w')"
    if "log_wf k" "length (log_entries k) = Suc p" for k v
    using append_entries_loop_appending [OF that(1) that(2) [symmetric] _ rest, of commit v "Some InvalidRequest" l' w']
      Cons.prems(3) by auto
  show ?case
  proof (cases "entry_at (entry_index e) l")
    case None
    then have p: "p = length ?old"
      using Cons.prems(1,2) idx by (simp add: entry_at_None)
    obtain a k v where ap: "append_entry e l w = (a, k, v)" by (metis prod_cases3)
    note k = raft_log.append_inv [OF Cons.prems(1) ap] raft_log.append_entries [OF Cons.prems(1) ap]
    show ?thesis
      using tail [of k v] k p Cons.prems(5) None ap by (cases "a = Appended") (auto simp del: length_log_entries)
  next
    case (Some x)
    then have x: "p < length ?old" "?old ! p = x"
      using Cons.prems(1) idx by (simp_all add: entry_at_Some)
    obtain q l1 w1 where tr: "truncate_suffix (entry_index e) l w = (q, l1, w1)" by (metis prod_cases3)
    note l1 = raft_log.truncate_inv [OF Cons.prems(1) tr] raft_log.truncate_entries [OF Cons.prems(1) tr]
    obtain a k v where ap: "append_entry e l1 w1 = (a, k, v)" by (metis prod_cases3)
    note k = raft_log.append_inv [OF l1(1) ap] raft_log.append_entries [OF l1(1) ap]
    show ?thesis
    proof (cases "entry_term x = entry_term e \<and> entry_command x = entry_command e")
      case True
      then have run: "append_entries_loop es commit l w = (Some InvalidRequest, l', w')"
        using Cons.prems(5) Some by simp
      show ?thesis
        using Cons.prems(3) x(1) by (intro Cons.IH [OF Cons.prems(1) _ _ rest run]) simp_all
    next
      case False
      have len: "length (log_entries k) = Suc p" if "q = Truncated" "a = Appended"
        using k(2) l1(2) that idx x(1) by (simp del: length_log_entries)
      show ?thesis
        using False tail [of k v] k(1) len Cons.prems(5) Some tr ap
        by (auto split: if_splits)
    qed
  qed
qed

text \<open>A batch the log already holds changes nothing.\<close>

lemma append_entries_loop_held:
  assumes "log_wf l" and "p \<le> length (log_entries l)" and "p + length es < 2 ^ 64"
    and "batch_ok t p pt es" and "take (length es) (drop p (log_entries l)) = es"
  shows "append_entries_loop es commit l w = (None, l, w)"
  using assms
proof (induction es arbitrary: p pt)
  case Nil
  then show ?case by simp
next
  case (Cons e es)
  let ?old = "log_entries l"
  have idx: "unat (entry_index e) = Suc p" and rest: "batch_ok t (Suc p) (entry_term e) es"
    using Cons.prems(3,4) unat_of_nat_64 [of "Suc p"] by (simp_all add: batch_ok_Cons add.commute)
  have p: "p < length ?old" using Cons.prems(5) by (cases "p < length ?old") simp_all
  then have e: "?old ! p = e" and es: "take (length es) (drop (Suc p) ?old) = es"
    using Cons.prems(5) by (simp_all add: Cons_nth_drop_Suc [symmetric])
  have "entry_at (entry_index e) l = Some e"
    using Cons.prems(1) idx p e by (simp add: entry_at_Some)
  moreover have "append_entries_loop es commit l w = (None, l, w)"
    by (rule Cons.IH [OF Cons.prems(1) _ _ rest es]) (use p Cons.prems(3) in simp_all)
  ultimately show ?case by simp
qed

section \<open>The handler\<close>

lemma handle_append_entries_loop:
  assumes wf: "log_wf l" and run: "handle_append_entries req m l commit w = (res, m', l', commit', w')"
  obtains (same) "l' = l"
  | (loop) f w1 w2 where "append_entries_loop (ae_entries req) commit l w1 = (f, l', w2)"
      "accepted req (log_entries l)" "res = Inl InvalidRequest \<longrightarrow> f = Some InvalidRequest"
proof -
  obtain tr m1 w1 where a: "advance_term (ae_term req) m w = (tr, m1, w1)" by (metis prod_cases3)
  obtain f l2 w2 where lp: "append_entries_loop (ae_entries req) commit l w1 = (f, l2, w2)" by (metis prod_cases3)
  note un = run [unfolded handle_append_entries_def a prod.case Let_def lp]
  show ?thesis
  proof (cases "l' = l")
    case True
    then show ?thesis by (rule same)
  next
    case False
    have v: "valid_entries req" using un False by (auto split: if_splits)
    have chk: "(ae_prev_log_index req \<noteq> 0 \<and> (case entry_at (ae_prev_log_index req) l of
        None \<Rightarrow> True | Some e \<Rightarrow> entry_term e \<noteq> ae_prev_log_term req))
        \<longleftrightarrow> \<not> holds_at (unat (ae_prev_log_index req)) (ae_prev_log_term req) (log_entries l)"
      by (rule holds_at_check [OF wf]) (use v in \<open>simp add: valid_entries_iff\<close>)
    have h: "holds_at (unat (ae_prev_log_index req)) (ae_prev_log_term req) (log_entries l)"
      using un [unfolded chk] False by (auto split: if_splits)
    have "l' = l2 \<and> (res = Inl InvalidRequest \<longrightarrow> f = Some InvalidRequest)"
      using un False by (auto split: if_splits option.splits)
    then show ?thesis using loop [of w1 f w2] lp v h by (simp add: accepted_def)
  qed
qed

lemma handle_append_entries_invalid:
  assumes wf: "log_wf l" and run: "handle_append_entries req m l commit w = (Inl InvalidRequest, m', l', commit', w')"
  shows "l' = l"
  using wf run
proof (cases rule: handle_append_entries_loop)
  case (loop f w1 w2)
  then show ?thesis
    by (intro append_entries_loop_invalid [OF wf]) (auto simp: accepted_def valid_entries_iff holds_at_def)
qed

lemma handle_append_entries_keeps:
  assumes wf: "log_wf l" and run: "handle_append_entries req m l commit w = (res, m', l', commit', w')"
    and n: "n \<le> length (log_entries l)"
    and agree: "take n (log_entries l) = take n (take (unat (ae_prev_log_index req)) (log_entries l) @ ae_entries req)"
  shows "take n (log_entries l') = take n (log_entries l)"
  using wf run
proof (cases rule: handle_append_entries_loop)
  case (loop f w1 w2)
  then show ?thesis
    by (intro append_entries_loop_keeps [OF wf _ _ _ loop(1) n agree])
      (auto simp: accepted_def valid_entries_iff holds_at_def)
qed simp

lemma handle_append_entries_held:
  assumes wf: "log_wf l" and run: "handle_append_entries req m l commit w = (res, m', l', commit', w')"
    and held: "take (length (ae_entries req)) (drop (unat (ae_prev_log_index req)) (log_entries l)) = ae_entries req"
  shows "l' = l"
  using wf run
proof (cases rule: handle_append_entries_loop)
  case (loop f w1 w2)
  have "append_entries_loop (ae_entries req) commit l w1 = (None, l, w1)"
    by (rule append_entries_loop_held [OF wf _ _ _ held])
      (use loop(2) in \<open>auto simp: accepted_def valid_entries_iff holds_at_def\<close>)
  then show ?thesis using loop(1) by simp
qed simp

end
