(* ===== verification/Raft_Node_Step.thy ===== *)
theory Raft_Node_Step
  imports Raft_Node_Lead Raft_Append_Prefix
begin

text \<open>
  The handlers of AppendEntries traffic and client calls, in the terms of the theory
  Raft_Node_Lead, and their sum over all events: \<open>full_inv\<close> is kept, a leader only appends to its
  log, and every message says what is true of its sender.
\<close>

lemma sent_ok_cong:
  assumes "nd_peer_ids nd' = nd_peer_ids nd" "nd_metadata nd' = nd_metadata nd" "nd_self_id nd' = nd_self_id nd"
    "nd_log nd' = nd_log nd" "nd_election nd' = nd_election nd" "leads nd' = leads nd"
    "nd_commit_index nd' = nd_commit_index nd" "nd_next_read_id nd' = nd_next_read_id nd"
  shows "sent_ok nd' m \<longleftrightarrow> sent_ok nd m"
  by (simp add: sent_ok_def node_term_def node_role_def is_probe_def assms split: raft_message.split)

lemma apply_ready_state: "apply_ready a nd = (ok, a', nd') \<Longrightarrow> \<exists>s. nd' = nd\<lparr>nd_state := s\<rparr> \<and> messages a' = messages a"
  by (auto simp: apply_ready_def split: prod.splits sum.splits)

lemma repl_inv_fields [simp]:
  "repl_inv (nd\<lparr>nd_state := s\<rparr>) \<longleftrightarrow> repl_inv nd" "repl_inv (nd\<lparr>nd_read_rounds := rs\<rparr>) \<longleftrightarrow> repl_inv nd"
  "repl_inv (nd\<lparr>nd_next_read_id := i\<rparr>) \<longleftrightarrow> repl_inv nd"
  by (simp_all add: repl_inv_def)

lemma leads_fields [simp]:
  "leads (nd\<lparr>nd_state := s\<rparr>) \<longleftrightarrow> leads nd" "leads (nd\<lparr>nd_read_rounds := rs\<rparr>) \<longleftrightarrow> leads nd"
  "leads (nd\<lparr>nd_next_read_id := i\<rparr>) \<longleftrightarrow> leads nd" "leads (nd\<lparr>nd_leader := Some ld\<rparr>)"
  "leads (nd\<lparr>nd_known_leader := k\<rparr>) \<longleftrightarrow> leads nd"
  by (simp_all add: leads_def)

section \<open>Requests from a leader\<close>

lemma on_append_entries_handled:
  assumes inv: "full_inv nd" and run: "on_append_entries p req nd w = (r, nd', w')"
  shows "handled nd r nd'"
proof (cases "nd_stopped nd \<or> \<not> is_peer p nd \<or> ae_leader_id req \<noteq> p")
  case True
  then show ?thesis
    using inv run by (auto simp: on_append_entries_def full_inv_def intro: handled_quiet split: if_splits)
next
  case False
  have wf: "log_wf (nd_log nd)" using full_inv_parts(3) [OF inv] by (simp add: core_inv_def)
  obtain res m l c v where h: "handle_append_entries req (nd_metadata nd) (nd_log nd) (nd_commit_index nd) w
      = (res, m, l, c, v)" by (metis prod_cases5)
  note o = handle_append_entries_outcome [OF wf h]
  have le: "metadata_le (pm_state (nd_metadata nd)) (pm_state m)" using o by (auto split: sum.splits)
  let ?nd = "nd\<lparr>nd_metadata := m, nd_log := l, nd_commit_index := c\<rparr>"
  define nd2 where "nd2 = (if node_term ?nd > node_term nd then drop_leadership ?nd else ?nd)"
  have quiet: "repl_inv nd2 \<and> lead_step nd nd2" if "l = nd_log nd" "c = nd_commit_index nd"
  proof (cases "node_term ?nd > node_term nd")
    case True
    then show ?thesis by (simp add: nd2_def)
  next
    case same: False
    then have "node_term ?nd = node_term nd" using le by (auto simp: node_term_def metadata_le_def)
    then show ?thesis
      using same that full_inv_parts(2) [OF inv] by (simp add: nd2_def lead_step_def leads_def repl_inv_def)
  qed
  show ?thesis
  proof (cases res)
    case (Inl e)
    show ?thesis
    proof (cases "e = append_entries_handle_error.InvalidRequest")
      case True
      then have "nd' = nd2" "msgs r = []"
        using run False h Inl by (auto simp: on_append_entries_def Let_def nd2_def)
      moreover have "l = nd_log nd" using handle_append_entries_invalid [OF wf] h Inl True by auto
      moreover have "c = nd_commit_index nd" using o Inl by simp
      ultimately show ?thesis using quiet by (simp add: handled_def)
    next
      case other: False
      have "stop (if e = append_entries_handle_error.PersistenceError then PersistenceError else InconsistentState)
          nd2 v = (r, nd', w')"
        using run False h Inl other by (simp add: on_append_entries_def Let_def nd2_def split del: if_split)
      then show ?thesis by (rule handled_stop)
    qed
  next
    case (Inr reply)
    let ?live = "ae_term req \<noteq> 0 \<and> ae_term req = aer_term reply"
    let ?msg = "\<lparr>ob_peer_id = p, ob_message = MAppendEntriesReply reply\<rparr>"
    define ndo where "ndo = nd2\<lparr>nd_election := observe_leader (ae_term req) (nd_metadata nd2) (nd_election nd2)\<rparr>"
    define nd3 where "nd3 = (if ?live then (drop_leadership ndo)\<lparr>nd_known_leader := Some p\<rparr> else nd2)"
    let ?acts = "no_actions\<lparr>reset_election_timer := ?live\<rparr>"
    obtain ok acts nd4 where ap: "(if aer_success reply then apply_ready ?acts nd3 else (True, ?acts, nd3))
        = (ok, acts, nd4)" by (metis prod_cases3)
    have nd4: "\<exists>s. nd4 = nd3\<lparr>nd_state := s\<rparr>" "messages acts = []"
    proof -
      have "messages ?acts = []" by (simp add: no_actions_def)
      then have "(\<exists>s. nd4 = nd3\<lparr>nd_state := s\<rparr>) \<and> messages acts = []"
        using ap apply_ready_state [of ?acts nd3 ok acts nd4]
        by (cases "aer_success reply") (auto intro: exI [of _ "nd_state nd3"])
      then show "\<exists>s. nd4 = nd3\<lparr>nd_state := s\<rparr>" "messages acts = []" by blast+
    qed
    note un = run [unfolded on_append_entries_def h prod.case Let_def Inr sum.case,
        folded nd2_def, folded ndo_def, folded nd3_def, unfolded ap prod.case]
    show ?thesis
    proof (cases ok)
      case no: False
      then have "stop InconsistentState nd4 v = (r, nd', w')" using un False by simp
      then show ?thesis by (rule handled_stop)
    next
      case True
      have res: "nd' = nd4" "msgs r = [?msg]" using un False True nd4 by auto
      have step: "repl_inv nd3 \<and> lead_step nd nd3 \<and> (aer_success reply \<longrightarrow> \<not> leads nd3)"
      proof (cases ?live)
        case live: True
        then have "\<not> leads nd3" unfolding nd3_def if_P [OF live] by simp
        then show ?thesis by (simp add: lead_step_def repl_inv_def leads_def)
      next
        case dead: False
        then have "l = nd_log nd" "c = nd_commit_index nd" "\<not> aer_success reply" "nd3 = nd2"
          using o Inr by (auto simp: nd3_def split: if_splits)
        then show ?thesis using quiet by simp
      qed
      moreover have "node_term nd3 = aer_term reply" "nd_peer_ids nd3 = nd_peer_ids nd"
        using o Inr by (auto simp: nd3_def ndo_def nd2_def node_term_def)
      ultimately have "sent_ok nd' ?msg" using nd4 False
        by (auto simp: sent_ok_def res node_term_def is_peer_iff)
      moreover have "repl_inv nd' \<and> lead_step nd nd'"
        using nd4(1) step by (auto simp: res lead_step_def node_term_def)
      ultimately show ?thesis by (simp add: handled_def res)
    qed
  qed
qed

section \<open>Replies to a leader\<close>

text \<open>What the helpers of \<open>on_append_reply\<close> keep of a leading node, and what they send.\<close>

definition reigns :: "raft_node \<Rightarrow> raft_node_actions \<Rightarrow> raft_node \<Rightarrow> bool" where
  "reigns nd a nd' \<longleftrightarrow> full_inv nd' \<and> leads nd' \<and> node_term nd' = node_term nd
     \<and> node_entries nd' = node_entries nd \<and> (\<forall>m \<in> set (messages a). sent_ok nd' m)"

lemma reigns_handled: "reigns nd a nd' \<Longrightarrow> leads nd0 \<Longrightarrow> node_term nd = node_term nd0 \<Longrightarrow>
    node_entries nd = node_entries nd0 @ xs \<Longrightarrow> handled nd0 (Inr a) nd'"
  by (simp add: reigns_def handled_def lead_step_def full_inv_def)

lemma queue_append_reigns:
  assumes "full_inv nd" and "leads nd" and "p \<in> set (list2 (nd_peer_ids nd))" and "messages a = []"
    and "queue_append p a nd = (ok, a', nd')"
  shows "ok \<and> reigns nd a' nd'"
proof -
  note q = queue_append_leading [OF assms(1,2,3,5)]
  then show ?thesis using leader_moved_fields [of nd nd'] assms(4) by (auto simp: reigns_def)
qed

lemma queue_appends_reigns:
  assumes "full_inv nd" and "leads nd" and "messages a = []"
    and "queue_appends (list2 (nd_peer_ids nd)) a nd = (ok, a', nd')"
  shows "ok \<and> reigns nd a' nd'"
proof -
  have q: "ok \<and> full_inv nd' \<and> leads nd' \<and> leader_moved nd nd'
    \<and> (\<exists>ms. a' = add_messages ms a \<and> map ob_peer_id ms = list2 (nd_peer_ids nd)
        \<and> (\<forall>m \<in> set ms. sent_ok nd' m \<and> (\<exists>q. ob_message m = MAppendEntries q)))"
    by (rule queue_appends_leading [OF assms(1,2) _ assms(4)]) simp
  then obtain ms where "a' = add_messages ms a" "\<forall>m \<in> set ms. sent_ok nd' m" by blast
  then show ?thesis using q leader_moved_fields [of nd nd'] assms(3) by (simp add: reigns_def)
qed

lemma start_rounds_messages:
  assumes "start_rounds nd rs a = (rs', a')" and "m \<in> set (messages a')"
  shows "m \<in> set (messages a) \<or> (\<exists>i. (i, None) \<in> set rs \<and> m \<in> set (to_peers (read_probe i nd) nd))"
  using assms
proof (induction rs arbitrary: rs' a a')
  case Nil
  then show ?case by simp
next
  case (Cons round rs)
  show ?case
  proof (cases round)
    case (Pair i q)
    define b where "b = (case q of None \<Rightarrow> add_messages (to_peers (read_probe i nd) nd) a | Some _ \<Rightarrow> a)"
    obtain rs1 a1 where s: "start_rounds nd rs b = (rs1, a1)" by fastforce
    then have "a1 = a'" using Cons.prems(1) Pair by (auto simp: b_def split: option.splits)
    with Cons.IH [OF s] Cons.prems(2)
    have "m \<in> set (messages b) \<or> (\<exists>i. (i, None) \<in> set rs \<and> m \<in> set (to_peers (read_probe i nd) nd))" by blast
    then show ?thesis using Pair by (auto simp: b_def split: option.splits)
  qed
qed

lemma start_waiting_reads_reigns:
  assumes inv: "full_inv nd" and lead: "leads nd" and sent: "\<forall>m \<in> set (messages a). sent_ok nd m"
    and run: "start_waiting_reads a nd = (a', nd')"
  shows "reigns nd a' nd'"
proof (cases "current_term_committed nd")
  case False
  then show ?thesis using assms by (simp add: start_waiting_reads_def reigns_def)
next
  case True
  obtain rs b where s: "start_rounds nd (nd_read_rounds nd) a = (rs, b)" by fastforce
  have out: "a' = b" "nd' = nd\<lparr>nd_read_rounds := rs\<rparr>" using run True s by (simp_all add: start_waiting_reads_def)
  have "node_inv nd'" using start_waiting_reads_node [OF full_inv_parts(1) [OF inv] run] by blast
  then have full: "full_inv nd'" using full_inv_parts(2) [OF inv] by (simp add: full_inv_def out(2))
  have same: "sent_ok nd' m \<longleftrightarrow> sent_ok nd m" for m by (rule sent_ok_cong) (simp_all add: out(2))
  have "sent_ok nd m" if m: "m \<in> set (messages b)" for m
  proof -
    consider "m \<in> set (messages a)" | i where "(i, None) \<in> set (nd_read_rounds nd)" "m \<in> set (to_peers (read_probe i nd) nd)"
      using start_rounds_messages [OF s m] by blast
    then show ?thesis
    proof cases
      case 1
      then show ?thesis using sent by blast
    next
      case (2 i)
      have "i \<noteq> 0" "nd_next_read_id nd \<noteq> 0 \<longrightarrow> i < nd_next_read_id nd"
        using 2(1) full_inv_parts(1) [OF inv] by (auto simp: node_inv_def reads_inv_def round_ok_def)
      then have "is_probe (read_probe i nd) nd" by (simp add: is_probe_def read_probe_def)
      then show ?thesis using probe_sent_ok [OF lead _ _ 2(2)] by (simp add: read_probe_def)
    qed
  qed
  then show ?thesis using full lead same by (simp add: reigns_def out node_term_def)
qed

lemma after_append_reply_reigns:
  assumes inv: "full_inv nd" and lead: "leads nd" and p: "p \<in> set (list2 (nd_peer_ids nd))"
    and run: "after_append_reply out p nd = (ok, a, nd')"
  shows "ok \<and> reigns nd a nd'"
proof -
  have quiet: "reigns nd no_actions nd" using inv lead by (simp add: reigns_def)
  obtain ld where ld: "nd_leader nd = Some ld" using lead by (auto simp: leads_def)
  consider (retry) "out = Retry" | (committed) "out = Committed" | (recorded) "out = append_reply_outcome.Recorded"
    | (none) "out \<notin> {Retry, Committed, append_reply_outcome.Recorded}" by blast
  then show ?thesis
  proof cases
    case retry
    then show ?thesis using run queue_append_reigns [OF inv lead p, of no_actions ok a nd'] by (simp add: after_append_reply_def)
  next
    case none
    then have "ok" "a = no_actions" "nd' = nd" using run by (cases out; simp add: after_append_reply_def)+
    then show ?thesis using quiet by simp
  next
    case recorded
    have "leader_ids ld = nd_peer_ids nd" using leading_node(2) [OF full_inv_parts(1) [OF inv] ld] .
    then have "find_peer p ld \<noteq> None" using p find_peer_None [of p ld] by simp
    then have "progress p ld \<noteq> None" by (auto simp: progress_def)
    then show ?thesis
      using run recorded ld quiet queue_append_reigns [OF inv lead p, of no_actions ok a nd']
      by (auto simp: after_append_reply_def split: option.splits if_splits)
  next
    case committed
    obtain ok1 a1 nd1 where ap: "apply_ready no_actions nd = (ok1, a1, nd1)" by (metis prod_cases3)
    obtain s where s: "nd1 = nd\<lparr>nd_state := s\<rparr>" "messages a1 = []" using apply_ready_state [OF ap] by auto
    have n1: "ok1 \<and> node_inv nd1" using apply_ready_node [OF full_inv_parts(1) [OF inv] ap] by blast
    then have f1: "full_inv nd1" using full_inv_parts(2) [OF inv] by (simp add: full_inv_def s)
    have l1: "leads nd1" using lead by (simp add: s)
    obtain ok2 a2 nd2 where q: "queue_appends (list2 (nd_peer_ids nd1)) a1 nd1 = (ok2, a2, nd2)" by (metis prod_cases3)
    note n2 = queue_appends_reigns [OF f1 l1 s(2) q]
    obtain a3 nd3 where sw: "start_waiting_reads a2 nd2 = (a3, nd3)" by fastforce
    have n3: "reigns nd2 a3 nd3" by (rule start_waiting_reads_reigns [OF _ _ _ sw]) (use n2 in \<open>simp_all add: reigns_def\<close>)
    have "ok" "a = a3" "nd' = nd3" using run committed ap q sw n1 n2 by (auto simp: after_append_reply_def)
    moreover have "node_term nd1 = node_term nd" by (simp add: s node_term_def)
    ultimately show ?thesis using n2 n3 s(1) by (simp add: reigns_def)
  qed
qed

lemma finish_read_handled:
  assumes inv: "full_inv nd" and lead: "leads nd0" "leads nd" and trm: "node_term nd = node_term nd0"
    and es: "node_entries nd = node_entries nd0" and sent: "\<forall>m \<in> set (messages a). sent_ok nd m"
    and run: "finish_read req reply a nd w = (r, nd', w')"
  shows "handled nd0 r nd'"
proof -
  have same: "sent_ok (nd\<lparr>nd_read_rounds := rs\<rparr>) m \<longleftrightarrow> sent_ok nd m" for rs m by (rule sent_ok_cong) simp_all
  have step: "lead_step nd0 (nd\<lparr>nd_read_rounds := rs\<rparr>)" "lead_step nd0 nd" for rs
    using lead trm es by (simp_all add: lead_step_def node_term_def)
  show ?thesis
    using run full_inv_parts(2) [OF inv] sent same step handled_stop [of InconsistentState nd w r nd' w' nd0]
    by (auto simp: finish_read_def handled_def Let_def split: if_splits option.splits)
qed

lemma handle_reply_full:
  assumes inv: "full_inv nd" and ld: "nd_leader nd = Some ld"
    and h: "handle_reply (nd_election nd) (nd_log nd) p req reply (nd_metadata nd) (nd_commit_index nd) ld w
      = (out, m, c, ld1, v)"
    and go: "out \<notin> {append_reply_outcome.PersistenceError, InconsistentFollower, append_reply_outcome.SteppedDown}"
  shows "full_inv (nd\<lparr>nd_metadata := m, nd_commit_index := c, nd_leader := Some ld1\<rparr>)"
proof -
  have wf: "log_wf (nd_log nd)" and repl: "repl_inv nd"
    using full_inv_parts(2,3) [OF inv] by (simp_all add: core_inv_def)
  note o = handle_reply_outcome [OF wf h]
  have le: "nd_commit_index nd \<le> c" using o go by (auto split: if_splits)
  have linv: "leader_inv 4 ld (node_entries nd)" "pending_commits ld (nd_commit_index nd)"
    using repl ld by (simp_all add: repl_inv_def)
  have "leader_inv 4 ld1 (node_entries nd)" using handle_reply_inv [OF wf h linv(1)] by blast
  moreover have "pending_commits ld1 c" by (rule handle_reply_commits [OF h linv(2) le])
  ultimately have "repl_inv (nd\<lparr>nd_metadata := m, nd_commit_index := c, nd_leader := Some ld1\<rparr>)"
    using repl ld by (simp add: repl_inv_def)
  moreover have "node_inv (nd\<lparr>nd_metadata := m, nd_commit_index := c, nd_leader := Some ld1\<rparr>)"
    by (rule handle_reply_node [OF full_inv_parts(1) [OF inv] ld h]) (use go in auto)
  ultimately show ?thesis by (simp add: full_inv_def)
qed

lemma on_append_reply_handled:
  assumes inv: "full_inv nd" and run: "on_append_reply p req reply nd w = (r, nd', w')"
  shows "handled nd r nd'"
proof (cases "nd_stopped nd \<or> \<not> is_peer p nd")
  case True
  then show ?thesis
    using inv run by (auto simp: on_append_reply_def full_inv_def intro: handled_quiet split: if_splits)
next
  case False
  have core: "core_inv nd" and repl: "repl_inv nd" using full_inv_parts [OF inv] by simp_all
  show ?thesis
  proof (cases "nd_leader nd")
    case None
    obtain q m v where a: "advance_term (aer_term reply) (nd_metadata nd) w = (q, m, v)" by (metis prod_cases3)
    then show ?thesis
      using run False None repl
      by (auto simp: on_append_reply_def Let_def no_actions_def
          intro: handled_quiet handled_drop handled_stop split: if_splits)
  next
    case (Some ld)
    have lead: "leads nd" using Some by (simp add: leads_def)
    note n = leading_node [OF full_inv_parts(1) [OF inv] Some]
    have wf: "log_wf (nd_log nd)" using core by (simp add: core_inv_def)
    obtain out m c ld1 v where h: "handle_reply (nd_election nd) (nd_log nd) p req reply (nd_metadata nd)
        (nd_commit_index nd) ld w = (out, m, c, ld1, v)" by (metis prod_cases5)
    note o = handle_reply_outcome [OF wf h]
    define nd1 where "nd1 = nd\<lparr>nd_metadata := m, nd_commit_index := c, nd_leader := Some ld1\<rparr>"
    note un = run [unfolded on_append_reply_def Some option.case h prod.case Let_def, folded nd1_def]
    consider (io) "out \<in> {append_reply_outcome.PersistenceError, InconsistentFollower}"
      | (down) "out = append_reply_outcome.SteppedDown"
      | (go) "out \<notin> {append_reply_outcome.PersistenceError, InconsistentFollower, append_reply_outcome.SteppedDown}"
      by blast
    then show ?thesis
    proof cases
      case io
      then show ?thesis using un False by (auto intro: handled_stop)
    next
      case down
      then have "nd' = drop_leadership nd1" "msgs r = []" using un False by (auto simp: no_actions_def)
      then show ?thesis by (simp add: handled_def)
    next
      case go
      then have same: "m = nd_metadata nd" using o by auto
      have f1: "full_inv nd1" unfolding nd1_def by (rule handle_reply_full [OF inv Some h go])
      have l1: "leads nd1" by (simp add: nd1_def)
      have p: "p \<in> set (list2 (nd_peer_ids nd1))" using False by (simp add: is_peer_iff nd1_def)
      obtain ok a nd2 where af: "after_append_reply out p nd1 = (ok, a, nd2)" by (metis prod_cases3)
      note n2 = after_append_reply_reigns [OF f1 l1 p af]
      have "finish_read req reply a nd2 v = (r, nd', w')" using un False go af n2 by simp
      moreover have "node_term nd2 = node_term nd" "node_entries nd2 = node_entries nd"
        using n2 same by (simp_all add: reigns_def nd1_def node_term_def)
      ultimately show ?thesis
        using n2 lead by (intro finish_read_handled [of nd2 nd a req reply v r nd' w']) (simp_all add: reigns_def)
    qed
  qed
qed

section \<open>Client calls\<close>

text \<open>A leader appends entries of its term.\<close>

definition grows :: "raft_node \<Rightarrow> raft_node \<Rightarrow> bool" where
  "grows nd nd' \<longleftrightarrow> (\<exists>xs. node_entries nd' = node_entries nd @ xs
     \<and> (xs \<noteq> [] \<longrightarrow> leads nd') \<and> (\<forall>e \<in> set xs. entry_term e = node_term nd'))"

lemma grows_same: "node_entries nd' = node_entries nd \<Longrightarrow> grows nd nd'"
  by (simp add: grows_def)

lemma append_as_leader_handled:
  assumes inv: "full_inv nd" and run: "append_as_leader cmd nd w = (r, nd', w')"
  shows "handled nd r nd' \<and> grows nd nd'"
proof (cases "nd_stopped nd \<or> nd_leader nd = None")
  case True
  then show ?thesis
    using inv run by (auto simp: append_as_leader_def full_inv_def intro: handled_quiet grows_same split: if_splits)
next
  case False
  then obtain ld where ld: "nd_leader nd = Some ld" and live: "\<not> nd_stopped nd" by auto
  have lead: "leads nd" using ld by (simp add: leads_def)
  have core: "core_inv nd" and repl: "repl_inv nd" and li: "lead_inv nd" and reads: "reads_inv nd"
    using inv by (simp_all add: full_inv_def node_inv_def)
  have act: "leader_active nd ld" using li ld by (simp add: lead_inv_def)
  have wf: "log_wf (nd_log nd)" using core by (simp add: core_inv_def)
  obtain ap l ld1 v where a: "append_command (nd_election nd) (nd_metadata nd) cmd (nd_log nd) ld w = (ap, l, ld1, v)"
    by (metis prod_cases4)
  define nd1 where "nd1 = nd\<lparr>nd_log := l, nd_leader := Some ld1\<rparr>"
  have c1: "core_inv nd1" using core_inv_append_command [OF core act a] by (simp add: nd1_def)
  note o = append_command_outcome [OF wf act [unfolded leader_active_def] a]
  have trm: "node_term nd1 = node_term nd" by (simp add: nd1_def node_term_def)
  obtain xs where xs: "log_entries l = node_entries nd @ xs" using o by (auto split: sum.splits)
  have full: "full_inv nd1" if "ld1 = ld"
  proof -
    have "leader_inv 4 ld (node_entries nd)" using repl ld by (simp add: repl_inv_def)
    then have "leader_inv 4 ld (log_entries l)" unfolding xs by (rule leader_inv_mono)
    then show ?thesis using c1 li reads ld repl that
      by (simp add: nd1_def full_inv_def node_inv_def lead_inv_def leader_active_def repl_inv_def)
  qed
  have es: "node_entries nd1 = node_entries nd @ xs" and le: "node_entries nd1 = log_entries l"
    by (simp_all add: nd1_def xs)
  note un = run [unfolded append_as_leader_def ld option.case a prod.case Let_def, folded nd1_def]
  show ?thesis
  proof (cases ap)
    case (Inl e)
    show ?thesis
    proof (cases "e = leader_replication_error.InvalidCommand")
      case True
      then have "nd' = nd1" "ld1 = ld" "msgs r = []" using un live act Inl o by auto
      then show ?thesis using full lead trm es o Inl le
        by (auto simp: handled_def lead_step_def full_inv_def grows_def)
    next
      case other: False
      then show ?thesis using un live act Inl o
        by (auto simp: nd1_def intro: handled_stop intro!: grows_same dest: stop_result)
    qed
  next
    case (Inr i)
    have "ld1 = ld" using o Inr by simp
    note f1 = full [OF this]
    have l1: "leads nd1" by (simp add: nd1_def)
    obtain ok acts nd2 where q: "queue_appends (list2 (nd_peer_ids nd1)) (no_actions\<lparr>proposed_index := Some i\<rparr>) nd1
        = (ok, acts, nd2)" by (metis prod_cases3)
    have n2: "ok \<and> reigns nd1 acts nd2" by (rule queue_appends_reigns [OF f1 l1 _ q]) (simp add: no_actions_def)
    have "nd' = nd2" "r = Inr acts" using un live act Inr q n2 by auto
    then show ?thesis using reigns_handled [OF conjunct2 [OF n2] lead trm es] n2 o Inr trm es xs
        leading_node(4) [OF full_inv_parts(1) [OF inv] ld]
      by (auto simp: reigns_def grows_def)
  qed
qed

lemma propose_handled:
  assumes inv: "full_inv nd" and run: "propose cmd nd w = (r, nd', w')"
  shows "handled nd r nd' \<and> grows nd nd'"
  using append_as_leader_handled [OF inv, of cmd w r nd' w'] run inv
  by (auto simp: propose_def full_inv_def intro: handled_quiet grows_same split: if_splits option.splits)

lemma read_barrier_handled:
  assumes inv: "full_inv nd" and run: "read_barrier nd w = (r, nd', w')"
  shows "handled nd r nd'"
proof (cases "nd_stopped nd \<or> nd_leader nd = None")
  case True
  then show ?thesis
    using inv run by (auto simp: read_barrier_def full_inv_def intro: handled_quiet split: if_splits)
next
  case False
  then obtain ld where ld: "nd_leader nd = Some ld" and live: "\<not> nd_stopped nd" by auto
  have act: "leader_active nd ld" using full_inv_parts(1) [OF inv] ld by (simp add: node_inv_def lead_inv_def)
  note un = run [unfolded read_barrier_def ld option.case]
  show ?thesis
  proof (cases "nd_next_read_id nd = 0")
    case True
    then show ?thesis using un live act by (auto intro: handled_stop)
  next
    case id: False
    let ?i = "nd_next_read_id nd"
    define nd1 where "nd1 = nd\<lparr>nd_next_read_id := ?i + 1, nd_read_rounds := emplace ?i None (nd_read_rounds nd)\<rparr>"
    have f1: "full_inv nd1"
      using read_barrier_entered [OF full_inv_parts(1) [OF inv] ld id] full_inv_parts(2) [OF inv]
      by (simp add: full_inv_def nd1_def)
    obtain a nd2 where sw: "start_waiting_reads (no_actions\<lparr>started_read_id := Some ?i\<rparr>) nd1 = (a, nd2)" by fastforce
    have out: "nd' = nd2" "r = Inr a" using un live act id sw by (simp_all add: Let_def nd1_def)
    have "leads nd" using ld by (simp add: leads_def)
    then have "reigns nd1 a nd2"
      by (intro start_waiting_reads_reigns [OF f1 _ _ sw]) (simp_all add: nd1_def no_actions_def)
    then show ?thesis using \<open>leads nd\<close>
      unfolding out by (rule reigns_handled [where xs = "[]"]) (simp_all add: nd1_def node_term_def)
  qed
qed

section \<open>Any event\<close>

lemma node_step_handled:
  assumes inv: "full_inv nd" and run: "node_step ev nd w = (r, nd', w')"
  shows "full_inv nd' \<and> (\<forall>m \<in> set (msgs r). sent_ok nd' m)
    \<and> (lead_step nd nd' \<or> (\<exists>p reply. ev = ReceiveVoteReply p reply \<and> wins p reply nd nd'))"
proof -
  have "node_inv nd'" using node_step_sound [OF full_inv_parts(1) [OF inv] run] by (simp add: sound_step_def)
  moreover have "repl_inv nd' \<and> (\<forall>m \<in> set (msgs r). sent_ok nd' m)
    \<and> (lead_step nd nd' \<or> (\<exists>p reply. ev = ReceiveVoteReply p reply \<and> wins p reply nd nd'))"
  proof (cases "\<exists>p reply. ev = ReceiveVoteReply p reply")
    case True
    then obtain p reply where ev: "ev = ReceiveVoteReply p reply" by blast
    then have "on_vote_reply p reply nd w = (r, nd', w')" using run by simp
    from on_vote_reply_handled [OF inv this] show ?thesis using ev by blast
  next
    case False
    then have "handled nd r nd'"
      using run on_election_timeout_handled [OF inv] on_heartbeat_timeout_handled [OF inv]
        on_request_vote_handled [OF inv] on_append_entries_handled [OF inv] on_append_reply_handled [OF inv]
        propose_handled [OF inv] read_barrier_handled [OF inv]
      by (cases ev) auto
    then show ?thesis by (simp add: handled_def)
  qed
  ultimately show ?thesis by (simp add: full_inv_def)
qed

lemma node_open_full_inv:
  assumes run: "node_open self peers dir w = (Inr nd, w')" and terms: "terms_ok (node_term nd) (node_entries nd)"
  shows "full_inv nd"
proof -
  have "nd_leader nd = None"
    using run by (auto simp: node_open_def split: if_splits prod.splits sum.splits option.splits)
  then show ?thesis using node_open_inv [OF assms] repl_inv_None by (simp add: full_inv_def)
qed

definition sample_leading_node :: raft_node where
  "sample_leading_node = sample_node\<lparr>nd_metadata := sample_store (Some 1), nd_election := sample_leader_election,
     nd_leader := Some sample_leader, nd_known_leader := Some 1\<rparr>"

lemma sample_leading_inv: "full_inv sample_leading_node"
proof -
  have "terms_ok 3 [sample_entry]" by (simp add: terms_ok_def sample_entry_def)
  then have "core_inv sample_leading_node"
    using sample_node_inv
    by (simp add: node_inv_def core_inv_def sample_leading_node_def sample_node_def node_term_def sample_store_def)
      (simp add: election_inv_def sample_leader_election_def sample_candidate_def)
  moreover have "lead_inv sample_leading_node" "reads_inv sample_leading_node"
    using sample_leader_ok
    by (simp_all add: lead_inv_def reads_inv_def leader_active_def sample_leading_node_def sample_node_def)
      (simp add: sample_leader_def)
  moreover have "repl_inv sample_leading_node"
    using sample_leader_ok(1)
    by (simp add: repl_inv_def sample_leading_node_def sample_node_def)
      (simp add: pending_commits_def sample_leader_def)
  ultimately show ?thesis by (simp add: full_inv_def node_inv_def)
qed

section \<open>Properties\<close>

text \<open>C12: Leader append-only. A node that leads before and after an event leads the same term, and its log
  has at most grown at the end: no event makes a leader overwrite or remove an entry. The extended
  invariant, in which the outstanding requests fit the log, is kept by every event.\<close>

theorem leader_appends_only:
  assumes "full_inv nd" and "node_step ev nd w = (r, nd', w')"
  shows "full_inv nd' \<and>
    (nd_leader nd \<noteq> None \<and> nd_leader nd' \<noteq> None \<longrightarrow>
       node_term nd' = node_term nd \<and> (\<exists>xs. log_entries (nd_log nd') = log_entries (nd_log nd) @ xs))"
  using node_step_handled [OF assms] by (auto simp: lead_step_def wins_def leads_def)

theorem leader_appends_only_witness:
  "full_inv (fst (snd (node_step (ReceiveAppendReply 2 sample_append \<lparr>aer_term = 3, aer_success = True\<rparr>)
     sample_leading_node \<lparr>script = [], trace = []\<rparr>)))"
proof -
  obtain r nd' w' where s: "node_step (ReceiveAppendReply 2 sample_append \<lparr>aer_term = 3, aer_success = True\<rparr>)
     sample_leading_node \<lparr>script = [], trace = []\<rparr> = (r, nd', w')" by (metis prod_cases3)
  show ?thesis using leader_appends_only [OF sample_leading_inv s] unfolding s by simp
qed

text \<open>C14: What a node says is true of it. Every message that an event queues goes to a peer, and after the
  event: a vote request carries the candidate's term, id and last entry, and the candidate has voted
  for itself; a granted vote is the durable vote of the current term; an AppendEntries request comes from
  a leader, its commit index is at most the leader's, and it is a slice of at most four entries of the
  leader's log with the term of the entry before it, or an empty read probe with a read id given out; a positive AppendEntries
  reply is given in the current term by a node that does not lead.\<close>

theorem queued_messages_true:
  assumes "full_inv nd" and "node_step ev nd w = (Inr a, nd', w')" and "m \<in> set (messages a)"
  shows "ob_peer_id m \<in> set (list2 (nd_peer_ids nd'))
    \<and> (case ob_message m of
         MRequestVote q \<Rightarrow>
           q = \<lparr>rv_term = node_term nd', rv_candidate_id = nd_self_id nd',
                rv_last_log_index = last_index (nd_log nd'), rv_last_log_term = last_term (nd_log nd')\<rparr>
           \<and> node_role nd' = Candidate \<and> voted_for (pm_state (nd_metadata nd')) = Some (nd_self_id nd')
       | MRequestVoteReply y \<Rightarrow>
           rvr_vote_granted y \<longrightarrow> rvr_term y = node_term nd' \<and> rvr_term y \<noteq> 0
             \<and> voted_for (pm_state (nd_metadata nd')) = Some (ob_peer_id m)
       | MAppendEntries q \<Rightarrow>
           nd_leader nd' \<noteq> None \<and> ae_leader_commit q \<le> nd_commit_index nd'
           \<and> (request_of q (node_term nd') (nd_self_id nd') (log_entries (nd_log nd')) \<and> length (ae_entries q) \<le> 4
              \<or> is_probe q nd')
       | MAppendEntriesReply y \<Rightarrow> aer_term y = node_term nd' \<and> (aer_success y \<longrightarrow> nd_leader nd' = None))"
proof -
  have "sent_ok nd' m" using node_step_handled [OF assms(1,2)] assms(3) by simp
  then show ?thesis unfolding sent_ok_def leads_def not_not .
qed

text \<open>C15: A leader's heartbeat cannot fail: whatever its state, the timeout sends a request to each peer, asks
  for the next heartbeat and the node goes on leading.\<close>

theorem heartbeat_always_sent:
  assumes "full_inv nd" and "nd_leader nd \<noteq> None" and "on_heartbeat_timeout nd w = (r, nd', w')"
  shows "nd_leader nd' \<noteq> None \<and> (\<exists>a. r = Inr a \<and> schedule_heartbeat a
    \<and> (\<forall>p \<in> set (list2 (nd_peer_ids nd)). \<exists>q. \<lparr>ob_peer_id = p, ob_message = MAppendEntries q\<rparr> \<in> set (messages a)))"
  using on_heartbeat_timeout_handled [OF assms(1,3)] assms(2) by (simp add: leads_def)

theorem heartbeat_always_sent_witness:
  "\<exists>a. fst (on_heartbeat_timeout sample_leading_node \<lparr>script = [], trace = []\<rparr>) = Inr a \<and> schedule_heartbeat a"
proof -
  obtain r nd' w' where s: "on_heartbeat_timeout sample_leading_node \<lparr>script = [], trace = []\<rparr> = (r, nd', w')"
    by (metis prod_cases3)
  have "nd_leader sample_leading_node \<noteq> None" by (simp add: sample_leading_node_def)
  from heartbeat_always_sent [OF sample_leading_inv this s] show ?thesis unfolding s by auto
qed

theorem queued_messages_true_witness:
  "\<exists>a nd' w' m. node_step HeartbeatTimeout sample_leading_node \<lparr>script = [], trace = []\<rparr> = (Inr a, nd', w')
     \<and> m \<in> set (messages a) \<and> ob_peer_id m \<in> set (list2 (nd_peer_ids nd'))"
proof -
  obtain r nd' w' where s: "on_heartbeat_timeout sample_leading_node \<lparr>script = [], trace = []\<rparr> = (r, nd', w')"
    by (metis prod_cases3)
  have "leads sample_leading_node" by (simp add: leads_def sample_leading_node_def)
  moreover have "2 \<in> set (list2 (nd_peer_ids sample_leading_node))" by (simp add: sample_leading_node_def sample_node_def)
  ultimately obtain a q where a: "r = Inr a" "\<lparr>ob_peer_id = 2, ob_message = MAppendEntries q\<rparr> \<in> set (messages a)"
    using on_heartbeat_timeout_handled [OF sample_leading_inv s] by blast
  have step: "node_step HeartbeatTimeout sample_leading_node \<lparr>script = [], trace = []\<rparr> = (Inr a, nd', w')"
    using s a(1) by simp
  from queued_messages_true [OF sample_leading_inv step a(2)] step a(2) show ?thesis by blast
qed

end
