(* ===== verification/Raft_Node_Facts.thy ===== *)
theory Raft_Node_Facts
  imports Raft_Node_Step
begin

text \<open>
  One event of one node, as far as the other nodes can tell: how its log, its vote, its candidacy, its
  commit index and its progress table may change, and what a positive reply means. These facts are
  all that the theory Raft_Cluster uses of the handlers.
\<close>

section \<open>The log\<close>

text \<open>Any change but a leader's own comes from an accepted request.\<close>

definition merged :: "append_entries \<Rightarrow> raft_node \<Rightarrow> raft_node \<Rightarrow> bool" where
  "merged q nd nd' \<longleftrightarrow>
     accepted q (node_entries nd) \<and> node_term nd' = ae_term q \<and> \<not> leads nd'
     \<and> (\<exists>j \<le> length (ae_entries q).
          node_entries nd' = take (unat (ae_prev_log_index q)) (node_entries nd) @ take j (ae_entries q)
          \<or> node_entries nd' = node_entries nd)
     \<and> (\<forall>n \<le> length (node_entries nd).
          take n (node_entries nd) = take n (take (unat (ae_prev_log_index q)) (node_entries nd) @ ae_entries q)
          \<longrightarrow> take n (node_entries nd') = take n (node_entries nd))
     \<and> (take (length (ae_entries q)) (drop (unat (ae_prev_log_index q)) (node_entries nd)) = ae_entries q
          \<longrightarrow> node_entries nd' = node_entries nd)"

lemma grows_wins: "wins p reply nd nd' \<Longrightarrow> grows nd nd'"
  by (auto simp: grows_def wins_def node_term_def)

lemma queue_append_log: "queue_append p a nd = (ok, a', nd') \<Longrightarrow> nd_log nd' = nd_log nd"
  by (drule queue_append_moved) (simp add: leader_moved_fields)

lemma queue_appends_log: "queue_appends ps a nd = (ok, a', nd') \<Longrightarrow> nd_log nd' = nd_log nd"
  by (drule queue_appends_moved) (simp add: leader_moved_fields)

lemma apply_ready_log: "apply_ready a nd = (ok, a', nd') \<Longrightarrow> nd_log nd' = nd_log nd"
  using apply_ready_state [of a nd ok a' nd'] by auto

lemma start_waiting_reads_log: "start_waiting_reads a nd = (a', nd') \<Longrightarrow> nd_log nd' = nd_log nd"
  by (auto simp: start_waiting_reads_def split: if_splits prod.splits)

lemmas helpers_log = queue_append_log queue_appends_log apply_ready_log start_waiting_reads_log

lemma after_append_reply_log: "after_append_reply out p nd = (ok, a, nd') \<Longrightarrow> nd_log nd' = nd_log nd"
  by (cases out) (auto simp: after_append_reply_def split: prod.splits option.splits if_splits dest!: helpers_log)

lemma finish_read_log: "finish_read sent reply a nd w = (r, nd', w') \<Longrightarrow> nd_log nd' = nd_log nd"
  by (auto simp: finish_read_def Let_def stop_def split: if_splits option.splits)

lemma quiet_log:
  "on_election_timeout nd w = (r, nd', w') \<Longrightarrow> nd_log nd' = nd_log nd"
  "on_heartbeat_timeout nd w = (r, nd', w') \<Longrightarrow> nd_log nd' = nd_log nd"
  "on_request_vote p req nd w = (r, nd', w') \<Longrightarrow> nd_log nd' = nd_log nd"
  "read_barrier nd w = (r, nd', w') \<Longrightarrow> nd_log nd' = nd_log nd"
  by (auto simp: on_election_timeout_def on_heartbeat_timeout_def on_request_vote_def read_barrier_def Let_def stop_def
      split: if_splits prod.splits sum.splits option.splits dest!: helpers_log)

lemma on_append_reply_log: "on_append_reply p q reply nd w = (r, nd', w') \<Longrightarrow> nd_log nd' = nd_log nd"
  by (auto simp: on_append_reply_def Let_def stop_def
      split: if_splits prod.splits sum.splits option.splits dest!: after_append_reply_log finish_read_log)

lemma on_append_entries_log:
  assumes inv: "full_inv nd" and run: "on_append_entries p q nd w = (r, nd', w')"
  shows "node_entries nd' = node_entries nd \<or> merged q nd nd'"
proof (cases "nd_stopped nd \<or> \<not> is_peer p nd \<or> ae_leader_id q \<noteq> p")
  case True
  then show ?thesis using run by (auto simp: on_append_entries_def split: if_splits)
next
  case False
  have wf: "log_wf (nd_log nd)" using full_inv_parts(3) [OF inv] by (simp add: core_inv_def)
  obtain res m l c v where h: "handle_append_entries q (nd_metadata nd) (nd_log nd) (nd_commit_index nd) w
      = (res, m, l, c, v)" by (metis prod_cases5)
  note o = handle_append_entries_outcome [OF wf h]
  have out: "nd_log nd' = l \<and> nd_metadata nd' = m"
    using run False h
    by (auto simp: on_append_entries_def Let_def stop_def split: if_splits sum.splits prod.splits dest!: apply_ready_state)
  show ?thesis
  proof (cases "node_entries nd' = node_entries nd")
    case same: False
    then have new: "accepted q (node_entries nd)" "current_term (pm_state m) = ae_term q"
      "\<exists>j \<le> length (ae_entries q). log_entries l = take (unat (ae_prev_log_index q)) (node_entries nd) @ take j (ae_entries q)"
      using o out by auto
    have keep: "\<forall>n \<le> length (node_entries nd).
          take n (node_entries nd) = take n (take (unat (ae_prev_log_index q)) (node_entries nd) @ ae_entries q)
          \<longrightarrow> take n (log_entries l) = take n (node_entries nd)"
      using handle_append_entries_keeps [OF wf h] by blast
    have "\<not> leads nd'"
    proof (cases res)
      case (Inl e)
      have "e \<noteq> append_entries_handle_error.InvalidRequest"
      proof
        assume e: "e = append_entries_handle_error.InvalidRequest"
        have "l = nd_log nd" by (rule handle_append_entries_invalid [OF wf h [unfolded Inl e]])
        then show False using same out by simp
      qed
      then show ?thesis
        using run False h Inl by (auto simp: on_append_entries_def Let_def stop_def leads_def)
    next
      case (Inr reply)
      have s: "aer_success reply" "ae_term q \<noteq> 0" "aer_term reply = ae_term q"
        using o Inr same out by (auto split: if_splits)
      then show ?thesis
        using run False h Inr
        by (auto simp: on_append_entries_def Let_def stop_def leads_def
            split: if_splits prod.splits dest!: apply_ready_state)
    qed
    then show ?thesis
      using new keep out handle_append_entries_held [OF wf h] by (auto simp: merged_def node_term_def)
  qed simp
qed

lemma node_step_log:
  assumes inv: "full_inv nd" and run: "node_step ev nd w = (r, nd', w')"
  shows "grows nd nd' \<or> (\<exists>p q. ev = ReceiveAppendEntries p q \<and> merged q nd nd')"
proof (cases ev)
  case (ReceiveVoteReply p reply)
  then show ?thesis using on_vote_reply_handled [OF inv, of p reply w r nd' w'] run
    by (auto intro: grows_same grows_wins)
next
  case (ReceiveAppendEntries p q)
  then show ?thesis using on_append_entries_log [OF inv, of p q w r nd' w'] run by (auto intro: grows_same)
next
  case (Propose c)
  then show ?thesis using propose_handled [OF inv, of c w r nd' w'] run by simp
qed (use run in \<open>auto intro!: grows_same dest!: quiet_log on_append_reply_log\<close>)

section \<open>Accepted requests\<close>

definition accepts :: "append_entries \<Rightarrow> raft_node \<Rightarrow> raft_node \<Rightarrow> bool" where
  "accepts q nd nd' \<longleftrightarrow> merged q nd nd'
     \<and> node_entries nd' = merge_entries (node_entries nd) (unat (ae_prev_log_index q)) (ae_entries q)
     \<and> nd_commit_index nd' = max (nd_commit_index nd) (min (ae_leader_commit q)
         (of_nat (unat (ae_prev_log_index q) + length (ae_entries q))))"

definition acknowledges :: "outbound_raft_message \<Rightarrow> bool" where
  "acknowledges m \<longleftrightarrow> (\<exists>y. ob_message m = MAppendEntriesReply y \<and> aer_success y)"

lemma merge_entries_take:
  "\<exists>j \<le> length es. merge_entries old p es = take p old @ take j es \<or> merge_entries old p es = old"
  by (auto simp: merge_entries_def intro: exI [of _ "length es"])

lemma on_append_entries_accepts:
  assumes inv: "full_inv nd" and run: "on_append_entries p q nd w = (r, nd', w')"
  shows "accepts q nd nd' \<or> nd_commit_index nd' = nd_commit_index nd \<and> (\<forall>m \<in> set (msgs r). \<not> acknowledges m)"
proof (cases "nd_stopped nd \<or> \<not> is_peer p nd \<or> ae_leader_id q \<noteq> p")
  case True
  then show ?thesis using run by (auto simp: on_append_entries_def split: if_splits)
next
  case False
  have wf: "log_wf (nd_log nd)" using full_inv_parts(3) [OF inv] by (simp add: core_inv_def)
  obtain res m l c v where h: "handle_append_entries q (nd_metadata nd) (nd_log nd) (nd_commit_index nd) w
      = (res, m, l, c, v)" by (metis prod_cases5)
  note o = handle_append_entries_outcome [OF wf h]
  have out: "nd_log nd' = l \<and> nd_metadata nd' = m \<and> nd_commit_index nd' = c"
    using run False h
    by (auto simp: on_append_entries_def Let_def stop_def split: if_splits sum.splits prod.splits dest!: apply_ready_state)
  show ?thesis
  proof (cases res)
    case (Inl e)
    then have "msgs r = []" "c = nd_commit_index nd"
      using run False h o by (auto simp: on_append_entries_def Let_def stop_def split: if_splits)
    then show ?thesis using out by simp
  next
    case (Inr reply)
    show ?thesis
    proof (cases "aer_success reply")
      case no: False
      then have "\<forall>m \<in> set (msgs r). \<not> acknowledges m" "c = nd_commit_index nd"
        using run False h o Inr by (auto simp: on_append_entries_def Let_def no_actions_def acknowledges_def split: if_splits)
      then show ?thesis using out by simp
    next
      case True
      have s: "accepted q (node_entries nd)" "ae_term q \<noteq> 0" "aer_term reply = ae_term q"
        "current_term (pm_state m) = ae_term q"
        "log_entries l = merge_entries (node_entries nd) (unat (ae_prev_log_index q)) (ae_entries q)"
        "c = max (nd_commit_index nd) (min (ae_leader_commit q)
           (of_nat (unat (ae_prev_log_index q) + length (ae_entries q))))"
        using o Inr True by auto
      have "\<not> leads nd'"
        using run False h Inr True s
        by (auto simp: on_append_entries_def Let_def stop_def leads_def
            split: if_splits prod.splits dest!: apply_ready_state)
      moreover have "\<exists>j \<le> length (ae_entries q). log_entries l = take (unat (ae_prev_log_index q)) (node_entries nd) @ take j (ae_entries q)
          \<or> log_entries l = node_entries nd"
        unfolding s(5) by (rule merge_entries_take)
      ultimately show ?thesis
        using s out handle_append_entries_held [OF wf h] handle_append_entries_keeps [OF wf h]
        by (simp add: accepts_def merged_def node_term_def)
    qed
  qed
qed

section \<open>Votes and candidates\<close>

definition grants :: "outbound_raft_message \<Rightarrow> bool" where
  "grants m \<longleftrightarrow> (\<exists>y. ob_message m = MRequestVoteReply y \<and> rvr_vote_granted y)"

definition asks :: "outbound_raft_message \<Rightarrow> bool" where
  "asks m \<longleftrightarrow> (\<exists>q. ob_message m = MRequestVote q)"

lemma on_request_vote_grants:
  assumes run: "on_request_vote p q nd w = (r, nd', w')" and m: "m \<in> set (msgs r)" "grants m"
  shows "ob_peer_id m = p \<and> rv_candidate_id q = p \<and> rv_term q = node_term nd' \<and> rv_term q \<noteq> 0
    \<and> candidate_log_is_up_to_date q (nd_log nd)"
proof -
  obtain res md v where h: "handle_request_vote (nd_log nd) q (nd_metadata nd) w = (res, md, v)"
    by (metis prod_cases3)
  show ?thesis
    using run m h handle_request_vote_outcome [OF h]
    by (auto simp: on_request_vote_def Let_def stop_def no_actions_def grants_def node_term_def
        split: if_splits sum.splits)
qed

lemma same_election_role:
  assumes core: "core_inv nd" and le: "metadata_le (pm_state (nd_metadata nd)) (pm_state (nd_metadata nd'))"
    and el: "nd_election nd' = nd_election nd" and role: "node_role nd' = Candidate"
  shows "node_role nd = Candidate \<and> node_term nd' = node_term nd"
proof -
  have t: "node_term nd' = node_term nd"
    using stale_role [OF core_election [OF core] le] el role by (auto simp: node_role_def node_term_def)
  then have "node_role nd' = node_role nd"
    using same_metadata_role [OF core_election [OF core] le] el by (simp add: node_role_def node_term_def)
  with t role show ?thesis by simp
qed

text \<open>The kind of a message tells the event that queued it.\<close>

definition only_requests :: "outbound_raft_message list \<Rightarrow> bool" where
  "only_requests ms \<longleftrightarrow> (\<forall>m \<in> set ms. \<exists>q. ob_message m = MAppendEntries q)"

lemma only_requests_simps [simp]:
  "only_requests []" "only_requests (ms @ ns) \<longleftrightarrow> only_requests ms \<and> only_requests ns"
  "only_requests (to_peers q nd)"
  by (auto simp: only_requests_def to_peers_def)

lemma queue_append_only:
  "queue_append p a nd = (ok, a', nd') \<Longrightarrow> only_requests (messages a) \<Longrightarrow> only_requests (messages a')"
  by (auto simp: queue_append_def only_requests_def split: option.splits prod.splits sum.splits)

lemma queue_appends_only:
  "queue_appends ps a nd = (ok, a', nd') \<Longrightarrow> only_requests (messages a) \<Longrightarrow> only_requests (messages a')"
proof (induction ps arbitrary: a nd)
  case (Cons p ps)
  obtain ok1 a1 nd1 where q: "queue_append p a nd = (ok1, a1, nd1)" by (metis prod_cases3)
  then show ?case
    using Cons.IH [of a1 nd1] Cons.prems queue_append_only [OF q] by (auto split: if_splits)
qed simp

lemma apply_ready_only: "apply_ready a nd = (ok, a', nd') \<Longrightarrow> messages a' = messages a"
  using apply_ready_state [of a nd ok a' nd'] by auto

lemma start_rounds_only:
  "start_rounds nd rs a = (rs', a') \<Longrightarrow> only_requests (messages a) \<Longrightarrow> only_requests (messages a')"
  using start_rounds_messages [of nd rs a rs' a']
  by (fastforce simp: only_requests_def to_peers_def)

lemma start_waiting_reads_only:
  "start_waiting_reads a nd = (a', nd') \<Longrightarrow> only_requests (messages a) \<Longrightarrow> only_requests (messages a')"
  by (auto simp: start_waiting_reads_def split: if_splits prod.splits dest: start_rounds_only)

lemma after_append_reply_only:
  assumes run: "after_append_reply out p nd = (ok, a, nd')"
  shows "only_requests (messages a)"
proof (cases "out = Committed")
  case True
  obtain ok1 a1 nd1 where ap: "apply_ready no_actions nd = (ok1, a1, nd1)" by (metis prod_cases3)
  obtain ok2 a2 nd2 where q: "queue_appends (list2 (nd_peer_ids nd1)) a1 nd1 = (ok2, a2, nd2)" by (metis prod_cases3)
  obtain a3 nd3 where sw: "start_waiting_reads a2 nd2 = (a3, nd3)" by fastforce
  have "only_requests (messages a1)" using apply_ready_only [OF ap] by simp
  moreover then have "only_requests (messages a2)" by (rule queue_appends_only [OF q])
  moreover then have "only_requests (messages a3)" by (rule start_waiting_reads_only [OF sw])
  ultimately show ?thesis using run True ap q sw by (auto simp: after_append_reply_def split: if_splits)
next
  case False
  then show ?thesis
    using run
    by (cases out) (auto simp: after_append_reply_def split: option.splits if_splits dest: queue_append_only)
qed

lemma append_as_leader_only: "append_as_leader c nd w = (r, nd', w') \<Longrightarrow> only_requests (msgs r)"
  by (auto simp: append_as_leader_def Let_def stop_def no_actions_def
      split: option.splits prod.splits sum.splits if_splits dest: queue_appends_only)

lemma other_handlers_only:
  "on_heartbeat_timeout nd w = (r, nd', w') \<Longrightarrow> only_requests (msgs r)"
  "on_vote_reply p y nd w = (r, nd', w') \<Longrightarrow> only_requests (msgs r)"
  "on_append_reply p q z nd w = (r, nd', w') \<Longrightarrow> only_requests (msgs r)"
  "propose c nd w = (r, nd', w') \<Longrightarrow> only_requests (msgs r)"
  "read_barrier nd w = (r, nd', w') \<Longrightarrow> only_requests (msgs r)"
proof -
  have probes: "only_requests (concat (map (\<lambda>round. case snd round of None \<Rightarrow> [] | Some probe \<Rightarrow> to_peers probe n) rs))" for n rs
    by (induction rs) (auto split: option.split)
  show "on_heartbeat_timeout nd w = (r, nd', w') \<Longrightarrow> only_requests (msgs r)"
    by (auto simp: on_heartbeat_timeout_def Let_def stop_def no_actions_def probes
        split: option.splits prod.splits if_splits dest: queue_appends_only)
  show "on_vote_reply p y nd w = (r, nd', w') \<Longrightarrow> only_requests (msgs r)"
    by (auto simp: on_vote_reply_def Let_def stop_def no_actions_def
        split: option.splits prod.splits sum.splits if_splits dest: queue_appends_only)
  have fin: "only_requests (msgs r)" if "finish_read q z a n v = (r, nd', w')" "only_requests (messages a)" for a n v
    using that by (auto simp: finish_read_def Let_def stop_def split: if_splits option.splits)
  show "on_append_reply p q z nd w = (r, nd', w') \<Longrightarrow> only_requests (msgs r)"
    by (auto simp: on_append_reply_def Let_def stop_def no_actions_def
        split: option.splits prod.splits sum.splits if_splits intro: fin dest: after_append_reply_only)
  show "propose c nd w = (r, nd', w') \<Longrightarrow> only_requests (msgs r)"
    by (auto simp: propose_def split: option.splits if_splits dest: append_as_leader_only)
  show "read_barrier nd w = (r, nd', w') \<Longrightarrow> only_requests (msgs r)"
    by (auto simp: read_barrier_def Let_def stop_def no_actions_def
        split: option.splits prod.splits if_splits dest: start_waiting_reads_only)
qed

lemma only_requests_kind: "only_requests ms \<Longrightarrow> m \<in> set ms \<Longrightarrow> \<not> asks m \<and> \<not> grants m \<and> \<not> acknowledges m"
  by (auto simp: only_requests_def asks_def grants_def acknowledges_def)

lemma on_election_timeout_asks:
  assumes core: "core_inv nd" and run: "on_election_timeout nd w = (r, nd', w')"
  shows "(msgs r = [] \<and> (nd_stopped nd' \<or> nd' = nd))
    \<or> node_term nd < node_term nd' \<and> node_role nd' = Candidate \<and> set (msgs r) \<noteq> {} \<and> (\<forall>m \<in> set (msgs r). asks m)"
proof (cases "nd_stopped nd")
  case True
  then show ?thesis using run by (auto simp: on_election_timeout_def)
next
  case False
  obtain res m el v where s: "start_election (nd_log nd) (nd_metadata nd) (nd_election nd) w = (res, m, el, v)"
    by (metis prod_cases4)
  note out = start_election_outcome [OF core_election [OF core] s]
  have self: "el_self_id (nd_election nd) = nd_self_id nd" using core by (simp add: core_inv_def)
  show ?thesis
  proof (cases res)
    case (Inl e)
    then show ?thesis
      using run False s out by (auto simp: on_election_timeout_def Let_def stop_def split: if_splits)
  next
    case (Inr q)
    then show ?thesis
      using run False s out self
      by (auto simp: on_election_timeout_def Let_def node_term_def node_role_def election_role_def asks_def list2_def)
  qed
qed

lemma message_events:
  assumes inv: "full_inv nd" and run: "node_step ev nd w = (r, nd', w')" and m: "m \<in> set (msgs r)"
  shows "asks m \<Longrightarrow> ev = ElectionTimeout \<and> node_term nd < node_term nd' \<and> node_entries nd' = node_entries nd"
    and "grants m \<Longrightarrow> \<exists>q. ev = ReceiveRequestVote (ob_peer_id m) q \<and> rv_candidate_id q = ob_peer_id m
      \<and> rv_term q = node_term nd' \<and> candidate_log_is_up_to_date q (nd_log nd) \<and> node_entries nd' = node_entries nd"
    and "acknowledges m \<Longrightarrow> \<exists>p q. ev = ReceiveAppendEntries p q \<and> accepts q nd nd'"
proof -
  have core: "core_inv nd" using full_inv_parts(3) [OF inv] .
  have only: "\<not> asks m \<and> \<not> grants m \<and> \<not> acknowledges m" if "only_requests (msgs r)"
    using only_requests_kind [OF that m] .
  have vote: "\<not> asks m \<and> \<not> acknowledges m" if "on_request_vote p q nd w = (r, nd', w')" for p q
    using that m by (auto simp: on_request_vote_def Let_def stop_def no_actions_def asks_def acknowledges_def
        split: if_splits prod.splits sum.splits)
  have append: "\<not> asks m \<and> \<not> grants m" if "on_append_entries p q nd w = (r, nd', w')" for p q
    using that m by (auto simp: on_append_entries_def Let_def stop_def no_actions_def asks_def grants_def
        split: if_splits prod.splits sum.splits dest!: apply_ready_only)
  have timeout: "node_term nd < node_term nd' \<and> asks m \<and> node_entries nd' = node_entries nd"
    if "on_election_timeout nd w = (r, nd', w')"
    using on_election_timeout_asks [OF core that] m quiet_log(1) [OF that] by auto
  have no: "\<not> (asks m \<and> grants m)" "\<not> (asks m \<and> acknowledges m)"
    by (auto simp: asks_def grants_def acknowledges_def)
  show "asks m \<Longrightarrow> ev = ElectionTimeout \<and> node_term nd < node_term nd' \<and> node_entries nd' = node_entries nd"
    using run only vote append timeout by (cases ev) (auto dest: other_handlers_only)
  show "acknowledges m \<Longrightarrow> \<exists>p q. ev = ReceiveAppendEntries p q \<and> accepts q nd nd'"
  proof (cases "\<exists>p q. ev = ReceiveAppendEntries p q")
    case True
    then obtain p q where ev: "ev = ReceiveAppendEntries p q" by blast
    then have "on_append_entries p q nd w = (r, nd', w')" using run by simp
    from on_append_entries_accepts [OF inv this] m ev show "acknowledges m \<Longrightarrow> ?thesis" by blast
  next
    case False
    then show "acknowledges m \<Longrightarrow> ?thesis"
      using run only vote timeout no by (cases ev) (auto dest: other_handlers_only)
  qed
  assume g: "grants m"
  show "\<exists>q. ev = ReceiveRequestVote (ob_peer_id m) q \<and> rv_candidate_id q = ob_peer_id m
      \<and> rv_term q = node_term nd' \<and> candidate_log_is_up_to_date q (nd_log nd) \<and> node_entries nd' = node_entries nd"
  proof (cases "\<exists>p q. ev = ReceiveRequestVote p q")
    case True
    then obtain p q where ev: "ev = ReceiveRequestVote p q" by blast
    then have "on_request_vote p q nd w = (r, nd', w')" using run by simp
    from on_request_vote_grants [OF this m g] quiet_log(3) [OF this] ev show ?thesis by simp
  next
    case False
    then show ?thesis using run only append timeout no g by (cases ev) (auto dest: other_handlers_only)
  qed
qed

text \<open>A running candidate was one before, with the same log, or has just asked for votes.\<close>

lemma quiet_election:
  "on_heartbeat_timeout nd w = (r, nd', w') \<Longrightarrow> nd_election nd' = nd_election nd"
  "on_request_vote p q nd w = (r, nd', w') \<Longrightarrow> nd_election nd' = nd_election nd"
  "read_barrier nd w = (r, nd', w') \<Longrightarrow> nd_election nd' = nd_election nd"
  "append_as_leader c nd w = (r, nd', w') \<Longrightarrow> nd_election nd' = nd_election nd"
  by (auto simp: on_heartbeat_timeout_def on_request_vote_def read_barrier_def append_as_leader_def
      start_waiting_reads_def Let_def stop_def leader_moved_fields
      split: if_splits prod.splits sum.splits option.splits dest!: queue_appends_moved)

lemma after_append_reply_election: "after_append_reply out p nd = (ok, a, nd') \<Longrightarrow> nd_election nd' = nd_election nd"
proof -
  have "apply_ready a n = (ok, a', n') \<Longrightarrow> nd_election n' = nd_election n" for a n ok a' n'
    using apply_ready_state [of a n ok a' n'] by auto
  moreover have "start_waiting_reads a n = (a', n') \<Longrightarrow> nd_election n' = nd_election n" for a n a' n'
    by (auto simp: start_waiting_reads_def split: if_splits prod.splits)
  moreover have "queue_append q a n = (ok, a', n') \<Longrightarrow> nd_election n' = nd_election n"
    "queue_appends qs a n = (ok, a', n') \<Longrightarrow> nd_election n' = nd_election n" for q qs a n ok a' n'
    by (simp_all add: leader_moved_fields [OF queue_append_moved] leader_moved_fields [OF queue_appends_moved])
  ultimately show "after_append_reply out p nd = (ok, a, nd') \<Longrightarrow> nd_election nd' = nd_election nd"
    by (cases out) (auto simp: after_append_reply_def split: prod.splits option.splits if_splits)
qed

lemma on_append_reply_election: "on_append_reply p q y nd w = (r, nd', w') \<Longrightarrow> nd_election nd' = nd_election nd"
  by (auto simp: on_append_reply_def finish_read_def Let_def stop_def
      split: if_splits prod.splits sum.splits option.splits dest!: after_append_reply_election)

lemma propose_election: "propose c nd w = (r, nd', w') \<Longrightarrow> nd_election nd' = nd_election nd"
  by (auto simp: propose_def split: if_splits option.splits dest: quiet_election(4))

lemma on_append_entries_election:
  assumes run: "on_append_entries p q nd w = (r, nd', w')"
    and go: "\<not> (nd_stopped nd \<or> \<not> is_peer p nd \<or> ae_leader_id q \<noteq> p)"
    and h: "handle_append_entries q (nd_metadata nd) (nd_log nd) (nd_commit_index nd) w = (Inr reply, m, l, c, v)"
  shows "nd_election nd' = (if ae_term q \<noteq> 0 \<and> ae_term q = aer_term reply
    then observe_leader (ae_term q) m (nd_election nd) else nd_election nd)"
proof -
  let ?live = "ae_term q \<noteq> 0 \<and> ae_term q = aer_term reply"
  let ?nd = "nd\<lparr>nd_metadata := m, nd_log := l, nd_commit_index := c\<rparr>"
  define nd2 where "nd2 = (if node_term ?nd > node_term nd then drop_leadership ?nd else ?nd)"
  define ndo where "ndo = nd2\<lparr>nd_election := observe_leader (ae_term q) (nd_metadata nd2) (nd_election nd2)\<rparr>"
  define nd3 where "nd3 = (if ?live then (drop_leadership ndo)\<lparr>nd_known_leader := Some p\<rparr> else nd2)"
  let ?acts = "no_actions\<lparr>reset_election_timer := ?live\<rparr>"
  obtain ok acts nd4 where ap: "(if aer_success reply then apply_ready ?acts nd3 else (True, ?acts, nd3))
      = (ok, acts, nd4)" by (metis prod_cases3)
  note un = run [unfolded on_append_entries_def h prod.case Let_def sum.case,
      folded nd2_def, folded ndo_def, folded nd3_def, unfolded ap prod.case]
  have "nd_election nd4 = nd_election nd3"
    using ap apply_ready_state [of ?acts nd3 ok acts nd4] by (cases "aer_success reply") auto
  moreover have "nd_election nd' = nd_election nd4"
    using un go by (cases ok) (auto simp: stop_def)
  moreover have "nd_election nd3 = (if ?live then observe_leader (ae_term q) m (nd_election nd) else nd_election nd)"
    unfolding nd3_def ndo_def nd2_def by simp
  ultimately show ?thesis by simp
qed

lemma on_append_entries_candidate:
  assumes inv: "full_inv nd" and run: "on_append_entries p q nd w = (r, nd', w')"
    and role: "node_role nd' = Candidate" and live: "\<not> nd_stopped nd'"
  shows "nd_election nd' = nd_election nd \<and> node_entries nd' = node_entries nd"
proof (cases "nd_stopped nd \<or> \<not> is_peer p nd \<or> ae_leader_id q \<noteq> p")
  case True
  then show ?thesis using run by (auto simp: on_append_entries_def split: if_splits)
next
  case False
  have wf: "log_wf (nd_log nd)" using full_inv_parts(3) [OF inv] by (simp add: core_inv_def)
  obtain res m l c v where h: "handle_append_entries q (nd_metadata nd) (nd_log nd) (nd_commit_index nd) w
      = (res, m, l, c, v)" by (metis prod_cases5)
  note o = handle_append_entries_outcome [OF wf h]
  have out: "nd_log nd' = l \<and> nd_metadata nd' = m"
    using run False h
    by (auto simp: on_append_entries_def Let_def stop_def split: if_splits sum.splits prod.splits dest!: apply_ready_state)
  show ?thesis
  proof (cases res)
    case (Inl e)
    have e: "e = append_entries_handle_error.InvalidRequest"
      using run False h Inl live by (auto simp: on_append_entries_def Let_def stop_def split: if_splits)
    have "l = nd_log nd" by (rule handle_append_entries_invalid [OF wf h [unfolded Inl e]])
    moreover have "nd' = drop_leadership (nd\<lparr>nd_metadata := m, nd_log := l, nd_commit_index := c\<rparr>)
        \<or> nd' = nd\<lparr>nd_metadata := m, nd_log := l, nd_commit_index := c\<rparr>"
      using run False h Inl e by (auto simp: on_append_entries_def Let_def)
    ultimately show ?thesis by auto
  next
    case (Inr reply)
    note el = on_append_entries_election [OF run False h [unfolded Inr]]
    have trm: "aer_term reply = current_term (pm_state m)" using o Inr by simp
    have dead: "\<not> (ae_term q \<noteq> 0 \<and> ae_term q = aer_term reply)"
    proof
      assume l: "ae_term q \<noteq> 0 \<and> ae_term q = aer_term reply"
      have "ae_term q = current_term (pm_state m)" using l trm by argo
      then have "election_role m (observe_leader (ae_term q) m (nd_election nd)) = Follower"
        using l by (intro observe_leader_role) blast+
      moreover have "nd_election nd' = observe_leader (ae_term q) m (nd_election nd)" using el l by argo
      ultimately show False using role out by (simp add: node_role_def)
    qed
    have "aer_success reply \<Longrightarrow> ae_term q \<noteq> 0 \<and> aer_term reply = ae_term q" using o Inr by auto
    then have "\<not> aer_success reply" using dead by metis
    then have "l = nd_log nd" using o Inr by simp
    moreover have "nd_election nd' = nd_election nd" using el dead by argo
    ultimately show ?thesis using out by simp
  qed
qed

lemma on_vote_reply_candidate:
  assumes core: "core_inv nd" and run: "on_vote_reply p y nd w = (r, nd', w')"
    and role: "node_role nd' = Candidate"
  shows "node_role nd = Candidate \<and> node_term nd' = node_term nd"
proof (cases "nd_stopped nd \<or> \<not> is_peer p nd")
  case True
  then show ?thesis using run role by (auto simp: on_vote_reply_def split: if_splits)
next
  case False
  obtain res m el v where h: "handle_vote_reply p y (nd_metadata nd) (nd_election nd) w = (res, m, el, v)"
    by (metis prod_cases4)
  note out = handle_vote_reply_outcome [OF core_election [OF core] h]
  have "nd_metadata nd' = m \<and> nd_election nd' = el"
    using run False h
    by (auto simp: on_vote_reply_def Let_def stop_def leader_moved_fields
        split: if_splits option.splits prod.splits sum.splits dest!: queue_appends_moved)
  then have "election_role m el = Candidate" using role by (simp add: node_role_def)
  then have "res \<in> {vote_reply_outcome.Ignored, vote_reply_outcome.Recorded}" using out by (cases res) auto
  then have "m = nd_metadata nd" "election_role m el = election_role m (nd_election nd)" using out by auto
  then show ?thesis
    using \<open>nd_metadata nd' = m \<and> nd_election nd' = el\<close> role by (simp add: node_role_def node_term_def)
qed

lemma candidate_step:
  assumes inv: "full_inv nd" and run: "node_step ev nd w = (r, nd', w')"
    and role: "node_role nd' = Candidate" and live: "\<not> nd_stopped nd'"
  shows "node_role nd = Candidate \<and> \<not> nd_stopped nd \<and> node_term nd' = node_term nd \<and> node_entries nd' = node_entries nd
    \<or> (\<exists>m \<in> set (msgs r). asks m)"
proof (cases "ev = ElectionTimeout")
  case True
  then show ?thesis
    using on_election_timeout_asks [OF full_inv_parts(3) [OF inv], of w r nd' w'] run role live by auto
next
  case False
  have core: "core_inv nd" using full_inv_parts(3) [OF inv] .
  have step: "sound_step nd nd'" by (rule node_step_sound [OF full_inv_parts(1) [OF inv] run])
  have was: "\<not> nd_stopped nd" using step live by (auto simp: sound_step_def node_le_def)
  have le: "metadata_le (pm_state (nd_metadata nd)) (pm_state (nd_metadata nd'))"
    using step by (simp add: sound_step_def node_le_def)
  have idle: "\<not> leads nd'"
    using leading_node(6) [of nd'] step role by (cases "nd_leader nd'") (auto simp: sound_step_def leads_def)
  have es: "node_entries nd' = node_entries nd"
    using node_step_log [OF inv run] idle on_append_entries_candidate [OF inv _ role live] run
    by (auto simp: grows_def)
  have same: "node_role nd = Candidate \<and> node_term nd' = node_term nd" if "nd_election nd' = nd_election nd"
    by (rule same_election_role [OF core le that role])
  have "node_role nd = Candidate \<and> node_term nd' = node_term nd"
  proof (cases ev)
    case (ReceiveVoteReply p y)
    then show ?thesis using on_vote_reply_candidate [OF core _ role] run by simp
  next
    case (ReceiveAppendEntries p q)
    then show ?thesis using on_append_entries_candidate [OF inv _ role live] run same by simp
  qed (use run same False in \<open>auto dest: quiet_election on_append_reply_election propose_election\<close>)
  then show ?thesis using was es by simp
qed

end
