(* ===== verification/Raft_Node_Commit.thy ===== *)
theory Raft_Node_Commit
  imports Raft_Node_Facts
begin

text \<open>
  Where a leader's progress table and a node's commit index come from. An entry of the table is
  zero, an earlier one, or taken from the positive reply being handled; a commit index moves with an
  accepted request, or to an entry of the leader's term that the table says a peer holds.
\<close>

text \<open>The entry at index \<open>n\<close> is of the node's own term.\<close>

definition holds_own :: "raft_node \<Rightarrow> nat \<Rightarrow> bool" where
  "holds_own nd n \<longleftrightarrow> 0 < n \<and> n \<le> length (node_entries nd) \<and> entry_term (node_entries nd ! (n - 1)) = node_term nd"

section \<open>The progress table\<close>

definition table :: "raft_leader \<Rightarrow> (u64 \<times> u64) list" where
  "table ld = map (\<lambda>p. (ps_id p, match_index (ps_progress p))) (list2 (ld_peers ld))"

definition node_table :: "raft_node \<Rightarrow> (u64 \<times> u64) list" where
  "node_table nd = (case nd_leader nd of None \<Rightarrow> [] | Some ld \<Rightarrow> table ld)"

definition matched_from :: "node_event \<Rightarrow> raft_node \<Rightarrow> (u64 \<times> u64) list \<Rightarrow> bool" where
  "matched_from ev nd tb \<longleftrightarrow> (\<forall>p k. (p, k) \<in> set tb \<longrightarrow>
     k = 0 \<or> (p, k) \<in> set (node_table nd)
     \<or> (\<exists>q y. ev = ReceiveAppendReply p q y \<and> aer_success y \<and> aer_term y = node_term nd
         \<and> request_of q (node_term nd) (nd_self_id nd) (node_entries nd)
         \<and> unat k = unat (ae_prev_log_index q) + length (ae_entries q)))"

lemma matched_from_same [simp]: "matched_from ev nd (node_table nd)" "matched_from ev nd []"
  by (auto simp: matched_from_def)

lemma node_table_drop [simp]: "node_table (drop_leadership nd) = []"
  by (simp add: node_table_def)

lemma table_set_peer:
  "i < 2 \<Longrightarrow> set (table (set_peer i p ld)) \<subseteq> insert (ps_id p, match_index (ps_progress p)) (set (table ld))"
  by (auto simp: table_def set_peer_def set2_def list2_def)

lemma find_peer_get: "find_peer p ld = Some i \<Longrightarrow> i < 2 \<and> ps_id (get2 i (ld_peers ld)) = p"
  by (auto simp: find_peer_def split: if_splits)

lemma get2_in_table: "(ps_id (get2 i (ld_peers ld)), match_index (ps_progress (get2 i (ld_peers ld)))) \<in> set (table ld)"
  by (auto simp: table_def list2_def get2_def)

lemma make_request_table: "make_request el m l c p k ld = (res, ld') \<Longrightarrow> set (table ld') \<subseteq> set (table ld)"
  using table_set_peer [of _ _ ld] get2_in_table [of _ ld] find_peer_get [of p ld]
  by (fastforce simp: make_request_def Let_def split: option.splits if_splits)

lemma handle_reply_table:
  assumes run: "handle_reply el l p q y m c ld w = (res, m', c', ld', w')"
    and wf: "log_wf l" and inv: "leader_inv n ld (log_entries l)" and k: "(p', k) \<in> set (table ld')"
  shows "(p', k) \<in> set (table ld)
    \<or> p' = p \<and> aer_success y \<and> aer_term y = ld_term ld \<and> request_of q (ld_term ld) (ld_self_id ld) (log_entries l)
        \<and> unat k = unat (ae_prev_log_index q) + length (ae_entries q)"
  using run
proof (cases rule: handle_reply_cases)
  case (failed i)
  have "match_index (ps_progress (backed_off x)) = match_index (ps_progress x)" for x
    by (simp add: backed_off_def)
  then show ?thesis
    using k failed table_set_peer [of i "backed_off (get2 i (ld_peers ld))" ld] get2_in_table [of i ld]
      find_peer_get [of p ld i] by auto
next
  case (matched i b)
  let ?x = "get2 i (ld_peers ld)" and ?j = "ae_prev_log_index q + of_nat (length (ae_entries q)) :: u64"
  have q: "request_of q (ld_term ld) (ld_self_id ld) (log_entries l)"
    using leader_inv_peer [OF inv, of i] matched(4) by (simp add: peer_inv_def)
  have "unat (ae_prev_log_index q) + length (ae_entries q) < 2 ^ 64"
    using q log_wf_length [OF wf] by (simp add: request_of_def)
  then have j: "unat ?j = unat (ae_prev_log_index q) + length (ae_entries q)"
    by (simp add: unat_word_ariths unat_of_nat_64)
  have "match_index (ps_progress (matched_to q ?x)) = max (match_index (ps_progress ?x)) ?j"
    by (simp add: matched_to_def Let_def)
  then have "(p', k) \<in> set (table ld) \<or> p' = p \<and> k = ?j"
    using k matched(9) table_set_peer [of i "matched_to q ?x" ld] get2_in_table [of i ld]
      find_peer_get [OF matched(11)] by (auto simp: max_def split: if_splits)
  then show ?thesis using q j matched(3,5) by auto
qed (use k in \<open>auto simp: table_def\<close>)

lemma new_leader_table: "new_leader el m l c = Some ld \<Longrightarrow> \<forall>(p, k) \<in> set (table ld). k = 0"
  by (auto simp: new_leader_def Let_def table_def list2_def split: if_splits)

lemma append_command_table:
  "append_command el m c l ld w = (res, l', ld', w') \<Longrightarrow> table ld' = table ld"
  by (auto simp: append_command_def Let_def table_def split: if_splits prod.splits)

section \<open>The table in the handlers\<close>

lemma queue_append_table: "queue_append p a nd = (ok, a', nd') \<Longrightarrow> set (node_table nd') \<subseteq> set (node_table nd)"
  by (auto simp: queue_append_def node_table_def intro: make_request_table [THEN subsetD]
      split: option.splits prod.splits sum.splits)

lemma queue_appends_table: "queue_appends ps a nd = (ok, a', nd') \<Longrightarrow> set (node_table nd') \<subseteq> set (node_table nd)"
proof (induction ps arbitrary: a nd)
  case (Cons p ps)
  obtain ok1 a1 nd1 where q: "queue_append p a nd = (ok1, a1, nd1)" by (metis prod_cases3)
  then show ?case
    using Cons.IH [of a1 nd1] Cons.prems queue_append_table [OF q] by (auto split: if_splits)
qed simp

lemma apply_ready_table: "apply_ready a nd = (ok, a', nd') \<Longrightarrow> node_table nd' = node_table nd"
  using apply_ready_state [of a nd ok a' nd'] by (auto simp: node_table_def)

lemma start_waiting_reads_table: "start_waiting_reads a nd = (a', nd') \<Longrightarrow> node_table nd' = node_table nd"
  by (auto simp: start_waiting_reads_def node_table_def split: if_splits prod.splits)

lemma after_append_reply_table:
  assumes run: "after_append_reply out p nd = (ok, a, nd')"
  shows "set (node_table nd') \<subseteq> set (node_table nd) \<and> nd_commit_index nd' = nd_commit_index nd"
proof (cases "out = Committed")
  case True
  obtain ok1 a1 nd1 where ap: "apply_ready no_actions nd = (ok1, a1, nd1)" by (metis prod_cases3)
  obtain ok2 a2 nd2 where q: "queue_appends (list2 (nd_peer_ids nd1)) a1 nd1 = (ok2, a2, nd2)" by (metis prod_cases3)
  obtain a3 nd3 where sw: "start_waiting_reads a2 nd2 = (a3, nd3)" by fastforce
  have c: "nd_commit_index nd1 = nd_commit_index nd" "nd_commit_index nd2 = nd_commit_index nd1"
    "nd_commit_index nd3 = nd_commit_index nd2"
    using apply_ready_state [OF ap] leader_moved_fields(6) [OF queue_appends_moved [OF q]] sw
    by (auto simp: start_waiting_reads_def split: if_splits prod.splits)
  have "nd' = nd1 \<or> nd' = nd2 \<or> nd' = nd3"
    using run True ap q sw by (auto simp: after_append_reply_def split: if_splits)
  then show ?thesis
    using apply_ready_table [OF ap] queue_appends_table [OF q] start_waiting_reads_table [OF sw] c by auto
next
  case False
  then have "nd' = nd \<or> (\<exists>ok a' a''. queue_append p a' nd = (ok, a'', nd'))"
    using run by (cases out) (auto simp: after_append_reply_def split: option.splits if_splits)
  then show ?thesis
    using queue_append_table leader_moved_fields(6) [OF queue_append_moved] by blast
qed

lemma after_append_reply_metadata: "after_append_reply out p nd = (ok, a, nd') \<Longrightarrow> nd_metadata nd' = nd_metadata nd"
proof -
  have "apply_ready a n = (ok, a', n') \<Longrightarrow> nd_metadata n' = nd_metadata n" for a n ok a' n'
    using apply_ready_state [of a n ok a' n'] by auto
  moreover have "start_waiting_reads a n = (a', n') \<Longrightarrow> nd_metadata n' = nd_metadata n" for a n a' n'
    by (auto simp: start_waiting_reads_def split: if_splits prod.splits)
  moreover have "queue_append q a n = (ok, a', n') \<Longrightarrow> nd_metadata n' = nd_metadata n"
    "queue_appends qs a n = (ok, a', n') \<Longrightarrow> nd_metadata n' = nd_metadata n" for q qs a n ok a' n'
    by (simp_all add: leader_moved_fields [OF queue_append_moved] leader_moved_fields [OF queue_appends_moved])
  ultimately show "after_append_reply out p nd = (ok, a, nd') \<Longrightarrow> nd_metadata nd' = nd_metadata nd"
    by (cases out) (auto simp: after_append_reply_def split: prod.splits option.splits if_splits)
qed

lemma finish_read_table:
  "finish_read q y a nd w = (r, nd', w') \<Longrightarrow>
     set (node_table nd') \<subseteq> set (node_table nd) \<and> nd_commit_index nd' = nd_commit_index nd"
  by (auto simp: finish_read_def Let_def stop_def node_table_def split: if_splits option.splits)

section \<open>Any event\<close>

lemma matched_from_subset: "set tb \<subseteq> set (node_table nd) \<Longrightarrow> matched_from ev nd tb"
  by (auto simp: matched_from_def)

lemma matched_from_mono: "matched_from ev nd tb \<Longrightarrow> set tb' \<subseteq> set tb \<Longrightarrow> matched_from ev nd tb'"
  by (auto simp: matched_from_def)

lemma stop_table: "stop e nd w = (r, nd', w') \<Longrightarrow> node_table nd' = [] \<and> nd_commit_index nd' = nd_commit_index nd"
  by (auto simp: stop_def)

lemma quiet_table:
  "on_election_timeout nd w = (r, nd', w') \<Longrightarrow> set (node_table nd') \<subseteq> set (node_table nd) \<and> nd_commit_index nd' = nd_commit_index nd"
  "on_heartbeat_timeout nd w = (r, nd', w') \<Longrightarrow> set (node_table nd') \<subseteq> set (node_table nd) \<and> nd_commit_index nd' = nd_commit_index nd"
  "on_request_vote p q nd w = (r, nd', w') \<Longrightarrow> set (node_table nd') \<subseteq> set (node_table nd) \<and> nd_commit_index nd' = nd_commit_index nd"
  "read_barrier nd w = (r, nd', w') \<Longrightarrow> set (node_table nd') \<subseteq> set (node_table nd) \<and> nd_commit_index nd' = nd_commit_index nd"
proof -
  show "on_election_timeout nd w = (r, nd', w') \<Longrightarrow> set (node_table nd') \<subseteq> set (node_table nd) \<and> nd_commit_index nd' = nd_commit_index nd"
    by (auto simp: on_election_timeout_def Let_def stop_def node_table_def split: if_splits prod.splits sum.splits)
  have "set (node_table nd1) \<subseteq> set (node_table nd) \<and> nd_commit_index nd1 = nd_commit_index nd"
    if "queue_appends ps a nd = (ok, a', nd1)" for ps a ok a' nd1
    using queue_appends_table [OF that] leader_moved_fields(6) [OF queue_appends_moved [OF that]] by simp
  then show "on_heartbeat_timeout nd w = (r, nd', w') \<Longrightarrow> set (node_table nd') \<subseteq> set (node_table nd) \<and> nd_commit_index nd' = nd_commit_index nd"
    unfolding on_heartbeat_timeout_def
    by (auto simp: stop_def split: if_splits prod.splits option.splits)
  show "on_request_vote p q nd w = (r, nd', w') \<Longrightarrow> set (node_table nd') \<subseteq> set (node_table nd) \<and> nd_commit_index nd' = nd_commit_index nd"
    by (auto simp: on_request_vote_def Let_def stop_def node_table_def split: if_splits prod.splits sum.splits)
  show "read_barrier nd w = (r, nd', w') \<Longrightarrow> set (node_table nd') \<subseteq> set (node_table nd) \<and> nd_commit_index nd' = nd_commit_index nd"
    by (auto simp: read_barrier_def Let_def stop_def start_waiting_reads_def node_table_def
        split: if_splits prod.splits option.splits)
qed

lemma append_as_leader_table:
  assumes run: "append_as_leader c nd w = (r, nd', w')"
  shows "set (node_table nd') \<subseteq> set (node_table nd) \<and> nd_commit_index nd' = nd_commit_index nd"
proof (cases "nd_leader nd")
  case None
  then show ?thesis using run by (auto simp: append_as_leader_def split: if_splits)
next
  case (Some ld)
  obtain ap l ld1 v where a: "append_command (nd_election nd) (nd_metadata nd) c (nd_log nd) ld w = (ap, l, ld1, v)"
    by (metis prod_cases4)
  let ?nd = "nd\<lparr>nd_log := l, nd_leader := Some ld1\<rparr>"
  have t: "node_table ?nd = node_table nd" using append_command_table [OF a] Some by (simp add: node_table_def)
  have q: "set (node_table nd1) \<subseteq> set (node_table nd) \<and> nd_commit_index nd1 = nd_commit_index nd"
    if "queue_appends ps x ?nd = (ok, x', nd1)" for ps x ok x' nd1
    using queue_appends_table [OF that] leader_moved_fields(6) [OF queue_appends_moved [OF that]] t by simp
  consider "nd' = nd" | "nd' = ?nd" | e where "stop e ?nd v = (r, nd', w')"
    | ps x ok x' nd1 where "queue_appends ps x ?nd = (ok, x', nd1)"
        "nd' = nd1 \<or> stop InconsistentState nd1 v = (r, nd', w')"
    using run Some a unfolding append_as_leader_def Let_def
    by (auto split: if_splits prod.splits sum.splits)
  then show ?thesis
  proof cases
    case 2
    then show ?thesis using t by simp
  next
    case (3 e)
    then show ?thesis using stop_table [OF 3] by simp
  next
    case (4 ps x ok x' nd1)
    then show ?thesis using q [OF 4(1)] stop_table [of InconsistentState nd1 v r nd' w'] by auto
  qed simp
qed

lemma on_append_entries_table:
  assumes run: "on_append_entries p q nd w = (r, nd', w')"
  shows "set (node_table nd') \<subseteq> set (node_table nd)"
  using run
  by (auto simp: on_append_entries_def Let_def stop_def node_table_def
      split: if_splits sum.splits prod.splits dest!: apply_ready_state)

lemma on_vote_reply_table:
  assumes run: "on_vote_reply p y nd w = (r, nd', w')"
  shows "(\<forall>(i, k) \<in> set (node_table nd'). k = 0 \<or> (i, k) \<in> set (node_table nd)) \<and> nd_commit_index nd' = nd_commit_index nd"
proof -
  obtain res m el v where h: "handle_vote_reply p y (nd_metadata nd) (nd_election nd) w = (res, m, el, v)"
    by (metis prod_cases4)
  let ?nd = "nd\<lparr>nd_metadata := m, nd_election := el, nd_known_leader := Some (nd_self_id nd)\<rparr>"
  show ?thesis
  proof (cases "nd_stopped nd \<or> \<not> is_peer p nd \<or> res \<noteq> BecameLeader \<or> new_leader el m (nd_log nd) (nd_commit_index nd) = None")
    case True
    then show ?thesis
      using run h by (auto simp: on_vote_reply_def Let_def stop_def node_table_def split: if_splits)
  next
    case False
    then obtain ld where ld: "new_leader el m (nd_log nd) (nd_commit_index nd) = Some ld" and res: "res = BecameLeader" by auto
    obtain ap l ld1 w1 where a: "append_command el m noop_command (nd_log nd) ld v = (ap, l, ld1, w1)"
      by (metis prod_cases4)
    let ?ndl = "?nd\<lparr>nd_log := l, nd_leader := Some ld1\<rparr>"
    have z: "\<forall>(i, k) \<in> set (table ld1). k = 0"
      using new_leader_table [OF ld] append_command_table [OF a] by simp
    obtain ok x nd1 where q: "queue_appends (list2 (nd_peer_ids nd)) (no_actions\<lparr>schedule_heartbeat := True\<rparr>) ?ndl
        = (ok, x, nd1)" by (metis prod_cases3)
    have n1: "(\<forall>(i, k) \<in> set (node_table nd1). k = 0) \<and> nd_commit_index nd1 = nd_commit_index nd"
      using queue_appends_table [OF q] leader_moved_fields(6) [OF queue_appends_moved [OF q]] z
      by (auto simp: node_table_def)
    consider "stop PersistenceError ?ndl w1 = (r, nd', w')" | "nd' = nd1" | "stop InconsistentState nd1 w1 = (r, nd', w')"
      using run False h res ld a q by (cases ap; cases ok) (auto simp: on_vote_reply_def Let_def)
    then show ?thesis
    proof cases
      case 2
      then show ?thesis using n1 by auto
    next
      case 1
      from stop_table [OF this] show ?thesis by simp
    next
      case 3
      from stop_table [OF this] n1 show ?thesis by simp
    qed
  qed
qed

text \<open>A commit by counting replicas.\<close>

definition replicated :: "node_event \<Rightarrow> raft_node \<Rightarrow> raft_node \<Rightarrow> bool" where
  "replicated ev nd nd' \<longleftrightarrow> leads nd \<and> node_term nd' = node_term nd \<and> node_entries nd' = node_entries nd
     \<and> (\<exists>tb p k. matched_from ev nd tb \<and> (p, k) \<in> set tb \<and> p \<in> set (list2 (nd_peer_ids nd))
         \<and> 0 < unat (nd_commit_index nd') \<and> unat (nd_commit_index nd') \<le> unat k
         \<and> unat (nd_commit_index nd') \<le> length (node_entries nd)
         \<and> entry_term (node_entries nd ! (unat (nd_commit_index nd') - 1)) = node_term nd)"

lemma on_append_reply_table:
  assumes inv: "full_inv nd" and run: "on_append_reply p q y nd w = (r, nd', w')"
  shows "matched_from (ReceiveAppendReply p q y) nd (node_table nd')
    \<and> (nd_commit_index nd' = nd_commit_index nd \<or> replicated (ReceiveAppendReply p q y) nd nd')"
proof (cases "nd_stopped nd \<or> \<not> is_peer p nd \<or> nd_leader nd = None")
  case True
  then have "set (node_table nd') \<subseteq> set (node_table nd) \<and> nd_commit_index nd' = nd_commit_index nd"
    using run by (auto simp: on_append_reply_def Let_def stop_def node_table_def split: if_splits prod.splits)
  then show ?thesis by (simp add: matched_from_subset)
next
  case False
  then obtain ld where ld: "nd_leader nd = Some ld" by auto
  note n = leading_node [OF full_inv_parts(1) [OF inv] ld]
  have wf: "log_wf (nd_log nd)" using full_inv_parts(3) [OF inv] by (simp add: core_inv_def)
  have linv: "leader_inv 4 ld (node_entries nd)" using full_inv_parts(2) [OF inv] ld by (simp add: repl_inv_def)
  obtain out m c ld1 v where h: "handle_reply (nd_election nd) (nd_log nd) p q y (nd_metadata nd)
      (nd_commit_index nd) ld w = (out, m, c, ld1, v)" by (metis prod_cases5)
  note o = handle_reply_outcome [OF wf h]
  define nd1 where "nd1 = nd\<lparr>nd_metadata := m, nd_commit_index := c, nd_leader := Some ld1\<rparr>"
  note un = run [unfolded on_append_reply_def ld option.case h prod.case Let_def, folded nd1_def]
  obtain ok a nd2 where af: "after_append_reply out p nd1 = (ok, a, nd2)" by (metis prod_cases3)
  note t2 = after_append_reply_table [OF af]
  have tb: "matched_from (ReceiveAppendReply p q y) nd (table ld1)"
    unfolding matched_from_def
    using handle_reply_table [OF h wf linv] ld n(3,4) by (fastforce simp: node_table_def)
  have t1: "node_table nd1 = table ld1" by (simp add: nd1_def node_table_def)
  have nd': "set (node_table nd') \<subseteq> set (node_table nd1) \<and> nd_commit_index nd' = nd_commit_index nd1"
  proof -
    have stp: "node_table nd' = [] \<and> nd_commit_index nd' = nd_commit_index x" if "stop e x v = (r, nd', w')" for e x
      by (rule stop_table [OF that])
    have fin: "set (node_table nd') \<subseteq> set (node_table nd2) \<and> nd_commit_index nd' = nd_commit_index nd2"
      if "finish_read q y a nd2 v = (r, nd', w')"
      by (rule finish_read_table [OF that])
    consider e where "stop e nd1 v = (r, nd', w')" | "nd' = drop_leadership nd1" | "stop InconsistentState nd2 v = (r, nd', w')"
      | "finish_read q y a nd2 v = (r, nd', w')"
      using un False af by (auto split: if_splits)
    then show ?thesis
    proof cases
      case 1
      from stp [OF this] show ?thesis by simp
    next
      case 3
      from stp [OF this] t2 show ?thesis by simp
    next
      case 4
      from fin [OF this] t2 show ?thesis by auto
    qed simp
  qed
  have ent: "node_entries nd' = node_entries nd" using on_append_reply_log [OF run] by simp
  have "replicated (ReceiveAppendReply p q y) nd nd'" if c: "nd_commit_index nd' \<noteq> nd_commit_index nd"
  proof -
    have cc: "nd_commit_index nd' = c" using nd' by (simp add: nd1_def)
    then have out: "out = Committed" "committable ld1 (node_entries nd) c" using o c by (auto split: if_splits)
    then have same: "m = nd_metadata nd" "same_leadership ld ld1" using o by auto
    have "node_term nd' = node_term nd"
    proof -
      have "nd_metadata nd2 = nd_metadata nd1"
        using after_append_reply_metadata [OF af] .
      then have "nd_metadata nd' = m"
        using un False out(1) af by (auto simp: finish_read_def stop_def Let_def nd1_def split: if_splits option.splits)
      then show ?thesis by (simp add: same node_term_def)
    qed
    moreover obtain p' k where "(p', k) \<in> set (table ld1)" "unat c \<le> unat k"
      using out(2) by (auto simp: committable_def table_def list2_def word_le_nat_alt)
    moreover have "p' \<in> set (list2 (nd_peer_ids nd))"
    proof -
      have "nd_peer_ids nd = leader_ids ld1" using same(2) n(2) by (simp add: same_leadership_def)
      then show ?thesis using \<open>(p', k) \<in> set (table ld1)\<close> by (auto simp: table_def list2_def leader_ids_def)
    qed
    moreover have "ld_term ld1 = node_term nd" using same(2) n(4) by (simp add: same_leadership_def)
    ultimately show ?thesis
      using out(2) tb ent cc ld unfolding replicated_def committable_def leads_def by auto
  qed
  then show ?thesis using nd' t1 tb matched_from_mono by metis
qed

text \<open>The sources of the table and of the commit index over all events.\<close>

lemma node_step_commit:
  assumes inv: "full_inv nd" and run: "node_step ev nd w = (r, nd', w')"
  shows "matched_from ev nd (node_table nd')
    \<and> (nd_commit_index nd' = nd_commit_index nd \<or> replicated ev nd nd'
       \<or> (\<exists>p q. ev = ReceiveAppendEntries p q \<and> accepts q nd nd'))"
proof (cases ev)
  case (ReceiveVoteReply p y)
  then show ?thesis using on_vote_reply_table [of p y nd w r nd' w'] run by (auto simp: matched_from_def)
next
  case (ReceiveAppendEntries p q)
  then show ?thesis
    using on_append_entries_table [of p q nd w r nd' w'] on_append_entries_accepts [OF inv, of p q w r nd' w'] run
    by (auto simp: matched_from_subset)
next
  case (ReceiveAppendReply p q y)
  then show ?thesis using on_append_reply_table [OF inv, of p q y w r nd' w'] run by simp
next
  case (Propose c)
  then show ?thesis
    using append_as_leader_table [of c nd w r nd' w'] run
    by (auto simp: propose_def matched_from_subset split: if_splits option.splits)
qed (use run quiet_table [where nd = nd and nd' = nd'] in \<open>auto simp: matched_from_subset\<close>)

end
