(* ===== verification/Raft_Wire.thy ===== *)
theory Raft_Wire
  imports Raft_Node "HOL-Library.Monad_Syntax"
begin

text \<open>
  The envelopes the nodes exchange over TCP (include/dkv/raft_wire.hpp, src/raft_wire.cpp).

  \<^item> \<open>reader\<close> is the program's cursor over the input; its operations fail with \<open>None\<close> where the
    program returns \<open>false\<close> (every caller then returns, so the reader it leaves is not needed).
  \<^item> \<open>put_append\<close> and \<open>read_append\<close> write and read a replication request with its log records,
    \<open>encode_raft_envelope\<close> and \<open>decode_raft_envelope\<close> whole frames.
  \<^item> \<open>reads r x r'\<close>: the cursor moves from \<open>r\<close> to \<open>r'\<close> over exactly the bytes \<open>x\<close>. Each read
    operation is characterised by it (interface \<open>field_parser\<close>), so the decoder of a
    structure is proved by composing the layouts of its fields.
\<close>

record raft_envelope =
  env_sender_id :: u64
  env_message :: raft_message
  env_replied_to :: "append_entries option"

datatype raft_wire_error =
    InvalidEnvelope
  | InvalidMessage
  | TooLarge
  | Truncated
  | UnsupportedVersion
  | TrailingBytes
  | ChecksumMismatch

definition max_raft_frame_size :: nat where "max_raft_frame_size = 8 * 1024 * 1024"
definition rw_checksum_size :: nat where "rw_checksum_size = 4"

section \<open>Operations\<close>

definition rw_put_u8 :: "bytes \<Rightarrow> u8 \<Rightarrow> bytes" where
  "rw_put_u8 out v = out @ [v]"

definition rw_put_u32 :: "bytes \<Rightarrow> u32 \<Rightarrow> bytes" where
  "rw_put_u32 out v = out @ shift_loop 24 v"

definition rw_put_u64 :: "bytes \<Rightarrow> u64 \<Rightarrow> bytes" where
  "rw_put_u64 out v = out @ shift_loop 56 v"

record reader =
  rd_input :: bytes
  rd_at :: nat

definition rd_u8 :: "reader \<Rightarrow> (u8 \<times> reader) option" where
  "rd_u8 r =
     (if rd_at r \<ge> length (rd_input r) then None
      else Some (rd_input r ! rd_at r, r\<lparr>rd_at := rd_at r + 1\<rparr>))"

definition rd_u32 :: "reader \<Rightarrow> (u32 \<times> reader) option" where
  "rd_u32 r =
     (if length (rd_input r) - rd_at r < 4 then None
      else Some (read_loop 4 (rd_input r) (rd_at r) 0, r\<lparr>rd_at := rd_at r + 4\<rparr>))"

definition rd_u64 :: "reader \<Rightarrow> (u64 \<times> reader) option" where
  "rd_u64 r =
     (if length (rd_input r) - rd_at r < 8 then None
      else Some (read_loop 8 (rd_input r) (rd_at r) 0, r\<lparr>rd_at := rd_at r + 8\<rparr>))"

text \<open>The loop of \<open>put_append\<close> over the entries.\<close>

primrec put_records :: "log_entry list \<Rightarrow> bytes \<Rightarrow> bytes option" where
  "put_records [] out = Some out"
| "put_records (entry # entries) out =
     (case encode_log_entry entry of
        Inl _ \<Rightarrow> None
      | Inr bs \<Rightarrow>
          if length bs > max_raft_frame_size - 4 - rw_checksum_size
             \<or> length out > max_raft_frame_size - length bs - 4 - rw_checksum_size
          then None
          else put_records entries (rw_put_u32 out (of_nat (length bs)) @ bs))"

definition put_append :: "bytes \<Rightarrow> append_entries \<Rightarrow> bytes option" where
  "put_append out request =
     (if length (ae_entries request) > 0xFFFFFFFF then None
      else
        (let out = rw_put_u64 out (ae_term request);
             out = rw_put_u64 out (ae_leader_id request);
             out = rw_put_u64 out (ae_prev_log_index request);
             out = rw_put_u64 out (ae_prev_log_term request);
             out = rw_put_u64 out (ae_leader_commit request);
             out = rw_put_u64 out (ae_read_context request);
             out = rw_put_u32 out (of_nat (length (ae_entries request)))
         in case put_records (ae_entries request) out of
              None \<Rightarrow> None
            | Some out \<Rightarrow> if length out \<le> max_raft_frame_size - rw_checksum_size then Some out else None))"

text \<open>The loop of \<open>read_append\<close> over the records.\<close>

primrec read_records :: "nat \<Rightarrow> reader \<Rightarrow> log_entry list \<Rightarrow> (log_entry list \<times> reader) option" where
  "read_records 0 r entries = Some (entries, r)"
| "read_records (Suc n) r entries =
     do {
       (len, r) \<leftarrow> rd_u32 r;
       if unat len > length (rd_input r) - rd_at r then None
       else
         (case decode_log_entry (take (unat len) (drop (rd_at r) (rd_input r))) of
            Inl _ \<Rightarrow> None
          | Inr entry \<Rightarrow>
              if bytes_consumed entry \<noteq> unat len then None
              else read_records n (r\<lparr>rd_at := rd_at r + unat len\<rparr>) (entries @ [decoded_entry entry]))
     }"

text \<open>The entry count, its check and the loop.\<close>

definition read_entries :: "reader \<Rightarrow> (log_entry list \<times> reader) option" where
  "read_entries r =
     do {
       (count, r) \<leftarrow> rd_u32 r;
       if unat count > (length (rd_input r) - rd_at r) div 4 then None
       else read_records (unat count) r []
     }"

definition read_append :: "reader \<Rightarrow> (append_entries \<times> reader) option" where
  "read_append r =
     do {
       (trm, r) \<leftarrow> rd_u64 r;
       (leader_id, r) \<leftarrow> rd_u64 r;
       (prev_log_index, r) \<leftarrow> rd_u64 r;
       (prev_log_term, r) \<leftarrow> rd_u64 r;
       (leader_commit, r) \<leftarrow> rd_u64 r;
       (read_context, r) \<leftarrow> rd_u64 r;
       (entries, r) \<leftarrow> read_entries r;
       Some (\<lparr>ae_term = trm, ae_leader_id = leader_id, ae_prev_log_index = prev_log_index,
              ae_prev_log_term = prev_log_term, ae_entries = entries,
              ae_leader_commit = leader_commit, ae_read_context = read_context\<rparr>, r)
     }"

text \<open>\<open>envelope.message.index() + 1\<close>\<close>

primrec message_kind :: "raft_message \<Rightarrow> u8" where
  "message_kind (MRequestVote _) = 1"
| "message_kind (MRequestVoteReply _) = 2"
| "message_kind (MAppendEntries _) = 3"
| "message_kind (MAppendEntriesReply _) = 4"

definition is_append_reply :: "raft_message \<Rightarrow> bool" where
  "is_append_reply m = (case m of MAppendEntriesReply _ \<Rightarrow> True | _ \<Rightarrow> False)"

definition encode_raft_envelope :: "raft_envelope \<Rightarrow> raft_wire_error + bytes" where
  "encode_raft_envelope envelope =
     (if env_sender_id envelope = 0
         \<or> (env_replied_to envelope \<noteq> None) \<noteq> is_append_reply (env_message envelope)
      then Inl InvalidEnvelope
      else
        (let out = rw_put_u8 [] 3;
             out = rw_put_u8 out (message_kind (env_message envelope));
             out = rw_put_u64 out (env_sender_id envelope)
         in case (case env_message envelope of
                    MRequestVote v \<Rightarrow>
                      Some (rw_put_u64 (rw_put_u64 (rw_put_u64 (rw_put_u64 out
                        (rv_term v)) (rv_candidate_id v)) (rv_last_log_index v)) (rv_last_log_term v))
                  | MRequestVoteReply v \<Rightarrow>
                      Some (rw_put_u8 (rw_put_u64 out (rvr_term v)) (if rvr_vote_granted v then 1 else 0))
                  | MAppendEntries v \<Rightarrow> put_append out v
                  | MAppendEntriesReply v \<Rightarrow>
                      put_append (rw_put_u8 (rw_put_u64 out (aer_term v)) (if aer_success v then 1 else 0))
                        (the (env_replied_to envelope))) of
              None \<Rightarrow> Inl TooLarge
            | Some out \<Rightarrow>
                if length out > max_raft_frame_size - rw_checksum_size then Inl TooLarge
                else Inr (rw_put_u32 out (crc32 out))))"

text \<open>The fields of a vote request, and the term and flag byte both replies start with.\<close>

definition read_request_vote :: "reader \<Rightarrow> (request_vote \<times> reader) option" where
  "read_request_vote r =
     do {
       (trm, r) \<leftarrow> rd_u64 r;
       (candidate_id, r) \<leftarrow> rd_u64 r;
       (last_log_index, r) \<leftarrow> rd_u64 r;
       (last_log_term, r) \<leftarrow> rd_u64 r;
       Some (\<lparr>rv_term = trm, rv_candidate_id = candidate_id,
              rv_last_log_index = last_log_index, rv_last_log_term = last_log_term\<rparr>, r)
     }"

definition read_term_flag :: "reader \<Rightarrow> ((u64 \<times> u8) \<times> reader) option" where
  "read_term_flag r = do { (trm, r) \<leftarrow> rd_u64 r; (flag, r) \<leftarrow> rd_u8 r; Some ((trm, flag), r) }"

text \<open>The \<open>switch\<close> on the message kind: the message, the echoed request and the reader.\<close>

definition read_body :: "u8 \<Rightarrow> reader \<Rightarrow> raft_wire_error + raft_message \<times> append_entries option \<times> reader" where
  "read_body kind r =
     (if kind = 1 then
        (case read_request_vote r of
           None \<Rightarrow> Inl Truncated
         | Some (v, r) \<Rightarrow> Inr (MRequestVote v, None, r))
      else if kind = 2 then
        (case read_term_flag r of
           None \<Rightarrow> Inl Truncated
         | Some ((trm, granted), r) \<Rightarrow>
             if granted > 1 then Inl InvalidMessage
             else Inr (MRequestVoteReply \<lparr>rvr_term = trm, rvr_vote_granted = (granted = 1)\<rparr>, None, r))
      else if kind = 3 then
        (case read_append r of
           None \<Rightarrow> Inl InvalidMessage
         | Some (v, r) \<Rightarrow> Inr (MAppendEntries v, None, r))
      else if kind = 4 then
        (case read_term_flag r of
           None \<Rightarrow> Inl Truncated
         | Some ((trm, success), r) \<Rightarrow>
             if success > 1 then Inl InvalidMessage
             else
               (case read_append r of
                  None \<Rightarrow> Inl InvalidMessage
                | Some (replied_to, r) \<Rightarrow>
                    Inr (MAppendEntriesReply \<lparr>aer_term = trm, aer_success = (success = 1)\<rparr>,
                         Some replied_to, r)))
      else Inl InvalidMessage)"

definition decode_raft_envelope :: "bytes \<Rightarrow> raft_wire_error + raft_envelope" where
  "decode_raft_envelope bs =
     (if length bs > max_raft_frame_size then Inl TooLarge
      else if length bs < 10 + rw_checksum_size then Inl Truncated
      else if bs ! 0 \<noteq> 3 then Inl UnsupportedVersion
      else
        (let n = length bs - rw_checksum_size;
             expected_checksum = (foldl (\<lambda>v octet. push_bit 8 v OR ucast octet) 0 (drop n bs) :: u32)
         in if crc32 (take n bs) \<noteq> expected_checksum then Inl ChecksumMismatch
         else
           (let bs = take n bs
            in case do {
                 (vers, r) \<leftarrow> rd_u8 \<lparr>rd_input = bs, rd_at = 0\<rparr>;
                 (kind, r) \<leftarrow> rd_u8 r;
                 (sender, r) \<leftarrow> rd_u64 r;
                 Some (vers, kind, sender, r)
               } of
                 None \<Rightarrow> Inl Truncated
               | Some (vers, kind, sender, r) \<Rightarrow>
                   if vers \<noteq> 3 then Inl UnsupportedVersion
                   else if sender = 0 then Inl InvalidEnvelope
                   else
                     (case read_body kind r of
                        Inl e \<Rightarrow> Inl e
                      | Inr (message, replied_to, r) \<Rightarrow>
                          if rd_at r \<noteq> length bs then Inl TrailingBytes
                          else Inr \<lparr>env_sender_id = sender, env_message = message,
                                    env_replied_to = replied_to\<rparr>))))"

section \<open>Reading fields\<close>

definition reads :: "reader \<Rightarrow> bytes \<Rightarrow> reader \<Rightarrow> bool" where
  "reads r x r' \<longleftrightarrow>
     r' = r\<lparr>rd_at := rd_at r + length x\<rparr>
     \<and> drop (rd_at r) (rd_input r) = x @ drop (rd_at r + length x) (rd_input r)"

lemma reads_Nil [simp]: "reads r [] r' \<longleftrightarrow> r' = r"
  by (auto simp: reads_def)

lemma reads_append: "reads r (x @ y) r' \<longleftrightarrow> (\<exists>r1. reads r x r1 \<and> reads r1 y r')"
proof
  assume *: "reads r (x @ y) r'"
  let ?rest = "drop (rd_at r + length x + length y) (rd_input r)"
  have whole: "drop (rd_at r) (rd_input r) = x @ y @ ?rest"
    using * by (simp add: reads_def add.assoc)
  then have "drop (length x) (drop (rd_at r) (rd_input r)) = y @ ?rest" by simp
  then have "drop (rd_at r + length x) (rd_input r) = y @ ?rest" by (simp add: add.commute)
  with * whole have "reads r x (r\<lparr>rd_at := rd_at r + length x\<rparr>) \<and> reads (r\<lparr>rd_at := rd_at r + length x\<rparr>) y r'"
    by (simp add: reads_def add.assoc)
  then show "\<exists>r1. reads r x r1 \<and> reads r1 y r'" by blast
next
  assume "\<exists>r1. reads r x r1 \<and> reads r1 y r'"
  then obtain r1 where "reads r x r1" "reads r1 y r'" by blast
  then have r': "r' = r\<lparr>rd_at := rd_at r + length x + length y\<rparr>"
    and x: "drop (rd_at r) (rd_input r) = x @ drop (rd_at r + length x) (rd_input r)"
    and y: "drop (rd_at r + length x) (rd_input r) = y @ drop (rd_at r + length x + length y) (rd_input r)"
    by (simp_all add: reads_def)
  from x [unfolded y] r' show "reads r (x @ y) r'" by (simp add: reads_def add.assoc)
qed

lemma reads_appendI: "reads r x r1 \<Longrightarrow> reads r1 y r' \<Longrightarrow> reads r (x @ y) r'"
  by (auto simp: reads_append)

lemma reads_input: "reads r x r' \<Longrightarrow> rd_input r' = rd_input r"
  by (simp add: reads_def)

lemma reads_at: "reads r x r' \<Longrightarrow> rd_at r' = rd_at r + length x"
  by (simp add: reads_def)

lemma reads_length: "reads r x r' \<Longrightarrow> length (rd_input r) - rd_at r = length x + (length (rd_input r) - rd_at r')"
proof -
  assume r: "reads r x r'"
  then have "length (drop (rd_at r) (rd_input r)) = length (x @ drop (rd_at r') (rd_input r))"
    by (simp add: reads_def)
  then show ?thesis by simp
qed

text \<open>A field of \<open>n\<close> bytes is there exactly when the input has \<open>n\<close> more bytes.\<close>

lemma reads_take:
  assumes "n \<le> length (rd_input r) - rd_at r"
  shows "reads r x (r\<lparr>rd_at := rd_at r + n\<rparr>) \<longleftrightarrow> x = take n (drop (rd_at r) (rd_input r))"
proof
  assume "reads r x (r\<lparr>rd_at := rd_at r + n\<rparr>)"
  then have "length x = n" "drop (rd_at r) (rd_input r) = x @ drop (rd_at r + n) (rd_input r)"
    by (auto simp: reads_def dest: arg_cong [where f = rd_at])
  then show "x = take n (drop (rd_at r) (rd_input r))" by (metis take_prefix)
qed (use assms in \<open>simp add: reads_def min_absorb2 slice_step\<close>)

locale field_parser =
  fixes parse :: "reader \<Rightarrow> ('a \<times> reader) option"
    and layout :: "'a \<Rightarrow> bytes"
    and fits :: "'a \<Rightarrow> bool"
  assumes parse_iff: "parse r = Some (v, r') \<longleftrightarrow> fits v \<and> reads r (layout v) r'"
begin

lemma parse_layout:
  assumes "fits v" and "drop (rd_at r) (rd_input r) = layout v @ rest"
  shows "parse r = Some (v, r\<lparr>rd_at := rd_at r + length (layout v)\<rparr>)"
proof -
  have "drop (rd_at r + length (layout v)) (rd_input r) = rest"
    using arg_cong [OF assms(2), of "drop (length (layout v))"] by (simp add: add.commute)
  with assms show ?thesis by (simp add: parse_iff reads_def)
qed

lemma parse_then:
  "(\<exists>r1. parse r = Some (v, r1) \<and> reads r1 y r') \<longleftrightarrow> fits v \<and> reads r (layout v @ y) r'"
  by (auto simp: parse_iff reads_append)

end

lemma rd_u8_iff: "rd_u8 r = Some (v, r') \<longleftrightarrow> reads r [v] r'"
proof (cases "rd_at r < length (rd_input r)")
  case True
  then have "drop (rd_at r) (rd_input r) = rd_input r ! rd_at r # drop (Suc (rd_at r)) (rd_input r)"
    by (simp add: Cons_nth_drop_Suc)
  then show ?thesis using True by (auto simp: rd_u8_def reads_def)
qed (auto simp: rd_u8_def reads_def not_less)

lemma rd_word_iff:
  fixes v :: "'a::len word"
  assumes "LENGTH('a) = 8 * n" and "0 < n"
  shows "(if length (rd_input r) - rd_at r < n then None
      else Some (read_loop n (rd_input r) (rd_at r) 0, r\<lparr>rd_at := rd_at r + n\<rparr>)) = Some (v, r')
    \<longleftrightarrow> reads r (be_bytes n v) r'"
proof (cases "length (rd_input r) - rd_at r < n")
  case True
  then show ?thesis using reads_length [of r "be_bytes n v" r'] by auto
next
  case False
  let ?f = "take n (drop (rd_at r) (rd_input r))"
  have len: "length ?f = n" using False by simp
  have "read_loop n (rd_input r) (rd_at r) 0 = (be_read ?f :: 'a word)"
    using False assms(2) by (intro read_loop_be_read) simp
  moreover have "be_read ?f = v \<longleftrightarrow> be_bytes n v = ?f"
    using len assms(1) be_bytes_be_read [where 'a = 'a, of ?f] be_read_be_bytes [of n v] by auto
  moreover have "reads r (be_bytes n v) r' \<longleftrightarrow>
      r' = r\<lparr>rd_at := rd_at r + n\<rparr> \<and> reads r (be_bytes n v) (r\<lparr>rd_at := rd_at r + n\<rparr>)"
    by (auto simp: reads_def)
  ultimately show ?thesis
    using False by (auto simp: reads_take)
qed

lemma rd_u32_iff: "rd_u32 r = Some (v, r') \<longleftrightarrow> reads r (be_bytes 4 v) r'"
  unfolding rd_u32_def by (rule rd_word_iff) simp_all

lemma rd_u64_iff: "rd_u64 r = Some (v, r') \<longleftrightarrow> reads r (be_bytes 8 v) r'"
  unfolding rd_u64_def by (rule rd_word_iff) simp_all

interpretation u8_field: field_parser rd_u8 "\<lambda>v. [v]" "\<lambda>_. True"
  by unfold_locales (simp add: rd_u8_iff)

interpretation u32_field: field_parser rd_u32 "be_bytes 4" "\<lambda>_. True"
  by unfold_locales (simp add: rd_u32_iff)

interpretation u64_field: field_parser rd_u64 "be_bytes 8" "\<lambda>_. True"
  by unfold_locales (simp add: rd_u64_iff)

lemmas field_iffs = rd_u8_iff rd_u32_iff rd_u64_iff

section \<open>Replication requests\<close>

definition record_layout :: "log_entry \<Rightarrow> bytes" where
  "record_layout e = be_bytes 4 (of_nat (length (entry_bytes e)) :: u32) @ entry_bytes e"

definition records_layout :: "log_entry list \<Rightarrow> bytes" where
  "records_layout es = concat (map record_layout es)"

definition record_fits :: "log_entry \<Rightarrow> bool" where
  "record_fits e \<longleftrightarrow> encodable e \<and> length (entry_bytes e) < 2 ^ 32"

lemma records_layout_simps [simp]:
  "records_layout [] = []" "records_layout (e # es) = record_layout e @ records_layout es"
  by (simp_all add: records_layout_def)

lemma records_layout_length: "4 * length es \<le> length (records_layout es)"
  by (induction es) (auto simp: record_layout_def)

text \<open>One record at the front: the decoder accepts exactly the prefix the encoder writes.\<close>

lemma decode_record_iff:
  "decode_log_entry x = Inr d \<and> bytes_consumed d = length x \<longleftrightarrow>
     encode_log_entry (decoded_entry d) = Inr x \<and> bytes_consumed d = length x"
proof
  assume "decode_log_entry x = Inr d \<and> bytes_consumed d = length x"
  then show "encode_log_entry (decoded_entry d) = Inr x \<and> bytes_consumed d = length x"
    using entry_codec.decode_prefix by fastforce
next
  assume *: "encode_log_entry (decoded_entry d) = Inr x \<and> bytes_consumed d = length x"
  then obtain d' where "decode_log_entry (x @ []) = Inr d'" "decoded_entry d' = decoded_entry d"
      "bytes_consumed d' = length x"
    using entry_codec.decode_extend by blast
  then show "decode_log_entry x = Inr d \<and> bytes_consumed d = length x"
    using * by (cases d; cases d') simp
qed

lemma record_step:
  "(case decode_log_entry x of
      Inl _ \<Rightarrow> None
    | Inr d \<Rightarrow> if bytes_consumed d \<noteq> length x then None else k (decoded_entry d)) = Some z
    \<longleftrightarrow> (\<exists>e. encodable e \<and> entry_bytes e = x \<and> k e = Some z)"
  (is "?lhs \<longleftrightarrow> ?rhs")
proof
  assume ?lhs
  then obtain d where d: "decode_log_entry x = Inr d" "bytes_consumed d = length x" "k (decoded_entry d) = Some z"
    by (auto split: sum.splits if_splits)
  then have "encode_log_entry (decoded_entry d) = Inr x" using decode_record_iff by blast
  from encode_entry_bytes [OF this] d show ?rhs by blast
next
  assume ?rhs
  then obtain e where e: "encode_log_entry e = Inr x" "k e = Some z" using encodable_bytes by blast
  then have "decode_log_entry x = Inr \<lparr>decoded_entry = e, bytes_consumed = length x\<rparr>"
    using decode_record_iff [of x "\<lparr>decoded_entry = e, bytes_consumed = length x\<rparr>"] by simp
  with e show ?lhs by simp
qed

lemma reads_record:
  "(\<exists>len r1. reads r (be_bytes 4 (len :: u32)) r1 \<and> unat len \<le> length (rd_input r1) - rd_at r1
      \<and> (\<exists>e. encodable e \<and> entry_bytes e = take (unat len) (drop (rd_at r1) (rd_input r1))
          \<and> P e (r1\<lparr>rd_at := rd_at r1 + unat len\<rparr>)))
    \<longleftrightarrow> (\<exists>e r2. record_fits e \<and> reads r (record_layout e) r2 \<and> P e r2)"
  (is "?lhs \<longleftrightarrow> ?rhs")
proof
  assume ?lhs
  then obtain len r1 e where r1: "reads r (be_bytes 4 (len :: u32)) r1"
      "unat len \<le> length (rd_input r1) - rd_at r1" "encodable e"
      "entry_bytes e = take (unat len) (drop (rd_at r1) (rd_input r1))"
      "P e (r1\<lparr>rd_at := rd_at r1 + unat len\<rparr>)" by blast
  then have len: "length (entry_bytes e) = unat len" by simp
  then have "record_fits e" "len = of_nat (length (entry_bytes e))"
    using r1(3) unat_less_32 [of len] by (simp_all add: record_fits_def)
  moreover have "reads r1 (entry_bytes e) (r1\<lparr>rd_at := rd_at r1 + unat len\<rparr>)"
    using r1 by (simp add: reads_take)
  ultimately show ?rhs using r1 unfolding record_layout_def reads_append by blast
next
  assume ?rhs
  then obtain e r2 r1 where e: "record_fits e" "P e r2"
      "reads r (be_bytes 4 (of_nat (length (entry_bytes e)) :: u32)) r1" "reads r1 (entry_bytes e) r2"
    unfolding record_layout_def reads_append by blast
  define len where "len = (of_nat (length (entry_bytes e)) :: u32)"
  have len: "unat len = length (entry_bytes e)"
    unfolding len_def by (rule unat_of_nat_32) (use e in \<open>simp add: record_fits_def\<close>)
  have r2: "r2 = r1\<lparr>rd_at := rd_at r1 + unat len\<rparr>" using e(4) len by (simp add: reads_def)
  have le: "unat len \<le> length (rd_input r1) - rd_at r1" using reads_length [OF e(4)] len by simp
  moreover have "entry_bytes e = take (unat len) (drop (rd_at r1) (rd_input r1))"
    using e(4) le unfolding r2 by (simp add: reads_take)
  ultimately show ?lhs using e r2 unfolding len_def record_fits_def by blast
qed

lemma read_records_iff:
  "read_records n r es = Some (es', r') \<longleftrightarrow>
     (\<exists>xs. length xs = n \<and> es' = es @ xs \<and> (\<forall>e \<in> set xs. record_fits e) \<and> reads r (records_layout xs) r')"
proof (induction n arbitrary: r es)
  case 0
  then show ?case by auto
next
  case (Suc n)
  have "read_records (Suc n) r es = Some (es', r') \<longleftrightarrow>
      (\<exists>len r1. reads r (be_bytes 4 (len :: u32)) r1 \<and> unat len \<le> length (rd_input r1) - rd_at r1
        \<and> (\<exists>e. encodable e \<and> entry_bytes e = take (unat len) (drop (rd_at r1) (rd_input r1))
            \<and> read_records n (r1\<lparr>rd_at := rd_at r1 + unat len\<rparr>) (es @ [e]) = Some (es', r')))"
    (is "_ \<longleftrightarrow> (\<exists>len r1. ?step len r1)")
  proof -
    have "(if unat len > length (rd_input r1) - rd_at r1 then None
        else case decode_log_entry (take (unat len) (drop (rd_at r1) (rd_input r1))) of
               Inl _ \<Rightarrow> None
             | Inr entry \<Rightarrow> if bytes_consumed entry \<noteq> unat len then None
                 else read_records n (r1\<lparr>rd_at := rd_at r1 + unat len\<rparr>) (es @ [decoded_entry entry]))
        = Some (es', r') \<longleftrightarrow>
        unat len \<le> length (rd_input r1) - rd_at r1
        \<and> (\<exists>e. encodable e \<and> entry_bytes e = take (unat len) (drop (rd_at r1) (rd_input r1))
            \<and> read_records n (r1\<lparr>rd_at := rd_at r1 + unat len\<rparr>) (es @ [e]) = Some (es', r'))"
      for len :: u32 and r1
    proof (cases "unat len \<le> length (rd_input r1) - rd_at r1")
      case True
      then have "length (take (unat len) (drop (rd_at r1) (rd_input r1))) = unat len" by simp
      from record_step [of "take (unat len) (drop (rd_at r1) (rd_input r1))"
          "\<lambda>e. read_records n (r1\<lparr>rd_at := rd_at r1 + unat len\<rparr>) (es @ [e])", unfolded this] True
      show ?thesis by (simp del: not_less)
    qed auto
    then show ?thesis
      by (auto simp: bind_eq_Some_conv field_iffs split del: if_split)
  qed
  also have "\<dots> \<longleftrightarrow> (\<exists>e r2. record_fits e \<and> reads r (record_layout e) r2
      \<and> read_records n r2 (es @ [e]) = Some (es', r'))"
    by (rule reads_record)
  also have "\<dots> \<longleftrightarrow> (\<exists>e xs. record_fits e \<and> length xs = n \<and> es' = es @ e # xs
      \<and> (\<forall>e \<in> set xs. record_fits e) \<and> reads r (records_layout (e # xs)) r')"
    by (auto simp: Suc reads_append)
  also have "\<dots> \<longleftrightarrow> (\<exists>xs. length xs = Suc n \<and> es' = es @ xs \<and> (\<forall>e \<in> set xs. record_fits e)
      \<and> reads r (records_layout xs) r')"
    by (fastforce simp: length_Suc_conv)
  finally show ?case .
qed

definition entries_layout :: "log_entry list \<Rightarrow> bytes" where
  "entries_layout es = be_bytes 4 (of_nat (length es) :: u32) @ records_layout es"

definition entries_fit :: "log_entry list \<Rightarrow> bool" where
  "entries_fit es \<longleftrightarrow> length es < 2 ^ 32 \<and> (\<forall>e \<in> set es. record_fits e)"

lemma read_entries_iff: "read_entries r = Some (es, r') \<longleftrightarrow> entries_fit es \<and> reads r (entries_layout es) r'"
proof
  assume "read_entries r = Some (es, r')"
  then obtain c r1 where "reads r (be_bytes 4 (c :: u32)) r1" "length es = unat c"
      "\<forall>e \<in> set es. record_fits e" "reads r1 (records_layout es) r'"
    by (auto simp: read_entries_def bind_eq_Some_conv field_iffs read_records_iff split: if_splits)
  then show "entries_fit es \<and> reads r (entries_layout es) r'"
    using unat_less_32 [of c] by (auto simp: entries_fit_def entries_layout_def reads_append)
next
  assume *: "entries_fit es \<and> reads r (entries_layout es) r'"
  then obtain r1 where r1: "reads r (be_bytes 4 (of_nat (length es) :: u32)) r1" "reads r1 (records_layout es) r'"
    by (auto simp: entries_layout_def reads_append)
  have "unat (of_nat (length es) :: u32) = length es"
    by (rule unat_of_nat_32) (use * in \<open>simp add: entries_fit_def\<close>)
  moreover have "length es \<le> (length (rd_input r1) - rd_at r1) div 4"
    using reads_length [OF r1(2)] records_layout_length [of es] by linarith
  moreover have "read_records (length es) r1 [] = Some (es, r')"
    using * r1 by (simp add: read_records_iff entries_fit_def)
  moreover have "rd_u32 r = Some (of_nat (length es), r1)" using r1 by (simp add: field_iffs)
  ultimately show "read_entries r = Some (es, r')"
    by (simp add: read_entries_def)
qed

definition append_layout :: "append_entries \<Rightarrow> bytes" where
  "append_layout q =
     be_bytes 8 (ae_term q) @ be_bytes 8 (ae_leader_id q) @ be_bytes 8 (ae_prev_log_index q)
     @ be_bytes 8 (ae_prev_log_term q) @ be_bytes 8 (ae_leader_commit q)
     @ be_bytes 8 (ae_read_context q) @ entries_layout (ae_entries q)"

definition append_fits :: "append_entries \<Rightarrow> bool" where
  "append_fits q \<longleftrightarrow> entries_fit (ae_entries q)"

lemma read_append_iff: "read_append r = Some (q, r') \<longleftrightarrow> append_fits q \<and> reads r (append_layout q) r'"
proof
  assume "read_append r = Some (q, r')"
  then show "append_fits q \<and> reads r (append_layout q) r'"
    by (clarsimp simp: read_append_def bind_eq_Some_conv field_iffs read_entries_iff
        append_layout_def append_fits_def) ((erule reads_appendI)+, assumption)
next
  assume "append_fits q \<and> reads r (append_layout q) r'"
  then obtain r1 r2 r3 r4 r5 r6 where steps: "reads r (be_bytes 8 (ae_term q)) r1"
      "reads r1 (be_bytes 8 (ae_leader_id q)) r2" "reads r2 (be_bytes 8 (ae_prev_log_index q)) r3"
      "reads r3 (be_bytes 8 (ae_prev_log_term q)) r4" "reads r4 (be_bytes 8 (ae_leader_commit q)) r5"
      "reads r5 (be_bytes 8 (ae_read_context q)) r6"
    and last: "entries_fit (ae_entries q)" "reads r6 (entries_layout (ae_entries q)) r'"
    by (auto simp: append_layout_def append_fits_def reads_append)
  from last have "read_entries r6 = Some (ae_entries q, r')" by (simp add: read_entries_iff)
  with steps [folded rd_u64_iff] show "read_append r = Some (q, r')"
    by (simp add: read_append_def)
qed

interpretation append_field: field_parser read_append append_layout append_fits
  by unfold_locales (rule read_append_iff)

lemma record_layout_member: "e \<in> set es \<Longrightarrow> length (record_layout e) \<le> length (records_layout es)"
  by (induction es) auto

lemma put_records_iff:
  "put_records es out = Some out' \<longleftrightarrow>
     (\<forall>e \<in> set es. encodable e) \<and> out' = out @ records_layout es
     \<and> (es \<noteq> [] \<longrightarrow> length out' \<le> max_raft_frame_size - rw_checksum_size)"
proof (induction es arbitrary: out)
  case Nil
  then show ?case by auto
next
  case (Cons e es)
  show ?case
  proof (cases "encode_log_entry e")
    case (Inl x)
    then show ?thesis by (simp add: encodable_def)
  next
    case (Inr bs)
    then have e: "encodable e" "entry_bytes e = bs" using encode_entry_bytes by blast+
    have step: "rw_put_u32 out (of_nat (length bs)) @ bs = out @ record_layout e"
      by (simp add: rw_put_u32_def shift_loop_32 record_layout_def e)
    have len: "length (record_layout e) = 4 + length bs" by (simp add: record_layout_def e)
    show ?thesis
      using e(1) Inr by (auto simp: step Cons len max_raft_frame_size_def rw_checksum_size_def)
  qed
qed

lemma put_append_iff:
  "put_append out q = Some out' \<longleftrightarrow>
     append_fits q \<and> out' = out @ append_layout q \<and> length out' \<le> max_raft_frame_size - rw_checksum_size"
proof -
  have layout: "rw_put_u32 (rw_put_u64 (rw_put_u64 (rw_put_u64 (rw_put_u64 (rw_put_u64 (rw_put_u64 out
      (ae_term q)) (ae_leader_id q)) (ae_prev_log_index q)) (ae_prev_log_term q)) (ae_leader_commit q))
      (ae_read_context q)) (of_nat (length (ae_entries q))) @ records_layout (ae_entries q) = out @ append_layout q"
    by (simp add: rw_put_u64_def rw_put_u32_def shift_loop_32 shift_loop_64 append_layout_def entries_layout_def)
  have fit: "(\<forall>e \<in> set (ae_entries q). encodable e) \<longleftrightarrow> (\<forall>e \<in> set (ae_entries q). record_fits e)"
    if "length (out @ append_layout q) \<le> max_raft_frame_size - rw_checksum_size"
  proof -
    have "length (entry_bytes e) < 2 ^ 32" if "e \<in> set (ae_entries q)" for e
      using record_layout_member [OF that] \<open>length (out @ append_layout q) \<le> _\<close>
      by (simp add: record_layout_def append_layout_def entries_layout_def max_raft_frame_size_def)
    then show ?thesis by (auto simp: record_fits_def)
  qed
  show ?thesis
    using fit by (auto simp: put_append_def Let_def case_option_eq_Some put_records_iff layout
        append_fits_def entries_fit_def)
qed

section \<open>Envelopes\<close>

definition message_layout :: "raft_message \<Rightarrow> append_entries option \<Rightarrow> bytes" where
  "message_layout m replied_to =
     (case m of
        MRequestVote v \<Rightarrow>
          be_bytes 8 (rv_term v) @ be_bytes 8 (rv_candidate_id v)
          @ be_bytes 8 (rv_last_log_index v) @ be_bytes 8 (rv_last_log_term v)
      | MRequestVoteReply v \<Rightarrow> be_bytes 8 (rvr_term v) @ [if rvr_vote_granted v then 1 else 0]
      | MAppendEntries v \<Rightarrow> append_layout v
      | MAppendEntriesReply v \<Rightarrow>
          be_bytes 8 (aer_term v) @ [if aer_success v then 1 else 0] @ append_layout (the replied_to))"

definition message_fits :: "raft_message \<Rightarrow> append_entries option \<Rightarrow> bool" where
  "message_fits m replied_to \<longleftrightarrow>
     (replied_to \<noteq> None \<longleftrightarrow> is_append_reply m)
     \<and> (case m of
          MAppendEntries v \<Rightarrow> append_fits v
        | MAppendEntriesReply _ \<Rightarrow> append_fits (the replied_to)
        | _ \<Rightarrow> True)"

definition envelope_payload :: "raft_envelope \<Rightarrow> bytes" where
  "envelope_payload env =
     [3, message_kind (env_message env)] @ be_bytes 8 (env_sender_id env)
     @ message_layout (env_message env) (env_replied_to env)"

definition envelope_ok :: "raft_envelope \<Rightarrow> bool" where
  "envelope_ok env \<longleftrightarrow> env_sender_id env \<noteq> 0 \<and> message_fits (env_message env) (env_replied_to env)
     \<and> length (envelope_payload env) \<le> max_raft_frame_size - rw_checksum_size"

lemmas envelope_simps =
  rw_put_u8_def rw_put_u64_def rw_put_u32_def shift_loop_32 shift_loop_64 envelope_ok_def
  envelope_payload_def message_layout_def message_fits_def is_append_reply_def

lemma encode_raft_envelope_iff:
  "encode_raft_envelope env = Inr bs \<longleftrightarrow>
     envelope_ok env \<and> bs = envelope_payload env @ be_bytes 4 (crc32 (envelope_payload env))"
proof (cases "env_message env")
  case (MAppendEntries v)
  then show ?thesis
    by (auto simp: encode_raft_envelope_def envelope_simps case_option_eq_Inr put_append_iff)
next
  case (MAppendEntriesReply v)
  then show ?thesis
    by (auto simp: encode_raft_envelope_def envelope_simps case_option_eq_Inr put_append_iff)
qed (auto simp: encode_raft_envelope_def envelope_simps Let_def max_raft_frame_size_def rw_checksum_size_def)

lemma flag_byte:
  "(v :: u8) \<le> 1 \<longleftrightarrow> v = (if v = 1 then 1 else 0)" "(1 :: u8) < v \<longleftrightarrow> v \<noteq> 0 \<and> v \<noteq> 1"
proof -
  have "v \<le> 1 \<longleftrightarrow> unat v \<le> 1" by (simp add: word_le_nat_alt)
  also have "\<dots> \<longleftrightarrow> unat v = 0 \<or> unat v = 1" by arith
  also have "\<dots> \<longleftrightarrow> v = 0 \<or> v = 1" by (simp add: word_unat_eq_iff)
  finally show "v \<le> 1 \<longleftrightarrow> v = (if v = 1 then 1 else 0)" "1 < v \<longleftrightarrow> v \<noteq> 0 \<and> v \<noteq> 1"
    by (auto simp: not_le [symmetric])
qed

lemma read_request_vote_iff:
  "read_request_vote r = Some (v, r') \<longleftrightarrow>
     reads r (be_bytes 8 (rv_term v) @ be_bytes 8 (rv_candidate_id v)
       @ be_bytes 8 (rv_last_log_index v) @ be_bytes 8 (rv_last_log_term v)) r'"
proof
  assume "read_request_vote r = Some (v, r')"
  then show "reads r (be_bytes 8 (rv_term v) @ be_bytes 8 (rv_candidate_id v)
       @ be_bytes 8 (rv_last_log_index v) @ be_bytes 8 (rv_last_log_term v)) r'"
    by (clarsimp simp: read_request_vote_def bind_eq_Some_conv field_iffs) ((erule reads_appendI)+, assumption)
next
  assume "reads r (be_bytes 8 (rv_term v) @ be_bytes 8 (rv_candidate_id v)
       @ be_bytes 8 (rv_last_log_index v) @ be_bytes 8 (rv_last_log_term v)) r'"
  then show "read_request_vote r = Some (v, r')"
    by (auto simp: reads_append read_request_vote_def rd_u64_iff [symmetric])
qed

lemma read_term_flag_iff:
  "read_term_flag r = Some ((t, b), r') \<longleftrightarrow> reads r (be_bytes 8 t @ [b]) r'"
  by (auto simp: read_term_flag_def bind_eq_Some_conv field_iffs reads_append)

lemma read_body_iff:
  "read_body kind r = Inr (m, replied_to, r') \<longleftrightarrow>
     kind = message_kind m \<and> message_fits m replied_to \<and> reads r (message_layout m replied_to) r'"
proof (cases m)
  case (MRequestVote v)
  then show ?thesis
    by (auto simp: read_body_def case_option_eq_Inr read_request_vote_iff message_layout_def
        message_fits_def is_append_reply_def split: if_splits)
next
  case (MRequestVoteReply v)
  have "(\<exists>t b r1. read_term_flag r = Some ((t, b), r1) \<and> \<not> 1 < b \<and> v = \<lparr>rvr_term = t, rvr_vote_granted = (b = 1)\<rparr>
      \<and> r' = r1) \<longleftrightarrow> reads r (be_bytes 8 (rvr_term v) @ [if rvr_vote_granted v then 1 else 0]) r'"
    by (cases v) (auto simp: read_term_flag_iff flag_byte)
  with MRequestVoteReply show ?thesis
    by (auto simp: read_body_def case_option_eq_Inr message_layout_def message_fits_def
        is_append_reply_def split: if_splits)
next
  case (MAppendEntries v)
  then show ?thesis
    by (auto simp: read_body_def case_option_eq_Inr read_append_iff message_layout_def message_fits_def
        is_append_reply_def split: if_splits)
next
  case (MAppendEntriesReply v)
  have "(\<exists>t b r1 q r2. read_term_flag r = Some ((t, b), r1) \<and> \<not> 1 < b \<and> read_append r1 = Some (q, r2)
      \<and> v = \<lparr>aer_term = t, aer_success = (b = 1)\<rparr> \<and> replied_to = Some q \<and> r' = r2)
    \<longleftrightarrow> (\<exists>q. replied_to = Some q \<and> append_fits q
      \<and> reads r ((be_bytes 8 (aer_term v) @ [if aer_success v then 1 else 0]) @ append_layout q) r')"
    unfolding reads_append [of r "_ @ _"]
    by (cases v; cases "aer_success v") (fastforce simp: read_term_flag_iff read_append_iff flag_byte)+
  with MAppendEntriesReply show ?thesis
    by (auto simp: read_body_def case_option_eq_Inr message_layout_def message_fits_def
        is_append_reply_def split: if_splits)
qed

lemma checksum_read: "(foldl (\<lambda>v octet. push_bit 8 v OR ucast octet) 0 bs :: u32) = be_read bs"
  by (simp add: be_read_def be_step_def [abs_def])

lemma reads_whole:
  "reads \<lparr>rd_input = p, rd_at = 0\<rparr> x r' \<and> rd_at r' = length p \<longleftrightarrow> x = p \<and> r' = \<lparr>rd_input = p, rd_at = length p\<rparr>"
  by (auto simp: reads_def)

lemma decode_payload:
  assumes "10 \<le> length p" and "length p \<le> max_raft_frame_size - rw_checksum_size"
  shows "decode_raft_envelope (p @ be_bytes 4 (crc32 p)) = Inr env \<longleftrightarrow> envelope_ok env \<and> p = envelope_payload env"
proof -
  let ?r = "\<lparr>rd_input = p, rd_at = 0\<rparr>"
  let ?hd = "\<lambda>v k s. [v, k] @ be_bytes 8 s"
  have head: "do { (vers, r) \<leftarrow> rd_u8 ?r; (kind, r) \<leftarrow> rd_u8 r; (sender, r) \<leftarrow> rd_u64 r; Some (vers, kind, sender, r) }
      = Some (v, k, s, r') \<longleftrightarrow> reads ?r (?hd v k s) r'" for v k s r'
    using reads_append [of ?r "[v]" "[k] @ be_bytes 8 s" r'] reads_append [of _ "[k]" "be_bytes 8 s" r']
    by (auto simp: bind_eq_Some_conv field_iffs)
  have "decode_raft_envelope (p @ be_bytes 4 (crc32 p)) = Inr env \<longleftrightarrow>
      p ! 0 = 3 \<and> (\<exists>v k s r1. reads ?r (?hd v k s) r1 \<and> v = 3 \<and> s \<noteq> 0
        \<and> (\<exists>m rep r2. read_body k r1 = Inr (m, rep, r2) \<and> rd_at r2 = length p
            \<and> env = \<lparr>env_sender_id = s, env_message = m, env_replied_to = rep\<rparr>))"
    using assms
    by (auto simp: decode_raft_envelope_def Let_def max_raft_frame_size_def rw_checksum_size_def checksum_read
        nth_append early_return_iffs head simp flip: not_le) blast+
  also have "\<dots> \<longleftrightarrow> p ! 0 = 3 \<and> env_sender_id env \<noteq> 0 \<and> message_fits (env_message env) (env_replied_to env)
      \<and> (\<exists>r2. reads ?r (envelope_payload env) r2 \<and> rd_at r2 = length p)"
  proof -
    have "reads ?r (envelope_payload \<lparr>env_sender_id = s, env_message = m, env_replied_to = rep\<rparr>) r2 \<longleftrightarrow>
        (\<exists>r1. reads ?r (?hd 3 (message_kind m) s) r1 \<and> reads r1 (message_layout m rep) r2)" for s m rep r2
      using reads_append [of ?r "?hd 3 (message_kind m) s" "message_layout m rep" r2]
      by (simp add: envelope_payload_def)
    then show ?thesis
      by (cases env) (auto simp: read_body_iff; blast)
  qed
  also have "\<dots> \<longleftrightarrow> envelope_ok env \<and> p = envelope_payload env"
    using assms(2) by (auto simp: reads_whole envelope_ok_def) (simp add: envelope_payload_def)
  finally show ?thesis .
qed

lemma length_envelope_payload: "10 \<le> length (envelope_payload env)"
  by (simp add: envelope_payload_def)

interpretation envelope_codec: framed_codec encode_raft_envelope decode_raft_envelope envelope_ok envelope_payload
proof unfold_locales
  fix env bs p
  show "encode_raft_envelope env = Inr bs \<longleftrightarrow>
      envelope_ok env \<and> bs = envelope_payload env @ be_bytes 4 (crc32 (envelope_payload env))"
    by (rule encode_raft_envelope_iff)
  show "decode_raft_envelope (p @ be_bytes 4 (crc32 p)) = Inr env \<longleftrightarrow> envelope_ok env \<and> p = envelope_payload env"
  proof (cases "10 \<le> length p \<and> length p \<le> max_raft_frame_size - rw_checksum_size")
    case True
    then show ?thesis using decode_payload by blast
  next
    case False
    then have "\<not> (envelope_ok env \<and> p = envelope_payload env)"
      using length_envelope_payload [of env] by (auto simp: envelope_ok_def)
    moreover have "decode_raft_envelope (p @ be_bytes 4 (crc32 p)) \<noteq> Inr env"
      using False by (auto simp: decode_raft_envelope_def max_raft_frame_size_def rw_checksum_size_def)
    ultimately show ?thesis by simp
  qed
  show "decode_raft_envelope bs = Inr env \<Longrightarrow> \<exists>p. bs = p @ be_bytes 4 (crc32 p)"
    using framed_split [of bs]
    by (auto simp: decode_raft_envelope_def Let_def checksum_read rw_checksum_size_def split: if_splits)
qed

section \<open>Properties\<close>

text \<open>C33: The node-to-node format is exact. The decoder accepts a frame as an envelope if and only if the
  encoder produces that frame for that envelope: every envelope that can be sent arrives unchanged,
  and no other byte string is taken for one.\<close>

theorem envelope_format_exact:
  "decode_raft_envelope bs = Inr env \<longleftrightarrow> encode_raft_envelope env = Inr bs"
  by (rule envelope_codec.decode_encode_iff)

text \<open>A frame with any one byte changed is rejected by the receiver.\<close>

theorem corrupted_frame_rejected:
  assumes "encode_raft_envelope env = Inr bs" and "i < length bs" and "b \<noteq> bs ! i"
  shows "isl (decode_raft_envelope (bs[i := b]))"
  using assms by (rule envelope_codec.corruption_rejected)

definition sample_envelope :: raft_envelope where
  "sample_envelope = \<lparr>env_sender_id = 1,
     env_message = MRequestVoteReply \<lparr>rvr_term = 3, rvr_vote_granted = True\<rparr>, env_replied_to = None\<rparr>"

lemma sample_envelope_encoded:
  "encode_raft_envelope sample_envelope =
     Inr (envelope_payload sample_envelope @ be_bytes 4 (crc32 (envelope_payload sample_envelope)))"
  by (simp add: encode_raft_envelope_iff sample_envelope_def envelope_simps max_raft_frame_size_def
      rw_checksum_size_def)

theorem corrupted_frame_rejected_witness:
  "isl (decode_raft_envelope
     ((envelope_payload sample_envelope @ be_bytes 4 (crc32 (envelope_payload sample_envelope)))[18 := 0]))"
  by (rule corrupted_frame_rejected [OF sample_envelope_encoded])
    (simp_all add: sample_envelope_def envelope_payload_def message_layout_def nth_append)

text \<open>C36: Replication never outgrows a frame. A request as the leader builds it, of at most four entries,
  whose records have at most one mebibyte and one kibibyte each, can be sent, and so can a reply
  that echoes it.\<close>

theorem bounded_requests_fit_frame:
  assumes "length (ae_entries q) \<le> 4"
    and "\<forall>e \<in> set (ae_entries q). \<exists>bs. encode_log_entry e = Inr bs \<and> length bs \<le> 1024 * 1024 + 1024"
    and "self \<noteq> 0"
  shows "\<not> isl (encode_raft_envelope \<lparr>env_sender_id = self, env_message = MAppendEntries q, env_replied_to = None\<rparr>)
    \<and> \<not> isl (encode_raft_envelope \<lparr>env_sender_id = self, env_message = MAppendEntriesReply reply,
        env_replied_to = Some q\<rparr>)"
proof -
  have small: "record_fits e \<and> length (record_layout e) \<le> 1049604" if "e \<in> set (ae_entries q)" for e
    using assms(2) that encode_entry_bytes by (fastforce simp: record_fits_def record_layout_def)
  have "length (records_layout es) \<le> length es * 1049604" if "set es \<subseteq> set (ae_entries q)" for es
    using that small by (induction es) fastforce+
  then have "length (append_layout q) \<le> 52 + 4 * 1049604"
    using assms(1) by (fastforce simp: append_layout_def entries_layout_def)
  moreover have "append_fits q"
    using assms(1) small by (simp add: append_fits_def entries_fit_def)
  moreover have "\<exists>bs. encode_raft_envelope env = Inr bs \<Longrightarrow> \<not> isl (encode_raft_envelope env)" for env
    by auto
  ultimately show ?thesis
    using assms(3)
    by (auto simp: encode_raft_envelope_iff envelope_simps max_raft_frame_size_def rw_checksum_size_def)
qed

definition sample_batch :: append_entries where
  "sample_batch = \<lparr>ae_term = 1, ae_leader_id = 1, ae_prev_log_index = 0, ae_prev_log_term = 0,
     ae_entries = [sample_entry], ae_leader_commit = 0, ae_read_context = 0\<rparr>"

theorem bounded_requests_fit_frame_witness:
  "\<not> isl (encode_raft_envelope \<lparr>env_sender_id = 1, env_message = MAppendEntries sample_batch, env_replied_to = None\<rparr>)"
  using bounded_requests_fit_frame [of sample_batch 1]
  by (simp add: sample_batch_def sample_entry_encoded length_entry_record length_command_layout sample_noop_def)

end
