(* ===== verification/Raft_Cluster.thy ===== *)
theory Raft_Cluster
  imports Raft_Node_Commit Raft_Wire
begin

text \<open>
  Three nodes and the network between them, and the first theorem on them: at most one leader per
  term.

  \<^item> A cluster is a node per id and the set of all envelopes ever sent, with their destinations. A
    message can be delivered late, many times or never, so that loss, delay, reordering and
    duplication are all included. Disks answer anything: every event runs with arbitrary answers of
    the system.
  \<^item> A step is one event at one node, or its restart: \<open>node_open\<close> on files that hold its log and a
    term and vote at least as new as those in memory.
  \<^item> \<open>history\<close> is bookkeeping for the proofs and influences nothing: all votes cast, the log of each
    term's leader, the log each candidate asked with, and who held which entry of its own term.
\<close>

section \<open>The step relation\<close>

definition ids :: "u64 set" where
  "ids = {1, 2, 3}"

definition peers_of :: "u64 \<Rightarrow> u64 array2" where
  "peers_of i = (if i = 1 then (2, 3) else if i = 2 then (1, 3) else (1, 2))"

text \<open>What the server does with an envelope it received, and the envelope it makes of a message.\<close>

definition event_of :: "raft_envelope \<Rightarrow> node_event option" where
  "event_of e =
     (case env_message e of
        MRequestVote q \<Rightarrow> Some (ReceiveRequestVote (env_sender_id e) q)
      | MRequestVoteReply y \<Rightarrow> Some (ReceiveVoteReply (env_sender_id e) y)
      | MAppendEntries q \<Rightarrow> Some (ReceiveAppendEntries (env_sender_id e) q)
      | MAppendEntriesReply y \<Rightarrow> map_option (\<lambda>q. ReceiveAppendReply (env_sender_id e) q y) (env_replied_to e))"

definition replied_to :: "node_event \<Rightarrow> append_entries option" where
  "replied_to ev = (case ev of ReceiveAppendEntries p q \<Rightarrow> Some q | _ \<Rightarrow> None)"

definition envelope_of :: "u64 \<Rightarrow> node_event \<Rightarrow> raft_message \<Rightarrow> raft_envelope" where
  "envelope_of i ev m = \<lparr>env_sender_id = i, env_message = m,
     env_replied_to = (if is_append_reply m then replied_to ev else None)\<rparr>"

record history =
  votes :: "(u64 \<times> u64 \<times> u64) set"
  lead :: "u64 \<Rightarrow> (u64 \<times> log_entry list) option"
  cand :: "u64 \<Rightarrow> u64 \<Rightarrow> log_entry list option"
  held :: "(u64 \<times> u64 \<times> nat) set"

record cluster =
  cl_node :: "u64 \<Rightarrow> raft_node"
  cl_net :: "(u64 \<times> raft_envelope) set"
  cl_hist :: history

definition note_step :: "u64 \<Rightarrow> (raft_node_error + raft_node_actions) \<Rightarrow> raft_node \<Rightarrow> history \<Rightarrow> history" where
  "note_step i r nd h =
     \<lparr>votes = votes h \<union> {(node_term nd, i, c) | c. voted_for (pm_state (nd_metadata nd)) = Some c},
      lead = (if leads nd then (lead h)(node_term nd \<mapsto> (i, node_entries nd)) else lead h),
      cand = (if \<exists>m \<in> set (msgs r). asks m
              then (cand h)(node_term nd := (cand h (node_term nd))(i \<mapsto> node_entries nd)) else cand h),
      held = held h \<union> {(node_term nd, i, n) | n. holds_own nd n}\<rparr>"

definition move :: "u64 \<Rightarrow> node_event \<Rightarrow> (raft_node_error + raft_node_actions) \<Rightarrow> raft_node \<Rightarrow> cluster \<Rightarrow> cluster" where
  "move i ev r nd s =
     \<lparr>cl_node = (cl_node s)(i := nd),
      cl_net = cl_net s \<union> (\<lambda>m. (ob_peer_id m, envelope_of i ev (ob_message m))) ` set (msgs r),
      cl_hist = note_step i r nd (cl_hist s)\<rparr>"

definition local_event :: "node_event \<Rightarrow> bool" where
  "local_event ev \<longleftrightarrow> ev = ElectionTimeout \<or> ev = HeartbeatTimeout \<or> ev = ReadBarrier \<or> (\<exists>c. ev = Propose c)"

definition enabled :: "u64 \<Rightarrow> node_event \<Rightarrow> cluster \<Rightarrow> bool" where
  "enabled i ev s \<longleftrightarrow> local_event ev \<or> (\<exists>e. (i, e) \<in> cl_net s \<and> event_of e = Some ev)"

inductive cluster_step :: "cluster \<Rightarrow> cluster \<Rightarrow> bool" where
  Event: "cluster_step s (move i ev r nd s)"
    if "i \<in> ids" and "enabled i ev s" and "node_step ev (cl_node s i) w = (r, nd, w')"
| Restart: "cluster_step s (move i ReadBarrier (Inr no_actions) nd s)"
    if "i \<in> ids" and "node_open i (peers_of i) dir w = (Inr nd, w')"
      and "metadata_le (pm_state (nd_metadata (cl_node s i))) (pm_state (nd_metadata nd))"
      and "node_entries nd = node_entries (cl_node s i)"

definition empty_history :: history where
  "empty_history = \<lparr>votes = {}, lead = \<lambda>t. None, cand = \<lambda>t i. None, held = {}\<rparr>"

definition fresh_node :: "u64 \<Rightarrow> raft_node \<Rightarrow> bool" where
  "fresh_node i nd \<longleftrightarrow> (\<exists>dir w w'. node_open i (peers_of i) dir w = (Inr nd, w')) \<and> node_entries nd = []
     \<and> pm_state (nd_metadata nd) = \<lparr>current_term = 0, voted_for = None\<rparr>"

inductive reachable :: "cluster \<Rightarrow> bool" where
  Start: "reachable s" if "\<forall>i \<in> ids. fresh_node i (cl_node s i)" and "cl_net s = {}" and "cl_hist s = empty_history"
| Step: "reachable s'" if "reachable s" and "cluster_step s s'"

section \<open>One move, seen from outside\<close>

definition local_step :: "node_event \<Rightarrow> raft_node \<Rightarrow> (raft_node_error + raft_node_actions) \<Rightarrow> raft_node \<Rightarrow> bool" where
  "local_step ev nd r nd' \<longleftrightarrow>
     full_inv nd' \<and> nd_self_id nd' = nd_self_id nd \<and> nd_peer_ids nd' = nd_peer_ids nd
     \<and> metadata_le (pm_state (nd_metadata nd)) (pm_state (nd_metadata nd'))
     \<and> take (unat (nd_commit_index nd)) (node_entries nd') = take (unat (nd_commit_index nd)) (node_entries nd)
     \<and> (\<forall>m \<in> set (msgs r). sent_ok nd' m)
     \<and> (lead_step nd nd' \<or> (\<exists>p y. ev = ReceiveVoteReply p y \<and> wins p y nd nd'))
     \<and> (grows nd nd' \<or> (\<exists>p q. ev = ReceiveAppendEntries p q \<and> merged q nd nd'))
     \<and> (\<forall>m \<in> set (msgs r). asks m \<longrightarrow> node_term nd < node_term nd' \<and> node_entries nd' = node_entries nd)
     \<and> (\<forall>m \<in> set (msgs r). grants m \<longrightarrow> (\<exists>q. ev = ReceiveRequestVote (ob_peer_id m) q
          \<and> rv_candidate_id q = ob_peer_id m \<and> rv_term q = node_term nd'
          \<and> candidate_log_is_up_to_date q (nd_log nd) \<and> node_entries nd' = node_entries nd))
     \<and> (\<forall>m \<in> set (msgs r). acknowledges m \<longrightarrow> (\<exists>p q. ev = ReceiveAppendEntries p q \<and> accepts q nd nd'))
     \<and> (node_role nd' = Candidate \<longrightarrow> \<not> nd_stopped nd' \<longrightarrow>
          node_role nd = Candidate \<and> \<not> nd_stopped nd \<and> node_term nd' = node_term nd \<and> node_entries nd' = node_entries nd
          \<or> (\<exists>m \<in> set (msgs r). asks m))
     \<and> matched_from ev nd (node_table nd')
     \<and> (nd_commit_index nd' = nd_commit_index nd \<or> nd_commit_index nd' = 0 \<or> replicated ev nd nd'
          \<or> (\<exists>p q. ev = ReceiveAppendEntries p q \<and> accepts q nd nd'))"

lemma node_step_local:
  assumes inv: "full_inv nd" and run: "node_step ev nd w = (r, nd', w')"
  shows "local_step ev nd r nd'"
proof -
  have "sound_step nd nd'" by (rule node_step_sound [OF full_inv_parts(1) [OF inv] run])
  then have a: "nd_self_id nd' = nd_self_id nd \<and> nd_peer_ids nd' = nd_peer_ids nd
     \<and> metadata_le (pm_state (nd_metadata nd)) (pm_state (nd_metadata nd'))
     \<and> take (unat (nd_commit_index nd)) (node_entries nd') = take (unat (nd_commit_index nd)) (node_entries nd)"
    by (simp add: sound_step_def node_le_def)
  have asks: "\<forall>m \<in> set (msgs r). asks m \<longrightarrow> node_term nd < node_term nd' \<and> node_entries nd' = node_entries nd"
    using message_events(1) [OF inv run] by blast
  have grants: "\<forall>m \<in> set (msgs r). grants m \<longrightarrow> (\<exists>q. ev = ReceiveRequestVote (ob_peer_id m) q
      \<and> rv_candidate_id q = ob_peer_id m \<and> rv_term q = node_term nd'
      \<and> candidate_log_is_up_to_date q (nd_log nd) \<and> node_entries nd' = node_entries nd)"
    using message_events(2) [OF inv run] by blast
  have acks: "\<forall>m \<in> set (msgs r). acknowledges m \<longrightarrow> (\<exists>p q. ev = ReceiveAppendEntries p q \<and> accepts q nd nd')"
    using message_events(3) [OF inv run] by blast
  have "matched_from ev nd (node_table nd')"
    and "nd_commit_index nd' = nd_commit_index nd \<or> nd_commit_index nd' = 0 \<or> replicated ev nd nd'
      \<or> (\<exists>p q. ev = ReceiveAppendEntries p q \<and> accepts q nd nd')"
    using node_step_commit [OF inv run] by blast+
  moreover have "full_inv nd'" "\<forall>m \<in> set (msgs r). sent_ok nd' m"
    "lead_step nd nd' \<or> (\<exists>p y. ev = ReceiveVoteReply p y \<and> wins p y nd nd')"
    using node_step_handled [OF inv run] by blast+
  ultimately show ?thesis
    unfolding local_step_def
    using a asks grants acks node_step_log [OF inv run] candidate_step [OF inv run]
    by (intro conjI) simp_all
qed

lemma node_open_fields:
  "node_open i ps dir w = (Inr nd, w') \<Longrightarrow> nd_self_id nd = i \<and> nd_peer_ids nd = ps \<and> nd_leader nd = None
     \<and> nd_commit_index nd = 0 \<and> node_role nd = Follower"
  by (auto simp: node_open_def new_election_def node_role_def election_role_def
      split: if_splits prod.splits sum.splits option.splits)

lemma node_open_local:
  assumes inv: "full_inv nd" and ids: "nd_self_id nd = i" "nd_peer_ids nd = ps"
    and run: "node_open i ps dir w = (Inr nd', w')"
    and le: "metadata_le (pm_state (nd_metadata nd)) (pm_state (nd_metadata nd'))"
    and es: "node_entries nd' = node_entries nd"
  shows "local_step ReadBarrier nd (Inr no_actions) nd'"
proof -
  have "terms_ok (node_term nd) (node_entries nd)" using full_inv_parts(3) [OF inv] by (simp add: core_inv_def)
  then have "terms_ok (node_term nd') (node_entries nd')"
    unfolding es using le by (auto simp: metadata_le_def node_term_def intro: terms_ok_mono)
  then have "full_inv nd'" by (rule node_open_full_inv [OF run])
  then show ?thesis
    using node_open_fields [OF run] ids le es
    by (simp add: local_step_def lead_step_def leads_def grows_def node_table_def)
qed

section \<open>Moves and induction over runs\<close>

abbreviation term_at :: "cluster \<Rightarrow> u64 \<Rightarrow> u64" where
  "term_at s i \<equiv> node_term (cl_node s i)"

abbreviation log_at :: "cluster \<Rightarrow> u64 \<Rightarrow> log_entry list" where
  "log_at s i \<equiv> node_entries (cl_node s i)"

abbreviation vote_at :: "cluster \<Rightarrow> u64 \<Rightarrow> u64 option" where
  "vote_at s i \<equiv> voted_for (pm_state (nd_metadata (cl_node s i)))"

definition node_part :: "cluster \<Rightarrow> bool" where
  "node_part s \<longleftrightarrow> (\<forall>i \<in> ids. full_inv (cl_node s i) \<and> nd_self_id (cl_node s i) = i
     \<and> nd_peer_ids (cl_node s i) = peers_of i)"

text \<open>\<open>moves s i ev r nd\<close>: the node \<open>i\<close> can take the event \<open>ev\<close> and become \<open>nd\<close>.\<close>

definition moves :: "cluster \<Rightarrow> u64 \<Rightarrow> node_event \<Rightarrow> (raft_node_error + raft_node_actions) \<Rightarrow> raft_node \<Rightarrow> bool" where
  "moves s i ev r nd \<longleftrightarrow> i \<in> ids \<and> enabled i ev s \<and> local_step ev (cl_node s i) r nd"

lemma move_fields [simp]:
  "cl_node (move i ev r nd s) = (cl_node s)(i := nd)"
  "cl_net (move i ev r nd s) = cl_net s \<union> (\<lambda>m. (ob_peer_id m, envelope_of i ev (ob_message m))) ` set (msgs r)"
  "votes (cl_hist (move i ev r nd s)) = votes (cl_hist s)
     \<union> {(node_term nd, i, c) | c. voted_for (pm_state (nd_metadata nd)) = Some c}"
  "lead (cl_hist (move i ev r nd s))
     = (if leads nd then (lead (cl_hist s))(node_term nd \<mapsto> (i, node_entries nd)) else lead (cl_hist s))"
  "cand (cl_hist (move i ev r nd s)) = (if \<exists>m \<in> set (msgs r). asks m
     then (cand (cl_hist s))(node_term nd := (cand (cl_hist s) (node_term nd))(i \<mapsto> node_entries nd)) else cand (cl_hist s))"
  "held (cl_hist (move i ev r nd s)) = held (cl_hist s) \<union> {(node_term nd, i, n) | n. holds_own nd n}"
  by (simp_all add: move_def note_step_def)

lemma cluster_step_moves:
  assumes "node_part s" and "cluster_step s s'"
  shows "\<exists>i ev r nd. moves s i ev r nd \<and> s' = move i ev r nd s"
  using assms(2,1)
proof cases
  case (Event i ev w r nd w')
  then show ?thesis using assms(1) node_step_local unfolding moves_def node_part_def by blast
next
  case (Restart i dir w nd w')
  have n: "full_inv (cl_node s i)" "nd_self_id (cl_node s i) = i" "nd_peer_ids (cl_node s i) = peers_of i"
    using assms(1) Restart(2) by (simp_all add: node_part_def)
  have "local_step ReadBarrier (cl_node s i) (Inr no_actions) nd"
    by (rule node_open_local [OF n Restart(3,4,5)])
  moreover have "enabled i ReadBarrier s" by (simp add: enabled_def local_event_def)
  ultimately show ?thesis using Restart(1,2) unfolding moves_def by blast
qed

lemma moves_local:
  assumes "moves s i ev r nd"
  shows "i \<in> ids" "enabled i ev s" "full_inv nd" "nd_self_id nd = nd_self_id (cl_node s i)"
    "nd_peer_ids nd = nd_peer_ids (cl_node s i)"
    "metadata_le (pm_state (nd_metadata (cl_node s i))) (pm_state (nd_metadata nd))"
    "m \<in> set (msgs r) \<Longrightarrow> sent_ok nd m"
    "term_at s i \<le> node_term nd"
  using assms by (simp_all add: moves_def local_step_def metadata_le_def node_term_def)

lemma fresh_node_inv:
  assumes "fresh_node i nd"
  shows "full_inv nd \<and> nd_self_id nd = i \<and> nd_peer_ids nd = peers_of i"
proof -
  obtain dir w w' where "node_open i (peers_of i) dir w = (Inr nd, w')" and "node_entries nd = []"
    using assms by (auto simp: fresh_node_def)
  then show ?thesis using node_open_full_inv node_open_fields by (simp add: terms_ok_def)
qed

lemma node_part_start: "\<forall>i \<in> ids. fresh_node i (cl_node s i) \<Longrightarrow> node_part s"
  unfolding node_part_def using fresh_node_inv by blast

lemma reachable_moves [consumes 1, case_names start move]:
  assumes "reachable s"
    and start: "\<And>s. \<forall>i \<in> ids. fresh_node i (cl_node s i) \<Longrightarrow> cl_net s = {} \<Longrightarrow> cl_hist s = empty_history \<Longrightarrow> P s"
    and move: "\<And>s i ev r nd. node_part s \<Longrightarrow> reachable s \<Longrightarrow> P s \<Longrightarrow> moves s i ev r nd \<Longrightarrow> P (move i ev r nd s)"
  shows "P s \<and> node_part s"
  using assms(1)
proof induction
  case (Start s)
  then show ?case using start node_part_start by blast
next
  case (Step s s')
  obtain i ev r nd where m: "moves s i ev r nd" "s' = move i ev r nd s"
    using cluster_step_moves Step by blast
  have "node_part s'"
    using Step(3) m moves_local [OF m(1)] unfolding node_part_def by auto
  then show ?case using move [of s i ev r nd] Step m by blast
qed

lemma enabled_net:
  "enabled i ev s \<Longrightarrow> \<not> local_event ev \<Longrightarrow> \<exists>e. (i, e) \<in> cl_net s \<and> event_of e = Some ev"
  by (simp add: enabled_def)

lemma event_of_simps:
  "event_of e = Some (ReceiveRequestVote p v) \<longleftrightarrow> env_sender_id e = p \<and> env_message e = MRequestVote v"
  "event_of e = Some (ReceiveVoteReply p y) \<longleftrightarrow> env_sender_id e = p \<and> env_message e = MRequestVoteReply y"
  "event_of e = Some (ReceiveAppendEntries p q) \<longleftrightarrow> env_sender_id e = p \<and> env_message e = MAppendEntries q"
  "event_of e = Some (ReceiveAppendReply p q z) \<longleftrightarrow>
     env_sender_id e = p \<and> env_message e = MAppendEntriesReply z \<and> env_replied_to e = Some q"
  by (auto simp: event_of_def split: raft_message.splits)

lemma local_event_simps [simp]:
  "\<not> local_event (ReceiveRequestVote p v)" "\<not> local_event (ReceiveVoteReply p y)"
  "\<not> local_event (ReceiveAppendEntries p q)" "\<not> local_event (ReceiveAppendReply p q z)"
  by (simp_all add: local_event_def)

lemma ids_peers: "i \<in> ids \<Longrightarrow> p \<in> set (list2 (peers_of i)) \<longleftrightarrow> p \<in> ids \<and> p \<noteq> i"
  by (auto simp: ids_def peers_of_def)

section \<open>Votes\<close>

definition vote_part :: "cluster \<Rightarrow> bool" where
  "vote_part s \<longleftrightarrow>
     (\<forall>t i c. (t, i, c) \<in> votes (cl_hist s) \<longrightarrow> i \<in> ids \<and> (t < term_at s i \<or> t = term_at s i \<and> vote_at s i = Some c))
     \<and> (\<forall>i \<in> ids. \<forall>c. vote_at s i = Some c \<longrightarrow> (term_at s i, i, c) \<in> votes (cl_hist s))
     \<and> (\<forall>t i c d. (t, i, c) \<in> votes (cl_hist s) \<longrightarrow> (t, i, d) \<in> votes (cl_hist s) \<longrightarrow> c = d)
     \<and> (\<forall>d e. (d, e) \<in> cl_net s \<longrightarrow> d \<in> ids \<and> env_sender_id e \<in> ids \<and> d \<noteq> env_sender_id e
          \<and> (\<forall>y. env_message e = MRequestVoteReply y \<longrightarrow> rvr_vote_granted y \<longrightarrow>
               (rvr_term y, env_sender_id e, d) \<in> votes (cl_hist s)))"

lemma vote_part_move:
  assumes np: "node_part s" and vp: "vote_part s" and mv: "moves s i ev r nd"
  shows "vote_part (move i ev r nd s)"
proof -
  let ?V = "votes (cl_hist s)" and ?V' = "votes (cl_hist (move i ev r nd s))"
  note l = moves_local [OF mv]
  have le: "term_at s i \<le> node_term nd"
    "node_term nd = term_at s i \<Longrightarrow> vote_at s i \<noteq> None \<Longrightarrow> voted_for (pm_state (nd_metadata nd)) = vote_at s i"
    using l(6) by (simp_all add: metadata_le_def node_term_def)
  have old: "j \<in> ids" "t < term_at s j \<or> t = term_at s j \<and> vote_at s j = Some c" if "(t, j, c) \<in> ?V" for t j c
    using vp that unfolding vote_part_def by blast+
  have keep: "t < node_term nd \<or> t = node_term nd \<and> voted_for (pm_state (nd_metadata nd)) = Some c"
    if "(t, i, c) \<in> ?V" for t c
    using old(2) [OF that] le by auto
  have fun': "c = d" if "(t, j, c) \<in> ?V'" "(t, j, d) \<in> ?V'" for t j c d
  proof -
    let ?new = "\<lambda>x. t = node_term nd \<and> j = i \<and> voted_for (pm_state (nd_metadata nd)) = Some x"
    have "(t, j, c) \<in> ?V \<or> ?new c" "(t, j, d) \<in> ?V \<or> ?new d" using that by auto
    then consider "(t, j, c) \<in> ?V" "(t, j, d) \<in> ?V" | "(t, j, c) \<in> ?V" "?new d" | "?new c" "(t, j, d) \<in> ?V"
      | "?new c" "?new d" by blast
    then show ?thesis
    proof cases
      case 1
      then show ?thesis using vp unfolding vote_part_def by blast
    next
      case 2
      then show ?thesis using keep [of t c] by simp
    next
      case 3
      then show ?thesis using keep [of t d] by simp
    qed simp
  qed
  have net: "d \<in> ids \<and> env_sender_id e \<in> ids \<and> d \<noteq> env_sender_id e
      \<and> (\<forall>y. env_message e = MRequestVoteReply y \<longrightarrow> rvr_vote_granted y \<longrightarrow> (rvr_term y, env_sender_id e, d) \<in> ?V')"
    if mem: "(d, e) \<in> cl_net (move i ev r nd s)" for d e
  proof (cases "(d, e) \<in> cl_net s")
    case True
    then have "d \<in> ids \<and> env_sender_id e \<in> ids \<and> d \<noteq> env_sender_id e \<and> (\<forall>y. env_message e = MRequestVoteReply y \<longrightarrow>
        rvr_vote_granted y \<longrightarrow> (rvr_term y, env_sender_id e, d) \<in> ?V)"
      using vp unfolding vote_part_def by blast
    then show ?thesis by auto
  next
    case False
    then obtain m where m: "m \<in> set (msgs r)" "d = ob_peer_id m" "e = envelope_of i ev (ob_message m)"
      using mem by auto
    have ok: "sent_ok nd m" by (rule l(7) [OF m(1)])
    have peers: "nd_peer_ids nd = peers_of i" using l(1,5) np by (simp add: node_part_def)
    have "d \<in> ids \<and> d \<noteq> i" using ok ids_peers [OF l(1)] by (simp add: sent_ok_def m(2) peers del: set_list2)
    moreover have "rvr_vote_granted y \<Longrightarrow> (rvr_term y, i, d) \<in> ?V'" if "ob_message m = MRequestVoteReply y" for y
      using ok that m(2) by (simp add: sent_ok_def)
    ultimately show ?thesis using l(1) by (simp add: m(3) envelope_of_def)
  qed
  have cur: "(term_at (move i ev r nd s) j, j, c) \<in> ?V'" if "j \<in> ids" "vote_at (move i ev r nd s) j = Some c" for j c
  proof (cases "j = i")
    case False
    then have "(term_at s j, j, c) \<in> ?V" using that vp unfolding vote_part_def by auto
    then show ?thesis using False by simp
  qed (use that in simp)
  have bound: "j \<in> ids \<and> (t < term_at (move i ev r nd s) j \<or> t = term_at (move i ev r nd s) j
      \<and> vote_at (move i ev r nd s) j = Some c)" if "(t, j, c) \<in> ?V'" for t j c
    using that old(1) [of t j c] old(2) [of t j c] keep [of t c] l(1) by (cases "j = i") auto
  show ?thesis unfolding vote_part_def using fun' net cur bound by blast
qed

lemma vote_part_start: "\<forall>i \<in> ids. fresh_node i (cl_node s i) \<Longrightarrow> cl_net s = {} \<Longrightarrow> cl_hist s = empty_history \<Longrightarrow> vote_part s"
  by (simp add: vote_part_def empty_history_def fresh_node_def)

section \<open>One leader per term\<close>

definition lead_part :: "cluster \<Rightarrow> bool" where
  "lead_part s \<longleftrightarrow>
     (\<forall>t i L. lead (cl_hist s) t = Some (i, L) \<longrightarrow> i \<in> ids \<and> t \<le> term_at s i
        \<and> (\<exists>p \<in> ids. p \<noteq> i \<and> (t, i, i) \<in> votes (cl_hist s) \<and> (t, p, i) \<in> votes (cl_hist s))
        \<and> (t = term_at s i \<longrightarrow> node_role (cl_node s i) = Candidate \<longrightarrow> nd_stopped (cl_node s i)))
     \<and> (\<forall>i \<in> ids. leads (cl_node s i) \<longrightarrow> lead (cl_hist s) (term_at s i) = Some (i, log_at s i))"

lemma lead_partD:
  assumes "lead_part s"
  shows "lead (cl_hist s) t = Some (i, L) \<Longrightarrow> i \<in> ids \<and> t \<le> term_at s i"
    and "lead (cl_hist s) t = Some (i, L) \<Longrightarrow> \<exists>p \<in> ids. p \<noteq> i \<and> (t, i, i) \<in> votes (cl_hist s) \<and> (t, p, i) \<in> votes (cl_hist s)"
    and "lead (cl_hist s) t = Some (i, L) \<Longrightarrow> t = term_at s i \<Longrightarrow> node_role (cl_node s i) = Candidate \<Longrightarrow>
      nd_stopped (cl_node s i)"
    and "i \<in> ids \<Longrightarrow> leads (cl_node s i) \<Longrightarrow> lead (cl_hist s) (term_at s i) = Some (i, log_at s i)"
  using assms unfolding lead_part_def by blast+

text \<open>Two majorities of three meet.\<close>

lemma majorities_meet:
  assumes "i \<in> ids" "j \<in> ids" "p \<in> ids" "q \<in> ids" "p \<noteq> i" "q \<noteq> j"
  shows "{i, p} \<inter> {j, q} \<noteq> {}"
  using assms unfolding ids_def by auto

lemma one_winner:
  assumes vp: "vote_part s" and i: "i \<in> ids" "p \<in> ids" "p \<noteq> i" "(t, i, i) \<in> votes (cl_hist s)" "(t, p, i) \<in> votes (cl_hist s)"
    and j: "j \<in> ids" "q \<in> ids" "q \<noteq> j" "(t, j, j) \<in> votes (cl_hist s)" "(t, q, j) \<in> votes (cl_hist s)"
  shows "i = j"
proof -
  obtain v where "v \<in> {i, p}" "v \<in> {j, q}" using majorities_meet [OF i(1) j(1) i(2) j(2) i(3) j(3)] by blast
  then have "(t, v, i) \<in> votes (cl_hist s)" "(t, v, j) \<in> votes (cl_hist s)" using i j by blast+
  then show ?thesis using vp unfolding vote_part_def by blast
qed

text \<open>The votes behind a winning reply, and that nobody has led the term before.\<close>

lemma winning_votes:
  assumes np: "node_part s" and vp: "vote_part s" and mv: "moves s i ev r nd"
    and ev: "ev = ReceiveVoteReply p y" and w: "wins p y (cl_node s i) nd"
  shows "p \<in> ids" "p \<noteq> i" "(term_at s i, i, i) \<in> votes (cl_hist s)" "(term_at s i, p, i) \<in> votes (cl_hist s)"
    "node_term nd = term_at s i"
proof -
  note l = moves_local [OF mv]
  have n: "nd_self_id (cl_node s i) = i" "nd_peer_ids (cl_node s i) = peers_of i"
    using np l(1) by (simp_all add: node_part_def)
  show "p \<in> ids" "p \<noteq> i"
    using w ids_peers [OF l(1)] n(2) by (simp_all add: wins_def is_peer_iff del: set_list2)
  show "(term_at s i, i, i) \<in> votes (cl_hist s)"
    using w n(1) vp l(1) by (simp add: wins_def vote_part_def)
  obtain e where "(i, e) \<in> cl_net s" "event_of e = Some ev"
    using enabled_net [OF l(2)] ev by auto
  then have "env_sender_id e = p" "env_message e = MRequestVoteReply y" "(i, e) \<in> cl_net s"
    by (simp_all add: ev event_of_simps)
  then show "(term_at s i, p, i) \<in> votes (cl_hist s)"
    using w vp unfolding wins_def vote_part_def by metis
  show "node_term nd = term_at s i" using w by (simp add: wins_def node_term_def)
qed

lemma win_is_first:
  assumes "node_part s" and "vote_part s" and "lead_part s" and "moves s i ev r nd"
    and "ev = ReceiveVoteReply p y" and "wins p y (cl_node s i) nd"
  shows "lead (cl_hist s) (term_at s i) = None"
proof (rule ccontr)
  note v = winning_votes [OF assms(1,2,4,5,6)]
  assume "lead (cl_hist s) (term_at s i) \<noteq> None"
  then obtain j L where j: "lead (cl_hist s) (term_at s i) = Some (j, L)" by auto
  obtain q where q: "q \<in> ids" "q \<noteq> j" "(term_at s i, j, j) \<in> votes (cl_hist s)" "(term_at s i, q, j) \<in> votes (cl_hist s)"
    using lead_partD(2) [OF assms(3) j] by blast
  have "i = j"
    by (rule one_winner [OF assms(2) moves_local(1) [OF assms(4)] v(1-4) _ q])
      (use lead_partD(1) [OF assms(3) j] in blast)
  then show False using lead_partD(3) [OF assms(3) j] assms(6) by (simp add: wins_def)
qed

lemma lead_part_move:
  assumes np: "node_part s" and vp: "vote_part s" and lp: "lead_part s" and mv: "moves s i ev r nd"
  shows "lead_part (move i ev r nd s)"
proof -
  let ?s' = "move i ev r nd s"
  note l = moves_local [OF mv]
  have step: "lead_step (cl_node s i) nd \<or> (\<exists>p y. ev = ReceiveVoteReply p y \<and> wins p y (cl_node s i) nd)"
    and cand: "node_role nd = Candidate \<longrightarrow> \<not> nd_stopped nd \<longrightarrow>
        node_role (cl_node s i) = Candidate \<and> \<not> nd_stopped (cl_node s i) \<and> node_term nd = term_at s i
        \<or> (\<exists>m \<in> set (msgs r). asks m)"
    and asks: "\<forall>m \<in> set (msgs r). asks m \<longrightarrow> term_at s i < node_term nd"
    using mv by (auto simp: moves_def local_step_def)
  have led: "leads nd \<Longrightarrow> node_role nd = Leader"
    using leading_node(6) [of nd] full_inv_parts(1) [OF l(3)] by (cases "nd_leader nd") (auto simp: leads_def)
  have old: "j \<in> ids \<and> t \<le> term_at ?s' j
        \<and> (\<exists>p \<in> ids. p \<noteq> j \<and> (t, j, j) \<in> votes (cl_hist ?s') \<and> (t, p, j) \<in> votes (cl_hist ?s'))
        \<and> (t = term_at ?s' j \<longrightarrow> node_role (cl_node ?s' j) = Candidate \<longrightarrow> nd_stopped (cl_node ?s' j))"
    if L: "lead (cl_hist s) t = Some (j, L)" for t j L
  proof -
    note d = lead_partD(1,2,3) [OF lp L]
    have "t \<le> term_at ?s' j" using d(1) l(8) by auto
    moreover have "nd_stopped (cl_node ?s' j)" if "t = term_at ?s' j" "node_role (cl_node ?s' j) = Candidate"
    proof (cases "j = i")
      case True
      show ?thesis
      proof (rule ccontr)
        assume "\<not> nd_stopped (cl_node ?s' j)"
        then have "node_role (cl_node s i) = Candidate \<and> \<not> nd_stopped (cl_node s i) \<and> node_term nd = term_at s i
          \<or> term_at s i < node_term nd"
          using cand asks that True by auto
        then show False using d that True by auto
      qed
    qed (use d that in simp)
    ultimately show ?thesis using d(1,2) by auto
  qed
  show ?thesis
  proof (cases "leads nd")
    case False
    have "lead (cl_hist ?s') (term_at ?s' j) = Some (j, log_at ?s' j)" if "j \<in> ids" "leads (cl_node ?s' j)" for j
      using that False lead_partD(4) [OF lp] by (cases "j = i") auto
    moreover have "lead (cl_hist ?s') = lead (cl_hist s)" using False by simp
    ultimately show ?thesis unfolding lead_part_def using old by metis
  next
    case True
    let ?t = "node_term nd"
    have win: "\<exists>p \<in> ids. p \<noteq> i \<and> (?t, i, i) \<in> votes (cl_hist s) \<and> (?t, p, i) \<in> votes (cl_hist s)"
      using step
    proof
      assume "lead_step (cl_node s i) nd"
      then have "leads (cl_node s i)" "?t = term_at s i" using True by (simp_all add: lead_step_def)
      then show ?thesis using lead_partD(2) [OF lp lead_partD(4) [OF lp l(1)]] by simp
    next
      assume "\<exists>p y. ev = ReceiveVoteReply p y \<and> wins p y (cl_node s i) nd"
      then obtain p y where "ev = ReceiveVoteReply p y" "wins p y (cl_node s i) nd" by blast
      from winning_votes [OF np vp mv this] show ?thesis by auto
    qed
    have mine: "j = i" if j: "j \<in> ids" "leads (cl_node s j)" "term_at s j = ?t" for j
    proof -
      obtain q where q: "q \<in> ids" "q \<noteq> j" "(?t, j, j) \<in> votes (cl_hist s)" "(?t, q, j) \<in> votes (cl_hist s)"
        using lead_partD(2) [OF lp lead_partD(4) [OF lp j(1,2)]] j(3) by auto
      from win obtain p where "p \<in> ids" "p \<noteq> i" "(?t, i, i) \<in> votes (cl_hist s)" "(?t, p, i) \<in> votes (cl_hist s)" by blast
      from one_winner [OF vp l(1) this j(1) q] show "j = i" by simp
    qed
    have "lead (cl_hist ?s') (term_at ?s' j) = Some (j, log_at ?s' j)" if j: "j \<in> ids" "leads (cl_node ?s' j)" for j
    proof (cases "j = i")
      case False
      then have lj: "leads (cl_node s j)" using j(2) by simp
      have "term_at s j \<noteq> ?t" using mine [OF j(1) lj] False by blast
      then show ?thesis using lead_partD(4) [OF lp j(1) lj] False True by simp
    qed (use True in simp)
    moreover have "j \<in> ids \<and> t \<le> term_at ?s' j
        \<and> (\<exists>p \<in> ids. p \<noteq> j \<and> (t, j, j) \<in> votes (cl_hist ?s') \<and> (t, p, j) \<in> votes (cl_hist ?s'))
        \<and> (t = term_at ?s' j \<longrightarrow> node_role (cl_node ?s' j) = Candidate \<longrightarrow> nd_stopped (cl_node ?s' j))"
      if L: "lead (cl_hist ?s') t = Some (j, L)" for t j L
    proof (cases "t = ?t")
      case False
      then have "lead (cl_hist s) t = Some (j, L)" using L True by simp
      then show ?thesis by (rule old)
    next
      case t: True
      then have "j = i" using L True by simp
      then show ?thesis using t win l(1) led [OF True] by auto
    qed
    ultimately show ?thesis unfolding lead_part_def by blast
  qed
qed

end
