(* ===== verification/Raft_Cluster_Log.thy ===== *)
theory Raft_Cluster_Log
  imports Raft_Cluster
begin

text \<open>
  Election safety over time, and log matching: every log agrees, up to each of its entries, with the log
  of the leader of that entry's term.
\<close>

section \<open>The leaders' logs only grow\<close>

definition lead_grows :: "history \<Rightarrow> history \<Rightarrow> bool" where
  "lead_grows h h' \<longleftrightarrow> (\<forall>t i L. lead h t = Some (i, L) \<longrightarrow>
     (\<exists>xs. lead h' t = Some (i, L @ xs) \<and> (\<forall>e \<in> set xs. entry_term e = t)))"

lemma lead_growsD:
  "lead_grows h h' \<Longrightarrow> lead h t = Some (i, L) \<Longrightarrow> \<exists>xs. lead h' t = Some (i, L @ xs) \<and> (\<forall>e \<in> set xs. entry_term e = t)"
  by (simp add: lead_grows_def)

text \<open>When a node leads after a move, its log is the old leader log with entries of the term, or the first.\<close>

lemma leading_move:
  assumes np: "node_part s" and vp: "vote_part s" and lp: "lead_part s" and mv: "moves s i ev r nd" and lead: "leads nd"
  shows "lead (cl_hist s) (node_term nd) = None \<and> (\<exists>p y. ev = ReceiveVoteReply p y \<and> wins p y (cl_node s i) nd)
    \<or> (\<exists>xs. lead (cl_hist s) (node_term nd) = Some (i, log_at s i) \<and> node_entries nd = log_at s i @ xs
        \<and> node_term nd = term_at s i \<and> (\<forall>e \<in> set xs. entry_term e = node_term nd))"
proof (cases "\<exists>p y. ev = ReceiveVoteReply p y \<and> wins p y (cl_node s i) nd")
  case True
  then obtain p y where w: "ev = ReceiveVoteReply p y" "wins p y (cl_node s i) nd" by blast
  have "lead (cl_hist s) (term_at s i) = None" by (rule win_is_first [OF np vp lp mv w])
  then show ?thesis using winning_votes(5) [OF np vp mv w] True by simp
next
  case False
  then have step: "lead_step (cl_node s i) nd" and log: "grows (cl_node s i) nd \<or> (\<exists>p q. merged q (cl_node s i) nd)"
    using mv by (auto simp: moves_def local_step_def)
  then have g: "grows (cl_node s i) nd" "leads (cl_node s i)" "node_term nd = term_at s i"
    using lead by (auto simp: merged_def lead_step_def)
  then show ?thesis
    using lead_partD(4) [OF lp moves_local(1) [OF mv]] by (auto simp: grows_def)
qed

lemma move_lead_grows:
  assumes "node_part s" and "vote_part s" and "lead_part s" and "moves s i ev r nd"
  shows "lead_grows (cl_hist s) (cl_hist (move i ev r nd s))"
proof (cases "leads nd")
  case True
  from leading_move [OF assms True] show ?thesis
    by (auto simp: lead_grows_def True intro: exI [of _ "[]"])
next
  case False
  then show ?thesis by (auto simp: lead_grows_def intro: exI [of _ "[]"])
qed

section \<open>Agreement with the leaders' logs\<close>

definition agrees :: "history \<Rightarrow> log_entry list \<Rightarrow> bool" where
  "agrees h es \<longleftrightarrow> (\<forall>k < length es. \<exists>i L. lead h (entry_term (es ! k)) = Some (i, L) \<and> take (Suc k) es = take (Suc k) L)"

lemma agreesD: "agrees h es \<Longrightarrow> k < length es \<Longrightarrow> \<exists>i L. lead h (entry_term (es ! k)) = Some (i, L) \<and> take (Suc k) es = take (Suc k) L"
  by (simp add: agrees_def)

lemma take_eq_length: "take n xs = take n ys \<Longrightarrow> n \<le> length xs \<Longrightarrow> n \<le> length ys"
  by (metis length_take min.absorb_iff2 min.cobounded1)

lemma take_eq_nth: "take n xs = take n ys \<Longrightarrow> k < n \<Longrightarrow> xs ! k = ys ! k"
  by (metis nth_take)

lemma take_eq_shorter: "take n xs = take n ys \<Longrightarrow> m \<le> n \<Longrightarrow> take m xs = take m ys"
  by (metis min.absorb1 take_take)

lemma agrees_mono:
  assumes "lead_grows h h'" and "agrees h es"
  shows "agrees h' es"
  unfolding agrees_def
proof (intro allI impI)
  fix k assume k: "k < length es"
  obtain i L where L: "lead h (entry_term (es ! k)) = Some (i, L)" "take (Suc k) es = take (Suc k) L"
    using agreesD [OF assms(2) k] by blast
  then have "Suc k \<le> length L" using take_eq_length k by (metis Suc_leI)
  moreover obtain xs where "lead h' (entry_term (es ! k)) = Some (i, L @ xs)" using lead_growsD [OF assms(1) L(1)] by blast
  ultimately show "\<exists>i L. lead h' (entry_term (es ! k)) = Some (i, L) \<and> take (Suc k) es = take (Suc k) L"
    using L(2) by simp
qed

lemma agrees_take: "agrees h es \<Longrightarrow> agrees h (take n es)"
  unfolding agrees_def
proof (intro allI impI)
  fix k assume a: "\<forall>k < length es. \<exists>i L. lead h (entry_term (es ! k)) = Some (i, L) \<and> take (Suc k) es = take (Suc k) L"
    and k: "k < length (take n es)"
  then obtain i L where "lead h (entry_term (es ! k)) = Some (i, L)" "take (Suc k) es = take (Suc k) L" by auto
  moreover have "take (Suc k) (take n es) = take (Suc k) es" using k by (simp add: min_absorb1)
  ultimately show "\<exists>i L. lead h (entry_term (take n es ! k)) = Some (i, L) \<and> take (Suc k) (take n es) = take (Suc k) L"
    using k by simp
qed

lemma agrees_own:
  assumes es: "agrees h es" and xs: "\<forall>e \<in> set xs. entry_term e = t" and L: "xs \<noteq> [] \<Longrightarrow> lead h t = Some (i, es @ xs)"
  shows "agrees h (es @ xs)"
  unfolding agrees_def
proof (intro allI impI)
  fix k assume k: "k < length (es @ xs)"
  show "\<exists>i L. lead h (entry_term ((es @ xs) ! k)) = Some (i, L) \<and> take (Suc k) (es @ xs) = take (Suc k) L"
  proof (cases "k < length es")
    case True
    then show ?thesis using agreesD [OF es True] by (simp add: nth_append)
  next
    case False
    then have "(es @ xs) ! k \<in> set xs" using k by (simp add: nth_append)
    then have "entry_term ((es @ xs) ! k) = t" "xs \<noteq> []" using xs by auto
    then show ?thesis using L by simp
  qed
qed

text \<open>Two logs that agree with the leaders' have the same entries up to an entry of the same term.\<close>

lemma agrees_match:
  assumes "agrees h es" and "agrees h fs" and "k < length es" "k < length fs" and "entry_term (es ! k) = entry_term (fs ! k)"
  shows "take (Suc k) es = take (Suc k) fs"
  using agreesD [OF assms(1,3)] agreesD [OF assms(2,4)] assms(5) by auto

section \<open>The invariant\<close>

definition request_part :: "history \<Rightarrow> append_entries \<Rightarrow> bool" where
  "request_part h q \<longleftrightarrow>
     ae_prev_log_index q = 0 \<and> ae_entries q = []
     \<or> (\<exists>i L. lead h (ae_term q) = Some (i, L) \<and> request_of q (ae_term q) (ae_leader_id q) L)"

lemma request_part_mono: "lead_grows h h' \<Longrightarrow> request_part h q \<Longrightarrow> request_part h' q"
  unfolding request_part_def by (metis lead_growsD request_of_mono)

definition log_part :: "cluster \<Rightarrow> bool" where
  "log_part s \<longleftrightarrow>
     (\<forall>i \<in> ids. agrees (cl_hist s) (log_at s i))
     \<and> (\<forall>t i L. lead (cl_hist s) t = Some (i, L) \<longrightarrow> agrees (cl_hist s) L \<and> terms_ok t L)
     \<and> (\<forall>d e q. (d, e) \<in> cl_net s \<longrightarrow> env_message e = MAppendEntries q \<longrightarrow> request_part (cl_hist s) q)"

text \<open>What a follower makes of an accepted request is a prefix of the leader's log.\<close>

lemma accepted_prefix:
  assumes es: "agrees h es" and L: "agrees h L" and q: "request_of q t self L" and acc: "accepted q es"
  shows "take (unat (ae_prev_log_index q)) es = take (unat (ae_prev_log_index q)) L"
proof (cases "unat (ae_prev_log_index q) = 0")
  case False
  let ?p = "unat (ae_prev_log_index q)"
  have "?p \<le> length es" "entry_term (es ! (?p - 1)) = ae_prev_log_term q"
    using acc False by (simp_all add: accepted_def holds_at_def)
  moreover have "?p \<le> length L" "entry_term (L ! (?p - 1)) = ae_prev_log_term q"
    using q False by (simp_all add: request_of_def prev_term_of_def)
  ultimately have "take (Suc (?p - 1)) es = take (Suc (?p - 1)) L"
    using False by (intro agrees_match [OF es L]) simp_all
  then show ?thesis using False by simp
qed simp

lemma merged_prefix:
  assumes es: "agrees h (node_entries nd)" and L: "agrees h L" and q: "request_of q t self L" and m: "merged q nd nd'"
  shows "node_entries nd' = node_entries nd
    \<or> (\<exists>n \<le> unat (ae_prev_log_index q) + length (ae_entries q). node_entries nd' = take n L)"
proof -
  let ?p = "unat (ae_prev_log_index q)" and ?n = "length (ae_entries q)"
  have acc: "accepted q (node_entries nd)" using m by (simp add: merged_def)
  have pre: "take ?p (node_entries nd) = take ?p L" by (rule accepted_prefix [OF es L q acc])
  have sl: "ae_entries q = take ?n (drop ?p L)" using q by (simp add: request_of_def)
  have "take ?p (node_entries nd) @ take j (ae_entries q) = take (?p + j) L" if "j \<le> ?n" for j
  proof -
    have "take j (ae_entries q) = take j (drop ?p L)" using sl that by (metis min.absorb1 take_take)
    then show ?thesis using pre by (simp add: take_add)
  qed
  moreover obtain j where "j \<le> ?n" "node_entries nd' = take ?p (node_entries nd) @ take j (ae_entries q)
      \<or> node_entries nd' = node_entries nd" using m unfolding merged_def by blast
  ultimately show ?thesis by (metis add_le_cancel_left)
qed

lemma delivered_request:
  assumes "log_part s" and "moves s i (ReceiveAppendEntries p q) r nd"
  shows "request_part (cl_hist s) q"
proof -
  obtain e where "(i, e) \<in> cl_net s" "env_message e = MAppendEntries q"
    using enabled_net [OF moves_local(2) [OF assms(2)]] by (auto simp: event_of_simps)
  then show ?thesis using assms(1) unfolding log_part_def by blast
qed

lemma probe_changes_nothing:
  "ae_prev_log_index q = 0 \<Longrightarrow> ae_entries q = [] \<Longrightarrow> merged q nd nd' \<Longrightarrow> node_entries nd' = node_entries nd"
  by (simp add: merged_def)

lemma log_part_move:
  assumes np: "node_part s" and vp: "vote_part s" and lp: "lead_part s" and gp: "log_part s" and mv: "moves s i ev r nd"
  shows "log_part (move i ev r nd s)"
proof -
  let ?s' = "move i ev r nd s"
  let ?h = "cl_hist s" and ?h' = "cl_hist ?s'"
  note l = moves_local [OF mv] and lg = move_lead_grows [OF np vp lp mv]
  have old: "\<And>j. j \<in> ids \<Longrightarrow> agrees ?h (log_at s j)" "\<And>t j L. lead ?h t = Some (j, L) \<Longrightarrow> agrees ?h L \<and> terms_ok t L"
    "\<And>d e q. (d, e) \<in> cl_net s \<Longrightarrow> env_message e = MAppendEntries q \<Longrightarrow> request_part ?h q"
    using gp unfolding log_part_def by blast+
  have here: "agrees ?h' (node_entries nd)"
  proof -
    consider "grows (cl_node s i) nd" | p q where "ev = ReceiveAppendEntries p q" "merged q (cl_node s i) nd"
      using mv by (auto simp: moves_def local_step_def)
    then show ?thesis
    proof cases
      case 1
      then obtain xs where xs: "node_entries nd = log_at s i @ xs" "xs \<noteq> [] \<longrightarrow> leads nd"
        "\<forall>e \<in> set xs. entry_term e = node_term nd" by (auto simp: grows_def)
      show ?thesis unfolding xs(1)
        by (rule agrees_own [OF agrees_mono [OF lg old(1) [OF l(1)]] xs(3)]) (use xs in simp)
    next
      case (2 p q)
      have "request_part ?h q" using delivered_request [OF gp] mv 2(1) by blast
      then consider "ae_prev_log_index q = 0" "ae_entries q = []"
        | j L where "lead ?h (ae_term q) = Some (j, L)" "request_of q (ae_term q) (ae_leader_id q) L"
        by (auto simp: request_part_def)
      then have "agrees ?h (node_entries nd)"
      proof cases
        case 1
        then show ?thesis using probe_changes_nothing [OF 1 2(2)] old(1) [OF l(1)] by simp
      next
        case (2 j L)
        then show ?thesis
          using merged_prefix [OF old(1) [OF l(1)] _ 2(2) \<open>merged q (cl_node s i) nd\<close>] old(1) [OF l(1)] old(2) [OF 2(1)]
            agrees_take [of ?h L] by auto
      qed
      then show ?thesis by (rule agrees_mono [OF lg])
    qed
  qed
  have nodes: "agrees ?h' (log_at ?s' j)" if "j \<in> ids" for j
    using here agrees_mono [OF lg old(1) [OF that]] by simp
  have leads: "agrees ?h' L \<and> terms_ok t L" if L: "lead ?h' t = Some (j, L)" for t j L
  proof (cases "leads nd \<and> t = node_term nd")
    case True
    then have "L = node_entries nd" using L by simp
    moreover have "terms_ok t (node_entries nd)" using full_inv_parts(3) [OF l(3)] True by (simp add: core_inv_def)
    ultimately show ?thesis using here by simp
  next
    case False
    then have "lead ?h t = Some (j, L)" using L by (auto split: if_splits)
    from old(2) [OF this] show ?thesis using agrees_mono [OF lg] by blast
  qed
  have net: "request_part ?h' q" if mem: "(d, e) \<in> cl_net ?s'" "env_message e = MAppendEntries q" for d e q
  proof (cases "(d, e) \<in> cl_net s")
    case True
    then show ?thesis using request_part_mono [OF lg old(3)] mem(2) by blast
  next
    case False
    then obtain m where m: "m \<in> set (msgs r)" "ob_message m = MAppendEntries q"
      using mem by (auto simp: envelope_of_def)
    have "leads nd" and q: "request_of q (node_term nd) (nd_self_id nd) (node_entries nd) \<or> is_probe q nd"
      using l(7) [OF m(1)] m(2) by (auto simp: sent_ok_def)
    then have "lead ?h' (node_term nd) = Some (i, node_entries nd)" by simp
    then show ?thesis
      using q unfolding request_part_def by (auto simp: is_probe_def request_of_def)
  qed
  show ?thesis unfolding log_part_def using nodes leads net by blast
qed

section \<open>Reachable clusters\<close>

lemma reachable_parts:
  assumes "reachable s"
  shows "node_part s" "vote_part s" "lead_part s" "log_part s"
proof -
  have "(vote_part s \<and> lead_part s \<and> log_part s) \<and> node_part s"
    using assms
  proof (rule reachable_moves)
    fix s :: cluster assume f: "\<forall>i \<in> ids. fresh_node i (cl_node s i)" and n: "cl_net s = {}" and h: "cl_hist s = empty_history"
    have "\<forall>i \<in> ids. log_at s i = [] \<and> \<not> leads (cl_node s i)"
      using f node_open_fields by (fastforce simp: fresh_node_def leads_def)
    then show "vote_part s \<and> lead_part s \<and> log_part s"
      using vote_part_start [OF f n h] n h by (simp add: lead_part_def log_part_def empty_history_def agrees_def)
  next
    fix s :: cluster and i ev r nd
    assume np: "node_part s" and p: "vote_part s \<and> lead_part s \<and> log_part s" and mv: "moves s i ev r nd"
    then show "vote_part (move i ev r nd s) \<and> lead_part (move i ev r nd s) \<and> log_part (move i ev r nd s)"
      using vote_part_move [OF np _ mv] lead_part_move [OF np _ _ mv] log_part_move [OF np _ _ _ mv] by blast
  qed
  then show "node_part s" "vote_part s" "lead_part s" "log_part s" by blast+
qed

lemma run_lead_owner:
  assumes "cluster_step\<^sup>*\<^sup>* s s'" and "reachable s" and "lead (cl_hist s) t = Some (i, L)"
  shows "reachable s' \<and> (\<exists>xs. lead (cl_hist s') t = Some (i, L @ xs))"
  using assms
proof (induction rule: rtranclp_induct)
  case base
  then show ?case by (auto intro: exI [of _ "[]"])
next
  case (step y z)
  then obtain xs where y: "reachable y" "lead (cl_hist y) t = Some (i, L @ xs)" by blast
  obtain j ev r nd where m: "moves y j ev r nd" "z = move j ev r nd y"
    using cluster_step_moves [OF reachable_parts(1) [OF y(1)] step(2)] by blast
  have "lead_grows (cl_hist y) (cl_hist z)"
    unfolding m(2) by (rule move_lead_grows [OF reachable_parts(1-3) [OF y(1)] m(1)])
  from lead_growsD [OF this y(2)] show ?case using reachable.Step [OF y(1) step(2)] by (metis append_assoc)
qed

end
