(* ===== verification/Raft_Cluster_Votes.thy ===== *)
theory Raft_Cluster_Votes
  imports Raft_Cluster_Log
begin

text \<open>
  Leader completeness. \<open>held\<close> records who held which entry of its own term. An entry that two nodes
  have held so is in the log of every later leader: a voter of the later leader held it, kept it up to
  its vote, and did not vote for a log without it.
\<close>

section \<open>Covering an entry\<close>

text \<open>
  \<open>covers h t n U es\<close>: the log \<open>es\<close> has the first \<open>n\<close> entries of the leader of term \<open>t\<close>, or some leader of a
  later term in \<open>U\<close> has not.
\<close>

definition covers :: "history \<Rightarrow> u64 \<Rightarrow> nat \<Rightarrow> u64 set \<Rightarrow> log_entry list \<Rightarrow> bool" where
  "covers h t n U es \<longleftrightarrow> (\<forall>i L. lead h t = Some (i, L) \<longrightarrow> take n es = take n L
     \<or> (\<exists>u \<in> U. t < u \<and> (\<exists>j M. lead h u = Some (j, M) \<and> take n M \<noteq> take n L)))"

definition entry_of :: "history \<Rightarrow> u64 \<Rightarrow> nat \<Rightarrow> bool" where
  "entry_of h t n \<longleftrightarrow> 0 < n \<and> (\<exists>i L. lead h t = Some (i, L) \<and> n \<le> length L \<and> terms_ok t L \<and> entry_term (L ! (n - 1)) = t)"

lemma terms_ok_nth: "terms_ok t L \<Longrightarrow> k < length L \<Longrightarrow> entry_term (L ! k) \<le> t"
  by (auto simp: terms_ok_def)

lemma terms_ok_append: "terms_ok t L \<Longrightarrow> \<forall>e \<in> set xs. entry_term e = t \<Longrightarrow> terms_ok t (L @ xs)"
proof (induction xs rule: rev_induct)
  case (snoc x xs)
  then show ?case using terms_ok_snoc [of t "L @ xs" x] by simp
qed simp

lemma entry_of_mono:
  assumes "lead_grows h h'" and "entry_of h t n"
  shows "entry_of h' t n"
proof -
  obtain i L where L: "0 < n" "lead h t = Some (i, L)" "n \<le> length L" "terms_ok t L" "entry_term (L ! (n - 1)) = t"
    using assms(2) by (auto simp: entry_of_def)
  obtain xs where xs: "lead h' t = Some (i, L @ xs)" "\<forall>e \<in> set xs. entry_term e = t"
    using lead_growsD [OF assms(1) L(2)] by blast
  then show ?thesis using L terms_ok_append [OF L(4)] by (auto simp: entry_of_def nth_append)
qed

text \<open>A later leader's log that lacks an entry never gets it.\<close>

lemma still_lacks:
  assumes L: "n \<le> length L" "terms_ok t L" and u: "t < u" "\<forall>e \<in> set xs. entry_term e = u"
    and lacks: "take n M \<noteq> take n L"
  shows "take n (M @ xs) \<noteq> take n L"
proof
  assume eq: "take n (M @ xs) = take n L"
  have short: "length M < n" using eq lacks by (cases "n \<le> length M") auto
  have "n \<le> length (M @ xs)" using take_eq_length [OF eq [symmetric]] L(1) by simp
  then have "length M < length (M @ xs)" by (rule less_le_trans [OF short])
  then have "(M @ xs) ! length M \<in> set xs" by (simp add: nth_append)
  then have "entry_term ((M @ xs) ! length M) = u" using u(2) by blast
  moreover have "(M @ xs) ! length M = L ! length M" by (rule take_eq_nth [OF eq short])
  ultimately show False using terms_ok_nth [OF L(2), of "length M"] u(1) short L(1) by simp
qed

lemma covers_mono:
  assumes lg: "lead_grows h h'" and e: "entry_of h t n" and c: "covers h t n U es" and U: "U \<subseteq> U'"
  shows "covers h' t n U' es"
  unfolding covers_def
proof (intro allI impI)
  fix i L' assume L': "lead h' t = Some (i, L')"
  obtain j L where L: "lead h t = Some (j, L)" "n \<le> length L" "terms_ok t L" using e by (auto simp: entry_of_def)
  obtain xs where "lead h' t = Some (j, L @ xs)" using lead_growsD [OF lg L(1)] by blast
  then have same: "take n L' = take n L" using L' L(2) by simp
  from c L(1) consider "take n es = take n L"
    | u k M where "u \<in> U" "t < u" "lead h u = Some (k, M)" "take n M \<noteq> take n L" unfolding covers_def by blast
  then show "take n es = take n L'
     \<or> (\<exists>u \<in> U'. t < u \<and> (\<exists>j M. lead h' u = Some (j, M) \<and> take n M \<noteq> take n L'))"
  proof cases
    case (2 u k M)
    obtain ys where ys: "lead h' u = Some (k, M @ ys)" "\<forall>e \<in> set ys. entry_term e = u"
      using lead_growsD [OF lg 2(3)] by blast
    have "take n (M @ ys) \<noteq> take n L" by (rule still_lacks [OF L(2,3) 2(2) ys(2) 2(4)])
    then show ?thesis using 2 ys(1) U same by auto
  qed (simp add: same)
qed

lemma covers_append:
  assumes "entry_of h t n" and "covers h t n U es"
  shows "covers h t n U (es @ xs)"
  unfolding covers_def
proof (intro allI impI)
  fix i L assume L: "lead h t = Some (i, L)"
  let ?bad = "\<exists>u \<in> U. t < u \<and> (\<exists>j M. lead h u = Some (j, M) \<and> take n M \<noteq> take n L)"
  have n: "n \<le> length L" using assms(1) L by (auto simp: entry_of_def)
  from assms(2) L consider "take n es = take n L" | ?bad unfolding covers_def by blast
  then show "take n (es @ xs) = take n L \<or> ?bad"
  proof cases
    case 1
    then show ?thesis using take_eq_length [OF 1 [symmetric] n] by simp
  qed simp
qed

lemma covers_cong: "take n es = take n fs \<Longrightarrow> covers h t n U es \<longleftrightarrow> covers h t n U fs"
  by (simp add: covers_def)

section \<open>What a node has held\<close>

definition held_part :: "cluster \<Rightarrow> bool" where
  "held_part s \<longleftrightarrow> (\<forall>t i n. (t, i, n) \<in> held (cl_hist s) \<longrightarrow>
     i \<in> ids \<and> t \<le> term_at s i \<and> entry_of (cl_hist s) t n \<and> covers (cl_hist s) t n {..term_at s i} (log_at s i))"

lemma held_partD:
  assumes "held_part s" and "(t, i, n) \<in> held (cl_hist s)"
  shows "i \<in> ids" "t \<le> term_at s i" "entry_of (cl_hist s) t n" "covers (cl_hist s) t n {..term_at s i} (log_at s i)"
  using assms unfolding held_part_def by blast+

text \<open>The entries a node has held survive a move of its log.\<close>

lemma merged_covers:
  assumes es: "agrees h (node_entries nd)" and L: "agrees h L" and q: "lead h (ae_term q) = Some (j, L)" "request_of q (ae_term q) self L"
    and m: "merged q nd nd'" and t: "t \<le> node_term nd'" and e: "entry_of h t n"
    and c: "covers h t n U (node_entries nd)" and U: "U \<subseteq> {..node_term nd'}"
  shows "covers h t n {..node_term nd'} (node_entries nd')"
  unfolding covers_def
proof (intro allI impI)
  fix i M assume M: "lead h t = Some (i, M)"
  let ?bad = "\<exists>u \<in> {..node_term nd'}. t < u \<and> (\<exists>j N. lead h u = Some (j, N) \<and> take n N \<noteq> take n M)"
  let ?E = "node_entries nd" and ?p = "unat (ae_prev_log_index q)" and ?l = "length (ae_entries q)"
  have T: "node_term nd' = ae_term q" and acc: "accepted q ?E" using m by (simp_all add: merged_def)
  have nM: "n \<le> length M" using e M by (auto simp: entry_of_def)
  from c M consider "take n ?E = take n M" | ?bad unfolding covers_def using U by blast
  then show "take n (node_entries nd') = take n M \<or> ?bad"
  proof cases
    case keep: 1
    have nE: "n \<le> length ?E" using take_eq_length [OF keep [symmetric] nM] .
    show ?thesis
    proof (cases "take n L = take n M")
      case False
      then have "t \<noteq> node_term nd'" using M q(1) T by auto
      then have "t < node_term nd'" using t by simp
      then show ?thesis using False q(1) T by auto
    next
      case True
      have pre: "take ?p ?E = take ?p L" by (rule accepted_prefix [OF es L q(2) acc])
      have sl: "ae_entries q = take ?l (drop ?p L)" using q(2) by (simp add: request_of_def)
      have batch: "take ?p ?E @ ae_entries q = take (?p + ?l) L" using pre sl by (simp add: take_add)
      show ?thesis
      proof (cases "n \<le> ?p + ?l")
        case short: True
        have "take n (take ?p ?E @ ae_entries q) = take n L" unfolding batch using short by (simp add: min_absorb1)
        then have "take n ?E = take n (take ?p ?E @ ae_entries q)" using keep True by simp
        then have "take n (node_entries nd') = take n ?E" using m nE unfolding merged_def by blast
        then show ?thesis using keep by simp
      next
        case False
        have "take n ?E = take n L" using keep True by (rule trans [OF _ sym])
        moreover have "?p + ?l \<le> n" using False unfolding not_le by (rule less_imp_le)
        ultimately have "take (?p + ?l) ?E = take (?p + ?l) L" by (rule take_eq_shorter)
        moreover have "take ?l (drop ?p xs) = drop ?p (take (?p + ?l) xs)" for xs :: "log_entry list"
          by (simp add: drop_take)
        ultimately have "take ?l (drop ?p ?E) = take ?l (drop ?p L)" by simp
        then have "take ?l (drop ?p ?E) = ae_entries q" using sl by simp
        then have "node_entries nd' = ?E" using m unfolding merged_def by blast
        then show ?thesis using keep by simp
      qed
    qed
  qed simp
qed

lemma held_part_move:
  assumes np: "node_part s" and vp: "vote_part s" and lp: "lead_part s" and gp: "log_part s" and hp: "held_part s"
    and mv: "moves s i ev r nd"
  shows "held_part (move i ev r nd s)"
proof -
  let ?s' = "move i ev r nd s"
  let ?h = "cl_hist s" and ?h' = "cl_hist ?s'"
  note l = moves_local [OF mv] and lg = move_lead_grows [OF np vp lp mv]
  have gp': "log_part ?s'" by (rule log_part_move [OF np vp lp gp mv])
  have agr: "\<And>j. j \<in> ids \<Longrightarrow> agrees ?h (log_at s j)" "\<And>t j L. lead ?h t = Some (j, L) \<Longrightarrow> agrees ?h L"
    using gp unfolding log_part_def by blast+
  have old: "j \<in> ids \<and> t \<le> term_at ?s' j \<and> entry_of ?h' t n \<and> covers ?h' t n {..term_at ?s' j} (log_at ?s' j)"
    if mem: "(t, j, n) \<in> held ?h" for t j n
  proof -
    note d = held_partD [OF hp mem]
    have e': "entry_of ?h' t n" by (rule entry_of_mono [OF lg d(3)])
    show ?thesis
    proof (cases "j = i")
      case False
      then show ?thesis using d e' covers_mono [OF lg d(3,4)] by simp
    next
      case True
      have T: "t \<le> node_term nd" "{..term_at s i} \<subseteq> {..node_term nd}" using d(2) l(8) True by auto
      have c: "covers ?h t n {..term_at s i} (log_at s i)" using d(4) True by simp
      consider xs where "node_entries nd = log_at s i @ xs" | p q where "ev = ReceiveAppendEntries p q" "merged q (cl_node s i) nd"
        using mv by (auto simp: moves_def local_step_def grows_def)
      then have "covers ?h' t n {..node_term nd} (node_entries nd)"
      proof cases
        case (1 xs)
        then show ?thesis
          using covers_mono [OF lg d(3) c T(2)] covers_append [OF e'] by simp
      next
        case (2 p q)
        have "request_part ?h q" using delivered_request [OF gp] mv 2(1) by blast
        then consider "ae_prev_log_index q = 0" "ae_entries q = []"
          | k L where "lead ?h (ae_term q) = Some (k, L)" "request_of q (ae_term q) (ae_leader_id q) L"
          by (auto simp: request_part_def)
        then show ?thesis
        proof cases
          case 1
          then show ?thesis using probe_changes_nothing [OF 1 2(2)] covers_mono [OF lg d(3) c T(2)] by simp
        next
          case (2 k L)
          have "covers ?h t n {..node_term nd} (node_entries nd)"
            by (rule merged_covers [OF agr(1) [OF l(1)] agr(2) [OF 2(1)] 2 \<open>merged q (cl_node s i) nd\<close> T(1) d(3) c T(2)])
          then show ?thesis by (rule covers_mono [OF lg d(3) _ order_refl])
        qed
      qed
      then show ?thesis using T(1) e' l(1) True by simp
    qed
  qed
  have new: "entry_of ?h' (node_term nd) n \<and> covers ?h' (node_term nd) n U (node_entries nd)"
    if own: "holds_own nd n" for n U
  proof -
    have n: "0 < n" "n \<le> length (node_entries nd)" "entry_term (node_entries nd ! (n - 1)) = node_term nd"
      using own by (simp_all add: holds_own_def)
    have "agrees ?h' (node_entries nd)" using gp' l(1) unfolding log_part_def by fastforce
    moreover have "n - 1 < length (node_entries nd)" using n by linarith
    ultimately obtain j L where "lead ?h' (entry_term (node_entries nd ! (n - 1))) = Some (j, L)"
      "take (Suc (n - 1)) (node_entries nd) = take (Suc (n - 1)) L" using agreesD by blast
    then have L: "lead ?h' (node_term nd) = Some (j, L)" "take n (node_entries nd) = take n L"
      using n by (simp_all only: Suc_diff_1 n(3))
    have len: "n \<le> length L" by (rule take_eq_length [OF L(2) n(2)])
    have "L ! (n - 1) = node_entries nd ! (n - 1)" using take_eq_nth [OF L(2), of "n - 1"] n(1) by simp
    moreover have "terms_ok (node_term nd) L" using gp' L(1) unfolding log_part_def by blast
    ultimately show ?thesis using n L len by (auto simp: entry_of_def covers_def)
  qed
  show ?thesis unfolding held_part_def using old new l(1) by (auto simp del: move_fields(4))
qed

end
