(* ===== verification/Raft_Cluster_Complete.thy ===== *)
theory Raft_Cluster_Complete
  imports Raft_Cluster_Votes
begin

text \<open>
  Candidates, granted votes and leader completeness. Each vote request in the network carries the last
  entry of the log its candidate asked with; a granted vote says that log covers what the voter had
  held; so the log of each leader covers what two nodes have held in earlier terms.
\<close>

section \<open>Candidates\<close>

definition cand_part :: "cluster \<Rightarrow> bool" where
  "cand_part s \<longleftrightarrow>
     (\<forall>t c K. cand (cl_hist s) t c = Some K \<longrightarrow>
        t \<le> term_at s c \<and> agrees (cl_hist s) K \<and> (\<exists>u < t. terms_ok u K) \<and> length K < 2 ^ 64)
     \<and> (\<forall>d e q. (d, e) \<in> cl_net s \<longrightarrow> env_message e = MRequestVote q \<longrightarrow>
          (\<exists>K. cand (cl_hist s) (rv_term q) (env_sender_id e) = Some K
             \<and> rv_last_log_index q = of_nat (length K) \<and> rv_last_log_term q = prev_term_of (length K) K))
     \<and> (\<forall>i \<in> ids. node_role (cl_node s i) = Candidate \<longrightarrow> \<not> nd_stopped (cl_node s i) \<longrightarrow>
          cand (cl_hist s) (term_at s i) i = Some (log_at s i))"

lemma cand_partD:
  assumes "cand_part s"
  shows "cand (cl_hist s) t c = Some K \<Longrightarrow>
      t \<le> term_at s c \<and> agrees (cl_hist s) K \<and> (\<exists>u < t. terms_ok u K) \<and> length K < 2 ^ 64"
    and "(d, e) \<in> cl_net s \<Longrightarrow> env_message e = MRequestVote q \<Longrightarrow>
      \<exists>K. cand (cl_hist s) (rv_term q) (env_sender_id e) = Some K
        \<and> rv_last_log_index q = of_nat (length K) \<and> rv_last_log_term q = prev_term_of (length K) K"
    and "i \<in> ids \<Longrightarrow> node_role (cl_node s i) = Candidate \<Longrightarrow> \<not> nd_stopped (cl_node s i) \<Longrightarrow>
      cand (cl_hist s) (term_at s i) i = Some (log_at s i)"
  using assms unfolding cand_part_def by blast+

lemma last_entry: "last_index l = of_nat (length (log_entries l))" "last_term l = prev_term_of (length (log_entries l)) (log_entries l)"
  by (simp_all add: last_index_def last_term_eq prev_term_of_def last_conv_nth)
    (simp add: log_entries_def)

text \<open>A candidacy is never replaced: the node's term grows with each.\<close>

lemma move_keeps_cand:
  assumes cp: "cand_part s" and mv: "moves s i ev r nd" and K: "cand (cl_hist s) t c = Some K"
  shows "cand (cl_hist (move i ev r nd s)) t c = Some K"
proof -
  have "t \<noteq> node_term nd \<or> c \<noteq> i" if "\<exists>m \<in> set (msgs r). asks m"
  proof -
    have "term_at s i < node_term nd" using mv that by (auto simp: moves_def local_step_def)
    moreover have "t \<le> term_at s c" using cand_partD(1) [OF cp K] by blast
    ultimately show ?thesis by auto
  qed
  then show ?thesis using K by auto
qed

lemma cand_part_move:
  assumes np: "node_part s" and vp: "vote_part s" and lp: "lead_part s" and gp: "log_part s" and cp: "cand_part s"
    and mv: "moves s i ev r nd"
  shows "cand_part (move i ev r nd s)"
proof -
  let ?s' = "move i ev r nd s"
  let ?h = "cl_hist s" and ?h' = "cl_hist ?s'"
  let ?asked = "\<exists>m \<in> set (msgs r). asks m"
  note l = moves_local [OF mv] and lg = move_lead_grows [OF np vp lp mv]
  have core: "core_inv (cl_node s i)" using np l(1) full_inv_parts(3) by (simp add: node_part_def)
  have asked: "term_at s i < node_term nd \<and> node_entries nd = log_at s i" if ?asked
    using mv that by (auto simp: moves_def local_step_def)
  have old: "t \<le> term_at ?s' c \<and> agrees ?h' K \<and> (\<exists>u < t. terms_ok u K) \<and> length K < 2 ^ 64"
    if K: "cand ?h t c = Some K" for t c K
    using cand_partD(1) [OF cp K] agrees_mono [OF lg] l(8) by (auto intro: order_trans)
  have new: "agrees ?h' (node_entries nd) \<and> (\<exists>u < node_term nd. terms_ok u (node_entries nd)) \<and> length (node_entries nd) < 2 ^ 64"
    if ?asked
  proof -
    have "agrees ?h (log_at s i)" using gp l(1) by (simp add: log_part_def)
    moreover have "terms_ok (term_at s i) (log_at s i)" "length (log_at s i) < 2 ^ 64"
      using core log_wf_length [of "nd_log (cl_node s i)"] by (simp_all add: core_inv_def log_entries_def)
    ultimately show ?thesis using asked [OF that] agrees_mono [OF lg] by auto
  qed
  have one: "t \<le> term_at ?s' c \<and> agrees ?h' K \<and> (\<exists>u < t. terms_ok u K) \<and> length K < 2 ^ 64"
    if K: "cand ?h' t c = Some K" for t c K
  proof (cases "?asked \<and> t = node_term nd \<and> c = i")
    case True
    then have "K = node_entries nd" using K by simp
    then show ?thesis using True new by simp
  next
    case False
    then have "cand ?h t c = Some K" using K by (auto split: if_splits)
    then show ?thesis by (rule old)
  qed
  have two: "\<exists>K. cand ?h' (rv_term q) (env_sender_id e) = Some K
        \<and> rv_last_log_index q = of_nat (length K) \<and> rv_last_log_term q = prev_term_of (length K) K"
    if mem: "(d, e) \<in> cl_net ?s'" "env_message e = MRequestVote q" for d e q
  proof (cases "(d, e) \<in> cl_net s")
    case True
    from cand_partD(2) [OF cp this mem(2)] show ?thesis using move_keeps_cand [OF cp mv] by blast
  next
    case False
    then obtain m where m: "m \<in> set (msgs r)" "e = envelope_of i ev (ob_message m)" using mem(1) by auto
    then have q: "ob_message m = MRequestVote q" using mem(2) by (simp add: envelope_of_def)
    then have "asks m" by (simp add: asks_def)
    then have "cand ?h' (node_term nd) i = Some (node_entries nd)" using m(1) by auto
    moreover have "rv_term q = node_term nd" "rv_last_log_index q = last_index (nd_log nd)"
      "rv_last_log_term q = last_term (nd_log nd)"
      using l(7) [OF m(1)] q by (simp_all add: sent_ok_def)
    ultimately show ?thesis using m(2) last_entry by (simp add: envelope_of_def)
  qed
  have three: "cand ?h' (term_at ?s' j) j = Some (log_at ?s' j)"
    if j: "j \<in> ids" "node_role (cl_node ?s' j) = Candidate" "\<not> nd_stopped (cl_node ?s' j)" for j
  proof (cases "j = i")
    case False
    then show ?thesis using cand_partD(3) [OF cp j(1)] j move_keeps_cand [OF cp mv] by simp
  next
    case True
    have "node_role (cl_node s i) = Candidate \<and> \<not> nd_stopped (cl_node s i) \<and> node_term nd = term_at s i
        \<and> node_entries nd = log_at s i \<or> ?asked"
      using mv j True by (auto simp: moves_def local_step_def)
    then show ?thesis
    proof
      assume c: "node_role (cl_node s i) = Candidate \<and> \<not> nd_stopped (cl_node s i) \<and> node_term nd = term_at s i
        \<and> node_entries nd = log_at s i"
      then have "cand ?h (term_at s i) i = Some (log_at s i)" using cand_partD(3) [OF cp l(1)] by blast
      then show ?thesis using move_keeps_cand [OF cp mv] True c by fastforce
    next
      assume ?asked
      then show ?thesis using True by simp
    qed
  qed
  show ?thesis unfolding cand_part_def using one two three by blast
qed

section \<open>A log at least as up to date\<close>

text \<open>A candidate that passes the voter's check covers what the voter covers.\<close>

lemma up_to_date_covers:
  assumes leads: "\<And>t i L. lead h t = Some (i, L) \<Longrightarrow> terms_ok t L"
    and E: "agrees h E" "terms_ok b E" and K: "agrees h K" "terms_ok a K" "a < t'"
    and check: "prev_term_of (length E) E < prev_term_of (length K) K
      \<or> prev_term_of (length E) E = prev_term_of (length K) K \<and> length E \<le> length K"
    and e: "entry_of h t n" and c: "covers h t n U E" and U: "U \<subseteq> {..t'}"
  shows "covers h t n {..t'} K"
  unfolding covers_def
proof (intro allI impI)
  fix i L assume L: "lead h t = Some (i, L)"
  let ?bad = "\<exists>u \<in> {..t'}. t < u \<and> (\<exists>j M. lead h u = Some (j, M) \<and> take n M \<noteq> take n L)"
  have n: "0 < n" "n \<le> length L" "entry_term (L ! (n - 1)) = t" using e L by (auto simp: entry_of_def)
  from c L consider "take n E = take n L" | ?bad unfolding covers_def using U by blast
  then show "take n K = take n L \<or> ?bad"
  proof cases
    case keep: 1
    have nE: "n \<le> length E" by (rule take_eq_length [OF keep [symmetric] n(2)])
    then have E0: "0 < length E" using n(1) by linarith
    define te where "te = entry_term (E ! (length E - 1))"
    define tk where "tk = entry_term (K ! (length K - 1))"
    have pe: "prev_term_of (length E) E = te" using E0 by (simp add: prev_term_of_def te_def)
    have "entry_term (E ! (n - 1)) \<le> te"
      using E(2) sorted_nth_mono [of "map entry_term E" "n - 1" "length E - 1"] nE n(1)
      by (simp add: te_def terms_ok_def)
    moreover have "E ! (n - 1) = L ! (n - 1)" using take_eq_nth [OF keep, of "n - 1"] n(1) by simp
    ultimately have te: "t \<le> te" using n(3) by simp
    have K0: "0 < length K"
      using check by (cases "length K = 0") (use E0 in \<open>simp_all add: prev_term_of_def\<close>)
    then have pk: "prev_term_of (length K) K = tk" by (simp add: prev_term_of_def tk_def)
    obtain j M where M: "lead h tk = Some (j, M)" "take (length K) K = take (length K) M"
      using agreesD [OF K(1), of "length K - 1"] K0 by (auto simp: tk_def)
    consider "te < tk" | "te = tk" "length E \<le> length K" using check pe pk by auto
    then show ?thesis
    proof cases
      case later: 1
      show ?thesis
      proof (cases "take n M = take n L")
        case False
        have "tk \<le> a" using terms_ok_nth [OF K(2), of "length K - 1"] K0 by (simp add: tk_def)
        then have "tk \<in> {..t'}" "t < tk" using K(3) later te by auto
        then show ?thesis using M(1) False by blast
      next
        case same: True
        have "n \<le> length K"
        proof (rule ccontr)
          assume "\<not> n \<le> length K"
          then have lt: "length K - 1 < n" "length K - 1 < length L" using n(2) by linarith+
          have "K ! (length K - 1) = M ! (length K - 1)" by (rule take_eq_nth [OF M(2)]) (use K0 in simp)
          also have "\<dots> = L ! (length K - 1)" by (rule take_eq_nth [OF same lt(1)])
          finally have "tk \<le> t" using terms_ok_nth [OF leads [OF L] lt(2)] by (simp add: tk_def)
          then show False using later te by simp
        qed
        then have "take n K = take n M" by (rule take_eq_shorter [OF M(2)])
        then show ?thesis using same by simp
      qed
    next
      case 2
      obtain i' M' where M': "lead h te = Some (i', M')" "take (length E) E = take (length E) M'"
        using agreesD [OF E(1), of "length E - 1"] E0 by (auto simp: te_def)
      then have "M' = M" using 2(1) M(1) by simp
      then have "take n E = take n M" using take_eq_shorter [OF M'(2) nE] by simp
      moreover have "take n K = take n M" by (rule take_eq_shorter [OF M(2)]) (use nE 2(2) in linarith)
      ultimately show ?thesis using keep by simp
    qed
  qed simp
qed

section \<open>Granted votes\<close>

definition grant_part :: "cluster \<Rightarrow> bool" where
  "grant_part s \<longleftrightarrow>
     (\<forall>d e y. (d, e) \<in> cl_net s \<longrightarrow> env_message e = MRequestVoteReply y \<longrightarrow> rvr_vote_granted y \<longrightarrow>
        (\<exists>K. cand (cl_hist s) (rvr_term y) d = Some K
           \<and> (\<forall>t n. (t, env_sender_id e, n) \<in> held (cl_hist s) \<longrightarrow> t < rvr_term y \<longrightarrow>
                covers (cl_hist s) t n {..rvr_term y} K)))"

lemma grant_partD:
  "grant_part s \<Longrightarrow> (d, e) \<in> cl_net s \<Longrightarrow> env_message e = MRequestVoteReply y \<Longrightarrow> rvr_vote_granted y \<Longrightarrow>
     \<exists>K. cand (cl_hist s) (rvr_term y) d = Some K
       \<and> (\<forall>t n. (t, env_sender_id e, n) \<in> held (cl_hist s) \<longrightarrow> t < rvr_term y \<longrightarrow>
            covers (cl_hist s) t n {..rvr_term y} K)"
  unfolding grant_part_def by blast

text \<open>What a node holds for the first time is of its present term.\<close>

lemma held_move:
  assumes "moves s i ev r nd" and "(t, v, n) \<in> held (cl_hist (move i ev r nd s))"
    and "t < t'" and "t' \<le> term_at s v \<or> v = i \<and> t' \<le> node_term nd"
  shows "(t, v, n) \<in> held (cl_hist s)"
  using assms moves_local(8) [OF assms(1)] by auto

text \<open>The log a voter compares with its own.\<close>

lemma voter_covers:
  assumes np: "node_part s" and gp: "log_part s" and hp: "held_part s" and cp: "cand_part s" and i: "i \<in> ids"
    and K: "cand (cl_hist s) t' d = Some K" "rv_last_log_index q = of_nat (length K)"
      "rv_last_log_term q = prev_term_of (length K) K"
    and check: "candidate_log_is_up_to_date q (nd_log (cl_node s i))"
    and mem: "(t, i, n) \<in> held (cl_hist s)" and now: "term_at s i \<le> t'"
  shows "covers (cl_hist s) t n {..t'} K"
proof -
  let ?h = "cl_hist s" and ?E = "log_at s i"
  have core: "core_inv (cl_node s i)" using np i full_inv_parts(3) by (simp add: node_part_def)
  have E: "agrees ?h ?E" "terms_ok (term_at s i) ?E" "length ?E < 2 ^ 64"
    using gp i core log_wf_length [of "nd_log (cl_node s i)"] by (simp_all add: log_part_def core_inv_def log_entries_def)
  obtain u where u: "u < t'" "terms_ok u K" "agrees ?h K" "length K < 2 ^ 64" using cand_partD(1) [OF cp K(1)] by blast
  have "(of_nat (length ?E) :: u64) \<le> of_nat (length K) \<longleftrightarrow> length ?E \<le> length K"
    using E(3) u(4) by (simp add: word_le_nat_alt unat_of_nat_64)
  then have "prev_term_of (length ?E) ?E < prev_term_of (length K) K
      \<or> prev_term_of (length ?E) ?E = prev_term_of (length K) K \<and> length ?E \<le> length K"
    using check K(2,3) by (simp add: candidate_log_is_up_to_date_def last_entry split: if_splits)
  moreover have "{..term_at s i} \<subseteq> {..t'}" using now by simp
  moreover have "\<And>t i L. lead ?h t = Some (i, L) \<Longrightarrow> terms_ok t L" using gp unfolding log_part_def by blast
  ultimately show ?thesis
    using up_to_date_covers [OF _ E(1,2) u(3,2,1) _ held_partD(3,4) [OF hp mem]] by blast
qed

lemma grant_part_move:
  assumes np: "node_part s" and vp: "vote_part s" and lp: "lead_part s" and gp: "log_part s" and hp: "held_part s"
    and cp: "cand_part s" and rp: "grant_part s" and mv: "moves s i ev r nd"
  shows "grant_part (move i ev r nd s)"
  unfolding grant_part_def
proof (intro allI impI)
  let ?s' = "move i ev r nd s"
  let ?h = "cl_hist s" and ?h' = "cl_hist ?s'"
  note l = moves_local [OF mv] and lg = move_lead_grows [OF np vp lp mv]
  fix d e y assume mem: "(d, e) \<in> cl_net ?s'" "env_message e = MRequestVoteReply y" and granted: "rvr_vote_granted y"
  let ?v = "env_sender_id e" and ?t' = "rvr_term y"
  have "\<exists>K. cand ?h ?t' d = Some K \<and> (\<forall>t n. (t, ?v, n) \<in> held ?h' \<longrightarrow> t < ?t' \<longrightarrow>
      (t, ?v, n) \<in> held ?h \<and> covers ?h t n {..?t'} K)"
  proof (cases "(d, e) \<in> cl_net s")
    case True
    have "(?t', ?v, d) \<in> votes ?h" using vp True mem(2) granted unfolding vote_part_def by blast
    then have "?t' \<le> term_at s ?v" using vp unfolding vote_part_def by (metis order.refl less_imp_le)
    then show ?thesis using grant_partD [OF rp True mem(2) granted] held_move [OF mv] by blast
  next
    case False
    then obtain m where m: "m \<in> set (msgs r)" "d = ob_peer_id m" "e = envelope_of i ev (ob_message m)" using mem(1) by auto
    then have y: "ob_message m = MRequestVoteReply y" and v: "?v = i" using mem(2) by (simp_all add: envelope_of_def)
    have "grants m" using y granted by (simp add: grants_def)
    then obtain q where q: "ev = ReceiveRequestVote d q" "rv_term q = node_term nd"
      "candidate_log_is_up_to_date q (nd_log (cl_node s i))"
      using mv m(1,2) unfolding moves_def local_step_def by blast
    have t': "?t' = node_term nd" using l(7) [OF m(1)] y granted by (simp add: sent_ok_def)
    obtain e' where "(i, e') \<in> cl_net s" "env_sender_id e' = d" "env_message e' = MRequestVote q"
      using enabled_net [OF l(2)] q(1) by (auto simp: event_of_simps)
    then obtain K where K: "cand ?h ?t' d = Some K" "rv_last_log_index q = of_nat (length K)"
      "rv_last_log_term q = prev_term_of (length K) K"
      using cand_partD(2) [OF cp] q(2) t' by metis
    have "(t, i, n) \<in> held ?h \<and> covers ?h t n {..?t'} K" if "(t, i, n) \<in> held ?h'" "t < ?t'" for t n
    proof -
      have mem: "(t, i, n) \<in> held ?h" by (rule held_move [OF mv that]) (simp add: t')
      then show ?thesis using voter_covers [OF np gp hp cp l(1) K q(3) mem] l(8) t' by simp
    qed
    then show ?thesis using K(1) v by blast
  qed
  then obtain K where K: "cand ?h ?t' d = Some K" "\<forall>t n. (t, ?v, n) \<in> held ?h' \<longrightarrow> t < ?t' \<longrightarrow>
      (t, ?v, n) \<in> held ?h \<and> covers ?h t n {..?t'} K" by blast
  have "covers ?h' t n {..?t'} K" if "(t, ?v, n) \<in> held ?h'" "t < ?t'" for t n
    using K(2) that covers_mono [OF lg held_partD(3) [OF hp] _ order_refl] by blast
  then show "\<exists>K. cand ?h' ?t' d = Some K
       \<and> (\<forall>t n. (t, ?v, n) \<in> held ?h' \<longrightarrow> t < ?t' \<longrightarrow> covers ?h' t n {..?t'} K)"
    using move_keeps_cand [OF cp mv K(1)] by blast
qed

section \<open>The voters of a leader\<close>

definition backed :: "cluster \<Rightarrow> u64 \<Rightarrow> u64 \<Rightarrow> log_entry list \<Rightarrow> bool" where
  "backed s t' v L \<longleftrightarrow> t' \<le> term_at s v
     \<and> (\<forall>t n. (t, v, n) \<in> held (cl_hist s) \<longrightarrow> t < t' \<longrightarrow> covers (cl_hist s) t n {..<t'} L)"

definition win_part :: "cluster \<Rightarrow> bool" where
  "win_part s \<longleftrightarrow> (\<forall>t i L. lead (cl_hist s) t = Some (i, L) \<longrightarrow>
     backed s t i L \<and> (\<exists>p \<in> ids. p \<noteq> i \<and> backed s t p L))"

lemma backed_move:
  assumes lg: "lead_grows (cl_hist s) (cl_hist (move i ev r nd s))" and hp: "held_part s" and mv: "moves s i ev r nd"
    and b: "backed s t' v L"
  shows "backed (move i ev r nd s) t' v (L @ xs)"
  unfolding backed_def
proof (intro conjI allI impI)
  let ?s' = "move i ev r nd s"
  have now: "t' \<le> term_at s v" using b by (simp add: backed_def)
  then show "t' \<le> term_at ?s' v" using moves_local(8) [OF mv] by auto
  fix t n assume mem: "(t, v, n) \<in> held (cl_hist ?s')" and lt: "t < t'"
  have old: "(t, v, n) \<in> held (cl_hist s)" by (rule held_move [OF mv mem lt]) (simp add: now)
  note e = held_partD(3) [OF hp old]
  have "covers (cl_hist s) t n {..<t'} L" using b old lt unfolding backed_def by blast
  then have "covers (cl_hist ?s') t n {..<t'} L" by (rule covers_mono [OF lg e _ order_refl])
  then show "covers (cl_hist ?s') t n {..<t'} (L @ xs)" by (rule covers_append [OF entry_of_mono [OF lg e]])
qed

text \<open>Below a term without a leader, earlier leaders are all that can lack an entry.\<close>

lemma covers_below:
  assumes "lead h t' = None" and "covers h t n {..t'} es"
  shows "covers h t n {..<t'} es"
  unfolding covers_def
proof (intro allI impI)
  fix i L assume "lead h t = Some (i, L)"
  with assms(2) consider "take n es = take n L"
    | u j M where "u \<le> t'" "t < u" "lead h u = Some (j, M)" "take n M \<noteq> take n L" unfolding covers_def by blast
  then show "take n es = take n L \<or> (\<exists>u \<in> {..<t'}. t < u \<and> (\<exists>j M. lead h u = Some (j, M) \<and> take n M \<noteq> take n L))"
  proof cases
    case (2 u j M)
    then have "u < t'" using assms(1) by (cases "u = t'") auto
    then show ?thesis using 2 by blast
  qed simp
qed

text \<open>A winner's log at the election is backed by both of its voters.\<close>

lemma winner_backed:
  assumes np: "node_part s" and vp: "vote_part s" and lp: "lead_part s" and hp: "held_part s" and cp: "cand_part s"
    and rp: "grant_part s" and mv: "moves s i ev r nd" and ev: "ev = ReceiveVoteReply p y" and w: "wins p y (cl_node s i) nd"
  shows "backed s (term_at s i) i (log_at s i) \<and> backed s (term_at s i) p (log_at s i)"
proof -
  let ?h = "cl_hist s" and ?t' = "term_at s i"
  note l = moves_local [OF mv] and v = winning_votes [OF np vp mv ev w]
  have none: "lead ?h ?t' = None" by (rule win_is_first [OF np vp lp mv ev w])
  have "?t' \<le> term_at s p" using vp v(4) unfolding vote_part_def by (metis order.refl less_imp_le)
  moreover have "covers ?h t n {..<?t'} (log_at s i)" if "(t, i, n) \<in> held ?h" for t n
    by (rule covers_below [OF none held_partD(4) [OF hp that]])
  moreover have "covers ?h t n {..<?t'} (log_at s i)" if mem: "(t, p, n) \<in> held ?h" "t < ?t'" for t n
  proof -
    obtain e where e: "(i, e) \<in> cl_net s" "env_sender_id e = p" "env_message e = MRequestVoteReply y"
      using enabled_net [OF l(2)] ev by (auto simp: event_of_simps)
    have y: "rvr_vote_granted y" "rvr_term y = ?t'" "node_role (cl_node s i) = Candidate" "\<not> nd_stopped (cl_node s i)"
      using w by (simp_all add: wins_def)
    obtain K where "cand ?h ?t' i = Some K" and c: "covers ?h t n {..?t'} K"
      using grant_partD [OF rp e(1,3) y(1), unfolded e(2) y(2)] mem by blast
    then have "K = log_at s i" using cand_partD(3) [OF cp l(1) y(3,4)] by simp
    then show ?thesis using covers_below [OF none c] by simp
  qed
  ultimately show ?thesis by (simp add: backed_def)
qed

lemma win_part_move:
  assumes np: "node_part s" and vp: "vote_part s" and lp: "lead_part s" and hp: "held_part s" and cp: "cand_part s"
    and rp: "grant_part s" and wp: "win_part s" and mv: "moves s i ev r nd"
  shows "win_part (move i ev r nd s)"
  unfolding win_part_def
proof (intro allI impI)
  let ?s' = "move i ev r nd s"
  note lg = move_lead_grows [OF np vp lp mv]
  fix t j L assume L: "lead (cl_hist ?s') t = Some (j, L)"
  have "\<exists>M xs p. L = M @ xs \<and> p \<in> ids \<and> p \<noteq> j \<and> backed s t j M \<and> backed s t p M"
  proof (cases "lead (cl_hist s) t")
    case (Some jM)
    obtain j' M where M: "lead (cl_hist s) t = Some (j', M)" using Some by (cases jM) auto
    then obtain xs where xs: "L = M @ xs" "j' = j" using lead_growsD [OF lg M] L by auto
    then show ?thesis using wp M unfolding win_part_def by blast
  next
    case None
    then have new: "leads nd" "t = node_term nd" "j = i" "L = node_entries nd" using L by (simp_all split: if_splits)
    obtain p y where w: "ev = ReceiveVoteReply p y" "wins p y (cl_node s i) nd"
      using leading_move [OF np vp lp mv new(1)] None new(2) by auto
    note v = winning_votes [OF np vp mv w]
    have "L = log_at s i @ [\<lparr>entry_index = of_nat (Suc (length (log_at s i))), entry_term = term_at s i, entry_command = noop_command\<rparr>]"
      using w(2) new(4) by (simp add: wins_def)
    then show ?thesis using winner_backed [OF np vp lp hp cp rp mv w] v(1,2,5) new(2,3) by auto
  qed
  then show "backed ?s' t j L \<and> (\<exists>p \<in> ids. p \<noteq> j \<and> backed ?s' t p L)"
    using backed_move [OF lg hp mv] by blast
qed

section \<open>Reachable clusters\<close>

lemma reachable_covers:
  assumes "reachable s"
  shows "held_part s" "cand_part s" "grant_part s" "win_part s"
proof -
  have "(held_part s \<and> cand_part s \<and> grant_part s \<and> win_part s) \<and> node_part s"
    using assms
  proof (rule reachable_moves)
    fix s :: cluster assume f: "\<forall>i \<in> ids. fresh_node i (cl_node s i)" and n: "cl_net s = {}" and h: "cl_hist s = empty_history"
    have "\<forall>i \<in> ids. node_role (cl_node s i) = Follower"
      using f node_open_fields unfolding fresh_node_def by blast
    then show "held_part s \<and> cand_part s \<and> grant_part s \<and> win_part s"
      using n h by (simp add: held_part_def cand_part_def grant_part_def win_part_def empty_history_def)
  next
    fix s :: cluster and i ev r nd
    assume np: "node_part s" and re: "reachable s" and p: "held_part s \<and> cand_part s \<and> grant_part s \<and> win_part s"
      and mv: "moves s i ev r nd"
    note q = reachable_parts [OF re]
    show "held_part (move i ev r nd s) \<and> cand_part (move i ev r nd s) \<and> grant_part (move i ev r nd s) \<and> win_part (move i ev r nd s)"
      using held_part_move [OF q _ mv] cand_part_move [OF q _ mv] grant_part_move [OF q _ _ _ mv]
        win_part_move [OF q(1-3) _ _ _ _ mv] p by blast
  qed
  then show "held_part s" "cand_part s" "grant_part s" "win_part s" by blast+
qed

text \<open>Two of the three nodes have held the entry in its own term.\<close>

definition quorum_held :: "history \<Rightarrow> u64 \<Rightarrow> nat \<Rightarrow> bool" where
  "quorum_held h t n \<longleftrightarrow> (\<exists>a \<in> ids. \<exists>b \<in> ids. a \<noteq> b \<and> (t, a, n) \<in> held h \<and> (t, b, n) \<in> held h)"

lemma later_leaders_have:
  assumes wp: "win_part s" and lp: "lead_part s" and held: "quorum_held (cl_hist s) t n"
    and L: "lead (cl_hist s) t = Some (i, L)"
  shows "t < t' \<Longrightarrow> lead (cl_hist s) t' = Some (j, L') \<Longrightarrow> take n L' = take n L"
proof (induction "unat t'" arbitrary: t' j L' rule: less_induct)
  case less
  note L' = less.prems(2)
  obtain p where p: "p \<in> ids" "p \<noteq> j" "backed s t' p L'" "backed s t' j L'" using wp L' unfolding win_part_def by blast
  have j: "j \<in> ids" using lead_partD(1) [OF lp L'] by blast
  obtain a b where ab: "a \<in> ids" "b \<in> ids" "a \<noteq> b" "(t, a, n) \<in> held (cl_hist s)" "(t, b, n) \<in> held (cl_hist s)"
    using held by (auto simp: quorum_held_def)
  obtain v where "v \<in> {j, p}" "v \<in> {a, b}" using majorities_meet [OF j ab(1) p(1) ab(2) p(2)] ab(3) by blast
  then have "covers (cl_hist s) t n {..<t'} L'" using p(3,4) ab(4,5) less.prems(1) unfolding backed_def by blast
  with L consider "take n L' = take n L"
    | u k M where "u < t'" "t < u" "lead (cl_hist s) u = Some (k, M)" "take n M \<noteq> take n L" unfolding covers_def by blast
  then show ?case
  proof cases
    case (2 u k M)
    then show ?thesis using less.hyps [of u k M] by (simp add: word_less_nat_alt)
  qed
qed

end
