(* ===== verification/Raft_Cluster_Commit.thy ===== *)
theory Raft_Cluster_Commit
  imports Raft_Cluster_Complete
begin

text \<open>
  Commitment and the safety of the replicated state machine. What a leader's table says a peer has, the
  peer has held; so an entry that is committed was held by two nodes in its term, and all that precedes
  it is in every later leader's log.
\<close>

section \<open>What is committed\<close>

text \<open>The first \<open>c\<close> entries of \<open>es\<close> precede an entry that two nodes held in its term, at most \<open>b\<close>.\<close>

definition committed :: "history \<Rightarrow> u64 \<Rightarrow> log_entry list \<Rightarrow> nat \<Rightarrow> bool" where
  "committed h b es c \<longleftrightarrow> c = 0
     \<or> (\<exists>t i L n. t \<le> b \<and> lead h t = Some (i, L) \<and> quorum_held h t n \<and> c \<le> n \<and> n \<le> length L \<and> take c es = take c L)"

lemma committed_zero [simp]: "committed h b es 0"
  by (simp add: committed_def)

lemma committedI:
  "t \<le> b \<Longrightarrow> lead h t = Some (i, L) \<Longrightarrow> quorum_held h t n \<Longrightarrow> c \<le> n \<Longrightarrow> n \<le> length L \<Longrightarrow> take c es = take c L
     \<Longrightarrow> committed h b es c"
  unfolding committed_def by blast

lemma committedE:
  assumes "committed h b es c"
  obtains "c = 0" | t i L n where "t \<le> b" "lead h t = Some (i, L)" "quorum_held h t n" "c \<le> n" "n \<le> length L"
    "take c es = take c L"
  using assms unfolding committed_def by blast

lemma committed_less:
  assumes "committed h b es c" and "c' \<le> c"
  shows "committed h b es c'"
  using assms(1)
proof (cases rule: committedE)
  case (2 t i L n)
  show ?thesis
    by (rule committedI [OF 2(1-3) order_trans [OF assms(2) 2(4)] 2(5) take_eq_shorter [OF 2(6) assms(2)]])
qed (use assms(2) in simp)

lemma committed_cong:
  assumes "committed h b es c" and "b \<le> b'" and "take c fs = take c es"
  shows "committed h b' fs c"
  using assms(1)
proof (cases rule: committedE)
  case (2 t i L n)
  show ?thesis by (rule committedI [OF order_trans [OF 2(1) assms(2)] 2(2-5) trans [OF assms(3) 2(6)]])
qed simp

lemma committed_length:
  assumes "committed h b es c"
  shows "c \<le> length es"
  using assms
proof (cases rule: committedE)
  case (2 t i L n)
  show ?thesis by (rule take_eq_length [OF sym [OF 2(6)] order_trans [OF 2(4,5)]])
qed simp

definition history_le :: "history \<Rightarrow> history \<Rightarrow> bool" where
  "history_le h h' \<longleftrightarrow> lead_grows h h' \<and> held h \<subseteq> held h'"

lemma history_leD: "history_le h h' \<Longrightarrow> lead h t = Some (i, L) \<Longrightarrow> \<exists>xs. lead h' t = Some (i, L @ xs)"
  unfolding history_le_def using lead_growsD by blast

lemma unat_of_nat_le: "unat (of_nat n :: u64) \<le> n"
  by (simp add: unat_of_nat)

lemma committed_mono:
  assumes "history_le h h'" and "committed h b es c"
  shows "committed h' b es c"
proof (cases "c = 0")
  case False
  then obtain t i L n where L: "t \<le> b" "lead h t = Some (i, L)" "quorum_held h t n" "c \<le> n" "n \<le> length L"
    "take c es = take c L" using assms(2) by (auto simp: committed_def)
  obtain xs where "lead h' t = Some (i, L @ xs)"
    using history_leD [OF assms(1) L(2)] by blast
  moreover have "quorum_held h' t n" using L(3) assms(1) by (auto simp: quorum_held_def history_le_def)
  moreover have "n \<le> length (L @ xs)" "take c es = take c (L @ xs)" using L(4,5,6) by simp_all
  ultimately show ?thesis unfolding committed_def using L(1,4) by blast
qed simp

text \<open>Two committed prefixes agree.\<close>

lemma committed_agree:
  assumes wp: "win_part s" and lp: "lead_part s"
    and c: "committed (cl_hist s) b es c" and d: "committed (cl_hist s) b' fs d"
  shows "take (min c d) es = take (min c d) fs"
proof (cases "c = 0 \<or> d = 0")
  case False
  obtain t i L n where L: "lead (cl_hist s) t = Some (i, L)" "quorum_held (cl_hist s) t n" "c \<le> n" "take c es = take c L"
    using c False by (auto simp: committed_def)
  obtain u j M m where M: "lead (cl_hist s) u = Some (j, M)" "quorum_held (cl_hist s) u m" "d \<le> m" "take d fs = take d M"
    using d False by (auto simp: committed_def)
  have "take (min c d) L = take (min c d) M"
  proof (cases rule: linorder_cases [of t u])
    case less
    from later_leaders_have [OF wp lp L(2,1) this M(1)] show ?thesis
      by (rule take_eq_shorter [OF sym]) (use L(3) in simp)
  next
    case greater
    from later_leaders_have [OF wp lp M(2,1) this L(1)] show ?thesis
      by (rule take_eq_shorter) (use M(3) in simp)
  qed (use L(1) M(1) in simp)
  moreover have "take (min c d) es = take (min c d) L" by (rule take_eq_shorter [OF L(4)]) simp
  moreover have "take (min c d) fs = take (min c d) M" by (rule take_eq_shorter [OF M(4)]) simp
  ultimately show ?thesis by simp
qed auto

section \<open>The invariant\<close>

text \<open>
  \<open>reached q\<close>: how far a request tells its receiver to have the leader's log. \<open>acked\<close>: a positive reply to
  \<open>q\<close> by \<open>v\<close> in term \<open>t\<close> says that \<open>v\<close> has held every entry of term \<open>t\<close> so far.
\<close>

abbreviation reached :: "append_entries \<Rightarrow> nat" where
  "reached q \<equiv> unat (ae_prev_log_index q) + length (ae_entries q)"

definition has_held :: "history \<Rightarrow> u64 \<Rightarrow> u64 \<Rightarrow> nat \<Rightarrow> log_entry list \<Rightarrow> bool" where
  "has_held h t v k L \<longleftrightarrow> k \<le> length L \<and> (\<forall>n. 0 < n \<longrightarrow> n \<le> k \<longrightarrow> entry_term (L ! (n - 1)) = t \<longrightarrow> (t, v, n) \<in> held h)"

lemma has_held_append: "has_held h t v k L \<Longrightarrow> held h \<subseteq> held h' \<Longrightarrow> has_held h' t v k (L @ xs)"
  by (auto simp: has_held_def nth_append)

definition acked :: "history \<Rightarrow> u64 \<Rightarrow> u64 \<Rightarrow> nat \<Rightarrow> bool" where
  "acked h t v k \<longleftrightarrow> k = 0 \<or> (\<exists>i L. lead h t = Some (i, L) \<and> has_held h t v k L)"

lemma acked_mono:
  assumes "history_le h h'" and "acked h t v k"
  shows "acked h' t v k"
proof (cases "k = 0")
  case False
  then obtain i L where L: "lead h t = Some (i, L)" "has_held h t v k L" using assms(2) by (auto simp: acked_def)
  obtain xs where "lead h' t = Some (i, L @ xs)"
    using history_leD [OF assms(1) L(1)] by blast
  moreover have "has_held h' t v k (L @ xs)"
    by (rule has_held_append [OF L(2)]) (use assms(1) in \<open>simp add: history_le_def\<close>)
  ultimately show ?thesis unfolding acked_def by blast
qed (simp add: acked_def)

definition commit_part :: "cluster \<Rightarrow> bool" where
  "commit_part s \<longleftrightarrow>
     (\<forall>i \<in> ids. committed (cl_hist s) (term_at s i) (log_at s i) (unat (nd_commit_index (cl_node s i))))
     \<and> (\<forall>i \<in> ids. \<forall>p k. (p, k) \<in> set (node_table (cl_node s i)) \<longrightarrow> acked (cl_hist s) (term_at s i) p (unat k))
     \<and> (\<forall>d e q. (d, e) \<in> cl_net s \<longrightarrow> env_message e = MAppendEntries q \<longrightarrow>
          (\<exists>i L. lead (cl_hist s) (ae_term q) = Some (i, L) \<and> committed (cl_hist s) (ae_term q) L (unat (ae_leader_commit q))))
     \<and> (\<forall>d e y q. (d, e) \<in> cl_net s \<longrightarrow> env_message e = MAppendEntriesReply y \<longrightarrow> aer_success y \<longrightarrow>
          env_replied_to e = Some q \<longrightarrow> acked (cl_hist s) (aer_term y) (env_sender_id e) (reached q))"

lemma commit_partD:
  assumes "commit_part s"
  shows "i \<in> ids \<Longrightarrow> committed (cl_hist s) (term_at s i) (log_at s i) (unat (nd_commit_index (cl_node s i)))"
    and "i \<in> ids \<Longrightarrow> (p, k) \<in> set (node_table (cl_node s i)) \<Longrightarrow> acked (cl_hist s) (term_at s i) p (unat k)"
    and "(d, e) \<in> cl_net s \<Longrightarrow> env_message e = MAppendEntries q \<Longrightarrow>
      \<exists>i L. lead (cl_hist s) (ae_term q) = Some (i, L) \<and> committed (cl_hist s) (ae_term q) L (unat (ae_leader_commit q))"
    and "(d, e) \<in> cl_net s \<Longrightarrow> env_message e = MAppendEntriesReply y \<Longrightarrow> aer_success y \<Longrightarrow>
      env_replied_to e = Some q \<Longrightarrow> acked (cl_hist s) (aer_term y) (env_sender_id e) (reached q)"
  using assms unfolding commit_part_def by blast+

lemma move_history_le:
  assumes "node_part s" and "vote_part s" and "lead_part s" and "moves s i ev r nd"
  shows "history_le (cl_hist s) (cl_hist (move i ev r nd s))"
  using move_lead_grows [OF assms] by (auto simp: history_le_def)

section \<open>A move of the log\<close>

text \<open>A node that accepted a request has the leader's log as far as the request reached.\<close>

lemma accepts_prefix:
  assumes gp: "log_part s" and i: "i \<in> ids" and q: "request_part (cl_hist s) q" and acc: "accepts q (cl_node s i) nd"
    and L: "lead (cl_hist s) (ae_term q) = Some (j, L)"
  shows "reached q \<le> length L \<and> take (reached q) (node_entries nd) = take (reached q) L"
proof (cases "ae_prev_log_index q = 0 \<and> ae_entries q = []")
  case False
  let ?p = "unat (ae_prev_log_index q)" and ?E = "log_at s i"
  have r: "request_of q (ae_term q) (ae_leader_id q) L" using q L False by (auto simp: request_part_def)
  have agr: "agrees (cl_hist s) ?E" "agrees (cl_hist s) L" using gp i L unfolding log_part_def by blast+
  have a: "accepted q ?E" "node_entries nd = merge_entries ?E ?p (ae_entries q)"
    using acc by (simp_all add: accepts_def merged_def)
  have pre: "take ?p ?E = take ?p L" by (rule accepted_prefix [OF agr r a(1)])
  have sl: "ae_entries q = take (length (ae_entries q)) (drop ?p L)" and len: "reached q \<le> length L"
    using r by (simp_all add: request_of_def)
  have target: "take (reached q) L = take ?p ?E @ ae_entries q" using pre sl by (simp add: take_add)
  have pE: "?p \<le> length ?E" using a(1) by (simp add: accepted_def holds_at_def)
  have "take (reached q) (node_entries nd) = take ?p ?E @ ae_entries q"
    using a(2) pE by (simp add: merge_entries_def take_add)
  then show ?thesis using target len by simp
qed simp

text \<open>What a leader learns from a positive reply.\<close>

lemma matched_acked:
  assumes np: "node_part s" and cp: "commit_part s" and mv: "moves s i ev r nd"
    and tb: "matched_from ev (cl_node s i) tb" and pk: "(p, k) \<in> set tb"
  shows "acked (cl_hist s) (term_at s i) p (unat k)"
proof -
  note l = moves_local [OF mv]
  from tb pk consider "k = 0" | "(p, k) \<in> set (node_table (cl_node s i))"
    | q y where "ev = ReceiveAppendReply p q y" "aer_success y" "aer_term y = term_at s i" "unat k = reached q"
    unfolding matched_from_def by blast
  then show ?thesis
  proof cases
    case 1
    then show ?thesis by (simp add: acked_def)
  next
    case 2
    then show ?thesis by (rule commit_partD(2) [OF cp l(1)])
  next
    case (3 q y)
    then obtain e where "(i, e) \<in> cl_net s" "env_sender_id e = p" "env_message e = MAppendEntriesReply y"
      "env_replied_to e = Some q"
      using enabled_net [OF l(2)] by (auto simp: event_of_simps)
    then show ?thesis using commit_partD(4) [OF cp] 3 by metis
  qed
qed

text \<open>The commit index of the node that moves.\<close>

lemma replicated_quorum:
  assumes np: "node_part s" and lp: "lead_part s" and cp: "commit_part s" and mv: "moves s i ev r nd"
    and rep: "replicated ev (cl_node s i) nd"
  shows "quorum_held (cl_hist (move i ev r nd s)) (node_term nd) (unat (nd_commit_index nd))
    \<and> leads (cl_node s i) \<and> node_term nd = term_at s i \<and> node_entries nd = log_at s i
    \<and> unat (nd_commit_index nd) \<le> length (log_at s i)"
proof -
  let ?T = "term_at s i" and ?E = "log_at s i" and ?c = "unat (nd_commit_index nd)"
  let ?h' = "cl_hist (move i ev r nd s)"
  note l = moves_local [OF mv]
  obtain tb p k where tb: "matched_from ev (cl_node s i) tb" "(p, k) \<in> set tb" and p: "p \<in> set (list2 (nd_peer_ids (cl_node s i)))"
    and c: "0 < ?c" "?c \<le> unat k" "?c \<le> length ?E" "entry_term (?E ! (?c - 1)) = ?T"
    using rep unfolding replicated_def by blast
  have same: "leads (cl_node s i)" "node_term nd = ?T" "node_entries nd = ?E" using rep by (simp_all add: replicated_def)
  have L: "lead (cl_hist s) ?T = Some (i, ?E)" by (rule lead_partD(4) [OF lp l(1) same(1)])
  have peer: "p \<in> ids" "p \<noteq> i" using p np l(1) ids_peers [OF l(1)] by (auto simp: node_part_def simp del: set_list2)
  have "acked (cl_hist s) ?T p (unat k)" by (rule matched_acked [OF np cp mv tb])
  then have "(?T, p, ?c) \<in> held (cl_hist s)" using c L by (simp add: acked_def has_held_def)
  then have "(?T, p, ?c) \<in> held ?h'" by simp
  moreover have "(?T, i, ?c) \<in> held ?h'"
  proof -
    have "holds_own nd ?c" unfolding holds_own_def same using c by blast
    then show ?thesis using same(2) by simp
  qed
  ultimately have "quorum_held ?h' ?T ?c" using peer l(1) unfolding quorum_held_def by blast
  then show ?thesis using same c(3) by simp
qed

lemma replicated_committed:
  assumes np: "node_part s" and vp: "vote_part s" and lp: "lead_part s" and cp: "commit_part s" and mv: "moves s i ev r nd"
    and rep: "replicated ev (cl_node s i) nd"
  shows "committed (cl_hist (move i ev r nd s)) (node_term nd) (node_entries nd) (unat (nd_commit_index nd))"
proof -
  note q = replicated_quorum [OF np lp cp mv rep]
  have L: "lead (cl_hist s) (node_term nd) = Some (i, log_at s i)"
    using lead_partD(4) [OF lp moves_local(1) [OF mv]] q by simp
  obtain xs where "lead (cl_hist (move i ev r nd s)) (node_term nd) = Some (i, log_at s i @ xs)"
    using history_leD [OF move_history_le [OF np vp lp mv] L] by blast
  then show ?thesis by (rule committedI [OF order_refl _ conjunct1 [OF q] order_refl]) (use q in simp_all)
qed

lemma accepts_committed:
  assumes np: "node_part s" and gp: "log_part s" and cp: "commit_part s"
    and mv: "moves s i ev r nd" and ev: "ev = ReceiveAppendEntries p q" and acc: "accepts q (cl_node s i) nd"
    and keep: "take (unat (nd_commit_index (cl_node s i))) (node_entries nd)
      = take (unat (nd_commit_index (cl_node s i))) (log_at s i)"
  shows "committed (cl_hist s) (node_term nd) (node_entries nd) (unat (nd_commit_index nd))"
proof -
  let ?c = "nd_commit_index (cl_node s i)"
  note l = moves_local [OF mv]
  have c': "nd_commit_index nd = max ?c (min (ae_leader_commit q) (of_nat (reached q)))" and T: "node_term nd = ae_term q"
    using acc by (simp_all add: accepts_def merged_def)
  obtain e where e: "(i, e) \<in> cl_net s" "env_message e = MAppendEntries q"
    using enabled_net [OF l(2)] ev by (auto simp: event_of_simps)
  show ?thesis
  proof (cases "nd_commit_index nd = ?c")
    case True
    then show ?thesis using committed_cong [OF commit_partD(1) [OF cp l(1)] l(8) keep] by simp
  next
    case False
    then have new: "nd_commit_index nd = min (ae_leader_commit q) (of_nat (reached q))" using c' by (simp add: max_def split: if_splits)
    then have "nd_commit_index nd \<le> ae_leader_commit q" "nd_commit_index nd \<le> of_nat (reached q)" by simp_all
    then have lim: "unat (nd_commit_index nd) \<le> unat (ae_leader_commit q)" "unat (nd_commit_index nd) \<le> reached q"
      using order_trans [OF _ unat_of_nat_le [of "reached q"]] unfolding word_le_nat_alt by blast+
    obtain j L where L: "lead (cl_hist s) (ae_term q) = Some (j, L)"
      "committed (cl_hist s) (ae_term q) L (unat (ae_leader_commit q))" using commit_partD(3) [OF cp e] by blast
    have "request_part (cl_hist s) q" using gp e unfolding log_part_def by blast
    then have "take (reached q) (node_entries nd) = take (reached q) L"
      using accepts_prefix [OF gp l(1) _ acc L(1)] by blast
    then have "take (unat (nd_commit_index nd)) (node_entries nd) = take (unat (nd_commit_index nd)) L"
      by (rule take_eq_shorter [OF _ lim(2)])
    then show ?thesis using committed_cong [OF committed_less [OF L(2) lim(1)]] T by simp
  qed
qed

lemma node_committed:
  assumes np: "node_part s" and vp: "vote_part s" and lp: "lead_part s" and gp: "log_part s" and cp: "commit_part s"
    and mv: "moves s i ev r nd"
  shows "committed (cl_hist (move i ev r nd s)) (node_term nd) (node_entries nd) (unat (nd_commit_index nd))"
proof -
  note l = moves_local [OF mv] and le = move_history_le [OF np vp lp mv]
  have keep: "take (unat (nd_commit_index (cl_node s i))) (node_entries nd)
      = take (unat (nd_commit_index (cl_node s i))) (log_at s i)"
    and how: "nd_commit_index nd = nd_commit_index (cl_node s i) \<or> nd_commit_index nd = 0 \<or> replicated ev (cl_node s i) nd
      \<or> (\<exists>p q. ev = ReceiveAppendEntries p q \<and> accepts q (cl_node s i) nd)"
    using mv by (simp_all add: moves_def local_step_def)
  from how consider "nd_commit_index nd = nd_commit_index (cl_node s i)" | "nd_commit_index nd = 0"
    | "replicated ev (cl_node s i) nd" | p q where "ev = ReceiveAppendEntries p q" "accepts q (cl_node s i) nd" by blast
  then show ?thesis
  proof cases
    case 1
    then show ?thesis
      using committed_mono [OF le committed_cong [OF commit_partD(1) [OF cp l(1)] l(8) keep]] by simp
  next
    case 3
    then show ?thesis by (rule replicated_committed [OF np vp lp cp mv])
  next
    case (4 p q)
    show ?thesis by (rule committed_mono [OF le accepts_committed [OF np gp cp mv 4 keep]])
  qed simp
qed

lemma table_acked:
  assumes np: "node_part s" and vp: "vote_part s" and lp: "lead_part s" and cp: "commit_part s"
    and mv: "moves s i ev r nd" and pk: "(p, k) \<in> set (node_table nd)"
  shows "acked (cl_hist (move i ev r nd s)) (node_term nd) p (unat k)"
proof -
  have tb: "matched_from ev (cl_node s i) (node_table nd)" using mv by (simp add: moves_def local_step_def)
  have "leads nd" using pk by (cases "nd_leader nd") (auto simp: node_table_def leads_def)
  then have "node_term nd = term_at s i"
    using leading_move [OF np vp lp mv] winning_votes(5) [OF np vp mv] by blast
  then show ?thesis
    using acked_mono [OF move_history_le [OF np vp lp mv] matched_acked [OF np cp mv tb pk]] by simp
qed

text \<open>A positive reply.\<close>

lemma reply_acked:
  assumes np: "node_part s" and vp: "vote_part s" and lp: "lead_part s" and gp: "log_part s"
    and mv: "moves s i ev r nd" and ev: "ev = ReceiveAppendEntries p q" and acc: "accepts q (cl_node s i) nd"
    and L: "lead (cl_hist s) (ae_term q) = Some (j, L)"
  shows "acked (cl_hist (move i ev r nd s)) (node_term nd) i (reached q)"
proof -
  let ?h' = "cl_hist (move i ev r nd s)"
  have T: "node_term nd = ae_term q" using acc by (simp add: accepts_def merged_def)
  have pre: "reached q \<le> length L" "take (reached q) (node_entries nd) = take (reached q) L"
    using accepts_prefix [OF gp moves_local(1) [OF mv] delivered_request [OF gp mv [unfolded ev]] acc L] by blast+
  have "(node_term nd, i, n) \<in> held ?h'"
    if n: "0 < n" "n \<le> reached q" "entry_term (L ! (n - 1)) = node_term nd" for n
  proof -
    have "reached q \<le> length (node_entries nd)" by (rule take_eq_length [OF sym [OF pre(2)] pre(1)])
    then have "n \<le> length (node_entries nd)" using n(2) by linarith
    moreover have "n - 1 < reached q" using n by linarith
    then have "node_entries nd ! (n - 1) = L ! (n - 1)" by (rule take_eq_nth [OF pre(2)])
    ultimately show ?thesis using n by (simp add: holds_own_def)
  qed
  then have "has_held ?h' (node_term nd) i (reached q) L" using pre(1) by (simp add: has_held_def)
  moreover obtain xs where "lead ?h' (ae_term q) = Some (j, L @ xs)"
    using lead_growsD [OF move_lead_grows [OF np vp lp mv] L] by blast
  ultimately show ?thesis using has_held_append [of ?h' "node_term nd" i "reached q" L ?h' xs] T by (simp add: acked_def)
qed

lemma commit_part_move:
  assumes np: "node_part s" and vp: "vote_part s" and lp: "lead_part s" and gp: "log_part s" and cp: "commit_part s"
    and mv: "moves s i ev r nd"
  shows "commit_part (move i ev r nd s)"
proof -
  let ?s' = "move i ev r nd s"
  let ?h = "cl_hist s" and ?h' = "cl_hist ?s'"
  note l = moves_local [OF mv] and le = move_history_le [OF np vp lp mv]
  have one: "committed ?h' (term_at ?s' j) (log_at ?s' j) (unat (nd_commit_index (cl_node ?s' j)))" if "j \<in> ids" for j
    using node_committed [OF np vp lp gp cp mv] committed_mono [OF le commit_partD(1) [OF cp that]] by simp
  have two: "acked ?h' (term_at ?s' j) p (unat k)" if "j \<in> ids" "(p, k) \<in> set (node_table (cl_node ?s' j))" for j p k
    using table_acked [OF np vp lp cp mv] acked_mono [OF le commit_partD(2) [OF cp that(1)]] that(2)
    by (simp split: if_splits)
  have three: "\<exists>j L. lead ?h' (ae_term q) = Some (j, L) \<and> committed ?h' (ae_term q) L (unat (ae_leader_commit q))"
    if mem: "(d, e) \<in> cl_net ?s'" "env_message e = MAppendEntries q" for d e q
  proof (cases "(d, e) \<in> cl_net s")
    case True
    obtain j L where L: "lead ?h (ae_term q) = Some (j, L)" "committed ?h (ae_term q) L (unat (ae_leader_commit q))"
      using commit_partD(3) [OF cp True mem(2)] by blast
    obtain xs where "lead ?h' (ae_term q) = Some (j, L @ xs)" using history_leD [OF le L(1)] by blast
    moreover have "committed ?h' (ae_term q) (L @ xs) (unat (ae_leader_commit q))"
      using committed_cong [OF committed_mono [OF le L(2)] order_refl] committed_length [OF L(2)] by simp
    ultimately show ?thesis by blast
  next
    case False
    then obtain m where m: "m \<in> set (msgs r)" "ob_message m = MAppendEntries q"
      using mem by (auto simp: envelope_of_def)
    have "leads nd" "ae_leader_commit q \<le> nd_commit_index nd" "ae_term q = node_term nd"
      using l(7) [OF m(1)] m(2) by (auto simp: sent_ok_def request_of_def is_probe_def)
    then show ?thesis
      using committed_less [OF node_committed [OF np vp lp gp cp mv]] by (simp add: word_le_nat_alt)
  qed
  have four: "acked ?h' (aer_term y) (env_sender_id e) (reached q)"
    if mem: "(d, e) \<in> cl_net ?s'" "env_message e = MAppendEntriesReply y" "aer_success y" "env_replied_to e = Some q" for d e y q
  proof (cases "(d, e) \<in> cl_net s")
    case True
    then show ?thesis using acked_mono [OF le commit_partD(4) [OF cp True mem(2-4)]] by simp
  next
    case False
    then obtain m where m: "m \<in> set (msgs r)" "e = envelope_of i ev (ob_message m)" using mem(1) by auto
    then have y: "ob_message m = MAppendEntriesReply y" using mem(2) by (simp add: envelope_of_def)
    then have "acknowledges m" using mem(3) by (simp add: acknowledges_def)
    then obtain p q' where q': "ev = ReceiveAppendEntries p q'" "accepts q' (cl_node s i) nd"
      using mv m(1) unfolding moves_def local_step_def by blast
    have "q' = q" using mem(4) m(2) y q'(1) by (simp add: envelope_of_def replied_to_def is_append_reply_def)
    obtain e' where e': "(i, e') \<in> cl_net s" "env_message e' = MAppendEntries q'"
      using enabled_net [OF l(2)] q'(1) by (auto simp: event_of_simps)
    then obtain j L where "lead ?h (ae_term q') = Some (j, L)" using commit_partD(3) [OF cp] by blast
    then have "acked ?h' (node_term nd) i (reached q')" by (rule reply_acked [OF np vp lp gp mv q'])
    moreover have "aer_term y = node_term nd" using l(7) [OF m(1)] y by (simp add: sent_ok_def)
    ultimately show ?thesis using m(2) \<open>q' = q\<close> by (simp add: envelope_of_def)
  qed
  show ?thesis unfolding commit_part_def using one two three four by blast
qed

lemma reachable_commit: "reachable s \<Longrightarrow> commit_part s"
proof -
  assume "reachable s"
  then have "commit_part s \<and> node_part s"
  proof (rule reachable_moves)
    fix s :: cluster assume f: "\<forall>i \<in> ids. fresh_node i (cl_node s i)" and n: "cl_net s = {}" and h: "cl_hist s = empty_history"
    have "\<forall>i \<in> ids. nd_leader (cl_node s i) = None \<and> nd_commit_index (cl_node s i) = 0"
      using f node_open_fields unfolding fresh_node_def by blast
    then show "commit_part s" using n by (simp add: commit_part_def node_table_def)
  next
    fix s :: cluster and i ev r nd
    assume re: "reachable s" and p: "commit_part s" and mv: "moves s i ev r nd"
    note q = reachable_parts [OF re]
    show "commit_part (move i ev r nd s)" by (rule commit_part_move [OF q p mv])
  qed
  then show ?thesis ..
qed

end
