(* ===== verification/Raft_Cluster_Run.thy ===== *)
theory Raft_Cluster_Run
  imports Raft_Cluster_Commit
begin

text \<open>
  A run of the cluster, evaluated with the definitions of the code: three nodes open empty directories,
  node 1 asks for votes, wins with the vote of node 2, appends its first entry, node 2 appends it, and
  both commit and apply it. It is the concrete input of the theorems about clusters.
\<close>

section \<open>The nodes of the run\<close>

definition stored :: "u64 \<Rightarrow> u64 option \<Rightarrow> persistent_metadata" where
  "stored t v = \<lparr>pm_path = path_join [100] raft_meta_name, pm_state = \<lparr>current_term = t, voted_for = v\<rparr>, pm_io_failed = False\<rparr>"

definition no_log :: persistent_log where
  "no_log = \<lparr>pl_io_failed = False, pl_fd = 4, pl_entries = [], pl_file_size = 0\<rparr>"

definition one_log :: persistent_log where
  "one_log = \<lparr>pl_io_failed = False, pl_fd = 4, pl_entries = [\<lparr>se_entry = sample_entry, se_offset = 0\<rparr>], pl_file_size = 39\<rparr>"

definition election_of :: "u64 \<Rightarrow> raft_role \<Rightarrow> bool \<Rightarrow> raft_election" where
  "election_of i role replied = \<lparr>el_self_id = i, el_peer_ids = peers_of i, el_role = role,
     el_election_term = (if role = Follower then 0 else 1), el_replied = (replied, False),
     el_granted_votes = (case role of Follower \<Rightarrow> 0 | Candidate \<Rightarrow> 1 | Leader \<Rightarrow> 2), el_unusable = False\<rparr>"

definition opened_node :: "u64 \<Rightarrow> raft_node" where
  "opened_node i = \<lparr>nd_self_id = i, nd_peer_ids = peers_of i, nd_metadata = stored 0 None, nd_log = no_log,
     nd_state = kv_init, nd_commit_index = 0, nd_election = election_of i Follower False,
     nd_leader = None, nd_read_rounds = [], nd_next_read_id = 1, nd_known_leader = None, nd_stopped = False\<rparr>"

definition voted_node :: "u64 \<Rightarrow> raft_node" where
  "voted_node i = (opened_node i)\<lparr>nd_metadata := stored 1 (Some 1)\<rparr>"

definition candidate_node :: raft_node where
  "candidate_node = (voted_node 1)\<lparr>nd_election := election_of 1 Candidate False\<rparr>"

definition first_request :: append_entries where
  "first_request = \<lparr>ae_term = 1, ae_leader_id = 1, ae_prev_log_index = 0, ae_prev_log_term = 0,
     ae_entries = [sample_entry], ae_leader_commit = 0, ae_read_context = 0\<rparr>"

definition commit_request :: append_entries where
  "commit_request = \<lparr>ae_term = 1, ae_leader_id = 1, ae_prev_log_index = 1, ae_prev_log_term = 1,
     ae_entries = [], ae_leader_commit = 1, ae_read_context = 0\<rparr>"

definition peer_of :: "u64 \<Rightarrow> u64 \<Rightarrow> append_entries option \<Rightarrow> peer_state" where
  "peer_of p matched q = \<lparr>ps_id = p, ps_progress = \<lparr>next_index = matched + 1, match_index = matched\<rparr>, ps_pending = q\<rparr>"

definition leader_of :: "peer_state \<Rightarrow> peer_state \<Rightarrow> raft_leader" where
  "leader_of p q = \<lparr>ld_self_id = 1, ld_term = 1, ld_peers = (p, q), ld_stopped = False\<rparr>"

definition reign_of :: "peer_state \<Rightarrow> peer_state \<Rightarrow> raft_node" where
  "reign_of p q = (voted_node 1)\<lparr>nd_log := one_log, nd_election := election_of 1 Leader True, nd_known_leader := Some 1,
     nd_leader := Some (leader_of p q)\<rparr>"

definition with_commit :: "raft_node \<Rightarrow> raft_node" where
  "with_commit nd = nd\<lparr>nd_commit_index := 1, nd_state := kv_init\<lparr>kv_last_applied := 1\<rparr>\<rparr>"

definition leader_node :: raft_node where
  "leader_node = reign_of (peer_of 2 0 (Some first_request)) (peer_of 3 0 (Some first_request))"

definition committed_leader :: raft_node where
  "committed_leader = with_commit (reign_of (peer_of 2 1 (Some commit_request)) (peer_of 3 0 (Some first_request)))"

definition follower_node :: raft_node where
  "follower_node = (voted_node 2)\<lparr>nd_log := one_log, nd_known_leader := Some 1\<rparr>"

text \<open>The probe of a read that the leader starts once it has committed.\<close>

definition run_probe :: append_entries where
  "run_probe = \<lparr>ae_term = 1, ae_leader_id = 1, ae_prev_log_index = 0, ae_prev_log_term = 0,
     ae_entries = [], ae_leader_commit = 1, ae_read_context = 1\<rparr>"

lemma run_probe_fields [simp]:
  "ae_term run_probe = 1" "ae_leader_id run_probe = 1" "ae_prev_log_index run_probe = 0" "ae_prev_log_term run_probe = 0"
  "ae_entries run_probe = []" "ae_leader_commit run_probe = 1" "ae_read_context run_probe = 1"
  by (simp_all add: run_probe_def)

lemma stored_fields [simp]:
  "current_term (pm_state (stored t v)) = t" "voted_for (pm_state (stored t v)) = v" "pm_io_failed (stored t v) = False"
  "(stored t v)\<lparr>pm_state := \<lparr>current_term = u, voted_for = x\<rparr>\<rparr> = stored u x" "pm_state (stored t v) = \<lparr>current_term = t, voted_for = v\<rparr>"
  by (simp_all add: stored_def)

lemma run_log_fields [simp]:
  "last_index no_log = 0" "last_term no_log = 0" "entry_at i no_log = None"
  "last_index one_log = 1" "entry_at 1 one_log = Some sample_entry"
  by (auto simp: no_log_def one_log_def last_index_def last_term_def entry_at_def Let_def word_gt_0)

lemma sample_entry_fields [simp]: "entry_index sample_entry = 1" "entry_term sample_entry = 1"
  "entry_command sample_entry = noop_command"
  by (simp_all add: sample_entry_def sample_noop_def noop_command_def)

lemma peers_of_simps [simp]: "peers_of 1 = (2, 3)" "peers_of 2 = (1, 3)" "peers_of 3 = (1, 2)"
  by (simp_all add: peers_of_def)

lemma opens:
  assumes "i \<in> ids"
  shows "\<exists>w'. node_open i (peers_of i) [100] \<lparr>script = [Ret 3, Fail ENOENT, Ret 0, Ret 4, Stat 0 True, Ret 5, Ret 0, Ret 0, Ret 0],
     trace = []\<rparr> = (Inr (opened_node i), w')"
proof -
  have fn: "filename (path_join [100] raft_meta_name) \<noteq> []"
    by (simp add: filename_def path_join_def raft_meta_name_def)
  have "i = 1 \<or> i = 2 \<or> i = 3" using assms by (simp add: ids_def)
  then show ?thesis
    by (elim disjE)
      (simp_all add: node_open_def pm_open_def pl_open_def syscall_def fn sync_descriptor_def empty_metadata_def
        retry_until_zero.simps new_election_def close_fd_def Let_def opened_node_def stored_def no_log_def election_of_def)
qed

section \<open>The steps of the run\<close>

lemma two_updates:
  assumes "valid_metadata a" "valid_metadata b"
  shows "\<exists>t1 t2. persist a m \<lparr>script = good_answers @ good_answers, trace = []\<rparr>
      = (Persisted, m\<lparr>pm_state := a\<rparr>, \<lparr>script = good_answers, trace = t1\<rparr>)
    \<and> persist b (m\<lparr>pm_state := a\<rparr>) \<lparr>script = good_answers, trace = t1\<rparr>
      = (Persisted, m\<lparr>pm_state := b\<rparr>, \<lparr>script = [], trace = t2\<rparr>)"
proof -
  obtain t1 where 1: "persist a m \<lparr>script = good_answers @ good_answers, trace = []\<rparr>
      = (Persisted, m\<lparr>pm_state := a\<rparr>, \<lparr>script = good_answers, trace = t1\<rparr>)"
    using persist_good_answers [OF assms(1)] by metis
  obtain t2 where "persist b (m\<lparr>pm_state := a\<rparr>) \<lparr>script = good_answers, trace = t1\<rparr>
      = (Persisted, m\<lparr>pm_state := a, pm_state := b\<rparr>, \<lparr>script = [], trace = t2\<rparr>)"
    using persist_good_answers [OF assms(2)] by (metis append_Nil2)
  with 1 show ?thesis by auto
qed

abbreviation two_good :: os where
  "two_good \<equiv> \<lparr>script = good_answers @ good_answers, trace = []\<rparr>"

lemma vote_metadata_valid:
  "valid_metadata \<lparr>current_term = 1, voted_for = None\<rparr>" "valid_metadata \<lparr>current_term = 1, voted_for = Some 1\<rparr>"
  by (simp_all add: valid_metadata_def)

definition first_vote :: request_vote where
  "first_vote = \<lparr>rv_term = 1, rv_candidate_id = 1, rv_last_log_index = 0, rv_last_log_term = 0\<rparr>"

text \<open>Both the candidate and its voter record the term, then the vote.\<close>

lemma records_vote:
  "\<exists>v w'. advance_term 1 (stored 0 None) two_good = (Persisted, stored 1 None, v)
     \<and> vote_for 1 (stored 1 None) v = (Persisted, stored 1 (Some 1), w')"
proof -
  obtain t1 t2 where "persist \<lparr>current_term = 1, voted_for = None\<rparr> (stored 0 None) two_good
      = (Persisted, stored 1 None, \<lparr>script = good_answers, trace = t1\<rparr>)"
    "persist \<lparr>current_term = 1, voted_for = Some 1\<rparr> (stored 1 None) \<lparr>script = good_answers, trace = t1\<rparr>
      = (Persisted, stored 1 (Some 1), \<lparr>script = [], trace = t2\<rparr>)"
    using two_updates [OF vote_metadata_valid, of "stored 0 None"] by auto
  then show ?thesis by (simp add: advance_term_def vote_for_def)
qed

lemma run_asks:
  "\<exists>a w'. node_step ElectionTimeout (opened_node 1) two_good = (Inr a, candidate_node, w')
     \<and> \<lparr>ob_peer_id = 2, ob_message = MRequestVote first_vote\<rparr> \<in> set (messages a)"
proof -
  obtain v w' where r: "advance_term 1 (stored 0 None) two_good = (Persisted, stored 1 None, v)"
    "vote_for 1 (stored 1 None) v = (Persisted, stored 1 (Some 1), w')" using records_vote by blast
  have "start_election no_log (stored 0 None) (election_of 1 Follower False) two_good
      = (Inr first_vote, stored 1 (Some 1), election_of 1 Candidate False, w')"
    using r by (simp add: start_election_def refresh_role_from_metadata_def election_of_def first_vote_def Let_def)
  then show ?thesis
    by (simp add: on_election_timeout_def opened_node_def candidate_node_def voted_node_def drop_leadership_def
        no_actions_def list2_def Let_def)
qed

lemma run_grants:
  "\<exists>a w'. node_step (ReceiveRequestVote 1 first_vote) (opened_node 2) two_good = (Inr a, voted_node 2, w')
     \<and> \<lparr>ob_peer_id = 1, ob_message = MRequestVoteReply \<lparr>rvr_term = 1, rvr_vote_granted = True\<rparr>\<rparr> \<in> set (messages a)"
proof -
  obtain v w' where r: "advance_term 1 (stored 0 None) two_good = (Persisted, stored 1 None, v)"
    "vote_for 1 (stored 1 None) v = (Persisted, stored 1 (Some 1), w')" using records_vote by blast
  have "handle_request_vote no_log first_vote (stored 0 None) two_good
      = (Inr \<lparr>rvr_term = 1, rvr_vote_granted = True\<rparr>, stored 1 (Some 1), w')"
    using r by (simp add: handle_request_vote_def first_vote_def candidate_log_is_up_to_date_def Let_def)
  then show ?thesis
    by (simp add: on_request_vote_def opened_node_def voted_node_def drop_leadership_def is_peer_def get2_def
        no_actions_def node_term_def Let_def) (simp add: first_vote_def)
qed

lemma append_first:
  "\<exists>w'. append_entry sample_entry no_log \<lparr>script = [Ret 39, Ret 0], trace = []\<rparr> = (Appended, one_log, w')"
proof -
  let ?bs = "entry_record 1 1 (command_layout sample_noop)"
  have len: "length ?bs = 39" by (simp add: length_entry_record length_command_layout sample_noop_def)
  have wr: "pl_write_exact 4 ?bs 0 0 \<lparr>script = [Ret 39, Ret 0], trace = []\<rparr>
      = (True, \<lparr>script = [Ret 0], trace = [(SysPwrite 4 ?bs 0, Ret 39)]\<rparr>)"
    by (subst pl_write_exact.simps, subst pl_write_exact.simps) (simp add: len syscall_def)
  have sy: "\<exists>w'. sync_file 4 \<lparr>script = [Ret 0], trace = [(SysPwrite 4 ?bs 0, Ret 39)]\<rparr> = (True, w')"
    unfolding sync_file_def by (subst retry_until_zero.simps) (simp add: syscall_def)
  show ?thesis
    using wr sy len by (auto simp: append_entry_def last_index_def sample_entry_encoded Let_def off_max_def no_log_def one_log_def)
qed

lemma collects:
  "collect_entries one_log 4 1 [] = Some [sample_entry]" "collect_entries one_log 4 2 [] = Some []"
  by (subst collect_entries.simps, simp add: word_le_nat_alt)+

lemma leader_active_run: "active (election_of 1 Leader True) (stored 1 (Some 1)) (leader_of p q)"
  by (simp add: active_def election_role_def election_of_def leader_of_def)

text \<open>The requests of the run's leader.\<close>

lemma run_requests:
  "ps_id p = 2 \<Longrightarrow> ps_id q = 3 \<Longrightarrow> ps_pending p = None \<Longrightarrow> ps_progress p = \<lparr>next_index = 1, match_index = 0\<rparr> \<Longrightarrow>
     make_request (election_of 1 Leader True) (stored 1 (Some 1)) one_log 0 2 4 (leader_of p q)
       = (Inr first_request, leader_of (p\<lparr>ps_pending := Some first_request\<rparr>) q)"
  "ps_id p = 2 \<Longrightarrow> ps_id q = 3 \<Longrightarrow> ps_pending q = None \<Longrightarrow> ps_progress q = \<lparr>next_index = 1, match_index = 0\<rparr> \<Longrightarrow>
     make_request (election_of 1 Leader True) (stored 1 (Some 1)) one_log 0 3 4 (leader_of p q)
       = (Inr first_request, leader_of p (q\<lparr>ps_pending := Some first_request\<rparr>))"
  "ps_id p = 2 \<Longrightarrow> ps_id q = 3 \<Longrightarrow> ps_pending p = None \<Longrightarrow> ps_progress p = \<lparr>next_index = 2, match_index = 1\<rparr> \<Longrightarrow>
     make_request (election_of 1 Leader True) (stored 1 (Some 1)) one_log 1 2 4 (leader_of p q)
       = (Inr commit_request, leader_of (p\<lparr>ps_pending := Some commit_request\<rparr>) q)"
  "ps_id p = 2 \<Longrightarrow> ps_id q = 3 \<Longrightarrow> ps_pending q = Some r \<Longrightarrow>
     make_request (election_of 1 Leader True) (stored 1 (Some 1)) one_log 1 3 4 (leader_of p q) = (Inr r, leader_of p q)"
  by (simp_all add: make_request_def leader_active_run)
    (simp_all add: leader_active_run [unfolded leader_of_def] leader_of_def find_peer_def get2_def set_peer_def set2_def Let_def collects first_request_def commit_request_def)

lemma peer_of_fields [simp]:
  "ps_id (peer_of p m q) = p" "ps_progress (peer_of p m q) = \<lparr>next_index = m + 1, match_index = m\<rparr>"
  "ps_pending (peer_of p m q) = q" "(peer_of p m q)\<lparr>ps_pending := r\<rparr> = peer_of p m r"
  by (simp_all add: peer_of_def)

lemma run_wins:
  "\<exists>a w'. node_step (ReceiveVoteReply 2 \<lparr>rvr_term = 1, rvr_vote_granted = True\<rparr>) candidate_node
       \<lparr>script = [Ret 39, Ret 0], trace = []\<rparr> = (Inr a, leader_node, w')
     \<and> \<lparr>ob_peer_id = 2, ob_message = MAppendEntries first_request\<rparr> \<in> set (messages a)"
proof -
  let ?w = "\<lparr>script = [Ret 39, Ret 0], trace = []\<rparr>"
  have e: "\<lparr>entry_index = 1, entry_term = 1, entry_command = noop_command\<rparr> = sample_entry"
    by (simp add: sample_entry_def sample_noop_def noop_command_def)
  obtain w' where w: "append_entry sample_entry no_log ?w = (Appended, one_log, w')" using append_first by blast
  have h: "handle_vote_reply 2 \<lparr>rvr_term = 1, rvr_vote_granted = True\<rparr> (stored 1 (Some 1)) (election_of 1 Candidate False) ?w
      = (BecameLeader, stored 1 (Some 1), election_of 1 Leader True, ?w)"
    by (simp add: handle_vote_reply_def refresh_role_from_metadata_def election_of_def election_role_def peer_index_of_iff
        Let_def get2_def set2_def)
  have l: "new_leader (election_of 1 Leader True) (stored 1 (Some 1)) no_log 0 = Some (leader_of (peer_of 2 0 None) (peer_of 3 0 None))"
    by (simp add: new_leader_def Let_def election_role_def election_of_def leader_of_def peer_of_def get2_def)
  have a: "append_command (election_of 1 Leader True) (stored 1 (Some 1)) noop_command no_log (leader_of p q) ?w
      = (Inr 1, one_log, leader_of p q, w')" for p q
    using w by (simp add: append_command_def leader_active_run Let_def) (simp add: leader_of_def e)
  show ?thesis
    by (simp add: on_vote_reply_def candidate_node_def voted_node_def opened_node_def is_peer_def get2_def h l a Let_def
        list2_def queue_append_def run_requests peer_of_def)
      (simp add: election_of_def leader_node_def reign_of_def voted_node_def opened_node_def add_messages_def no_actions_def
        peer_of_def)
qed

text \<open>The node 2 appends the entry, and later commits it.\<close>

lemma run_requests_valid: "valid_entries first_request" "valid_entries commit_request"
  using sample_entry_encoded
  by (simp_all add: valid_entries_iff first_request_def commit_request_def batch_ok_def encodable_def)

lemma applies_first:
  "apply_committed one_log kv_init 1 = (Inr [\<lparr>al_index = 1, al_result = Applied\<rparr>], kv_init\<lparr>kv_last_applied := 1\<rparr>)"
proof -
  have "apply_loop one_log 1 (kv_init\<lparr>kv_last_applied := 1\<rparr>) xs = (Inr xs, kv_init\<lparr>kv_last_applied := 1\<rparr>)" for xs
    by (subst apply_loop.simps) simp
  moreover have "kv_apply 1 noop_command 1 kv_init = (Applied, kv_init\<lparr>kv_last_applied := 1\<rparr>)"
    by (simp add: kv_apply_def noop_command_def kv_init_def)
  moreover have "kv_last_applied kv_init = 0" by (simp add: kv_init_def)
  ultimately show ?thesis
    by (simp add: apply_committed_def) (subst apply_loop.simps, simp)
qed

lemma applies_nothing: "apply_committed one_log kv_init 0 = (Inr [], kv_init)"
  by (simp add: apply_committed_def kv_init_def) (subst apply_loop.simps, simp)

lemma run_appends:
  "\<exists>a w'. node_step (ReceiveAppendEntries 1 first_request) (voted_node 2)
       \<lparr>script = [Ret 39, Ret 0], trace = []\<rparr> = (Inr a, follower_node, w')
     \<and> \<lparr>ob_peer_id = 1, ob_message = MAppendEntriesReply \<lparr>aer_term = 1, aer_success = True\<rparr>\<rparr> \<in> set (messages a)"
proof -
  let ?w = "\<lparr>script = [Ret 39, Ret 0], trace = []\<rparr>"
  obtain w' where w: "append_entry sample_entry no_log ?w = (Appended, one_log, w')" using append_first by blast
  have q: "ae_term first_request = 1" "ae_leader_id first_request = 1" "ae_prev_log_index first_request = 0"
    "ae_entries first_request = [sample_entry]" "ae_leader_commit first_request = 0"
    by (simp_all add: first_request_def)
  have h: "handle_append_entries first_request (stored 1 (Some 1)) no_log 0 ?w
     = (Inr \<lparr>aer_term = 1, aer_success = True\<rparr>, stored 1 (Some 1), one_log, 0, w')"
    using w run_requests_valid(1) by (simp add: handle_append_entries_def advance_term_def Let_def q)
  show ?thesis
    by (simp add: on_append_entries_def voted_node_def opened_node_def is_peer_def get2_def q h Let_def node_term_def
        drop_leadership_def apply_ready_def applies_nothing)
      (simp add: follower_node_def voted_node_def opened_node_def observe_leader_def become_follower_def election_of_def
        no_actions_def add_messages_def)
qed

lemma run_commits:
  "\<exists>a w'. node_step (ReceiveAppendReply 2 first_request \<lparr>aer_term = 1, aer_success = True\<rparr>) leader_node
       \<lparr>script = [], trace = []\<rparr> = (Inr a, committed_leader, w')
     \<and> \<lparr>ob_peer_id = 2, ob_message = MAppendEntries commit_request\<rparr> \<in> set (messages a)"
proof -
  let ?w = "\<lparr>script = [], trace = []\<rparr>"
  let ?p = "peer_of 2 0 (Some first_request)" and ?q = "peer_of 3 0 (Some first_request)"
  have c: "advance_commit_index (leader_of (peer_of 2 1 None) ?q) one_log 0 = (True, 1)"
    by (simp add: advance_commit_index_def, subst commit_search.simps) (simp add: leader_of_def peer_of_def get2_def)
  have h: "handle_reply (election_of 1 Leader True) one_log 2 first_request \<lparr>aer_term = 1, aer_success = True\<rparr>
      (stored 1 (Some 1)) 0 (leader_of ?p ?q) ?w = (Committed, stored 1 (Some 1), 1, leader_of (peer_of 2 1 None) ?q, ?w)"
    using c
    by (simp add: handle_reply_def leader_active_run)
      (simp add: find_peer_def leader_of_def leader_active_run [unfolded leader_of_def] peer_of_def get2_def Let_def
        first_request_def set_peer_def set2_def)
  show ?thesis
    by (simp add: on_append_reply_def leader_node_def reign_of_def voted_node_def opened_node_def is_peer_def get2_def h Let_def
        after_append_reply_def apply_ready_def applies_first list2_def queue_append_def run_requests
        start_waiting_reads_def finish_read_def)
      (simp add: first_request_def committed_leader_def with_commit_def reign_of_def voted_node_def opened_node_def
        add_messages_def no_actions_def)
qed

lemma run_follows:
  "\<exists>a w'. node_step (ReceiveAppendEntries 1 commit_request) follower_node
       \<lparr>script = [], trace = []\<rparr> = (Inr a, with_commit follower_node, w')"
proof -
  let ?w = "\<lparr>script = [], trace = []\<rparr>"
  have q: "ae_term commit_request = 1" "ae_leader_id commit_request = 1" "ae_prev_log_index commit_request = 1"
    "ae_prev_log_term commit_request = 1" "ae_entries commit_request = []" "ae_leader_commit commit_request = 1"
    by (simp_all add: commit_request_def)
  have h: "handle_append_entries commit_request (stored 1 (Some 1)) one_log 0 ?w
     = (Inr \<lparr>aer_term = 1, aer_success = True\<rparr>, stored 1 (Some 1), one_log, 1, ?w)"
    using run_requests_valid(2) by (simp add: handle_append_entries_def advance_term_def Let_def q)
  show ?thesis
    by (simp add: on_append_entries_def follower_node_def voted_node_def opened_node_def is_peer_def get2_def q h Let_def
        node_term_def drop_leadership_def apply_ready_def applies_first)
      (simp add: with_commit_def observe_leader_def become_follower_def election_of_def)
qed

section \<open>The run\<close>

lemma run_step:
  assumes "reachable s" and "i \<in> ids" and "enabled i ev s" and "node_step ev (cl_node s i) w = (Inr a, nd, w')"
  shows "\<exists>s'. reachable s' \<and> cluster_step s s' \<and> cl_node s' = (cl_node s)(i := nd) \<and> cl_net s \<subseteq> cl_net s'
    \<and> (\<forall>m \<in> set (messages a). (ob_peer_id m, envelope_of i ev (ob_message m)) \<in> cl_net s')"
proof -
  let ?s' = "move i ev (Inr a) nd s"
  have "cluster_step s ?s'" by (rule cluster_step.Event [OF assms(2-4)])
  moreover from this have "reachable ?s'" by (rule reachable.Step [OF assms(1)])
  ultimately show ?thesis by (intro exI [of _ ?s']) auto
qed

lemma enabled_message:
  "(i, e) \<in> cl_net s \<Longrightarrow> event_of e = Some ev \<Longrightarrow> enabled i ev s"
  by (auto simp: enabled_def)

definition start_cluster :: cluster where
  "start_cluster = \<lparr>cl_node = opened_node, cl_net = {}, cl_hist = empty_history\<rparr>"

lemma start_reachable: "reachable start_cluster"
proof (rule reachable.Start)
  have "fresh_node i (opened_node i)" if "i \<in> ids" for i
    unfolding fresh_node_def using opens [OF that] by (auto simp: opened_node_def no_log_def log_entries_def)
  then show "\<forall>i \<in> ids. fresh_node i (cl_node start_cluster i)" by (simp add: start_cluster_def)
qed (simp_all add: start_cluster_def)

text \<open>A state in which node 1 leads, a later one in which it has committed, and the last one, in which
  node 2 has committed too.\<close>

lemma run_reachable:
  "\<exists>s s1 s2. reachable s \<and> cluster_step s s1 \<and> cluster_step s1 s2 \<and> reachable s1 \<and> reachable s2
     \<and> cl_node s 1 = leader_node
     \<and> cl_node s1 1 = committed_leader \<and> cl_node s1 2 = follower_node
     \<and> cl_node s2 1 = committed_leader \<and> cl_node s2 2 = with_commit follower_node"
proof -
  have in_ids: "(1::u64) \<in> ids" "(2::u64) \<in> ids" by (simp_all add: ids_def)
  let ?ask = "envelope_of 1 ElectionTimeout (MRequestVote first_vote)"
  obtain s1 where s1: "reachable s1" "cl_node s1 = (opened_node)(1 := candidate_node)" "(2, ?ask) \<in> cl_net s1"
    using run_asks run_step [OF start_reachable in_ids(1), of ElectionTimeout]
    by (fastforce simp: start_cluster_def enabled_def local_event_def)
  let ?ev2 = "ReceiveRequestVote 1 first_vote" and ?yes = "\<lparr>rvr_term = 1, rvr_vote_granted = True\<rparr>"
  have "enabled 2 ?ev2 s1" by (rule enabled_message [OF s1(3)]) (simp add: event_of_def envelope_of_def)
  then obtain s2 where s2: "reachable s2" "cl_node s2 = (opened_node)(1 := candidate_node, 2 := voted_node 2)"
    "(1, envelope_of 2 ?ev2 (MRequestVoteReply ?yes)) \<in> cl_net s2"
    using run_grants run_step [OF s1(1) in_ids(2), of ?ev2] by (fastforce simp: s1(2))
  let ?ev3 = "ReceiveVoteReply 2 ?yes"
  have "enabled 1 ?ev3 s2" by (rule enabled_message [OF s2(3)]) (simp add: event_of_def envelope_of_def)
  then obtain s3 where s3: "reachable s3" "cl_node s3 = (opened_node)(1 := leader_node, 2 := voted_node 2)"
    "(2, envelope_of 1 ?ev3 (MAppendEntries first_request)) \<in> cl_net s3"
    using run_wins run_step [OF s2(1) in_ids(1), of ?ev3] by (fastforce simp: s2(2) fun_upd_twist)
  let ?ev4 = "ReceiveAppendEntries 1 first_request" and ?ok = "\<lparr>aer_term = 1, aer_success = True\<rparr>"
  have "enabled 2 ?ev4 s3" by (rule enabled_message [OF s3(3)]) (simp add: event_of_def envelope_of_def)
  then obtain s4 where s4: "reachable s4" "cl_node s4 = (opened_node)(1 := leader_node, 2 := follower_node)"
    "(1, envelope_of 2 ?ev4 (MAppendEntriesReply ?ok)) \<in> cl_net s4"
    using run_appends run_step [OF s3(1) in_ids(2), of ?ev4] by (fastforce simp: s3(2))
  let ?ev5 = "ReceiveAppendReply 2 first_request ?ok"
  have "enabled 1 ?ev5 s4"
    by (rule enabled_message [OF s4(3)]) (simp add: event_of_def envelope_of_def is_append_reply_def replied_to_def)
  then obtain s5 where s5: "reachable s5" "cluster_step s4 s5"
    "cl_node s5 = (opened_node)(1 := committed_leader, 2 := follower_node)"
    "(2, envelope_of 1 ?ev5 (MAppendEntries commit_request)) \<in> cl_net s5"
    using run_commits run_step [OF s4(1) in_ids(1), of ?ev5] by (fastforce simp: s4(2) fun_upd_twist)
  let ?ev6 = "ReceiveAppendEntries 1 commit_request"
  have "enabled 2 ?ev6 s5" by (rule enabled_message [OF s5(4)]) (simp add: event_of_def envelope_of_def)
  then obtain s6 where s6: "reachable s6" "cluster_step s5 s6"
    "cl_node s6 = (opened_node)(1 := committed_leader, 2 := with_commit follower_node)"
    using run_follows run_step [OF s5(1) in_ids(2), of ?ev6] by (fastforce simp: s5(3))
  show ?thesis
    using s4(1,2) s5(1-3) s6 by (intro exI [of _ s4] exI [of _ s5] exI [of _ s6]) simp
qed

end
