(* ===== verification/Raft_Safety.thy ===== *)
theory Raft_Safety
  imports Raft_Cluster_Run
begin

text \<open>
  The theorems about clusters, up to those about reads: at most one leader per term, log matching, leader completeness and state
  machine safety, for all reachable clusters of three nodes, any order, loss and duplication of messages,
  any answers of the disks and any restarts.
\<close>

section \<open>What the invariants say\<close>

text \<open>A node's committed entries, at any later moment and against any other committed entries.\<close>

lemma history_le_trans:
  assumes "history_le h g" and "history_le g k"
  shows "history_le h k"
  unfolding history_le_def lead_grows_def
proof (intro conjI allI impI)
  fix t i L assume "lead h t = Some (i, L)"
  then obtain xs where xs: "lead g t = Some (i, L @ xs)" "\<forall>e \<in> set xs. entry_term e = t"
    using assms(1) unfolding history_le_def lead_grows_def by blast
  then obtain ys where "lead k t = Some (i, (L @ xs) @ ys)" "\<forall>e \<in> set ys. entry_term e = t"
    using assms(2) unfolding history_le_def lead_grows_def by blast
  then show "\<exists>zs. lead k t = Some (i, L @ zs) \<and> (\<forall>e \<in> set zs. entry_term e = t)"
    using xs(2) by (intro exI [of _ "xs @ ys"]) auto
qed (use assms in \<open>auto simp: history_le_def\<close>)

lemma run_reaches:
  assumes "cluster_step\<^sup>*\<^sup>* s s'" and "reachable s"
  shows "reachable s' \<and> history_le (cl_hist s) (cl_hist s')"
  using assms
proof (induction rule: rtranclp_induct)
  case base
  then show ?case by (auto simp: history_le_def lead_grows_def intro: exI [of _ "[]"])
next
  case (step y z)
  then have y: "reachable y" "history_le (cl_hist s) (cl_hist y)" by blast+
  obtain j ev r nd where m: "moves y j ev r nd" "z = move j ev r nd y"
    using cluster_step_moves [OF reachable_parts(1) [OF y(1)] step(2)] by blast
  have "history_le (cl_hist y) (cl_hist z)"
    unfolding m(2) by (rule move_history_le [OF reachable_parts(1-3) [OF y(1)] m(1)])
  then have "history_le (cl_hist s) (cl_hist z)" by (rule history_le_trans [OF y(2)])
  then show ?case using reachable.Step [OF y(1) step(2)] by blast
qed

lemma committed_later:
  assumes "cluster_step\<^sup>*\<^sup>* s s'" and "reachable s" and "i \<in> ids"
  shows "committed (cl_hist s') (term_at s i) (log_at s i) (unat (nd_commit_index (cl_node s i)))"
  using committed_mono [OF conjunct2 [OF run_reaches [OF assms(1,2)]] commit_partD(1) [OF reachable_commit [OF assms(2)] assms(3)]] .

lemma leader_covers_committed:
  assumes wp: "win_part s" and lp: "lead_part s" and c: "committed (cl_hist s) b es c"
    and L: "lead (cl_hist s) t' = Some (j, L')" and t: "b \<le> t'"
  shows "take c L' = take c es"
  using c
proof (cases rule: committedE)
  case (2 t i L n)
  have "take n L' = take n L"
  proof (cases "t = t'")
    case True
    then show ?thesis using 2(2) L by simp
  next
    case False
    then have "t < t'" using 2(1) t by simp
    then show ?thesis by (rule later_leaders_have [OF wp lp 2(3,2) _ L])
  qed
  then show ?thesis using take_eq_shorter [of n L' L c] 2(4,6) by simp
qed simp

section \<open>Properties\<close>

text \<open>C3: Election safety. If a node leads at one moment of a run and a node leads at the same or a later
  moment in the same term, they are the same node: no term has two leaders, not even one after the other.\<close>

theorem election_safety:
  assumes "reachable s" and "cluster_step\<^sup>*\<^sup>* s s'" and "i \<in> ids" and "j \<in> ids"
    and "nd_leader (cl_node s i) \<noteq> None" and "nd_leader (cl_node s' j) \<noteq> None"
    and "node_term (cl_node s i) = node_term (cl_node s' j)"
  shows "i = j"
proof -
  have "lead (cl_hist s) (term_at s i) = Some (i, log_at s i)"
    by (rule lead_partD(4) [OF reachable_parts(3) [OF assms(1)] assms(3)]) (use assms(5) in \<open>simp add: leads_def\<close>)
  from run_lead_owner [OF assms(2,1) this]
  obtain xs where r: "reachable s'" "lead (cl_hist s') (term_at s i) = Some (i, log_at s i @ xs)" by blast
  have "lead (cl_hist s') (term_at s' j) = Some (j, log_at s' j)"
    by (rule lead_partD(4) [OF reachable_parts(3) [OF r(1)] assms(4)]) (use assms(6) in \<open>simp add: leads_def\<close>)
  then show ?thesis using r(2) assms(7) by simp
qed

text \<open>C4: Log matching. If the logs of two nodes have an entry of the same term at the same index, the logs
  are equal up to that entry.\<close>

theorem log_matching:
  assumes "reachable s" and "i \<in> ids" and "j \<in> ids"
    and "k < length (log_entries (nd_log (cl_node s i)))" and "k < length (log_entries (nd_log (cl_node s j)))"
    and "entry_term (log_entries (nd_log (cl_node s i)) ! k) = entry_term (log_entries (nd_log (cl_node s j)) ! k)"
  shows "take (Suc k) (log_entries (nd_log (cl_node s i))) = take (Suc k) (log_entries (nd_log (cl_node s j)))"
  using reachable_parts(4) [OF assms(1)] assms(2,3) agrees_match [OF _ _ assms(4-6)] unfolding log_part_def by blast

text \<open>C2: Leader completeness. What a node has committed at one moment of a run is in the log of every node
  that leads at the same or a later moment, in the same or a later term.\<close>

theorem leader_completeness:
  assumes "reachable s" and "cluster_step\<^sup>*\<^sup>* s s'" and "i \<in> ids" and "j \<in> ids"
    and "nd_leader (cl_node s' j) \<noteq> None" and "node_term (cl_node s i) \<le> node_term (cl_node s' j)"
  shows "take (unat (nd_commit_index (cl_node s i))) (log_entries (nd_log (cl_node s' j)))
    = take (unat (nd_commit_index (cl_node s i))) (log_entries (nd_log (cl_node s i)))"
proof -
  have r: "reachable s'" using run_reaches [OF assms(2,1)] by blast
  have "lead (cl_hist s') (term_at s' j) = Some (j, log_at s' j)"
    by (rule lead_partD(4) [OF reachable_parts(3) [OF r] assms(4)]) (use assms(5) in \<open>simp add: leads_def\<close>)
  then show ?thesis
    by (rule leader_covers_committed [OF reachable_covers(4) [OF r] reachable_parts(3) [OF r]
          committed_later [OF assms(2,1,3)] _ assms(6)])
qed

text \<open>C1: State machine safety. The committed entries of any two nodes, at any two moments of a run, agree as
  far as both go; and nodes that have applied equally many entries have the same key-value state,
  request results included.\<close>

theorem state_machine_safety:
  assumes "reachable s" and "cluster_step\<^sup>*\<^sup>* s s'" and "i \<in> ids" and "j \<in> ids"
  shows "take (min (unat (nd_commit_index (cl_node s i))) (unat (nd_commit_index (cl_node s' j)))) (log_entries (nd_log (cl_node s i)))
      = take (min (unat (nd_commit_index (cl_node s i))) (unat (nd_commit_index (cl_node s' j)))) (log_entries (nd_log (cl_node s' j)))
    \<and> (kv_last_applied (nd_state (cl_node s i)) = kv_last_applied (nd_state (cl_node s' j)) \<longrightarrow>
       nd_state (cl_node s i) = nd_state (cl_node s' j))"
proof -
  let ?c = "unat (nd_commit_index (cl_node s i))" and ?d = "unat (nd_commit_index (cl_node s' j))"
  have r: "reachable s'" using run_reaches [OF assms(2,1)] by blast
  have eq: "take (min ?c ?d) (log_at s i) = take (min ?c ?d) (log_at s' j)"
    by (rule committed_agree [OF reachable_covers(4) [OF r] reachable_parts(3) [OF r]
          committed_later [OF assms(2,1,3)] committed_later [OF _ r assms(4)]]) simp
  have core: "core_inv (cl_node s i)" "core_inv (cl_node s' j)"
    using reachable_parts(1) [OF assms(1)] reachable_parts(1) [OF r] assms(3,4) full_inv_parts(3)
    by (simp_all add: node_part_def)
  have "nd_state (cl_node s i) = nd_state (cl_node s' j)"
    if a: "kv_last_applied (nd_state (cl_node s i)) = kv_last_applied (nd_state (cl_node s' j))"
  proof -
    let ?n = "unat (kv_last_applied (nd_state (cl_node s i)))"
    have n: "?n \<le> min ?c ?d" using core a by (simp add: core_inv_def word_le_nat_alt)
    have "nd_state (cl_node s i) = kv_replay (take ?n (log_at s i))"
      "nd_state (cl_node s' j) = kv_replay (take ?n (log_at s' j))"
      using core a by (simp_all add: core_inv_def applied_prefix_def)
    then show ?thesis using take_eq_shorter [OF eq n] by simp
  qed
  with eq show ?thesis by blast
qed

section \<open>The theorems on a run\<close>

text \<open>In the run of Raft_Cluster_Run, with node 1 leading and both node 1 and node 2 committing.\<close>

lemma run_commit_facts:
  "nd_leader leader_node \<noteq> None" "nd_leader committed_leader \<noteq> None" "node_term leader_node = node_term committed_leader"
  "node_term (with_commit follower_node) = node_term committed_leader"
  "log_entries (nd_log committed_leader) = [sample_entry]" "log_entries (nd_log (with_commit follower_node)) = [sample_entry]"
  "nd_commit_index committed_leader = 1" "nd_commit_index (with_commit follower_node) = 1"
  "(1::u64) \<in> ids" "(2::u64) \<in> ids"
  by (simp_all add: leader_node_def committed_leader_def follower_node_def reign_of_def with_commit_def voted_node_def
      opened_node_def node_term_def one_log_def log_entries_def ids_def)

theorem election_safety_witness:
  "\<exists>s s'. reachable s \<and> cluster_step\<^sup>*\<^sup>* s s' \<and> nd_leader (cl_node s 1) \<noteq> None \<and> nd_leader (cl_node s' 1) \<noteq> None
     \<and> (\<forall>j \<in> ids. nd_leader (cl_node s' j) \<noteq> None \<longrightarrow> node_term (cl_node s' j) = node_term (cl_node s 1) \<longrightarrow> j = 1)"
proof -
  obtain s s1 where s: "reachable s" "cluster_step s s1" "cl_node s 1 = leader_node" "cl_node s1 1 = committed_leader"
    using run_reachable by blast
  have step: "cluster_step\<^sup>*\<^sup>* s s1" using s(2) by (rule r_into_rtranclp)
  have lead: "nd_leader (cl_node s 1) \<noteq> None" "nd_leader (cl_node s1 1) \<noteq> None" by (simp_all add: s run_commit_facts)
  have "j = 1" if "j \<in> ids" "nd_leader (cl_node s1 j) \<noteq> None" "node_term (cl_node s1 j) = node_term (cl_node s 1)" for j
    using election_safety [OF s(1) step run_commit_facts(9) that(1) lead(1) that(2)] that(3) by simp
  then show ?thesis using s(1) step lead by blast
qed

theorem log_matching_witness:
  "\<exists>s. reachable s \<and> length (log_entries (nd_log (cl_node s 1))) = 1
     \<and> take (Suc 0) (log_entries (nd_log (cl_node s 1))) = take (Suc 0) (log_entries (nd_log (cl_node s 2)))"
proof -
  obtain s where s: "reachable s" "cl_node s 1 = committed_leader" "cl_node s 2 = with_commit follower_node"
    using run_reachable by blast
  have "take (Suc 0) (log_entries (nd_log (cl_node s 1))) = take (Suc 0) (log_entries (nd_log (cl_node s 2)))"
    by (rule log_matching [OF s(1) run_commit_facts(9,10)]) (simp_all add: s run_commit_facts)
  moreover have "length (log_entries (nd_log (cl_node s 1))) = 1" unfolding s(2) run_commit_facts(5) by simp
  ultimately show ?thesis using s(1) by blast
qed

theorem leader_completeness_witness:
  "\<exists>s. reachable s \<and> nd_leader (cl_node s 1) \<noteq> None \<and> nd_commit_index (cl_node s 2) = 1
     \<and> take 1 (log_entries (nd_log (cl_node s 1))) = take 1 (log_entries (nd_log (cl_node s 2)))"
proof -
  obtain s where s: "reachable s" "cl_node s 1 = committed_leader" "cl_node s 2 = with_commit follower_node"
    using run_reachable by blast
  have "take (unat (nd_commit_index (cl_node s 2))) (log_entries (nd_log (cl_node s 1)))
      = take (unat (nd_commit_index (cl_node s 2))) (log_entries (nd_log (cl_node s 2)))"
    by (rule leader_completeness [OF s(1) rtranclp.rtrancl_refl run_commit_facts(10,9)]) (simp_all add: s run_commit_facts)
  then show ?thesis using s run_commit_facts by auto
qed

theorem state_machine_safety_witness:
  "\<exists>s s'. reachable s \<and> cluster_step\<^sup>*\<^sup>* s s' \<and> nd_commit_index (cl_node s 1) = 1 \<and> nd_commit_index (cl_node s' 2) = 1
     \<and> nd_state (cl_node s 1) = nd_state (cl_node s' 2)"
proof -
  obtain s s' where s: "reachable s" "cluster_step s s'" "cl_node s 1 = committed_leader" "cl_node s' 2 = with_commit follower_node"
    using run_reachable by blast
  have step: "cluster_step\<^sup>*\<^sup>* s s'" using s(2) by (rule r_into_rtranclp)
  have "kv_last_applied (nd_state (cl_node s 1)) = kv_last_applied (nd_state (cl_node s' 2))"
    by (simp add: s committed_leader_def with_commit_def)
  then have "nd_state (cl_node s 1) = nd_state (cl_node s' 2)"
    using state_machine_safety [OF s(1) step run_commit_facts(9,10)] by blast
  moreover have "nd_commit_index (cl_node s 1) = 1" "nd_commit_index (cl_node s' 2) = 1"
    by (simp_all add: s run_commit_facts)
  ultimately show ?thesis using s(1) step by blast
qed

end
