(* ===== verification/Raft_Node_Reads.thy ===== *)
theory Raft_Node_Reads
  imports Raft_Node_Commit
begin

text \<open>
  What one event of a node does to its read rounds. Ids are handed out in order and never twice; a round
  is started with the commit index of the moment, which is then the index of an entry of the leader's
  own term; a read is reported as ready by a positive reply, in the leader's term, to the probe of its
  round.
\<close>

section \<open>Read ids\<close>

lemma start_rounds_started: "start_rounds nd rs a = (rs', a') \<Longrightarrow> started_read_id a' = started_read_id a"
  by (induction rs arbitrary: rs' a a') (auto simp: add_messages_def split: prod.splits option.splits)

lemma start_waiting_reads_keeps:
  "start_waiting_reads a nd = (a', nd') \<Longrightarrow>
     (\<exists>rs. nd' = nd\<lparr>nd_read_rounds := rs\<rparr>) \<and> started_read_id a' = started_read_id a"
  by (auto simp: start_waiting_reads_def dest: start_rounds_started split: if_splits prod.splits
      intro: exI [of _ "nd_read_rounds nd"])

lemma stop_next_id: "stop e nd w = (r, nd', w') \<Longrightarrow> nd_next_read_id nd' = nd_next_read_id nd"
  by (auto simp: stop_def)

lemma moved_next_id:
  "queue_append p a nd = (ok, a', nd') \<Longrightarrow> nd_next_read_id nd' = nd_next_read_id nd"
  "queue_appends ps a nd = (ok, a', nd') \<Longrightarrow> nd_next_read_id nd' = nd_next_read_id nd"
  using leader_moved_fields(9) queue_append_moved queue_appends_moved by blast+

lemma apply_ready_next_id: "apply_ready a nd = (ok, a', nd') \<Longrightarrow> nd_next_read_id nd' = nd_next_read_id nd"
  using apply_ready_state by fastforce

lemma reads_next_id: "start_waiting_reads a nd = (a', nd') \<Longrightarrow> nd_next_read_id nd' = nd_next_read_id nd"
  using start_waiting_reads_keeps by fastforce

lemmas next_id_kept = stop_next_id moved_next_id apply_ready_next_id reads_next_id

lemma after_append_reply_next_id:
  "after_append_reply out p nd = (ok, a, nd') \<Longrightarrow> nd_next_read_id nd' = nd_next_read_id nd"
  by (cases out) (auto simp: after_append_reply_def dest!: next_id_kept split: prod.splits if_splits option.splits)

lemma finish_read_next_id:
  "finish_read q y a nd w = (r, nd', w') \<Longrightarrow> nd_next_read_id nd' = nd_next_read_id nd"
  by (auto simp: finish_read_def Let_def dest!: next_id_kept split: if_splits option.splits)

lemma append_as_leader_next_id:
  "append_as_leader c nd w = (r, nd', w') \<Longrightarrow> nd_next_read_id nd' = nd_next_read_id nd"
  by (auto simp: append_as_leader_def Let_def dest!: next_id_kept split: if_splits option.splits prod.splits sum.splits)

lemma on_append_reply_next_id:
  "on_append_reply p q y nd w = (r, nd', w') \<Longrightarrow> nd_next_read_id nd' = nd_next_read_id nd"
  by (auto simp: on_append_reply_def Let_def dest!: next_id_kept after_append_reply_next_id finish_read_next_id
      split: if_splits option.splits prod.splits)

lemma on_append_entries_next_id:
  assumes "on_append_entries p q nd w = (r, nd', w')"
  shows "nd_next_read_id nd' = nd_next_read_id nd"
  using assms
  by (auto simp: on_append_entries_def Let_def dest!: next_id_kept split: if_splits prod.splits sum.splits)

lemma next_read_id_kept:
  assumes "node_step ev nd w = (r, nd', w')" and "ev \<noteq> ReadBarrier"
  shows "nd_next_read_id nd' = nd_next_read_id nd"
  using assms
proof (cases ev)
  case ElectionTimeout
  then show ?thesis using assms(1)
    by (auto simp: on_election_timeout_def Let_def dest!: next_id_kept split: if_splits prod.splits sum.splits)
next
  case HeartbeatTimeout
  then show ?thesis using assms(1)
    by (auto simp: on_heartbeat_timeout_def Let_def dest!: next_id_kept split: if_splits prod.splits option.splits)
next
  case (ReceiveRequestVote p q)
  then show ?thesis using assms(1)
    by (auto simp: on_request_vote_def Let_def dest!: next_id_kept split: if_splits prod.splits sum.splits)
next
  case (ReceiveVoteReply p y)
  then show ?thesis using assms(1)
    by (auto simp: on_vote_reply_def Let_def dest!: next_id_kept split: if_splits prod.splits sum.splits option.splits)
next
  case (Propose c)
  then show ?thesis using assms(1) append_as_leader_next_id by (auto simp: propose_def split: if_splits option.splits)
qed (use assms in \<open>simp_all add: on_append_entries_next_id on_append_reply_next_id\<close>)

lemma read_barrier_outcome:
  assumes run: "read_barrier nd w = (r, nd', w')"
  shows "nd_metadata nd' = nd_metadata nd \<and> nd_election nd' = nd_election nd \<and> nd_log nd' = nd_log nd
    \<and> (case r of
         Inl e \<Rightarrow> nd_next_read_id nd' = nd_next_read_id nd
       | Inr a \<Rightarrow> started_read_id a = Some (nd_next_read_id nd) \<and> nd_next_read_id nd \<noteq> 0
           \<and> nd_next_read_id nd' = nd_next_read_id nd + 1)"
proof -
  define nd1 where "nd1 = nd\<lparr>nd_next_read_id := nd_next_read_id nd + 1,
    nd_read_rounds := emplace (nd_next_read_id nd) None (nd_read_rounds nd)\<rparr>"
  obtain a nd2 where sw: "start_waiting_reads (no_actions\<lparr>started_read_id := Some (nd_next_read_id nd)\<rparr>) nd1 = (a, nd2)"
    by fastforce
  obtain rs where "nd2 = nd1\<lparr>nd_read_rounds := rs\<rparr>" "started_read_id a = Some (nd_next_read_id nd)"
    using start_waiting_reads_keeps [OF sw] by auto
  then show ?thesis
    using run sw unfolding read_barrier_def Let_def nd1_def [symmetric]
    by (auto simp: nd1_def stop_def split: if_splits option.splits)
qed

lemma next_read_id_step:
  assumes "node_step ev nd w = (r, nd', w')"
  shows "nd_next_read_id nd' = nd_next_read_id nd
    \<or> nd_next_read_id nd \<noteq> 0 \<and> nd_next_read_id nd' = nd_next_read_id nd + 1"
proof (cases "ev = ReadBarrier")
  case True
  then have "read_barrier nd w = (r, nd', w')" using assms by simp
  then show ?thesis using read_barrier_outcome [of nd w r nd' w'] by (auto split: sum.splits)
qed (use next_read_id_kept [OF assms] in simp)

lemma below_next: "k < i \<Longrightarrow> i + 1 \<noteq> 0 \<Longrightarrow> k < i + (1 :: u64)"
  using unatSuc [of i] by (simp add: word_less_nat_alt add.commute)

section \<open>Read rounds\<close>

definition reads_of :: "raft_node_error + raft_node_actions \<Rightarrow> ready_read list" where
  "reads_of r = (case r of Inl _ \<Rightarrow> [] | Inr a \<Rightarrow> ready_reads a)"

lemma reads_of_simps [simp]: "reads_of (Inl e) = []" "reads_of (Inr a) = ready_reads a"
  by (simp_all add: reads_of_def)

lemma ready_reads_no_actions [simp]: "ready_reads no_actions = []"
  by (simp add: no_actions_def)

text \<open>\<open>fresh_probe\<close>: a probe of this moment; \<open>rounds_from\<close>: every started round of \<open>nd'\<close> was started in
  \<open>nd\<close> already or carries such a probe.\<close>

definition fresh_probe :: "raft_node \<Rightarrow> append_entries \<Rightarrow> bool" where
  "fresh_probe nd q \<longleftrightarrow> ae_leader_commit q = nd_commit_index nd \<and> holds_own nd (unat (nd_commit_index nd))"

definition rounds_from :: "raft_node \<Rightarrow> raft_node \<Rightarrow> bool" where
  "rounds_from nd nd' \<longleftrightarrow> (\<forall>k q. (k, Some q) \<in> set (nd_read_rounds nd') \<longrightarrow>
     (k, Some q) \<in> set (nd_read_rounds nd) \<or> fresh_probe nd' q)"

lemma rounds_from_subset: "set (nd_read_rounds nd') \<subseteq> set (nd_read_rounds nd) \<Longrightarrow> rounds_from nd nd'"
  by (auto simp: rounds_from_def)

lemma rounds_from_trans:
  assumes "rounds_from a b" and "nd_read_rounds c = nd_read_rounds b"
    and "\<And>q. fresh_probe b q \<Longrightarrow> fresh_probe c q"
  shows "rounds_from a c"
  using assms by (auto simp: rounds_from_def)

lemma committed_term_own:
  assumes "core_inv nd" and "current_term_committed nd"
  shows "holds_own nd (unat (nd_commit_index nd))"
proof -
  have "log_wf (nd_log nd)" using assms(1) by (simp add: core_inv_def)
  then show ?thesis
    using assms(2) by (auto simp: current_term_committed_def holds_own_def entry_at_eq split: if_splits)
qed

lemma start_waiting_reads_rounds:
  assumes inv: "core_inv nd" and run: "start_waiting_reads a nd = (a', nd')"
  shows "rounds_from nd nd'"
proof (cases "current_term_committed nd")
  case False
  then show ?thesis using run by (auto simp: start_waiting_reads_def intro: rounds_from_subset)
next
  case True
  obtain rs b where s: "start_rounds nd (nd_read_rounds nd) a = (rs, b)" by fastforce
  have nd': "nd' = nd\<lparr>nd_read_rounds := rs\<rparr>" using run True s by (simp add: start_waiting_reads_def)
  have "fresh_probe nd' (read_probe k nd)" for k
    using committed_term_own [OF inv True]
    by (simp add: fresh_probe_def read_probe_def nd' holds_own_def node_term_def)
  then show ?thesis
    unfolding rounds_from_def nd' start_rounds_rounds [OF s] by (auto split: option.splits)
qed

text \<open>No helper reports a read as ready.\<close>

lemma start_rounds_ready: "start_rounds nd rs a = (rs', a') \<Longrightarrow> ready_reads a' = ready_reads a"
  by (induction rs arbitrary: rs' a a') (auto simp: add_messages_def split: prod.splits option.splits)

lemma helpers_ready:
  "queue_append p a nd = (ok, a', nd') \<Longrightarrow> ready_reads a' = ready_reads a"
  "queue_appends ps a nd = (ok, a', nd') \<Longrightarrow> ready_reads a' = ready_reads a"
  "apply_ready a nd = (ok, a', nd') \<Longrightarrow> ready_reads a' = ready_reads a"
  "start_waiting_reads a nd = (a', nd') \<Longrightarrow> ready_reads a' = ready_reads a"
proof -
  show one: "ready_reads a' = ready_reads a" if "queue_append p a nd = (ok, a', nd')" for p a nd ok a' nd'
    using that by (auto simp: queue_append_def add_messages_def split: option.splits prod.splits sum.splits)
  show "queue_appends ps a nd = (ok, a', nd') \<Longrightarrow> ready_reads a' = ready_reads a"
    by (induction ps arbitrary: a nd) (auto dest: one split: prod.splits if_splits)
  show "apply_ready a nd = (ok, a', nd') \<Longrightarrow> ready_reads a' = ready_reads a"
    by (auto simp: apply_ready_def split: prod.splits sum.splits)
  show "start_waiting_reads a nd = (a', nd') \<Longrightarrow> ready_reads a' = ready_reads a"
    by (auto simp: start_waiting_reads_def dest: start_rounds_ready split: if_splits prod.splits)
qed

lemma after_append_reply_reads:
  assumes inv: "node_inv nd" and run: "after_append_reply out p nd = (ok, a, nd')"
  shows "rounds_from nd nd' \<and> ready_reads a = []"
proof (cases "out = Committed")
  case True
  obtain ok1 a1 nd1 where ap: "apply_ready no_actions nd = (ok1, a1, nd1)" by (metis prod_cases3)
  obtain ok2 a2 nd2 where q: "queue_appends (list2 (nd_peer_ids nd1)) a1 nd1 = (ok2, a2, nd2)" by (metis prod_cases3)
  obtain a3 nd3 where sw: "start_waiting_reads a2 nd2 = (a3, nd3)" by fastforce
  have same: "nd_read_rounds nd1 = nd_read_rounds nd" "nd_read_rounds nd2 = nd_read_rounds nd1"
    using apply_ready_state [OF ap] leader_moved_fields(8) [OF queue_appends_moved [OF q]] by auto
  have "core_inv nd2"
    using apply_ready_node [OF inv ap] leader_moved_inv(4) [OF queue_appends_moved [OF q]] by (simp add: node_inv_def)
  then have "rounds_from nd nd3" using start_waiting_reads_rounds [OF _ sw] same by (simp add: rounds_from_def)
  moreover have "ready_reads a1 = []" "ready_reads a2 = []" "ready_reads a3 = []"
    using helpers_ready(3) [OF ap] helpers_ready(2) [OF q] helpers_ready(4) [OF sw] by simp_all
  moreover have "nd' = nd1 \<and> a = a1 \<or> nd' = nd2 \<and> a = a2 \<or> nd' = nd3 \<and> a = a3"
    using run True ap q sw by (auto simp: after_append_reply_def split: if_splits)
  ultimately show ?thesis using same by (auto intro: rounds_from_subset)
next
  case False
  then consider "nd' = nd" "a = no_actions" | ok where "queue_append p no_actions nd = (ok, a, nd')"
    using run by (cases out) (auto simp: after_append_reply_def split: option.splits if_splits)
  then show ?thesis
  proof cases
    case (2 ok)
    then show ?thesis
      using helpers_ready(1) [OF 2] leader_moved_fields(8) [OF queue_append_moved [OF 2]]
      by (simp add: rounds_from_subset)
  qed (simp add: rounds_from_subset)
qed

section \<open>Ready reads\<close>

text \<open>What a ready read comes from: a positive reply of a peer, in the leader's term, to the probe \<open>q\<close> of its
  round.\<close>

definition ready_from :: "node_event \<Rightarrow> raft_node \<Rightarrow> raft_node \<Rightarrow> ready_read \<Rightarrow> bool" where
  "ready_from ev nd nd' x \<longleftrightarrow>
     (\<exists>p q y. ev = ReceiveAppendReply p q y \<and> is_peer p nd \<and> leads nd'
        \<and> aer_success y \<and> aer_term y = node_term nd'
        \<and> ae_term q = node_term nd' \<and> ae_leader_id q = nd_self_id nd' \<and> ae_read_context q = rr_id x
        \<and> rr_id x \<noteq> 0 \<and> rr_index x = ae_leader_commit q \<and> rr_index x \<le> kv_last_applied (nd_state nd')
        \<and> ((rr_id x, Some q) \<in> set (nd_read_rounds nd) \<or> fresh_probe nd' q))"

definition reads_step :: "node_event \<Rightarrow> raft_node \<Rightarrow> (raft_node_error + raft_node_actions) \<Rightarrow> raft_node \<Rightarrow> bool" where
  "reads_step ev nd r nd' \<longleftrightarrow> rounds_from nd nd' \<and> (\<forall>x \<in> set (reads_of r). ready_from ev nd nd' x)"

lemma finish_read_reads:
  assumes inv: "full_inv nd" and lead: "leads nd" and none: "ready_reads a = []"
    and run: "finish_read q y a nd w = (r, nd', w')"
  shows "set (nd_read_rounds nd') \<subseteq> set (nd_read_rounds nd)
    \<and> (nd_read_rounds nd' = [] \<or> nd' = nd\<lparr>nd_read_rounds := nd_read_rounds nd'\<rparr>)
    \<and> (reads_of r \<noteq> [] \<longrightarrow> nd' = nd\<lparr>nd_read_rounds := nd_read_rounds nd'\<rparr> \<and> aer_success y \<and> aer_term y = node_term nd
        \<and> (ae_read_context q, Some q) \<in> set (nd_read_rounds nd)
        \<and> ae_leader_commit q \<le> kv_last_applied (nd_state nd)
        \<and> reads_of r = [\<lparr>rr_id = ae_read_context q, rr_index = ae_leader_commit q\<rparr>])"
  using run none
  by (auto simp: finish_read_def Let_def stop_def dest: map_of_SomeD split: if_splits option.splits)

lemma round_fields:
  assumes "node_inv nd" and "(k, Some q) \<in> set (nd_read_rounds nd)"
  shows "ae_term q = node_term nd" "ae_leader_id q = nd_self_id nd" "ae_read_context q = k" "k \<noteq> 0"
proof -
  have "round_ok nd (k, Some q)" using assms by (simp add: node_inv_def reads_inv_def)
  then have "q = \<lparr>ae_term = node_term nd, ae_leader_id = nd_self_id nd, ae_prev_log_index = 0,
      ae_prev_log_term = 0, ae_entries = [], ae_leader_commit = ae_leader_commit q, ae_read_context = k\<rparr>" "k \<noteq> 0"
    by (auto simp: round_ok_def)
  then show "ae_term q = node_term nd" "ae_leader_id q = nd_self_id nd" "ae_read_context q = k" "k \<noteq> 0"
    by (metis append_entries.select_convs)+
qed

lemma on_append_reply_reads:
  assumes inv: "full_inv nd" and run: "on_append_reply p q y nd w = (r, nd', w')"
  shows "reads_step (ReceiveAppendReply p q y) nd r nd'"
proof (cases "nd_stopped nd \<or> \<not> is_peer p nd \<or> nd_leader nd = None")
  case True
  then have "set (nd_read_rounds nd') \<subseteq> set (nd_read_rounds nd)" "reads_of r = []"
    using run by (auto simp: on_append_reply_def Let_def stop_def split: if_splits prod.splits)
  then show ?thesis by (simp add: reads_step_def rounds_from_subset)
next
  case False
  then obtain ld where ld: "nd_leader nd = Some ld" and live: "\<not> nd_stopped nd" "is_peer p nd" by auto
  obtain out m c ld1 v where h: "handle_reply (nd_election nd) (nd_log nd) p q y (nd_metadata nd)
      (nd_commit_index nd) ld w = (out, m, c, ld1, v)" by (metis prod_cases5)
  define nd1 where "nd1 = nd\<lparr>nd_metadata := m, nd_commit_index := c, nd_leader := Some ld1\<rparr>"
  note un = run [unfolded on_append_reply_def ld option.case h prod.case Let_def, folded nd1_def]
  have idle: ?thesis if "set (nd_read_rounds nd') \<subseteq> set (nd_read_rounds nd)" "reads_of r = []"
    using that by (simp add: reads_step_def rounds_from_subset)
  show ?thesis
  proof (cases "out \<in> {append_reply_outcome.PersistenceError, InconsistentFollower, append_reply_outcome.SteppedDown}")
    case True
    then have "nd_read_rounds nd' = []" "reads_of r = []" using un live by (auto simp: stop_def)
    then show ?thesis by (intro idle) simp_all
  next
    case go: False
    have f1: "full_inv nd1" using handle_reply_full [OF inv ld h] go by (simp add: nd1_def)
    have l1: "leads nd1" by (simp add: nd1_def)
    have p: "p \<in> set (list2 (nd_peer_ids nd1))" using live(2) by (simp add: is_peer_iff nd1_def)
    obtain ok a nd2 where af: "after_append_reply out p nd1 = (ok, a, nd2)" by (metis prod_cases3)
    note n2 = after_append_reply_reigns [OF f1 l1 p af]
    note r2 = after_append_reply_reads [OF full_inv_parts(1) [OF f1] af]
    have f2: "full_inv nd2" "leads nd2" using n2 by (simp_all add: reigns_def)
    have fin: "finish_read q y a nd2 v = (r, nd', w')" using un live go af n2 by simp
    note f = finish_read_reads [OF f2 conjunct2 [OF r2] fin]
    have fresh: "fresh_probe (nd2\<lparr>nd_read_rounds := rs\<rparr>) x \<longleftrightarrow> fresh_probe nd2 x" for rs x
      by (simp add: fresh_probe_def holds_own_def node_term_def)
    have origin: "(k, Some x) \<in> set (nd_read_rounds nd) \<or> fresh_probe nd2 x" if "(k, Some x) \<in> set (nd_read_rounds nd2)" for k x
      using r2 that by (auto simp: rounds_from_def nd1_def)
    have "rounds_from nd nd'"
    proof (cases "nd_read_rounds nd' = []")
      case False
      then obtain rs where rs: "nd' = nd2\<lparr>nd_read_rounds := rs\<rparr>" using f by blast
      have "set rs \<subseteq> set (nd_read_rounds nd2)" using f by (simp add: rs)
      then show ?thesis using origin unfolding rounds_from_def rs fresh by auto
    qed (simp add: rounds_from_def)
    moreover have "ready_from (ReceiveAppendReply p q y) nd nd' x" if x: "x \<in> set (reads_of r)" for x
    proof -
      have f': "nd' = nd2\<lparr>nd_read_rounds := nd_read_rounds nd'\<rparr>" "aer_success y" "aer_term y = node_term nd2"
        "(ae_read_context q, Some q) \<in> set (nd_read_rounds nd2)" "ae_leader_commit q \<le> kv_last_applied (nd_state nd2)"
        "x = \<lparr>rr_id = ae_read_context q, rr_index = ae_leader_commit q\<rparr>"
        using f x by auto
      obtain rs where rs: "nd' = nd2\<lparr>nd_read_rounds := rs\<rparr>" using f'(1) by blast
      note q = round_fields [OF full_inv_parts(1) [OF f2(1)] f'(4)]
      show ?thesis
        unfolding ready_from_def
        using origin [OF f'(4)] f'(2,3,5,6) q f2(2) live(2) by (auto simp: rs fresh node_term_def)
    qed
    ultimately show ?thesis by (simp add: reads_step_def)
  qed
qed

section \<open>Any event\<close>

lemma read_barrier_reads:
  assumes inv: "full_inv nd" and run: "read_barrier nd w = (r, nd', w')"
  shows "reads_step ReadBarrier nd r nd'"
proof (cases "nd_stopped nd \<or> nd_leader nd = None \<or> nd_next_read_id nd = 0")
  case True
  then have "set (nd_read_rounds nd') \<subseteq> set (nd_read_rounds nd)" "reads_of r = []"
    using run by (auto simp: read_barrier_def stop_def split: if_splits option.splits)
  then show ?thesis by (simp add: reads_step_def rounds_from_subset)
next
  case False
  then obtain ld where ld: "nd_leader nd = Some ld" and live: "\<not> nd_stopped nd" "nd_next_read_id nd \<noteq> 0" by auto
  have act: "leader_active nd ld" by (rule leading_node(1) [OF full_inv_parts(1) [OF inv] ld])
  let ?i = "nd_next_read_id nd"
  define nd1 where "nd1 = nd\<lparr>nd_next_read_id := ?i + 1, nd_read_rounds := emplace ?i None (nd_read_rounds nd)\<rparr>"
  have c1: "core_inv nd1"
    using read_barrier_entered [OF full_inv_parts(1) [OF inv] ld live(2)] by (simp add: node_inv_def nd1_def)
  obtain a nd2 where sw: "start_waiting_reads (no_actions\<lparr>started_read_id := Some ?i\<rparr>) nd1 = (a, nd2)" by fastforce
  have out: "nd' = nd2" "r = Inr a"
    using run ld act live sw by (auto simp: read_barrier_def Let_def nd1_def)
  have "(k, Some q) \<in> set (nd_read_rounds nd)" if "(k, Some q) \<in> set (nd_read_rounds nd1)" for k q
    using that set_emplace [of ?i None "nd_read_rounds nd"] by (auto simp: nd1_def)
  then have "rounds_from nd nd'"
    using start_waiting_reads_rounds [OF c1 sw] by (auto simp: rounds_from_def out)
  moreover have "ready_reads a = []" using helpers_ready(4) [OF sw] by (simp add: no_actions_def)
  ultimately show ?thesis by (simp add: reads_step_def out)
qed

lemma quiet_reads:
  "on_election_timeout nd w = (r, nd', w') \<Longrightarrow> set (nd_read_rounds nd') \<subseteq> set (nd_read_rounds nd) \<and> reads_of r = []"
  "on_heartbeat_timeout nd w = (r, nd', w') \<Longrightarrow> set (nd_read_rounds nd') \<subseteq> set (nd_read_rounds nd) \<and> reads_of r = []"
  "on_request_vote p q nd w = (r, nd', w') \<Longrightarrow> set (nd_read_rounds nd') \<subseteq> set (nd_read_rounds nd) \<and> reads_of r = []"
  "on_vote_reply p v nd w = (r, nd', w') \<Longrightarrow> set (nd_read_rounds nd') \<subseteq> set (nd_read_rounds nd) \<and> reads_of r = []"
  "on_append_entries p e nd w = (r, nd', w') \<Longrightarrow> set (nd_read_rounds nd') \<subseteq> set (nd_read_rounds nd) \<and> reads_of r = []"
  "append_as_leader c nd w = (r, nd', w') \<Longrightarrow> set (nd_read_rounds nd') \<subseteq> set (nd_read_rounds nd) \<and> reads_of r = []"
proof -
  have moved: "nd_read_rounds n' = nd_read_rounds n \<and> ready_reads a' = ready_reads a"
    if "queue_appends ps a n = (ok, a', n')" for ps a n ok a' n'
    using leader_moved_fields(8) [OF queue_appends_moved [OF that]] helpers_ready(2) [OF that] by simp
  have applies: "nd_read_rounds n' = nd_read_rounds n \<and> ready_reads a' = ready_reads a"
    if "apply_ready a n = (ok, a', n')" for a n ok a' n'
    using apply_ready_state [OF that] helpers_ready(3) [OF that] by auto
  note s = stop_def add_messages_def no_actions_def
  show "on_election_timeout nd w = (r, nd', w') \<Longrightarrow> set (nd_read_rounds nd') \<subseteq> set (nd_read_rounds nd) \<and> reads_of r = []"
    by (auto simp: on_election_timeout_def Let_def s split: if_splits prod.splits sum.splits)
  show "on_heartbeat_timeout nd w = (r, nd', w') \<Longrightarrow> set (nd_read_rounds nd') \<subseteq> set (nd_read_rounds nd) \<and> reads_of r = []"
    by (auto simp: on_heartbeat_timeout_def s dest!: moved split: if_splits prod.splits option.splits)
  show "on_request_vote p q nd w = (r, nd', w') \<Longrightarrow> set (nd_read_rounds nd') \<subseteq> set (nd_read_rounds nd) \<and> reads_of r = []"
    by (auto simp: on_request_vote_def Let_def s split: if_splits prod.splits sum.splits)
  show "on_vote_reply p v nd w = (r, nd', w') \<Longrightarrow> set (nd_read_rounds nd') \<subseteq> set (nd_read_rounds nd) \<and> reads_of r = []"
    by (auto simp: on_vote_reply_def Let_def s dest!: moved split: if_splits prod.splits sum.splits option.splits)
  show "on_append_entries p e nd w = (r, nd', w') \<Longrightarrow> set (nd_read_rounds nd') \<subseteq> set (nd_read_rounds nd) \<and> reads_of r = []"
    by (auto simp: on_append_entries_def Let_def s dest!: applies split: if_splits prod.splits sum.splits)
  show "append_as_leader c nd w = (r, nd', w') \<Longrightarrow> set (nd_read_rounds nd') \<subseteq> set (nd_read_rounds nd) \<and> reads_of r = []"
    by (auto simp: append_as_leader_def Let_def s dest!: moved split: if_splits prod.splits sum.splits option.splits)
qed

lemma node_step_reads:
  assumes inv: "full_inv nd" and run: "node_step ev nd w = (r, nd', w')"
  shows "reads_step ev nd r nd'"
proof -
  have quiet: ?thesis if "set (nd_read_rounds nd') \<subseteq> set (nd_read_rounds nd) \<and> reads_of r = []"
    using that by (simp add: reads_step_def rounds_from_subset)
  show ?thesis
  proof (cases ev)
    case (ReceiveAppendReply p q y)
    then show ?thesis using run on_append_reply_reads [OF inv] by simp
  next
    case ReadBarrier
    then show ?thesis using run read_barrier_reads [OF inv] by simp
  next
    case (Propose c)
    then show ?thesis
      using run quiet_reads(6) [of c nd w r nd' w'] by (intro quiet) (auto simp: propose_def split: if_splits option.splits)
  next
    case ElectionTimeout
    then show ?thesis using run quiet_reads(1) [of nd w r nd' w'] by (intro quiet) simp
  next
    case HeartbeatTimeout
    then show ?thesis using run quiet_reads(2) [of nd w r nd' w'] by (intro quiet) simp
  next
    case (ReceiveRequestVote p q)
    then show ?thesis using run quiet_reads(3) [of p q nd w r nd' w'] by (intro quiet) simp
  next
    case (ReceiveVoteReply p y)
    then show ?thesis using run quiet_reads(4) [of p y nd w r nd' w'] by (intro quiet) simp
  next
    case (ReceiveAppendEntries p q)
    then show ?thesis using run quiet_reads(5) [of p q nd w r nd' w'] by (intro quiet) simp
  qed
qed

end
