(* ===== verification/Raft_Cluster_Reads.thy ===== *)
theory Raft_Cluster_Reads
  imports Raft_Safety Raft_Node_Reads
begin

text \<open>
  Reads see what was committed before they began. A read barrier gives the read an id and, as soon as an
  entry of the leader's own term is committed, sends both followers a probe with that id and remembers
  the commit index; the first positive reply makes the read ready at that index.

  \<^item> \<open>strides\<close> is a move with what \<open>Raft_Node_Reads\<close> says of it.
  \<^item> \<open>read_part\<close>: a probe in the network is known to the leader it came from, as long as that leader leads.
  \<^item> \<open>known s c\<close>: two nodes held, in its own term, an entry at or after \<open>c\<close>, and the leader of that term, if
    it still leads, has committed it. All commit indices are known.
  \<^item> \<open>since s0 s\<close>: what a later state \<open>s\<close> says about an earlier one \<open>s0\<close>.
\<close>

section \<open>Moves\<close>

definition id_below :: "u64 \<Rightarrow> raft_node \<Rightarrow> bool" where
  "id_below k nd \<longleftrightarrow> (nd_next_read_id nd \<noteq> 0 \<longrightarrow> k < nd_next_read_id nd)"

definition strides :: "cluster \<Rightarrow> u64 \<Rightarrow> node_event \<Rightarrow> (raft_node_error + raft_node_actions) \<Rightarrow> raft_node \<Rightarrow> bool" where
  "strides s i ev r nd \<longleftrightarrow> moves s i ev r nd \<and> reads_step ev (cl_node s i) r nd
     \<and> (leads nd \<longrightarrow> nd_commit_index (cl_node s i) \<le> nd_commit_index nd
          \<and> (\<forall>k. id_below k (cl_node s i) \<longrightarrow> id_below k nd))"

lemma id_below_kept: "node_step ev nd w = (r, nd', w') \<Longrightarrow> id_below k nd \<Longrightarrow> id_below k nd'"
  using next_read_id_step [of ev nd w r nd' w'] below_next [of k "nd_next_read_id nd"] by (auto simp: id_below_def)

lemma rounds_lead: "node_inv nd \<Longrightarrow> round \<in> set (nd_read_rounds nd) \<Longrightarrow> leads nd"
  by (auto simp: node_inv_def lead_inv_def leads_def split: option.splits)

lemma event_strides:
  assumes np: "node_part s" and i: "i \<in> ids" and en: "enabled i ev s" and run: "node_step ev (cl_node s i) w = (r, nd, w')"
  shows "strides s i ev r nd"
proof -
  have inv: "full_inv (cl_node s i)" using np i by (simp add: node_part_def)
  have "sound_step (cl_node s i) nd" by (rule node_step_sound [OF full_inv_parts(1) [OF inv] run])
  then have "nd_commit_index (cl_node s i) \<le> nd_commit_index nd" by (simp add: sound_step_def node_le_def)
  then show ?thesis
    using i en node_step_local [OF inv run] node_step_reads [OF inv run] id_below_kept [OF run]
    by (simp add: strides_def moves_def)
qed

lemma cluster_step_strides:
  assumes np: "node_part s" and step: "cluster_step s s'"
  shows "\<exists>i ev r nd. strides s i ev r nd \<and> s' = move i ev r nd s"
  using step
proof cases
  case (Event i ev w r nd w')
  then show ?thesis using event_strides [OF np] by blast
next
  case (Restart i dir w nd w')
  have n: "full_inv (cl_node s i)" "nd_self_id (cl_node s i) = i" "nd_peer_ids (cl_node s i) = peers_of i"
    using np Restart(2) by (simp_all add: node_part_def)
  have loc: "local_step ReadBarrier (cl_node s i) (Inr no_actions) nd"
    by (rule node_open_local [OF n Restart(3,4,5)])
  have off: "\<not> leads nd" using node_open_fields [OF Restart(3)] by (simp add: leads_def)
  have "node_inv nd" using loc by (simp add: local_step_def full_inv_def)
  then have "rounds_from (cl_node s i) nd" using rounds_lead off by (auto simp: rounds_from_def)
  then have "strides s i ReadBarrier (Inr no_actions) nd"
    using Restart(2) loc off by (simp add: strides_def moves_def reads_step_def enabled_def local_event_def)
  then show ?thesis using Restart(1) by blast
qed

lemma stridesD:
  assumes "strides s i ev r nd"
  shows "moves s i ev r nd" "rounds_from (cl_node s i) nd" "x \<in> set (reads_of r) \<Longrightarrow> ready_from ev (cl_node s i) nd x"
    "leads nd \<Longrightarrow> nd_commit_index (cl_node s i) \<le> nd_commit_index nd"
    "leads nd \<Longrightarrow> id_below k (cl_node s i) \<Longrightarrow> id_below k nd"
  using assms by (simp_all add: strides_def reads_step_def)

text \<open>Induction over reachable clusters with these moves.\<close>

lemma reachable_strides [consumes 1, case_names start move]:
  assumes "reachable s"
    and start: "\<And>s. \<forall>i \<in> ids. fresh_node i (cl_node s i) \<Longrightarrow> cl_net s = {} \<Longrightarrow> P s"
    and move: "\<And>s i ev r nd. reachable s \<Longrightarrow> P s \<Longrightarrow> strides s i ev r nd \<Longrightarrow> P (move i ev r nd s)"
  shows "P s"
  using assms(1)
proof induction
  case (Step s s')
  then show ?case using cluster_step_strides [OF reachable_parts(1) [OF Step(1)] Step(2)] move by blast
qed (use start in blast)

text \<open>Whoever has led a term and leads it after a move has led it before the move.\<close>

lemma leads_before:
  assumes re: "reachable s" and mv: "moves s i ev r nd" and L: "lead (cl_hist s) t = Some (j, L)"
    and lead: "leads (cl_node (move i ev r nd s) j)" "term_at (move i ev r nd s) j = t"
  shows "leads (cl_node s j) \<and> term_at s j = t"
proof (cases "j = i")
  case True
  have nd: "leads nd" "node_term nd = t" using lead True by simp_all
  have "\<not> (\<exists>p y. ev = ReceiveVoteReply p y \<and> wins p y (cl_node s i) nd)"
  proof
    assume "\<exists>p y. ev = ReceiveVoteReply p y \<and> wins p y (cl_node s i) nd"
    then obtain p y where w: "ev = ReceiveVoteReply p y" "wins p y (cl_node s i) nd" by blast
    note q = reachable_parts [OF re]
    have "lead (cl_hist s) (term_at s i) = None" by (rule win_is_first [OF q(1-3) mv w])
    then show False using winning_votes(5) [OF q(1,2) mv w] nd L by simp
  qed
  then have "lead_step (cl_node s i) nd" using mv by (auto simp: moves_def local_step_def)
  then show ?thesis using nd True by (simp add: lead_step_def)
qed (use lead in simp)

section \<open>Probes in the network\<close>

definition asked :: "cluster \<Rightarrow> append_entries \<Rightarrow> bool" where
  "asked s q \<longleftrightarrow> (\<exists>L. lead (cl_hist s) (ae_term q) = Some (ae_leader_id q, L))
     \<and> (leads (cl_node s (ae_leader_id q)) \<longrightarrow> term_at s (ae_leader_id q) = ae_term q \<longrightarrow> ae_read_context q \<noteq> 0 \<longrightarrow>
          id_below (ae_read_context q) (cl_node s (ae_leader_id q)))"

definition read_part :: "cluster \<Rightarrow> bool" where
  "read_part s \<longleftrightarrow>
     (\<forall>i \<in> ids. \<forall>k q. (k, Some q) \<in> set (nd_read_rounds (cl_node s i)) \<longrightarrow>
        holds_own (cl_node s i) (unat (ae_leader_commit q)))
     \<and> (\<forall>d e q. (d, e) \<in> cl_net s \<longrightarrow> env_message e = MAppendEntries q \<or> env_replied_to e = Some q \<longrightarrow> asked s q)"

lemma read_partD:
  assumes "read_part s"
  shows "i \<in> ids \<Longrightarrow> (k, Some q) \<in> set (nd_read_rounds (cl_node s i)) \<Longrightarrow>
      holds_own (cl_node s i) (unat (ae_leader_commit q))"
    and "(d, e) \<in> cl_net s \<Longrightarrow> env_message e = MAppendEntries q \<or> env_replied_to e = Some q \<Longrightarrow> asked s q"
  using assms unfolding read_part_def by blast+

lemma asked_move:
  assumes re: "reachable s" and st: "strides s i ev r nd" and a: "asked s q"
  shows "asked (move i ev r nd s) q"
proof -
  let ?s' = "move i ev r nd s" and ?j = "ae_leader_id q"
  obtain L where L: "lead (cl_hist s) (ae_term q) = Some (?j, L)" using a by (auto simp: asked_def)
  obtain xs where "lead (cl_hist ?s') (ae_term q) = Some (?j, L @ xs)"
    using history_leD [OF move_history_le [OF reachable_parts(1-3) [OF re] stridesD(1) [OF st]] L] by blast
  moreover have "id_below (ae_read_context q) (cl_node ?s' ?j)"
    if lead: "leads (cl_node ?s' ?j)" "term_at ?s' ?j = ae_term q" and ctx: "ae_read_context q \<noteq> 0"
  proof -
    have "id_below (ae_read_context q) (cl_node s ?j)"
      using a ctx leads_before [OF re stridesD(1) [OF st] L lead] by (simp add: asked_def)
    then show ?thesis using lead(1) stridesD(5) [OF st] by (cases "?j = i") auto
  qed
  ultimately show ?thesis by (auto simp: asked_def)
qed

lemma asked_new:
  assumes re: "reachable s" and st: "strides s i ev r nd" and m: "m \<in> set (msgs r)" "ob_message m = MAppendEntries q"
  shows "asked (move i ev r nd s) q"
proof -
  note l = moves_local [OF stridesD(1) [OF st]]
  have self: "nd_self_id nd = i" using l(1,4) reachable_parts(1) [OF re] by (simp add: node_part_def)
  have "leads nd" "request_of q (node_term nd) i (node_entries nd) \<or> is_probe q nd"
    using l(7) [OF m(1)] m(2) self by (auto simp: sent_ok_def)
  then show ?thesis using self by (auto simp: asked_def is_probe_def request_of_def id_below_def)
qed

lemma rounds_own:
  assumes re: "reachable s" and rp: "read_part s" and st: "strides s i ev r nd" and lead: "leads nd"
    and q: "(k, Some q) \<in> set (nd_read_rounds (cl_node s i)) \<or> fresh_probe nd q"
  shows "holds_own nd (unat (ae_leader_commit q))"
  using q
proof
  assume q: "(k, Some q) \<in> set (nd_read_rounds (cl_node s i))"
  note l = moves_local [OF stridesD(1) [OF st]] and np = reachable_parts(1) [OF re]
  have "leads (cl_node s i)"
    using rounds_lead [OF _ q] np l(1) by (simp add: node_part_def full_inv_def)
  then have "lead_step (cl_node s i) nd"
    using stridesD(1) [OF st] by (auto simp: moves_def local_step_def wins_def)
  then obtain xs where t: "node_term nd = term_at s i" and xs: "node_entries nd = log_at s i @ xs"
    using lead by (auto simp: lead_step_def)
  have "holds_own (cl_node s i) (unat (ae_leader_commit q))" by (rule read_partD(1) [OF rp l(1) q])
  then show ?thesis unfolding holds_own_def t xs by (auto simp: nth_append)
qed (simp add: fresh_probe_def)

lemma read_part_move:
  assumes re: "reachable s" and rp: "read_part s" and st: "strides s i ev r nd"
  shows "read_part (move i ev r nd s)"
proof -
  let ?s' = "move i ev r nd s"
  note mv = stridesD(1) [OF st]
  have "holds_own (cl_node ?s' j) (unat (ae_leader_commit q))"
    if "j \<in> ids" "(k, Some q) \<in> set (nd_read_rounds (cl_node ?s' j))" for j k q
  proof (cases "j = i")
    case True
    then have q: "(k, Some q) \<in> set (nd_read_rounds nd)" using that(2) by simp
    have "leads nd" using rounds_lead [OF _ q] moves_local(3) [OF mv] by (simp add: full_inv_def)
    moreover have "(k, Some q) \<in> set (nd_read_rounds (cl_node s i)) \<or> fresh_probe nd q"
      using stridesD(2) [OF st] q by (simp add: rounds_from_def)
    ultimately show ?thesis using rounds_own [OF re rp st] True by simp
  qed (use that read_partD(1) [OF rp] in simp)
  moreover have "asked ?s' q"
    if mem: "(d, e) \<in> cl_net ?s'" and q: "env_message e = MAppendEntries q \<or> env_replied_to e = Some q" for d e q
  proof (cases "(d, e) \<in> cl_net s")
    case True
    then show ?thesis using asked_move [OF re st] read_partD(2) [OF rp True q] by blast
  next
    case False
    then obtain m where m: "m \<in> set (msgs r)" "e = envelope_of i ev (ob_message m)" using mem by auto
    show ?thesis
    proof (cases "env_message e = MAppendEntries q")
      case True
      then show ?thesis using asked_new [OF re st m(1)] m(2) by (simp add: envelope_of_def)
    next
      case False
      then have "replied_to ev = Some q" using q m(2) by (auto simp: envelope_of_def split: if_splits)
      then obtain p where ev: "ev = ReceiveAppendEntries p q" by (auto simp: replied_to_def split: node_event.splits)
      obtain e' where "(i, e') \<in> cl_net s" "env_message e' = MAppendEntries q"
        using enabled_net [OF moves_local(2) [OF mv]] ev by (auto simp: event_of_simps)
      then show ?thesis using asked_move [OF re st] read_partD(2) [OF rp] by blast
    qed
  qed
  ultimately show ?thesis unfolding read_part_def by blast
qed

lemma reachable_read: "reachable s \<Longrightarrow> read_part s"
proof (induction rule: reachable_strides)
  case (start s)
  have "nd_read_rounds (cl_node s i) = []" if "i \<in> ids" for i
  proof -
    have f: "fresh_node i (cl_node s i)" using start(1) that by blast
    then have "nd_leader (cl_node s i) = None" using node_open_fields unfolding fresh_node_def by blast
    moreover have "node_inv (cl_node s i)" using fresh_node_inv [OF f] by (simp add: full_inv_def)
    ultimately show ?thesis by (simp add: node_inv_def lead_inv_def)
  qed
  then show ?case using start(2) by (simp add: read_part_def)
qed (rule read_part_move)

section \<open>Known commits\<close>

definition known :: "cluster \<Rightarrow> nat \<Rightarrow> bool" where
  "known s c \<longleftrightarrow> c = 0
     \<or> (\<exists>t i L n. lead (cl_hist s) t = Some (i, L) \<and> quorum_held (cl_hist s) t n \<and> c \<le> n \<and> n \<le> length L
          \<and> (leads (cl_node s i) \<longrightarrow> term_at s i = t \<longrightarrow> n \<le> unat (nd_commit_index (cl_node s i))))"

lemma known_less: "known s c \<Longrightarrow> c' \<le> c \<Longrightarrow> known s c'"
  unfolding known_def by (meson le_zero_eq order_trans)

lemma known_move:
  assumes re: "reachable s" and st: "strides s i ev r nd" and k: "known s c"
  shows "known (move i ev r nd s) c"
proof (cases "c = 0")
  case False
  let ?s' = "move i ev r nd s"
  note mv = stridesD(1) [OF st]
  obtain t j L n where L: "lead (cl_hist s) t = Some (j, L)" "quorum_held (cl_hist s) t n" "c \<le> n" "n \<le> length L"
    and b: "leads (cl_node s j) \<Longrightarrow> term_at s j = t \<Longrightarrow> n \<le> unat (nd_commit_index (cl_node s j))"
    using k False unfolding known_def by blast
  have le: "history_le (cl_hist s) (cl_hist ?s')" by (rule move_history_le [OF reachable_parts(1-3) [OF re] mv])
  obtain xs where xs: "lead (cl_hist ?s') t = Some (j, L @ xs)" using history_leD [OF le L(1)] by blast
  have "quorum_held (cl_hist ?s') t n" using L(2) le by (auto simp: quorum_held_def history_le_def)
  moreover have "n \<le> unat (nd_commit_index (cl_node ?s' j))" if lead: "leads (cl_node ?s' j)" "term_at ?s' j = t"
  proof -
    have "n \<le> unat (nd_commit_index (cl_node s j))" using b leads_before [OF re mv L(1) lead] by blast
    moreover have "unat (nd_commit_index (cl_node s j)) \<le> unat (nd_commit_index (cl_node ?s' j))"
      using stridesD(4) [OF st] lead(1) by (cases "j = i") (auto simp: word_le_nat_alt)
    ultimately show ?thesis by (rule order_trans)
  qed
  moreover have "n \<le> length (L @ xs)" using L(4) by simp
  ultimately show ?thesis unfolding known_def using xs L(3) by blast
qed (simp add: known_def)

definition known_part :: "cluster \<Rightarrow> bool" where
  "known_part s \<longleftrightarrow> (\<forall>i \<in> ids. known s (unat (nd_commit_index (cl_node s i))))
     \<and> (\<forall>d e q. (d, e) \<in> cl_net s \<longrightarrow> env_message e = MAppendEntries q \<longrightarrow> known s (unat (ae_leader_commit q)))"

lemma known_replicated:
  assumes re: "reachable s" and st: "strides s i ev r nd" and rep: "replicated ev (cl_node s i) nd"
  shows "known (move i ev r nd s) (unat (nd_commit_index nd))"
proof -
  let ?s' = "move i ev r nd s"
  note mv = stridesD(1) [OF st] and pt = reachable_parts [OF re]
  note q = replicated_quorum [OF pt(1,3) reachable_commit [OF re] mv rep]
  have L: "lead (cl_hist s) (node_term nd) = Some (i, log_at s i)"
    using lead_partD(4) [OF pt(3) moves_local(1) [OF mv]] q by simp
  obtain xs where "lead (cl_hist ?s') (node_term nd) = Some (i, log_at s i @ xs)"
    using history_leD [OF move_history_le [OF pt(1-3) mv] L] by blast
  moreover have "unat (nd_commit_index nd) \<le> length (log_at s i @ xs)" using q by simp
  moreover have "cl_node ?s' i = nd" by simp
  ultimately show ?thesis unfolding known_def using q by (metis order_refl)
qed

lemma known_part_move:
  assumes re: "reachable s" and kp: "known_part s" and st: "strides s i ev r nd"
  shows "known_part (move i ev r nd s)"
proof -
  let ?s' = "move i ev r nd s"
  note mv = stridesD(1) [OF st] and l = moves_local [OF stridesD(1) [OF st]]
  have nodes: "known s (unat (nd_commit_index (cl_node s j)))" if "j \<in> ids" for j
    using kp that by (simp add: known_part_def)
  have how: "nd_commit_index nd = nd_commit_index (cl_node s i) \<or> nd_commit_index nd = 0 \<or> replicated ev (cl_node s i) nd
      \<or> (\<exists>p q. ev = ReceiveAppendEntries p q \<and> accepts q (cl_node s i) nd)"
    using mv by (simp add: moves_def local_step_def)
  have own: "known ?s' (unat (nd_commit_index nd))"
    using how
  proof (elim disjE exE conjE)
    fix p q assume ev: "ev = ReceiveAppendEntries p q" and acc: "accepts q (cl_node s i) nd"
    obtain e where "(i, e) \<in> cl_net s" "env_message e = MAppendEntries q"
      using enabled_net [OF l(2)] ev by (auto simp: event_of_simps)
    then have "known s (unat (ae_leader_commit q))" using kp unfolding known_part_def by blast
    moreover have "nd_commit_index nd \<le> nd_commit_index (cl_node s i) \<or> nd_commit_index nd \<le> ae_leader_commit q"
      using acc by (auto simp: accepts_def max_def)
    ultimately have "known s (unat (nd_commit_index nd))"
      using nodes [OF l(1)] known_less unfolding word_le_nat_alt by blast
    then show ?thesis by (rule known_move [OF re st])
  qed (use known_move [OF re st nodes [OF l(1)]] known_replicated [OF re st] in \<open>simp_all add: known_def\<close>)
  moreover have "known ?s' (unat (ae_leader_commit q))"
    if mem: "(d, e) \<in> cl_net ?s'" and q: "env_message e = MAppendEntries q" for d e q
  proof (cases "(d, e) \<in> cl_net s")
    case True
    then have "known s (unat (ae_leader_commit q))" using kp q unfolding known_part_def by blast
    then show ?thesis by (rule known_move [OF re st])
  next
    case False
    then obtain m where m: "m \<in> set (msgs r)" "ob_message m = MAppendEntries q"
      using mem q by (auto simp: envelope_of_def)
    have "ae_leader_commit q \<le> nd_commit_index nd" using l(7) [OF m(1)] m(2) by (simp add: sent_ok_def)
    then show ?thesis by (intro known_less [OF own]) (simp add: word_le_nat_alt)
  qed
  moreover have "known ?s' (unat (nd_commit_index (cl_node ?s' j)))" if "j \<in> ids" for j
    using own known_move [OF re st nodes [OF that]] by simp
  ultimately show ?thesis unfolding known_part_def by blast
qed

lemma reachable_known: "reachable s \<Longrightarrow> known_part s"
proof (induction rule: reachable_strides)
  case (start s)
  have "nd_commit_index (cl_node s i) = 0" if "i \<in> ids" for i
    using start(1) that node_open_fields unfolding fresh_node_def by blast
  then show ?case using start(2) by (simp add: known_part_def known_def)
qed (rule known_part_move)

section \<open>An earlier state\<close>

text \<open>What holds of a leader whose term had been led in \<open>s0\<close>, and of the replies sent after \<open>s0\<close>.\<close>

definition same_reign :: "raft_node \<Rightarrow> raft_node \<Rightarrow> bool" where
  "same_reign nd0 nd \<longleftrightarrow> leads nd0 \<and> node_term nd0 = node_term nd \<and> nd_commit_index nd0 \<le> nd_commit_index nd
     \<and> (\<forall>k q. (k, Some q) \<in> set (nd_read_rounds nd) \<longrightarrow> \<not> id_below k nd0 \<longrightarrow> nd_commit_index nd0 \<le> ae_leader_commit q)"

definition since :: "cluster \<Rightarrow> cluster \<Rightarrow> bool" where
  "since s0 s \<longleftrightarrow>
     (\<forall>i \<in> ids. term_at s0 i \<le> term_at s i)
     \<and> (\<forall>i \<in> ids. \<forall>L. lead (cl_hist s0) (term_at s i) = Some (i, L) \<longrightarrow> leads (cl_node s i) \<longrightarrow>
          same_reign (cl_node s0 i) (cl_node s i))
     \<and> (\<forall>d e y. (d, e) \<in> cl_net s \<longrightarrow> env_message e = MAppendEntriesReply y \<longrightarrow>
          (d, e) \<in> cl_net s0 \<or> term_at s0 (env_sender_id e) \<le> aer_term y)"

lemma sinceD:
  assumes "since s0 s"
  shows "i \<in> ids \<Longrightarrow> term_at s0 i \<le> term_at s i"
    and "i \<in> ids \<Longrightarrow> lead (cl_hist s0) (term_at s i) = Some (i, L) \<Longrightarrow> leads (cl_node s i) \<Longrightarrow>
      same_reign (cl_node s0 i) (cl_node s i)"
    and "(d, e) \<in> cl_net s \<Longrightarrow> env_message e = MAppendEntriesReply y \<Longrightarrow>
      (d, e) \<in> cl_net s0 \<or> term_at s0 (env_sender_id e) \<le> aer_term y"
  using assms unfolding since_def by blast+

lemma since_refl:
  assumes "reachable s"
  shows "since s s"
proof -
  have "same_reign (cl_node s i) (cl_node s i)" if "i \<in> ids" "leads (cl_node s i)" for i
  proof -
    have "reads_inv (cl_node s i)"
      using reachable_parts(1) [OF assms] that(1) by (simp add: node_part_def full_inv_def node_inv_def)
    then show ?thesis
      using that(2) by (fastforce simp: same_reign_def reads_inv_def round_ok_def id_below_def)
  qed
  then show ?thesis by (simp add: since_def)
qed

lemma since_move:
  assumes re: "reachable s" and hist: "history_le (cl_hist s0) (cl_hist s)" and si: "since s0 s"
    and st: "strides s i ev r nd"
  shows "since s0 (move i ev r nd s)"
proof -
  let ?s' = "move i ev r nd s"
  note mv = stridesD(1) [OF st] and l = moves_local [OF stridesD(1) [OF st]]
  have terms: "term_at s0 j \<le> term_at ?s' j" if "j \<in> ids" for j
    using sinceD(1) [OF si that] l(8) by auto
  have "same_reign (cl_node s0 j) (cl_node ?s' j)"
    if j: "j \<in> ids" and L: "lead (cl_hist s0) (term_at ?s' j) = Some (j, L)" and lead: "leads (cl_node ?s' j)" for j L
  proof -
    obtain xs where "lead (cl_hist s) (term_at ?s' j) = Some (j, L @ xs)" using history_leD [OF hist L] by blast
    then have b: "leads (cl_node s j)" "term_at s j = term_at ?s' j" using leads_before [OF re mv _ lead] by blast+
    have old: "same_reign (cl_node s0 j) (cl_node s j)" by (rule sinceD(2) [OF si j _ b(1)]) (use b(2) L in simp)
    show ?thesis
    proof (cases "j = i")
      case True
      then have nd: "leads nd" "node_term nd = term_at s i" using lead b(2) by simp_all
      have le: "nd_commit_index (cl_node s0 i) \<le> nd_commit_index nd"
        using old True stridesD(4) [OF st nd(1)] by (auto simp: same_reign_def)
      have "nd_commit_index (cl_node s0 i) \<le> ae_leader_commit q"
        if q: "(k, Some q) \<in> set (nd_read_rounds nd)" and k: "\<not> id_below k (cl_node s0 i)" for k q
      proof -
        have "(k, Some q) \<in> set (nd_read_rounds (cl_node s i)) \<or> fresh_probe nd q"
          using stridesD(2) [OF st] q by (simp add: rounds_from_def)
        then show ?thesis using old k le True by (auto simp: same_reign_def fresh_probe_def)
      qed
      then show ?thesis using old le nd True by (simp add: same_reign_def)
    qed (use old in simp)
  qed
  moreover have "(d, e) \<in> cl_net s0 \<or> term_at s0 (env_sender_id e) \<le> aer_term y"
    if mem: "(d, e) \<in> cl_net ?s'" and y: "env_message e = MAppendEntriesReply y" for d e y
  proof (cases "(d, e) \<in> cl_net s")
    case True
    then show ?thesis by (rule sinceD(3) [OF si _ y])
  next
    case False
    then obtain m where m: "m \<in> set (msgs r)" "e = envelope_of i ev (ob_message m)" using mem by auto
    have "aer_term y = node_term nd" using l(7) [OF m(1)] m(2) y by (simp add: sent_ok_def envelope_of_def)
    then show ?thesis using terms [OF l(1)] m(2) by (simp add: envelope_of_def)
  qed
  ultimately show ?thesis using terms unfolding since_def by blast
qed

lemma run_since:
  assumes "cluster_step\<^sup>*\<^sup>* s0 s" and "reachable s0"
  shows "since s0 s"
  using assms(1)
proof (induction rule: rtranclp_induct)
  case base
  show ?case by (rule since_refl [OF assms(2)])
next
  case (step s s')
  note r = run_reaches [OF step(1) assms(2)]
  obtain i ev r nd where "strides s i ev r nd" "s' = move i ev r nd s"
    using cluster_step_strides [OF reachable_parts(1) [OF conjunct1 [OF r]] step(2)] by blast
  then show ?case using since_move r step(3) by blast
qed

lemma run_known:
  assumes "cluster_step\<^sup>*\<^sup>* s0 s" and "reachable s0" and "known s0 c"
  shows "known s c"
  using assms(1)
proof (induction rule: rtranclp_induct)
  case base
  show ?case by (rule assms(3))
next
  case (step s s')
  note r = run_reaches [OF step(1) assms(2)]
  obtain i ev r nd where "strides s i ev r nd" "s' = move i ev r nd s"
    using cluster_step_strides [OF reachable_parts(1) [OF conjunct1 [OF r]] step(2)] by blast
  then show ?case using known_move r step(3) by blast
qed

section \<open>Ready reads\<close>

text \<open>The term of the probe is not behind any quorum of the earlier state.\<close>

lemma quorum_before:
  assumes re: "reachable s0" and p: "p \<in> ids" "i \<in> ids" "p \<noteq> i" and t: "term_at s0 p \<le> t" "term_at s0 i \<le> t"
    and q: "quorum_held (cl_hist s0) u n"
  shows "u \<le> t"
proof -
  obtain a b where ab: "a \<in> ids" "b \<in> ids" "a \<noteq> b" "(u, a, n) \<in> held (cl_hist s0)" "(u, b, n) \<in> held (cl_hist s0)"
    using q unfolding quorum_held_def by blast
  obtain v where "v \<in> {i, p}" "v \<in> {a, b}" using majorities_meet [OF p(2) ab(1) p(1) ab(2) p(3)] ab(3) by blast
  then have "(u, v, n) \<in> held (cl_hist s0)" "term_at s0 v \<le> t" using ab t by auto
  then show ?thesis using held_partD(2) [OF reachable_covers(1) [OF re]] by (meson order_trans)
qed

text \<open>A committed entry of an earlier term is before any entry of the leader's own term.\<close>

lemma own_entry_after:
  assumes re: "reachable s" and L: "lead (cl_hist s) u = Some (j, L)" "quorum_held (cl_hist s) u m" "m \<le> length L"
    and lead: "lead (cl_hist s) (node_term nd) = Some (i, node_entries nd)" and u: "u < node_term nd"
    and own: "holds_own nd n"
  shows "m < n"
proof (rule ccontr)
  assume "\<not> m < n"
  then have n: "0 < n" "n - 1 < m" using own by (auto simp: holds_own_def)
  have "take m (node_entries nd) = take m L"
    by (rule later_leaders_have [OF reachable_covers(4) [OF re] reachable_parts(3) [OF re] L(2,1) u lead])
  then have "node_entries nd ! (n - 1) = L ! (n - 1)" by (rule take_eq_nth [OF _ n(2)])
  then have "entry_term (L ! (n - 1)) = node_term nd" using own by (simp add: holds_own_def)
  moreover have "terms_ok u L" using reachable_parts(4) [OF re] L(1) unfolding log_part_def by blast
  then have "entry_term (L ! (n - 1)) \<le> u" by (rule terms_ok_nth) (use n L(3) in linarith)
  ultimately show False using u by simp
qed

lemma ready_read_known:
  assumes re: "reachable s0" and run: "cluster_step\<^sup>*\<^sup>* s0 s" and st: "strides s i ev r nd"
    and step: "cluster_step s (move i ev r nd s)"
    and x: "x \<in> set (reads_of r)" and new: "\<not> id_below (rr_id x) (cl_node s0 i)" and c: "known s0 c"
  shows "c \<le> unat (rr_index x)"
proof (cases "c = 0")
  case False
  let ?s' = "move i ev r nd s" and ?T = "node_term nd"
  note mv = stridesD(1) [OF st] and l = moves_local [OF stridesD(1) [OF st]]
  obtain p q y where ev: "ev = ReceiveAppendReply p q y" and p: "is_peer p (cl_node s i)" and lead: "leads nd"
    and y: "aer_success y" "aer_term y = ?T" and q: "ae_term q = ?T" "ae_leader_id q = nd_self_id nd"
    "ae_read_context q = rr_id x" "rr_id x \<noteq> 0" "rr_index x = ae_leader_commit q"
    and round: "(rr_id x, Some q) \<in> set (nd_read_rounds (cl_node s i)) \<or> fresh_probe nd q"
    using stridesD(3) [OF st x] unfolding ready_from_def by blast
  have run': "cluster_step\<^sup>*\<^sup>* s0 ?s'" by (rule rtranclp.rtrancl_into_rtrancl [OF run step])
  have rs: "reachable s" and rs': "reachable ?s'" "history_le (cl_hist s0) (cl_hist ?s')"
    using run_reaches [OF run re] run_reaches [OF run' re] by blast+
  note si = run_since [OF run re] and si' = run_since [OF run' re] and pt = reachable_parts [OF rs]
  have self: "nd_self_id nd = i" "nd_peer_ids (cl_node s i) = peers_of i" using l(1,4) pt(1) by (simp_all add: node_part_def)
  have i: "i \<in> ids" "p \<in> ids" "p \<noteq> i"
    using l(1) p ids_peers [OF l(1)] by (simp_all add: is_peer_iff self del: set_list2)
  have node: "cl_node ?s' i = nd" by simp
  have L: "lead (cl_hist ?s') ?T = Some (i, node_entries nd)" by (simp add: lead)
  have reign: "same_reign (cl_node s0 i) nd" if "lead (cl_hist s0) ?T = Some (i, M)" for M
    using sinceD(2) [OF si' i(1), unfolded node] that lead by blast
  have own: "holds_own nd (unat (ae_leader_commit q))" by (rule rounds_own [OF rs reachable_read [OF rs] st lead round])
  have voter: "term_at s0 p \<le> ?T"
  proof -
    obtain e where e: "(i, e) \<in> cl_net s" "env_sender_id e = p" "env_message e = MAppendEntriesReply y" "env_replied_to e = Some q"
      using enabled_net [OF l(2)] ev by (auto simp: event_of_simps)
    have "(i, e) \<notin> cl_net s0"
    proof
      assume "(i, e) \<in> cl_net s0"
      then have a: "asked s0 q" using read_partD(2) [OF reachable_read [OF re]] e(4) by blast
      then obtain M where "lead (cl_hist s0) ?T = Some (i, M)" using q(1,2) self(1) by (auto simp: asked_def)
      then have "same_reign (cl_node s0 i) nd" by (rule reign)
      then show False using a new q(1-4) self(1) by (simp add: asked_def same_reign_def)
    qed
    then show ?thesis using sinceD(3) [OF si e(1,3)] e(2) y(2) by simp
  qed
  obtain u j M m where M: "lead (cl_hist s0) u = Some (j, M)" "quorum_held (cl_hist s0) u m" "c \<le> m" "m \<le> length M"
    and b: "leads (cl_node s0 j) \<Longrightarrow> term_at s0 j = u \<Longrightarrow> m \<le> unat (nd_commit_index (cl_node s0 j))"
    using c False unfolding known_def by blast
  obtain xs where xs: "lead (cl_hist ?s') u = Some (j, M @ xs)" using history_leD [OF rs'(2) M(1)] by blast
  have "u \<le> ?T"
    by (rule quorum_before [OF re i(2,1,3) voter _ M(2)]) (use sinceD(1) [OF si' i(1)] node in simp)
  then consider "u < ?T" | "u = ?T" by fastforce
  then have "m \<le> unat (ae_leader_commit q)"
  proof cases
    case 1
    have "quorum_held (cl_hist ?s') u m" using M(2) rs'(2) by (auto simp: quorum_held_def history_le_def)
    then have "m < unat (ae_leader_commit q)" by (rule own_entry_after [OF rs'(1) xs _ _ L 1 own]) (use M(4) in simp)
    then show ?thesis by simp
  next
    case 2
    then have "j = i" using xs L by simp
    then have reign0: "same_reign (cl_node s0 i) nd" using reign M(1) 2 by blast
    then have m: "m \<le> unat (nd_commit_index (cl_node s0 i))" using b \<open>j = i\<close> 2 by (simp add: same_reign_def)
    have "nd_commit_index (cl_node s0 i) \<le> ae_leader_commit q"
      using round
    proof
      assume k: "(rr_id x, Some q) \<in> set (nd_read_rounds (cl_node s i))"
      obtain ys where "lead (cl_hist s) ?T = Some (i, M @ ys)"
        using history_leD [OF conjunct2 [OF run_reaches [OF run re]] M(1)] \<open>j = i\<close> 2 by blast
      then have b: "leads (cl_node s i)" "term_at s i = ?T"
        using leads_before [OF rs mv, of ?T i] lead node by simp_all
      then have "same_reign (cl_node s0 i) (cl_node s i)" by (intro sinceD(2) [OF si i(1)]) (use M(1) \<open>j = i\<close> 2 in simp_all)
      then show ?thesis using k new by (auto simp: same_reign_def)
    qed (use reign0 in \<open>simp add: fresh_probe_def same_reign_def\<close>)
    then show ?thesis using m by (simp add: word_le_nat_alt)
  qed
  then show ?thesis using M(3) q(5) by simp
qed simp

end
