(* ===== verification/Raft_Reads_Safety.thy ===== *)
theory Raft_Reads_Safety
  imports Raft_Cluster_Reads
begin

text \<open>
  The theorem about reads in a cluster, and a run with a read: the leader of Raft_Cluster_Run, which has
  committed its entry, starts a read, node 2 answers the probe, and the read is ready.
\<close>

section \<open>A run with a read\<close>

definition reading_leader :: raft_node where
  "reading_leader = committed_leader\<lparr>nd_read_rounds := [(1, Some run_probe)], nd_next_read_id := 2\<rparr>"

abbreviation no_os :: os where
  "no_os \<equiv> \<lparr>script = [], trace = []\<rparr>"

lemmas run_node_defs = committed_leader_def with_commit_def reign_of_def voted_node_def opened_node_def

lemma run_starts_read:
  "\<exists>b. node_step ReadBarrier committed_leader no_os = (Inr b, reading_leader, no_os) \<and> started_read_id b = Some 1
     \<and> \<lparr>ob_peer_id = 2, ob_message = MAppendEntries run_probe\<rparr> \<in> set (messages b)"
  by (simp add: read_barrier_def reading_leader_def run_node_defs leader_active_def leader_active_run Let_def
      start_waiting_reads_def current_term_committed_def node_term_def read_probe_def run_probe_def to_peers_def
      list2_def add_messages_def no_actions_def)

lemma run_answers_probe:
  "\<exists>a. node_step (ReceiveAppendEntries 1 run_probe) (with_commit follower_node) no_os
       = (Inr a, with_commit follower_node, no_os)
     \<and> \<lparr>ob_peer_id = 1, ob_message = MAppendEntriesReply \<lparr>aer_term = 1, aer_success = True\<rparr>\<rparr> \<in> set (messages a)"
proof -
  have v: "valid_entries run_probe" by (simp add: valid_entries_iff batch_ok_def)
  have h: "handle_append_entries run_probe (stored 1 (Some 1)) one_log 1 no_os
     = (Inr \<lparr>aer_term = 1, aer_success = True\<rparr>, stored 1 (Some 1), one_log, 1, no_os)"
    using v by (simp add: handle_append_entries_def advance_term_def Let_def)
  have ap: "apply_committed one_log (kv_init\<lparr>kv_last_applied := 1\<rparr>) 1 = (Inr [], kv_init\<lparr>kv_last_applied := 1\<rparr>)"
    by (simp add: apply_committed_def) (subst apply_loop.simps, simp)
  show ?thesis
    by (simp add: on_append_entries_def follower_node_def run_node_defs is_peer_def get2_def h Let_def
        node_term_def drop_leadership_def apply_ready_def ap)
      (simp add: observe_leader_def become_follower_def election_of_def add_messages_def no_actions_def)
qed

lemma run_read_ready:
  "\<exists>a nd. node_step (ReceiveAppendReply 2 run_probe \<lparr>aer_term = 1, aer_success = True\<rparr>) reading_leader no_os
       = (Inr a, nd, no_os)
     \<and> ready_reads a = [\<lparr>rr_id = 1, rr_index = 1\<rparr>]"
proof -
  let ?y = "\<lparr>aer_term = 1, aer_success = True\<rparr>" and ?ld = "leader_of (peer_of 2 1 (Some commit_request)) (peer_of 3 0 (Some first_request))"
  have other: "commit_request \<noteq> run_probe" by (simp add: commit_request_def run_probe_def)
  have h: "handle_reply (election_of 1 Leader True) one_log 2 run_probe ?y (stored 1 (Some 1)) 1 ?ld no_os
      = (Ignored, stored 1 (Some 1), 1, ?ld, no_os)"
    using other
    by (simp add: handle_reply_def leader_active_run Let_def)
      (simp add: leader_of_def find_peer_def get2_def peer_of_def)
  show ?thesis
    by (simp add: on_append_reply_def reading_leader_def run_node_defs is_peer_def get2_def h Let_def
        after_append_reply_def finish_read_def node_term_def)
qed

section \<open>Properties\<close>

text \<open>C5: Linearizable reads. Node i starts a read in the state s0 and is given the id k. Whenever an event at i
  later reports the read k as ready, its index is at least the commit index that any node j has had at
  any moment s up to s0, and i has applied it: the state i answers from is the replay of a log that
  begins with everything committed when the read began. This holds with any loss, delay and duplication of
  messages, with restarts, and for a leader that has been deposed without knowing it.\<close>

theorem reads_are_current:
  assumes "reachable s" and "cluster_step\<^sup>*\<^sup>* s s0" and "i \<in> ids" and "j \<in> ids"
    and "node_step ReadBarrier (cl_node s0 i) w0 = (Inr b, nd0, w0')" and "started_read_id b = Some k"
    and "cluster_step\<^sup>*\<^sup>* (move i ReadBarrier (Inr b) nd0 s0) s1"
    and "enabled i ev s1" and "node_step ev (cl_node s1 i) w = (Inr a, nd, w')"
    and "x \<in> set (ready_reads a)" and "rr_id x = k"
  shows "nd_commit_index (cl_node s j) \<le> rr_index x \<and> rr_index x \<le> kv_last_applied (nd_state nd)
    \<and> nd_state nd = kv_replay (take (unat (kv_last_applied (nd_state nd))) (log_entries (nd_log nd)))
    \<and> take (unat (nd_commit_index (cl_node s j))) (log_entries (nd_log nd))
       = take (unat (nd_commit_index (cl_node s j))) (log_entries (nd_log (cl_node s j)))"
proof -
  let ?c = "nd_commit_index (cl_node s j)" and ?s2 = "move i ev (Inr a) nd s1"
  have r0: "reachable s0" using run_reaches [OF assms(2,1)] by blast
  have en: "enabled i ReadBarrier s0" by (simp add: enabled_def local_event_def)
  have "cluster_step\<^sup>*\<^sup>* s0 s1"
    by (rule converse_rtranclp_into_rtranclp [OF cluster_step.Event [OF assms(3) en assms(5)] assms(7)])
  then have run: "cluster_step\<^sup>*\<^sup>* s0 s1" and r1: "reachable s1" using run_reaches r0 by blast+
  have step: "cluster_step s1 ?s2" by (rule cluster_step.Event [OF assms(3,8,9)])
  then have r2: "reachable ?s2" and runs: "cluster_step\<^sup>*\<^sup>* s ?s2"
    using reachable.Step [OF r1] assms(2) run by (auto intro: rtranclp_trans)
  note st = event_strides [OF reachable_parts(1) [OF r1] assms(3,8,9)]
  have x: "x \<in> set (reads_of (Inr a))" using assms(10) by simp
  have "k = nd_next_read_id (cl_node s0 i)" "k \<noteq> 0"
    using read_barrier_outcome [of "cl_node s0 i" w0 "Inr b" nd0 w0'] assms(5,6) by auto
  then have new: "\<not> id_below (rr_id x) (cl_node s0 i)" by (simp add: id_below_def assms(11))
  have "known s (unat ?c)" using reachable_known [OF assms(1)] assms(4) by (simp add: known_part_def)
  then have "known s0 (unat ?c)" by (rule run_known [OF assms(2,1)])
  then have c: "?c \<le> rr_index x"
    using ready_read_known [OF r0 run st step x new] by (simp add: word_le_nat_alt)
  have ix: "rr_index x \<le> kv_last_applied (nd_state nd)" using stridesD(3) [OF st x] unfolding ready_from_def by blast
  have core: "core_inv nd" using full_inv_parts(3) [OF moves_local(3) [OF stridesD(1) [OF st]]] .
  then have "kv_last_applied (nd_state nd) \<le> nd_commit_index nd" by (simp add: core_inv_def)
  then have le: "unat ?c \<le> unat (nd_commit_index nd)" using c ix unfolding word_le_nat_alt by linarith
  have "committed (cl_hist ?s2) (node_term nd) (node_entries nd) (unat (nd_commit_index nd))"
    using committed_later [OF rtranclp.rtrancl_refl r2 assms(3)] by simp
  from committed_agree [OF reachable_covers(4) [OF r2] reachable_parts(3) [OF r2] committed_later [OF runs assms(1,4)] this]
  have "take (unat ?c) (node_entries nd) = take (unat ?c) (log_at s j)" using le by (simp add: min_absorb1)
  then show ?thesis using c ix core by (simp add: core_inv_def applied_prefix_def)
qed

theorem reads_are_current_witness:
  "\<exists>s s1 a nd w'. reachable s \<and> reachable s1 \<and> nd_commit_index (cl_node s 2) = 1
     \<and> node_step (ReceiveAppendReply 2 run_probe \<lparr>aer_term = 1, aer_success = True\<rparr>) (cl_node s1 1) no_os = (Inr a, nd, w')
     \<and> ready_reads a = [\<lparr>rr_id = 1, rr_index = 1\<rparr>]
     \<and> nd_commit_index (cl_node s 2) \<le> 1 \<and> 1 \<le> kv_last_applied (nd_state nd)"
proof -
  obtain s where s: "reachable s" "cl_node s 1 = committed_leader" "cl_node s 2 = with_commit follower_node"
    using run_reachable by blast
  obtain b where b: "node_step ReadBarrier committed_leader no_os = (Inr b, reading_leader, no_os)"
    "started_read_id b = Some 1" "\<lparr>ob_peer_id = 2, ob_message = MAppendEntries run_probe\<rparr> \<in> set (messages b)"
    using run_starts_read by blast
  let ?s3 = "move 1 ReadBarrier (Inr b) reading_leader s"
  have step3: "node_step ReadBarrier (cl_node s 1) no_os = (Inr b, reading_leader, no_os)" using b(1) s(2) by simp
  have "enabled 1 ReadBarrier s" by (simp add: enabled_def local_event_def)
  then have r3: "reachable ?s3" by (rule reachable.Step [OF s(1) cluster_step.Event [OF run_commit_facts(9) _ step3]])
  have net3: "(2, envelope_of 1 ReadBarrier (MAppendEntries run_probe)) \<in> cl_net ?s3" using b(3) by force
  let ?ev = "ReceiveAppendEntries 1 run_probe" and ?ok = "\<lparr>aer_term = 1, aer_success = True\<rparr>"
  obtain a4 where a4: "node_step ?ev (cl_node ?s3 2) no_os = (Inr a4, with_commit follower_node, no_os)"
    "\<lparr>ob_peer_id = 1, ob_message = MAppendEntriesReply ?ok\<rparr> \<in> set (messages a4)"
    using run_answers_probe s(3) by auto
  have "enabled 2 ?ev ?s3" by (rule enabled_message [OF net3]) (simp add: event_of_def envelope_of_def)
  from run_step [OF r3 run_commit_facts(10) this a4(1)] a4(2)
  obtain s4 where s4: "cluster_step ?s3 s4" "reachable s4" "cl_node s4 = (cl_node ?s3)(2 := with_commit follower_node)"
    "(1, envelope_of 2 ?ev (MAppendEntriesReply ?ok)) \<in> cl_net s4" by fastforce
  have step4: "cluster_step\<^sup>*\<^sup>* ?s3 s4" using s4(1) by (rule r_into_rtranclp)
  let ?answer = "ReceiveAppendReply 2 run_probe ?ok"
  have en: "enabled 1 ?answer s4"
    by (rule enabled_message [OF s4(4)]) (simp add: event_of_def envelope_of_def is_append_reply_def replied_to_def)
  have "cl_node s4 1 = reading_leader" by (simp add: s4(3))
  then obtain a nd where a: "node_step ?answer (cl_node s4 1) no_os = (Inr a, nd, no_os)"
    "ready_reads a = [\<lparr>rr_id = 1, rr_index = 1\<rparr>]" using run_read_ready by auto
  have "nd_commit_index (cl_node s 2) \<le> rr_index \<lparr>rr_id = 1, rr_index = 1\<rparr>
      \<and> rr_index \<lparr>rr_id = 1, rr_index = 1\<rparr> \<le> kv_last_applied (nd_state nd)"
    using reads_are_current [OF s(1) rtranclp.rtrancl_refl run_commit_facts(9,10) step3 b(2) step4 en a(1)] a(2)
    by simp
  then show ?thesis using s(1) s4(2) a
    by (intro exI [of _ s] exI [of _ s4] exI [of _ a] exI [of _ nd] exI [of _ no_os]) (simp add: s(3) run_commit_facts(8))
qed

end
