(* ===== verification/Client_Wire.thy ===== *)
theory Client_Wire
  imports Command_Codec
begin

text \<open>
  The frames between clients and a node (include/dkv/client_wire.hpp, src/client_wire.cpp):
  write, read and status requests and their replies.

  \<^item> The enumerations are datatypes with their bytes given by the \<open>\<dots>_byte\<close> functions; a
    \<open>static_cast\<close> of a received byte is a \<open>\<dots>_of\<close> function. Where the program range-checks the byte
    first the function is total; for the status reply, which is checked after the cast, it is
    partial, and a value that is no enumerator is refused as the check refuses it.
  \<^item> Every message has its encoder and decoder, check by check, and a \<open>checked_codec\<close>
    interpretation: the decoder accepts exactly the encoder's frames.
\<close>

section \<open>Messages\<close>

definition max_client_request_size :: nat where "max_client_request_size = 1024 * 1024 + 128"
definition max_client_frame_size :: nat where "max_client_frame_size = 2 * 1024 * 1024 + 128"

record client_write_request =
  cw_command :: command

datatype client_write_status =
    Committed | NotLeader | OutcomeUnknown | InvalidRequest | Busy | InternalError

record client_write_reply =
  cwr_status :: client_write_status
  cwr_term :: u64
  cwr_index :: u64
  cwr_leader_hint :: u64

record client_read_request =
  crq_key :: bytes

datatype client_read_status =
    Found | NotFound | NotLeader | Busy | InvalidRequest | InternalError

record client_read_reply =
  crr_status :: client_read_status
  crr_term :: u64
  crr_index :: u64
  crr_leader_hint :: u64
  crr_value :: "bytes option"

datatype client_status_request = ClientStatusRequest

datatype client_status_code = Ok | InvalidRequest

datatype client_node_role = Unknown | Follower | Candidate | Leader

record client_peer_status =
  cps_id :: u64
  cps_next_index :: u64
  cps_match_index :: u64

record client_status_reply =
  cs_status :: client_status_code
  cs_node_id :: u64
  cs_role :: client_node_role
  cs_term :: u64
  cs_known_leader :: u64
  cs_last_index :: u64
  cs_commit_index :: u64
  cs_last_applied :: u64
  cs_peers :: "client_peer_status array2"

datatype client_wire_error =
    InvalidMessage | TooLarge | Truncated | UnsupportedVersion | ChecksumMismatch

text \<open>The underlying values of the enumerations, and the casts back.\<close>

primrec write_status_byte :: "client_write_status \<Rightarrow> u8" where
  "write_status_byte Committed = 1"
| "write_status_byte client_write_status.NotLeader = 2"
| "write_status_byte OutcomeUnknown = 3"
| "write_status_byte client_write_status.InvalidRequest = 4"
| "write_status_byte client_write_status.Busy = 5"
| "write_status_byte client_write_status.InternalError = 6"

definition write_status_of :: "u8 \<Rightarrow> client_write_status" where
  "write_status_of b =
     (if b = 1 then Committed else if b = 2 then client_write_status.NotLeader
      else if b = 3 then OutcomeUnknown else if b = 4 then client_write_status.InvalidRequest
      else if b = 5 then client_write_status.Busy else client_write_status.InternalError)"

primrec read_status_byte :: "client_read_status \<Rightarrow> u8" where
  "read_status_byte Found = 1"
| "read_status_byte NotFound = 2"
| "read_status_byte client_read_status.NotLeader = 3"
| "read_status_byte client_read_status.Busy = 4"
| "read_status_byte client_read_status.InvalidRequest = 5"
| "read_status_byte client_read_status.InternalError = 6"

definition read_status_of :: "u8 \<Rightarrow> client_read_status" where
  "read_status_of b =
     (if b = 1 then Found else if b = 2 then NotFound
      else if b = 3 then client_read_status.NotLeader else if b = 4 then client_read_status.Busy
      else if b = 5 then client_read_status.InvalidRequest else client_read_status.InternalError)"

primrec status_code_byte :: "client_status_code \<Rightarrow> u8" where
  "status_code_byte Ok = 1"
| "status_code_byte client_status_code.InvalidRequest = 2"

definition status_code_of :: "u8 \<Rightarrow> client_status_code option" where
  "status_code_of b =
     (if b = 1 then Some Ok else if b = 2 then Some client_status_code.InvalidRequest else None)"

primrec node_role_byte :: "client_node_role \<Rightarrow> u8" where
  "node_role_byte Unknown = 0"
| "node_role_byte Follower = 1"
| "node_role_byte Candidate = 2"
| "node_role_byte Leader = 3"

definition node_role_of :: "u8 \<Rightarrow> client_node_role option" where
  "node_role_of b =
     (if b = 0 then Some Unknown else if b = 1 then Some Follower else if b = 2 then Some Candidate
      else if b = 3 then Some Leader else None)"

section \<open>Operations\<close>

definition cw_version :: u8 where "cw_version = 2"
definition cw_checksum_size :: nat where "cw_checksum_size = 4"
definition request_kind :: u8 where "request_kind = 5"
definition reply_kind :: u8 where "reply_kind = 6"
definition read_request_kind :: u8 where "read_request_kind = 7"
definition read_reply_kind :: u8 where "read_reply_kind = 8"
definition status_request_kind :: u8 where "status_request_kind = 9"
definition status_reply_kind :: u8 where "status_reply_kind = 10"
definition reply_size :: nat where "reply_size = 27"
definition read_reply_size :: nat where "read_reply_size = 31"
definition status_reply_size :: nat where "status_reply_size = 100"

lemmas client_constants [simp] =
  cw_version_def cw_checksum_size_def request_kind_def reply_kind_def read_request_kind_def
  read_reply_kind_def status_request_kind_def status_reply_kind_def reply_size_def
  read_reply_size_def status_reply_size_def max_client_request_size_def max_client_frame_size_def

definition cw_put_u32 :: "bytes \<Rightarrow> u32 \<Rightarrow> bytes" where
  "cw_put_u32 bs v = bs @ masked_shift_loop 24 v"

definition cw_read_u32 :: "bytes \<Rightarrow> nat \<Rightarrow> u32" where
  "cw_read_u32 bs at = read_loop 4 bs at 0"

definition append_checksum :: "bytes \<Rightarrow> bytes" where
  "append_checksum bs = cw_put_u32 bs (crc32 bs)"

definition valid_checksum :: "bytes \<Rightarrow> bool" where
  "valid_checksum bs \<longleftrightarrow>
     cw_read_u32 bs (length bs - cw_checksum_size) = crc32 (take (length bs - cw_checksum_size) bs)"

definition cw_put_u64 :: "bytes \<Rightarrow> u64 \<Rightarrow> bytes" where
  "cw_put_u64 bs v = bs @ masked_shift_loop 56 v"

definition cw_read_u64 :: "bytes \<Rightarrow> nat \<Rightarrow> u64" where
  "cw_read_u64 bs at = read_loop 8 bs at 0"

definition valid_status :: "u8 \<Rightarrow> bool" where
  "valid_status v \<longleftrightarrow>
     v \<ge> write_status_byte Committed \<and> v \<le> write_status_byte client_write_status.InternalError"

definition valid_read_status :: "u8 \<Rightarrow> bool" where
  "valid_read_status v \<longleftrightarrow>
     v \<ge> read_status_byte Found \<and> v \<le> read_status_byte client_read_status.InternalError"

text \<open>The value-initialised array of peers.\<close>

definition no_peers :: "client_peer_status array2" where
  "no_peers = (\<lparr>cps_id = 0, cps_next_index = 0, cps_match_index = 0\<rparr>,
               \<lparr>cps_id = 0, cps_next_index = 0, cps_match_index = 0\<rparr>)"

definition valid_status_reply :: "client_status_reply \<Rightarrow> bool" where
  "valid_status_reply reply =
     (if cs_status reply = client_status_code.InvalidRequest
      then cs_node_id reply = 0 \<and> cs_role reply = Unknown \<and> cs_term reply = 0
           \<and> cs_known_leader reply = 0 \<and> cs_last_index reply = 0 \<and> cs_commit_index reply = 0
           \<and> cs_last_applied reply = 0 \<and> cs_peers reply = no_peers
      else if cs_status reply \<noteq> Ok \<or> cs_node_id reply = 0
           \<or> node_role_byte (cs_role reply) < node_role_byte Follower
           \<or> node_role_byte (cs_role reply) > node_role_byte Leader
           \<or> cs_last_applied reply > cs_commit_index reply
           \<or> cs_commit_index reply > cs_last_index reply
           \<or> cps_id (get2 0 (cs_peers reply)) = 0 \<or> cps_id (get2 1 (cs_peers reply)) = 0
           \<or> cps_id (get2 0 (cs_peers reply)) = cps_id (get2 1 (cs_peers reply))
           \<or> cps_id (get2 0 (cs_peers reply)) = cs_node_id reply
           \<or> cps_id (get2 1 (cs_peers reply)) = cs_node_id reply
      then False
      else if cs_role reply = Leader
      then cs_known_leader reply = cs_node_id reply
           \<and> list_all (\<lambda>peer. \<not> (cps_next_index peer = 0 \<or> cps_match_index peer \<ge> cps_next_index peer
                \<or> cps_match_index peer > cs_last_index reply)) (list2 (cs_peers reply))
      else list_all (\<lambda>peer. \<not> (cps_next_index peer \<noteq> 0 \<or> cps_match_index peer \<noteq> 0))
             (list2 (cs_peers reply)))"

definition encode_client_request :: "client_write_request \<Rightarrow> client_wire_error + bytes" where
  "encode_client_request request =
     (if cmd_type (cw_command request) = NoOp \<or> cmd_request_id (cw_command request) = None
      then Inl InvalidMessage
      else
        (case encode_command (cw_command request) of
           Inl _ \<Rightarrow> Inl InvalidMessage
         | Inr command \<Rightarrow>
             if length command > max_client_request_size - 2 - cw_checksum_size then Inl TooLarge
             else Inr (append_checksum ([cw_version, request_kind] @ command))))"

definition decode_client_request :: "bytes \<Rightarrow> client_wire_error + client_write_request" where
  "decode_client_request bs =
     (if length bs > max_client_request_size then Inl TooLarge
      else if length bs < 2 + cw_checksum_size then Inl Truncated
      else if bs ! 0 \<noteq> cw_version then Inl UnsupportedVersion
      else if \<not> valid_checksum bs then Inl ChecksumMismatch
      else
        (let bs = take (length bs - cw_checksum_size) bs
         in if bs ! 1 \<noteq> request_kind then Inl InvalidMessage
         else
           (case decode_command (drop 2 bs) of
              Inl _ \<Rightarrow> Inl InvalidMessage
            | Inr command \<Rightarrow>
                if cmd_type command = NoOp \<or> cmd_request_id command = None then Inl InvalidMessage
                else Inr \<lparr>cw_command = command\<rparr>)))"

definition encode_client_reply :: "client_write_reply \<Rightarrow> client_wire_error + bytes" where
  "encode_client_reply reply =
     (if \<not> valid_status (write_status_byte (cwr_status reply))
         \<or> (cwr_status reply = Committed \<and> cwr_index reply = 0)
      then Inl InvalidMessage
      else
        (let bs = [cw_version, reply_kind, write_status_byte (cwr_status reply)];
             bs = cw_put_u64 bs (cwr_term reply);
             bs = cw_put_u64 bs (cwr_index reply);
             bs = cw_put_u64 bs (cwr_leader_hint reply)
         in Inr (append_checksum bs)))"

definition decode_client_reply :: "bytes \<Rightarrow> client_wire_error + client_write_reply" where
  "decode_client_reply bs =
     (if length bs < reply_size + cw_checksum_size then Inl Truncated
      else if length bs \<noteq> reply_size + cw_checksum_size then Inl InvalidMessage
      else if bs ! 0 \<noteq> cw_version then Inl UnsupportedVersion
      else if \<not> valid_checksum bs then Inl ChecksumMismatch
      else
        (let bs = take (length bs - cw_checksum_size) bs
         in if bs ! 1 \<noteq> reply_kind then Inl InvalidMessage
         else
           (let status = bs ! 2
            in if \<not> valid_status status then Inl InvalidMessage
            else
              (let reply = \<lparr>cwr_status = write_status_of status, cwr_term = cw_read_u64 bs 3,
                            cwr_index = cw_read_u64 bs 11, cwr_leader_hint = cw_read_u64 bs 19\<rparr>
               in if cwr_status reply = Committed \<and> cwr_index reply = 0 then Inl InvalidMessage
               else Inr reply))))"

definition encode_client_read_request :: "client_read_request \<Rightarrow> client_wire_error + bytes" where
  "encode_client_read_request request =
     (if length (crq_key request) > max_client_request_size - 6 - cw_checksum_size then Inl TooLarge
      else
        (let bs = [cw_version, read_request_kind];
             bs = cw_put_u32 bs (of_nat (length (crq_key request)));
             bs = bs @ crq_key request
         in Inr (append_checksum bs)))"

definition decode_client_read_request :: "bytes \<Rightarrow> client_wire_error + client_read_request" where
  "decode_client_read_request bs =
     (if length bs > max_client_request_size then Inl TooLarge
      else if length bs < 6 + cw_checksum_size then Inl Truncated
      else if bs ! 0 \<noteq> cw_version then Inl UnsupportedVersion
      else if \<not> valid_checksum bs then Inl ChecksumMismatch
      else
        (let bs = take (length bs - cw_checksum_size) bs
         in if bs ! 1 \<noteq> read_request_kind then Inl InvalidMessage
         else
           (let len = unat (cw_read_u32 bs 2)
            in if len \<noteq> length bs - 6 then Inl InvalidMessage
            else Inr \<lparr>crq_key = take len (drop 6 bs)\<rparr>)))"

definition encode_client_read_reply :: "client_read_reply \<Rightarrow> client_wire_error + bytes" where
  "encode_client_read_reply reply =
     (let status = read_status_byte (crr_status reply)
      in if \<not> valid_read_status status
            \<or> (crr_status reply = Found) \<noteq> (crr_value reply \<noteq> None)
            \<or> ((crr_status reply = Found \<or> crr_status reply = NotFound) \<and> crr_index reply = 0)
         then Inl InvalidMessage
         else
           (let value_size = (case crr_value reply of Some v \<Rightarrow> length v | None \<Rightarrow> 0)
            in if value_size > max_client_frame_size - read_reply_size - cw_checksum_size
            then Inl TooLarge
            else
              (let bs = [cw_version, read_reply_kind, status];
                   bs = cw_put_u64 bs (crr_term reply);
                   bs = cw_put_u64 bs (crr_index reply);
                   bs = cw_put_u64 bs (crr_leader_hint reply);
                   bs = cw_put_u32 bs (of_nat value_size);
                   bs = (case crr_value reply of Some v \<Rightarrow> bs @ v | None \<Rightarrow> bs)
               in Inr (append_checksum bs))))"

definition decode_client_read_reply :: "bytes \<Rightarrow> client_wire_error + client_read_reply" where
  "decode_client_read_reply bs =
     (if length bs > max_client_frame_size then Inl TooLarge
      else if length bs < read_reply_size + cw_checksum_size then Inl Truncated
      else if bs ! 0 \<noteq> cw_version then Inl UnsupportedVersion
      else if \<not> valid_checksum bs then Inl ChecksumMismatch
      else
        (let bs = take (length bs - cw_checksum_size) bs
         in if bs ! 1 \<noteq> read_reply_kind then Inl InvalidMessage
         else
           (let status_byte = bs ! 2
            in if \<not> valid_read_status status_byte then Inl InvalidMessage
            else
              (let status = read_status_of status_byte;
                   len = unat (cw_read_u32 bs 27)
               in if len \<noteq> length bs - read_reply_size \<or> (status \<noteq> Found \<and> len \<noteq> 0)
               then Inl InvalidMessage
               else
                 (let index = cw_read_u64 bs 11
                  in if (status = Found \<or> status = NotFound) \<and> index = 0 then Inl InvalidMessage
                  else Inr \<lparr>crr_status = status, crr_term = cw_read_u64 bs 3, crr_index = index,
                            crr_leader_hint = cw_read_u64 bs 19,
                            crr_value = (if status = Found then Some (take len (drop read_reply_size bs))
                                         else None)\<rparr>)))))"

definition encode_client_status_request :: "client_status_request \<Rightarrow> client_wire_error + bytes" where
  "encode_client_status_request _ = Inr (append_checksum [cw_version, status_request_kind])"

definition decode_client_status_request :: "bytes \<Rightarrow> client_wire_error + client_status_request" where
  "decode_client_status_request bs =
     (if length bs < 2 + cw_checksum_size then Inl Truncated
      else if length bs \<noteq> 2 + cw_checksum_size then Inl InvalidMessage
      else if bs ! 0 \<noteq> cw_version then Inl UnsupportedVersion
      else if \<not> valid_checksum bs then Inl ChecksumMismatch
      else if bs ! 1 \<noteq> status_request_kind then Inl InvalidMessage
      else Inr ClientStatusRequest)"

definition encode_client_status_reply :: "client_status_reply \<Rightarrow> client_wire_error + bytes" where
  "encode_client_status_reply reply =
     (if \<not> valid_status_reply reply then Inl InvalidMessage
      else
        (let bs = [cw_version, status_reply_kind, status_code_byte (cs_status reply),
                   node_role_byte (cs_role reply)];
             bs = cw_put_u64 bs (cs_node_id reply);
             bs = cw_put_u64 bs (cs_term reply);
             bs = cw_put_u64 bs (cs_known_leader reply);
             bs = cw_put_u64 bs (cs_last_index reply);
             bs = cw_put_u64 bs (cs_commit_index reply);
             bs = cw_put_u64 bs (cs_last_applied reply);
             bs = foldl (\<lambda>bs peer. cw_put_u64 (cw_put_u64 (cw_put_u64 bs (cps_id peer))
                    (cps_next_index peer)) (cps_match_index peer)) bs (list2 (cs_peers reply))
         in Inr (append_checksum bs)))"

definition decode_client_status_reply :: "bytes \<Rightarrow> client_wire_error + client_status_reply" where
  "decode_client_status_reply bs =
     (if length bs < status_reply_size + cw_checksum_size then Inl Truncated
      else if length bs \<noteq> status_reply_size + cw_checksum_size then Inl InvalidMessage
      else if bs ! 0 \<noteq> cw_version then Inl UnsupportedVersion
      else if \<not> valid_checksum bs then Inl ChecksumMismatch
      else
        (let bs = take (length bs - cw_checksum_size) bs
         in if bs ! 1 \<noteq> status_reply_kind then Inl InvalidMessage
         else
           (case (status_code_of (bs ! 2), node_role_of (bs ! 3)) of
              (Some status, Some role) \<Rightarrow>
                (let peer = (\<lambda>i. let at = 52 + i * 24
                       in \<lparr>cps_id = cw_read_u64 bs at, cps_next_index = cw_read_u64 bs (at + 8),
                           cps_match_index = cw_read_u64 bs (at + 16)\<rparr>);
                     reply = \<lparr>cs_status = status, cs_node_id = cw_read_u64 bs 4, cs_role = role,
                       cs_term = cw_read_u64 bs 12, cs_known_leader = cw_read_u64 bs 20,
                       cs_last_index = cw_read_u64 bs 28, cs_commit_index = cw_read_u64 bs 36,
                       cs_last_applied = cw_read_u64 bs 44, cs_peers = (peer 0, peer 1)\<rparr>
                 in if \<not> valid_status_reply reply then Inl InvalidMessage else Inr reply)
            | _ \<Rightarrow> Inl InvalidMessage)))"

section \<open>Lemmas\<close>

lemma byte_range:
  "(1 :: u8) \<le> b \<and> b \<le> 6 \<longleftrightarrow> b = 1 \<or> b = 2 \<or> b = 3 \<or> b = 4 \<or> b = 5 \<or> b = 6"
proof -
  have "1 \<le> b \<and> b \<le> 6 \<longleftrightarrow> 1 \<le> unat b \<and> unat b \<le> 6" by (simp add: word_le_nat_alt)
  also have "\<dots> \<longleftrightarrow> unat b = 1 \<or> unat b = 2 \<or> unat b = 3 \<or> unat b = 4 \<or> unat b = 5 \<or> unat b = 6"
    by arith
  also have "\<dots> \<longleftrightarrow> b = 1 \<or> b = 2 \<or> b = 3 \<or> b = 4 \<or> b = 5 \<or> b = 6"
    by (simp add: word_unat_eq_iff)
  finally show ?thesis .
qed

lemma write_status_cast: "valid_status b \<and> write_status_of b = s \<longleftrightarrow> b = write_status_byte s"
  by (cases s) (auto simp: valid_status_def byte_range write_status_of_def)

lemma read_status_cast: "valid_read_status b \<and> read_status_of b = s \<longleftrightarrow> b = read_status_byte s"
  by (cases s) (auto simp: valid_read_status_def byte_range read_status_of_def)

lemma status_code_cast: "status_code_of b = Some s \<longleftrightarrow> b = status_code_byte s"
  by (cases s) (auto simp: status_code_of_def)

lemma node_role_cast: "node_role_of b = Some r \<longleftrightarrow> b = node_role_byte r"
  by (cases r) (auto simp: node_role_of_def)

lemma valid_status_bytes [simp]: "valid_status (write_status_byte s)" "valid_read_status (read_status_byte r)"
  using write_status_cast read_status_cast by blast+

lemma valid_read_status_found [simp]: "valid_read_status 1" "valid_read_status 2"
  by (simp_all add: valid_read_status_def)

lemma append_checksum_eq [simp]: "append_checksum p = p @ be_bytes 4 (crc32 p)"
  by (simp add: append_checksum_def cw_put_u32_def masked_shift_loop_32)

lemma valid_checksum_iff:
  assumes "4 \<le> length bs"
  shows "valid_checksum bs \<longleftrightarrow> (\<exists>p. bs = p @ be_bytes 4 (crc32 p))"
  using framed_split [OF assms] assms
  by (simp add: valid_checksum_def cw_read_u32_def read_loop_be_read eq_commute)

lemma valid_checksum_framed [simp]: "valid_checksum (p @ be_bytes 4 (crc32 p))"
  using valid_checksum_iff [of "p @ be_bytes 4 (crc32 p)"] by auto

lemma valid_checksum_frame: "valid_checksum bs \<Longrightarrow> 4 \<le> length bs \<Longrightarrow> \<exists>p. bs = p @ be_bytes 4 (crc32 p)"
  using valid_checksum_iff by blast

text \<open>Taking a byte string apart along a layout.\<close>

lemma head_byte: "2 \<le> length p \<Longrightarrow> (p @ q) ! 0 = p ! 0" "2 \<le> length p \<Longrightarrow> (p @ q) ! Suc 0 = p ! Suc 0"
  by (auto simp: nth_append)

lemma header2: "p = a # b # q \<longleftrightarrow> 2 \<le> length p \<and> p ! 0 = a \<and> p ! 1 = b \<and> drop 2 p = q"
  by (cases p; cases "tl p") auto

lemma header3:
  "p = a # b # c # q \<longleftrightarrow> 3 \<le> length p \<and> p ! 0 = a \<and> p ! 1 = b \<and> p ! 2 = c \<and> drop 3 p = q"
  by (cases p; cases "tl p"; cases "tl (tl p)") (auto simp: numeral_2_eq_2 numeral_3_eq_3)

lemma header4:
  "p = a # b # c # d # q \<longleftrightarrow>
     4 \<le> length p \<and> p ! 0 = a \<and> p ! 1 = b \<and> p ! 2 = c \<and> p ! 3 = d \<and> drop 4 p = q"
  by (cases p; cases "tl p"; cases "tl (tl p)"; cases "tl (tl (tl p))")
    (auto simp: numeral_2_eq_2 numeral_3_eq_3 numeral_eq_Suc)

lemma u64_field: "p = be_bytes 8 (v :: u64) @ q \<longleftrightarrow> 8 \<le> length p \<and> be_read (take 8 p) = v \<and> drop 8 p = q"
proof
  assume "8 \<le> length p \<and> be_read (take 8 p) = v \<and> drop 8 p = q"
  then show "p = be_bytes 8 v @ q"
    using be_bytes_read_64 [of "take 8 p"] append_take_drop_id [of 8 p] by auto
qed auto

lemma u32_field: "p = be_bytes 4 (v :: u32) @ q \<longleftrightarrow> 4 \<le> length p \<and> be_read (take 4 p) = v \<and> drop 4 p = q"
proof
  assume "4 \<le> length p \<and> be_read (take 4 p) = v \<and> drop 4 p = q"
  then show "p = be_bytes 4 v @ q"
    using be_bytes_read_32 [of "take 4 p"] append_take_drop_id [of 4 p] by auto
qed auto

lemma last_u64_field: "p = be_bytes 8 (v :: u64) \<longleftrightarrow> 8 \<le> length p \<and> be_read (take 8 p) = v \<and> drop 8 p = []"
  using u64_field [of p v "[]"] by simp

lemmas client_words = cw_put_u64_def cw_put_u32_def cw_read_u64_def cw_read_u32_def
  masked_shift_loop_64 masked_shift_loop_32 read_loop_be_read

section \<open>Write requests and replies\<close>

definition request_payload :: "client_write_request \<Rightarrow> bytes" where
  "request_payload q = [2, 5] @ command_layout (cw_command q)"

definition request_ok :: "client_write_request \<Rightarrow> bool" where
  "request_ok q \<longleftrightarrow> cmd_type (cw_command q) \<noteq> NoOp \<and> cmd_request_id (cw_command q) \<noteq> None
     \<and> command_shape_ok (cw_command q) \<and> length (command_layout (cw_command q)) \<le> 1048698"

lemma command_layout_small:
  "length (command_layout c) \<le> n \<Longrightarrow> n \<le> 4294967295 \<Longrightarrow>
     encode_command c = Inr bs \<longleftrightarrow> command_shape_ok c \<and> bs = command_layout c"
  by (auto simp: encode_command_Inr length_command_layout)

interpretation request_codec: framed_codec encode_client_request decode_client_request request_ok request_payload
proof unfold_locales
  fix q bs p
  show "encode_client_request q = Inr bs \<longleftrightarrow>
      request_ok q \<and> bs = request_payload q @ be_bytes 4 (crc32 (request_payload q))"
    by (auto simp: encode_client_request_def request_ok_def request_payload_def early_return_iffs
        encode_command_Inr length_command_layout)
  show "decode_client_request (p @ be_bytes 4 (crc32 p)) = Inr q \<longleftrightarrow> request_ok q \<and> p = request_payload q"
    by (cases q) (auto simp: decode_client_request_def request_ok_def request_payload_def early_return_iffs
        decode_command_iff encode_command_Inr length_command_layout header2 head_byte Let_def
        dest: arg_cong [where f = length])
  show "decode_client_request bs = Inr q \<Longrightarrow> \<exists>p. bs = p @ be_bytes 4 (crc32 p)"
    by (auto simp: decode_client_request_def not_less intro!: valid_checksum_frame split: if_splits)
qed

definition reply_payload :: "client_write_reply \<Rightarrow> bytes" where
  "reply_payload y = [2, 6, write_status_byte (cwr_status y)]
     @ be_bytes 8 (cwr_term y) @ be_bytes 8 (cwr_index y) @ be_bytes 8 (cwr_leader_hint y)"

definition reply_ok :: "client_write_reply \<Rightarrow> bool" where
  "reply_ok y \<longleftrightarrow> (cwr_status y = Committed \<longrightarrow> cwr_index y \<noteq> 0)"

interpretation reply_codec: framed_codec encode_client_reply decode_client_reply reply_ok reply_payload
proof unfold_locales
  fix y bs p
  show "encode_client_reply y = Inr bs \<longleftrightarrow>
      reply_ok y \<and> bs = reply_payload y @ be_bytes 4 (crc32 (reply_payload y))"
    by (auto simp: encode_client_reply_def reply_ok_def reply_payload_def client_words)
  show "decode_client_reply (p @ be_bytes 4 (crc32 p)) = Inr y \<longleftrightarrow> reply_ok y \<and> p = reply_payload y"
  proof (cases "length p = 27")
    case True
    then show ?thesis
      by (cases y) (auto simp: decode_client_reply_def reply_ok_def reply_payload_def early_return_iffs
          client_words Let_def head_byte header3 u64_field last_u64_field write_status_cast [symmetric])
  next
    case False
    then show ?thesis by (auto simp: decode_client_reply_def reply_payload_def)
  qed
  show "decode_client_reply bs = Inr y \<Longrightarrow> \<exists>p. bs = p @ be_bytes 4 (crc32 p)"
    by (auto simp: decode_client_reply_def not_less intro!: valid_checksum_frame split: if_splits)
qed

section \<open>Read requests and replies\<close>

lemma unat_eq_of_nat: "n < 4294967296 \<Longrightarrow> unat (w :: u32) = n \<longleftrightarrow> w = of_nat n"
  using unat_of_nat_32 [of n] by auto

definition read_request_payload :: "client_read_request \<Rightarrow> bytes" where
  "read_request_payload q = [2, 7] @ be_bytes 4 (of_nat (length (crq_key q)) :: u32) @ crq_key q"

definition read_request_ok :: "client_read_request \<Rightarrow> bool" where
  "read_request_ok q \<longleftrightarrow> length (crq_key q) \<le> 1048694"

interpretation read_request_codec:
  framed_codec encode_client_read_request decode_client_read_request read_request_ok read_request_payload
proof unfold_locales
  fix q bs p
  show "encode_client_read_request q = Inr bs \<longleftrightarrow>
      read_request_ok q \<and> bs = read_request_payload q @ be_bytes 4 (crc32 (read_request_payload q))"
    by (auto simp: encode_client_read_request_def read_request_ok_def read_request_payload_def client_words)
  show "decode_client_read_request (p @ be_bytes 4 (crc32 p)) = Inr q \<longleftrightarrow>
      read_request_ok q \<and> p = read_request_payload q"
  proof (cases "6 \<le> length p \<and> length p \<le> 1048700")
    case True
    then have "unat (be_read (take 4 (drop 2 p)) :: u32) = length p - 6 \<longleftrightarrow>
        (be_read (take 4 (drop 2 p)) :: u32) = of_nat (length p - 6)"
      by (intro unat_eq_of_nat) linarith
    with True show ?thesis
      by (cases q) (auto simp: decode_client_read_request_def read_request_ok_def read_request_payload_def
          early_return_iffs client_words Let_def head_byte header2 u32_field)
  next
    case False
    then show ?thesis
      by (auto simp: decode_client_read_request_def read_request_payload_def read_request_ok_def)
  qed
  show "decode_client_read_request bs = Inr q \<Longrightarrow> \<exists>p. bs = p @ be_bytes 4 (crc32 p)"
    by (auto simp: decode_client_read_request_def not_less intro!: valid_checksum_frame split: if_splits)
qed

definition reply_value :: "client_read_reply \<Rightarrow> bytes" where
  "reply_value y = (case crr_value y of Some v \<Rightarrow> v | None \<Rightarrow> [])"

definition read_reply_payload :: "client_read_reply \<Rightarrow> bytes" where
  "read_reply_payload y = [2, 8, read_status_byte (crr_status y)]
     @ be_bytes 8 (crr_term y) @ be_bytes 8 (crr_index y) @ be_bytes 8 (crr_leader_hint y)
     @ be_bytes 4 (of_nat (length (reply_value y)) :: u32) @ reply_value y"

definition read_reply_ok :: "client_read_reply \<Rightarrow> bool" where
  "read_reply_ok y \<longleftrightarrow> (crr_status y = Found \<longleftrightarrow> crr_value y \<noteq> None)
     \<and> (crr_status y = Found \<or> crr_status y = NotFound \<longrightarrow> crr_index y \<noteq> 0)
     \<and> length (reply_value y) \<le> 2097245"

interpretation read_reply_codec:
  framed_codec encode_client_read_reply decode_client_read_reply read_reply_ok read_reply_payload
proof unfold_locales
  fix y bs p
  show "encode_client_read_reply y = Inr bs \<longleftrightarrow>
      read_reply_ok y \<and> bs = read_reply_payload y @ be_bytes 4 (crc32 (read_reply_payload y))"
    by (cases "crr_value y") (auto simp: encode_client_read_reply_def read_reply_ok_def read_reply_payload_def
        reply_value_def client_words Let_def)
  show "decode_client_read_reply (p @ be_bytes 4 (crc32 p)) = Inr y \<longleftrightarrow> read_reply_ok y \<and> p = read_reply_payload y"
  proof (cases "31 \<le> length p \<and> length p \<le> 2097276")
    case True
    then have size: "unat (be_read (take 4 (drop 27 p)) :: u32) = length p - 31 \<longleftrightarrow>
        (be_read (take 4 (drop 27 p)) :: u32) = of_nat (length p - 31)"
      by (intro unat_eq_of_nat) linarith
    have len: "8 \<le> length p - 3" "8 \<le> length p - 11" "8 \<le> length p - 19" "4 \<le> length p - 27"
      using True by linarith+
    have pay: "p = read_reply_payload y \<longleftrightarrow> p ! 0 = 2 \<and> p ! 1 = 8 \<and> p ! 2 = read_status_byte (crr_status y)
        \<and> be_read (take 8 (drop 3 p)) = crr_term y \<and> be_read (take 8 (drop 11 p)) = crr_index y
        \<and> be_read (take 8 (drop 19 p)) = crr_leader_hint y
        \<and> be_read (take 4 (drop 27 p)) = (of_nat (length (reply_value y)) :: u32) \<and> drop 31 p = reply_value y"
      using True len by (simp add: read_reply_payload_def header3 u64_field u32_field)
    show ?thesis
      using True size unfolding pay
      by (cases y; cases "crr_value y")
        (auto simp: decode_client_read_reply_def read_reply_ok_def reply_value_def early_return_iffs
          client_words Let_def head_byte read_status_cast [symmetric])
  next
    case False
    then show ?thesis
      by (auto simp: decode_client_read_reply_def read_reply_payload_def read_reply_ok_def)
  qed
  show "decode_client_read_reply bs = Inr y \<Longrightarrow> \<exists>p. bs = p @ be_bytes 4 (crc32 p)"
    by (auto simp: decode_client_read_reply_def not_less intro!: valid_checksum_frame split: if_splits)
qed

section \<open>Status requests and replies\<close>

interpretation status_request_codec:
  framed_codec encode_client_status_request decode_client_status_request "\<lambda>_. True" "\<lambda>_. [2, 9]"
proof unfold_locales
  fix q bs p
  show "encode_client_status_request q = Inr bs \<longleftrightarrow> True \<and> bs = [2, 9] @ be_bytes 4 (crc32 [2, 9])"
    by (auto simp: encode_client_status_request_def)
  show "decode_client_status_request (p @ be_bytes 4 (crc32 p)) = Inr q \<longleftrightarrow> True \<and> p = [2, 9]"
    by (cases q) (auto simp: decode_client_status_request_def early_return_iffs head_byte header2)
  show "decode_client_status_request bs = Inr q \<Longrightarrow> \<exists>p. bs = p @ be_bytes 4 (crc32 p)"
    by (auto simp: decode_client_status_request_def not_less intro!: valid_checksum_frame split: if_splits)
qed

definition peer_payload :: "client_peer_status \<Rightarrow> bytes" where
  "peer_payload p = be_bytes 8 (cps_id p) @ be_bytes 8 (cps_next_index p) @ be_bytes 8 (cps_match_index p)"

definition status_reply_payload :: "client_status_reply \<Rightarrow> bytes" where
  "status_reply_payload y = [2, 10, status_code_byte (cs_status y), node_role_byte (cs_role y)]
     @ be_bytes 8 (cs_node_id y) @ be_bytes 8 (cs_term y) @ be_bytes 8 (cs_known_leader y)
     @ be_bytes 8 (cs_last_index y) @ be_bytes 8 (cs_commit_index y) @ be_bytes 8 (cs_last_applied y)
     @ peer_payload (fst (cs_peers y)) @ peer_payload (snd (cs_peers y))"

interpretation status_reply_codec:
  framed_codec encode_client_status_reply decode_client_status_reply valid_status_reply status_reply_payload
proof unfold_locales
  fix y bs p
  show "encode_client_status_reply y = Inr bs \<longleftrightarrow>
      valid_status_reply y \<and> bs = status_reply_payload y @ be_bytes 4 (crc32 (status_reply_payload y))"
    by (auto simp: encode_client_status_reply_def status_reply_payload_def peer_payload_def client_words
        list2_def Let_def)
  show "decode_client_status_reply (p @ be_bytes 4 (crc32 p)) = Inr y \<longleftrightarrow>
      valid_status_reply y \<and> p = status_reply_payload y"
  proof (cases "length p = 100")
    case True
    obtain a b where peers: "cs_peers y = (a, b)" by (cases "cs_peers y")
    have pay: "p = status_reply_payload y \<longleftrightarrow>
        p ! 0 = 2 \<and> p ! 1 = 10 \<and> status_code_of (p ! 2) = Some (cs_status y) \<and> node_role_of (p ! 3) = Some (cs_role y)
        \<and> be_read (take 8 (drop 4 p)) = cs_node_id y \<and> be_read (take 8 (drop 12 p)) = cs_term y
        \<and> be_read (take 8 (drop 20 p)) = cs_known_leader y \<and> be_read (take 8 (drop 28 p)) = cs_last_index y
        \<and> be_read (take 8 (drop 36 p)) = cs_commit_index y \<and> be_read (take 8 (drop 44 p)) = cs_last_applied y
        \<and> be_read (take 8 (drop 52 p)) = cps_id a \<and> be_read (take 8 (drop 60 p)) = cps_next_index a
        \<and> be_read (take 8 (drop 68 p)) = cps_match_index a
        \<and> be_read (take 8 (drop 76 p)) = cps_id b \<and> be_read (take 8 (drop 84 p)) = cps_next_index b
        \<and> be_read (take 8 (drop 92 p)) = cps_match_index b"
      using True by (simp add: status_reply_payload_def peer_payload_def header4 u64_field last_u64_field
          status_code_cast node_role_cast peers)
    show ?thesis
      using True peers unfolding pay
      by (cases y; cases a; cases b)
        (auto simp: decode_client_status_reply_def client_words Let_def head_byte
          split: option.splits if_splits)
  next
    case False
    then show ?thesis
      by (auto simp: decode_client_status_reply_def status_reply_payload_def peer_payload_def)
  qed
  show "decode_client_status_reply bs = Inr y \<Longrightarrow> \<exists>p. bs = p @ be_bytes 4 (crc32 p)"
    by (auto simp: decode_client_status_reply_def not_less intro!: valid_checksum_frame split: if_splits)
qed

section \<open>Properties\<close>

text \<open>C40: The client formats are exact. For each of the six messages, the decoder accepts a frame as a
  message if and only if the encoder produces that frame for that message.\<close>

theorem client_formats_exact:
  "(decode_client_request bs = Inr wq \<longleftrightarrow> encode_client_request wq = Inr bs)
   \<and> (decode_client_reply bs = Inr wr \<longleftrightarrow> encode_client_reply wr = Inr bs)
   \<and> (decode_client_read_request bs = Inr rq \<longleftrightarrow> encode_client_read_request rq = Inr bs)
   \<and> (decode_client_read_reply bs = Inr rr \<longleftrightarrow> encode_client_read_reply rr = Inr bs)
   \<and> (decode_client_status_request bs = Inr sq \<longleftrightarrow> encode_client_status_request sq = Inr bs)
   \<and> (decode_client_status_reply bs = Inr sr \<longleftrightarrow> encode_client_status_reply sr = Inr bs)"
  by (intro conjI) (rule request_codec.decode_encode_iff reply_codec.decode_encode_iff
      read_request_codec.decode_encode_iff read_reply_codec.decode_encode_iff
      status_request_codec.decode_encode_iff status_reply_codec.decode_encode_iff)+

text \<open>A client frame with any one byte changed is rejected, whichever of the six messages it carries.\<close>

theorem corrupted_client_frame_rejected:
  assumes "i < length bs" and "b \<noteq> bs ! i"
  shows "(encode_client_request wq = Inr bs \<longrightarrow> isl (decode_client_request (bs[i := b])))
   \<and> (encode_client_reply wr = Inr bs \<longrightarrow> isl (decode_client_reply (bs[i := b])))
   \<and> (encode_client_read_request rq = Inr bs \<longrightarrow> isl (decode_client_read_request (bs[i := b])))
   \<and> (encode_client_read_reply rr = Inr bs \<longrightarrow> isl (decode_client_read_reply (bs[i := b])))
   \<and> (encode_client_status_request sq = Inr bs \<longrightarrow> isl (decode_client_status_request (bs[i := b])))
   \<and> (encode_client_status_reply sr = Inr bs \<longrightarrow> isl (decode_client_status_reply (bs[i := b])))"
  using assms
  by (intro conjI impI) (erule (2) request_codec.corruption_rejected reply_codec.corruption_rejected
      read_request_codec.corruption_rejected read_reply_codec.corruption_rejected
      status_request_codec.corruption_rejected status_reply_codec.corruption_rejected)+

definition sample_reply :: client_write_reply where
  "sample_reply = \<lparr>cwr_status = Committed, cwr_term = 1, cwr_index = 2, cwr_leader_hint = 1\<rparr>"

theorem corrupted_client_frame_rejected_witness:
  "isl (decode_client_reply ((reply_payload sample_reply @ be_bytes 4 (crc32 (reply_payload sample_reply)))[2 := 2]))"
proof -
  have "encode_client_reply sample_reply =
      Inr (reply_payload sample_reply @ be_bytes 4 (crc32 (reply_payload sample_reply)))"
    by (simp add: reply_codec.encode_payload reply_ok_def sample_reply_def)
  with corrupted_client_frame_rejected
    [of 2 "reply_payload sample_reply @ be_bytes 4 (crc32 (reply_payload sample_reply))" 2]
  show ?thesis by (simp add: reply_payload_def sample_reply_def)
qed

text \<open>What a client may ask. A write request can be sent if and only if its command is a put or a
  delete with a request id whose key and value together have at most 1048672 bytes (and a delete has
  no value).\<close>

theorem sendable_requests:
  "(\<exists>bs. encode_client_request q = Inr bs) \<longleftrightarrow>
     cmd_type (cw_command q) \<noteq> NoOp \<and> cmd_request_id (cw_command q) \<noteq> None
     \<and> command_shape_ok (cw_command q)
     \<and> length (cmd_key (cw_command q)) + length (cmd_value (cw_command q)) \<le> 1048672"
  by (auto simp: request_codec.encode_payload request_ok_def length_command_layout)

end
