(* ===== verification/Framing.thy ===== *)
theory Framing
  imports Prelude
begin

text \<open>
  The four bytes before every frame on a connection. Both programs write the length of a frame with
  shifts and masks and read it back byte by byte; here both ways are brought to the big-endian
  readers and writers of the theory Prelude.
\<close>

lemma length_octets:
  "[of_nat (drop_bit 24 n AND 0xFF), of_nat (drop_bit 16 n AND 0xFF), of_nat (drop_bit 8 n AND 0xFF), of_nat (n AND 0xFF)]
     = be_bytes 4 (of_nat n :: u64)"
proof -
  have ff: "m AND 0xFF = take_bit 8 m" for m :: nat by (simp add: take_bit_eq_mask mask_eq_exp_minus_1)
  have "of_nat (drop_bit k n AND 0xFF) = (ucast (drop_bit k (of_nat n :: u64)) :: u8)" if "k \<le> 24" for k
    unfolding ff by (rule bit_word_eqI) (use that in \<open>auto simp: bit_simps of_nat_drop_bit\<close>)
  from this [of 0] this [of 8] this [of 16] this [of 24] show ?thesis
    by (simp add: eval_nat_numeral drop_bit_drop_bit)
qed

lemma read_length: "foldl (\<lambda>len octet. push_bit 8 len OR ucast octet) (0 :: u64) header = be_read header"
  by (simp add: be_read_def be_step_def [abs_def])

lemma length_header: "length header = 4 \<Longrightarrow> be_bytes 4 (be_read header :: u64) = header"
  using be_bytes_be_read [of header, where 'a = 64] by simp

lemma written_length: "n < 4294967296 \<Longrightarrow> unat (be_read (be_bytes 4 (of_nat n :: u64)) :: u64) = n"
proof -
  assume n: "n < 4294967296"
  have "unat (be_read (be_bytes 4 (of_nat n :: u64)) :: u64) = unat (take_bit 32 (of_nat n :: u64))"
    by (simp add: be_read_be_bytes_take)
  also have "\<dots> = n" using n by (simp add: unsigned_take_bit_eq unat_of_nat take_bit_nat_eq_self)
  finally show ?thesis .
qed

end
