(* ===== verification/Raft_Socket.thy ===== *)
theory Raft_Socket
  imports Raft_Wire Client_Wire Framing
begin

text \<open>
  The transfers of the server process over its sockets (src/raft_server.cpp, the functions before the
  class \<open>Server\<close>): whole buffers out and in, frames with their length in front, the replies to
  clients and the frames to other servers.

  \<^item> The kernel's answers are parameters. \<open>send\<close> takes some of the bytes; \<open>recv\<close> gives some of those
    that arrive on the connection. Both can be interrupted or fail, and fail when no answer is left, as
    the timeouts set on the sockets make them.
  \<^item> A function that sends returns the bytes it put on the connection.
\<close>

section \<open>Buffers\<close>

datatype send_answer = Takes nat | SendInterrupted | SendFailed

datatype recv_answer = Gives nat | RecvInterrupted | RecvFailed

text \<open>\<open>data\<close> is what is left to send.\<close>

fun write_all :: "send_answer list \<Rightarrow> bytes \<Rightarrow> bool \<times> bytes \<times> send_answer list" where
  "write_all [] data = (data = [], [], [])"
| "write_all (a # as) data =
     (if data = [] then (True, [], a # as)
      else
        (case a of
           SendInterrupted \<Rightarrow> write_all as data
         | SendFailed \<Rightarrow> (False, [], as)
         | Takes n \<Rightarrow>
             if n = 0 then (False, [], as)
             else (case write_all as (drop n data) of (ok, out, as) \<Rightarrow> (ok, take n data @ out, as))))"

text \<open>
  \<open>size\<close> bytes from those arriving; what is left of the answers and of the arriving bytes. A call gives
  no more than it is asked for, and nothing when the other side has closed the connection.
\<close>

fun read_all :: "recv_answer list \<Rightarrow> bytes \<Rightarrow> nat \<Rightarrow> bytes option \<times> recv_answer list \<times> bytes" where
  "read_all [] arriving wanted = (if wanted = 0 then Some [] else None, [], arriving)"
| "read_all (a # as) arriving wanted =
     (if wanted = 0 then (Some [], a # as, arriving)
      else
        (case a of
           RecvInterrupted \<Rightarrow> read_all as arriving wanted
         | RecvFailed \<Rightarrow> (None, as, arriving)
         | Gives n \<Rightarrow>
             (let bs = take (min n wanted) arriving
              in if bs = [] then (None, as, arriving)
                 else
                   (case read_all as (drop (length bs) arriving) (wanted - length bs) of (rest, as, arriving) \<Rightarrow>
                      (map_option ((@) bs) rest, as, arriving)))))"

section \<open>Frames\<close>

definition length_prefix :: "nat \<Rightarrow> bytes" where
  "length_prefix n =
     [of_nat (drop_bit 24 n AND 0xFF), of_nat (drop_bit 16 n AND 0xFF),
      of_nat (drop_bit 8 n AND 0xFF), of_nat (n AND 0xFF)]"

definition frame_length :: "bytes \<Rightarrow> nat" where
  "frame_length header = unat (foldl (\<lambda>len octet. push_bit 8 len OR ucast octet) (0 :: u64) header)"

definition receive_frame :: "recv_answer list \<Rightarrow> bytes \<Rightarrow> bytes option" where
  "receive_frame as arriving =
     (case read_all as arriving 4 of
        (None, as, arriving) \<Rightarrow> None
      | (Some header, as, arriving) \<Rightarrow>
          (let len = frame_length header
           in if len = 0 \<or> len > max_raft_frame_size then None
              else fst (read_all as arriving len)))"

text \<open>\<open>write_all\<close> of the prefix \<open>&&\<close> \<open>write_all\<close> of the bytes.\<close>

definition put_frame :: "send_answer list \<Rightarrow> bytes \<Rightarrow> bool \<times> bytes" where
  "put_frame as bs =
     (case write_all as (length_prefix (length bs)) of (ok, out, as) \<Rightarrow>
        if \<not> ok then (False, out)
        else (case write_all as bs of (ok, out2, as) \<Rightarrow> (ok, out @ out2)))"

definition send_client_reply :: "send_answer list \<Rightarrow> client_write_reply \<Rightarrow> bool \<times> bytes" where
  "send_client_reply as reply =
     (case encode_client_reply reply of Inl _ \<Rightarrow> (False, []) | Inr bs \<Rightarrow> put_frame as bs)"

definition send_client_read_reply :: "send_answer list \<Rightarrow> client_read_reply \<Rightarrow> bool \<times> bytes" where
  "send_client_read_reply as reply =
     (case encode_client_read_reply reply of Inl _ \<Rightarrow> (False, []) | Inr bs \<Rightarrow> put_frame as bs)"

definition send_client_status_reply :: "send_answer list \<Rightarrow> client_status_reply \<Rightarrow> bool \<times> bytes" where
  "send_client_status_reply as reply =
     (case encode_client_status_reply reply of Inl _ \<Rightarrow> (False, []) | Inr bs \<Rightarrow> put_frame as bs)"

datatype send_result = Sent | Unavailable | InvalidMessage

text \<open>\<open>opened\<close> and \<open>connected\<close>: whether \<open>socket\<close> and \<open>connect\<close> succeed.\<close>

definition send_frame :: "bool \<Rightarrow> bool \<Rightarrow> send_answer list \<Rightarrow> raft_envelope \<Rightarrow> send_result \<times> bytes" where
  "send_frame opened connected as envelope =
     (case encode_raft_envelope envelope of
        Inl _ \<Rightarrow> (send_result.InvalidMessage, [])
      | Inr bs \<Rightarrow>
          if \<not> opened \<or> \<not> connected then (Unavailable, [])
          else (case put_frame as bs of (ok, out) \<Rightarrow> (if ok then Sent else Unavailable, out)))"

text \<open>\<open>bound\<close> and \<open>listening\<close>: whether \<open>bind\<close> and \<open>listen\<close> succeed; \<open>fd\<close> is what \<open>socket\<close> returns.\<close>

definition listen_on :: "int \<Rightarrow> bool \<Rightarrow> bool \<Rightarrow> int" where
  "listen_on fd bound listening = (if fd < 0 then -1 else if \<not> bound \<or> \<not> listening then -1 else fd)"

section \<open>What arrives is what was sent\<close>

lemma length_prefix_bytes: "length_prefix n = be_bytes 4 (of_nat n :: u64)"
  by (simp only: length_prefix_def length_octets)

lemma length_length_prefix [simp]: "length (length_prefix n) = 4"
  by (simp add: length_prefix_def)

lemma frame_length_prefix: "length header = 4 \<Longrightarrow> length_prefix (frame_length header) = header"
  by (simp add: length_prefix_bytes frame_length_def read_length length_header)

lemma prefix_frame_length: "n < 4294967296 \<Longrightarrow> frame_length (length_prefix n) = n"
  by (simp add: length_prefix_bytes frame_length_def read_length written_length)

lemma write_all_out:
  "write_all as data = (ok, out, as') \<Longrightarrow> (\<exists>k. out = take k data) \<and> (ok \<longleftrightarrow> out = data)"
proof (induction as data arbitrary: ok out as' rule: write_all.induct)
  case (1 data)
  then show ?case by (auto intro: exI [of _ 0])
next
  case (2 a as data)
  show ?case
  proof (cases a)
    case (Takes n)
    obtain ok1 out1 as1 where w: "write_all as (drop n data) = (ok1, out1, as1)" by (metis prod_cases3)
    show ?thesis
    proof (cases "data = [] \<or> n = 0")
      case True
      then have "out = []" "ok \<longleftrightarrow> data = []" using 2(3) by (auto simp: Takes split: if_splits)
      then show ?thesis by auto
    next
      case False
      then have e: "ok = ok1" "out = take n data @ out1" using 2(3) Takes w by auto
      obtain k where "out1 = take k (drop n data)" and iff: "ok1 \<longleftrightarrow> out1 = drop n data"
        using "2.IH"(1) [OF _ Takes _ w] False by blast
      then have "out = take (n + k) data" using e by (simp add: take_add)
      moreover have "ok \<longleftrightarrow> out = data" using e iff by (metis append_take_drop_id same_append_eq)
      ultimately show ?thesis by blast
    qed
  next
    case SendInterrupted
    then show ?thesis using "2.IH"(2) 2(3) by (cases "data = []") (auto intro: exI [of _ 0])
  next
    case SendFailed
    then show ?thesis using 2(3) by (auto split: if_splits intro: exI [of _ 0])
  qed
qed

text \<open>A frame is on the connection completely or not reported as sent.\<close>

lemma put_frame_out:
  assumes "put_frame as bs = (ok, out)"
  shows "(\<exists>k. out = take k (length_prefix (length bs) @ bs)) \<and> (ok \<longleftrightarrow> out = length_prefix (length bs) @ bs)"
proof -
  obtain ok1 out1 as1 where w: "write_all as (length_prefix (length bs)) = (ok1, out1, as1)" by (metis prod_cases3)
  note o1 = write_all_out [OF w]
  show ?thesis
  proof (cases ok1)
    case True
    obtain ok2 out2 as2 where w2: "write_all as1 bs = (ok2, out2, as2)" by (metis prod_cases3)
    obtain k where k: "out2 = take k bs" "ok2 \<longleftrightarrow> out2 = bs" using write_all_out [OF w2] by blast
    have "ok = ok2" "out = length_prefix (length bs) @ out2" using assms w w2 True o1 by (auto simp: put_frame_def)
    then show ?thesis using k by (auto intro!: exI [of _ "4 + k"])
  next
    case False
    then have e: "ok = False" "out = out1" using assms w by (auto simp: put_frame_def)
    obtain k where k: "out1 = take k (length_prefix (length bs))" using o1 by blast
    then have "out1 = take (min k 4) (length_prefix (length bs) @ bs)" by (cases "k \<le> 4") simp_all
    moreover have "length out1 \<le> 4" using k by simp
    moreover have "out1 \<noteq> length_prefix (length bs) @ bs"
    proof
      assume full: "out1 = length_prefix (length bs) @ bs"
      then have "length bs = 0" using \<open>length out1 \<le> 4\<close> by (metis add_le_same_cancel1 le_zero_eq length_append length_length_prefix)
      then show False using full o1 False by simp
    qed
    ultimately show ?thesis using e by blast
  qed
qed

lemma read_all_gives:
  "0 < wanted \<Longrightarrow> take (min n wanted) arriving = xs \<Longrightarrow> xs \<noteq> [] \<Longrightarrow>
     read_all as (drop (length xs) arriving) (wanted - length xs) = (r, as1, ar1) \<Longrightarrow>
     read_all (Gives n # as) arriving wanted = (map_option ((@) xs) r, as1, ar1)"
  by (simp add: Let_def)

lemma read_all_bytes:
  "read_all as arriving wanted = (Some bs, as', arriving') \<Longrightarrow> arriving = bs @ arriving' \<and> length bs = wanted"
proof (induction as arriving wanted arbitrary: bs rule: read_all.induct)
  case (1 arriving wanted)
  then show ?case by (auto split: if_splits)
next
  case (2 a as arriving wanted)
  show ?case
  proof (cases a)
    case (Gives n)
    define xs where "xs = take (min n wanted) arriving"
    obtain r as1 ar1 where r: "read_all as (drop (length xs) arriving) (wanted - length xs) = (r, as1, ar1)"
      by (metis prod_cases3)
    show ?thesis
    proof (cases "wanted = 0 \<or> xs = []")
      case True
      then show ?thesis using 2(3) Gives by (auto simp: xs_def Let_def split: if_splits)
    next
      case False
      then obtain ys where ys: "r = Some ys" "bs = xs @ ys" "as1 = as'" "ar1 = arriving'"
        using 2(3) unfolding Gives by (subst (asm) read_all_gives [OF _ xs_def [symmetric] _ r]) auto
      have "drop (length xs) arriving = ys @ arriving' \<and> length ys = wanted - length xs"
        using "2.IH"(1) [OF _ Gives xs_def] False r ys by blast
      moreover have "take (length xs) arriving = xs" by (metis append_eq_conv_conj append_take_drop_id xs_def)
      moreover have "length xs \<le> wanted" by (simp add: xs_def)
      ultimately show ?thesis using ys by (metis append.assoc append_take_drop_id le_add_diff_inverse length_append)
    qed
  next
    case RecvInterrupted
    then show ?thesis using "2.IH"(2) 2(3) by (auto split: if_splits)
  next
    case RecvFailed
    then show ?thesis using 2(3) by (auto split: if_splits)
  qed
qed

text \<open>A frame is received as it was written, or not at all.\<close>

lemma receive_frame_bytes:
  assumes "receive_frame as arriving = Some bs"
  shows "0 < length bs \<and> length bs \<le> max_raft_frame_size \<and> (\<exists>rest. arriving = length_prefix (length bs) @ bs @ rest)"
proof -
  obtain r as1 ar1 where r: "read_all as arriving 4 = (r, as1, ar1)" by (metis prod_cases3)
  then obtain header where h: "r = Some header" using assms by (cases r) (auto simp: receive_frame_def)
  let ?n = "frame_length header"
  obtain q as2 ar2 where q: "read_all as1 ar1 ?n = (q, as2, ar2)" by (metis prod_cases3)
  have "0 < ?n" "?n \<le> max_raft_frame_size" "q = Some bs"
    using assms r h q by (auto simp: receive_frame_def Let_def split: if_splits)
  moreover have "arriving = header @ ar1 \<and> length header = 4" by (rule read_all_bytes) (use r h in simp)
  moreover have "ar1 = bs @ ar2 \<and> length bs = ?n" by (rule read_all_bytes) (use q \<open>q = Some bs\<close> in simp)
  ultimately show ?thesis using frame_length_prefix [of header] by auto
qed

text \<open>When the connection does not fail, a frame comes through, however the kernel cuts it.\<close>

definition steady :: "recv_answer list \<Rightarrow> nat \<Rightarrow> bool" where
  "steady as n \<longleftrightarrow> (\<forall>a \<in> set as. \<exists>k > 0. a = Gives k) \<and> n \<le> length as"

lemma read_all_steady:
  "steady as n \<Longrightarrow> wanted \<le> n \<Longrightarrow> wanted \<le> length arriving \<Longrightarrow>
     \<exists>as'. read_all as arriving wanted = (Some (take wanted arriving), as', drop wanted arriving) \<and> steady as' (n - wanted)"
proof (induction as arriving wanted arbitrary: n rule: read_all.induct)
  case (1 arriving wanted)
  then show ?case by (auto simp: steady_def)
next
  case (2 a as arriving wanted)
  show ?case
  proof (cases "wanted = 0")
    case True
    then show ?thesis using 2(3) by simp
  next
    case False
    obtain k where k: "a = Gives k" "0 < k" using 2(3) by (auto simp: steady_def)
    let ?m = "min k wanted"
    have m: "0 < ?m" "?m \<le> wanted" "length (take ?m arriving) = ?m" using False k 2(5) by auto
    then have ne: "take ?m arriving \<noteq> []" by auto
    have "steady as (n - 1)" using 2(3) by (auto simp: steady_def)
    then have "steady as (n - ?m)" using m(1) by (auto simp: steady_def)
    moreover have "wanted - ?m \<le> n - ?m" "wanted - ?m \<le> length (drop ?m arriving)" using 2(4,5) by auto
    ultimately obtain as' where as': "read_all as (drop ?m arriving) (wanted - ?m)
        = (Some (take (wanted - ?m) (drop ?m arriving)), as', drop (wanted - ?m) (drop ?m arriving))"
      "steady as' (n - ?m - (wanted - ?m))"
      using "2.IH"(1) [OF False k(1) refl ne, unfolded m(3)] by blast
    have "take ?m arriving @ take (wanted - ?m) (drop ?m arriving) = take wanted arriving"
      using take_add [of ?m "wanted - ?m" arriving] m(2) by simp
    then have "read_all (a # as) arriving wanted = (Some (take wanted arriving), as', drop wanted arriving)"
      using read_all_gives [OF _ refl ne, unfolded m(3), OF _ as'(1)] False m(2) by (simp add: k(1))
    then show ?thesis using as'(2) m(2) by simp
  qed
qed

lemma receive_frame_steady:
  assumes "0 < length bs" "length bs \<le> max_raft_frame_size" and "steady as (4 + length bs)"
  shows "receive_frame as (length_prefix (length bs) @ bs @ rest) = Some bs"
proof -
  let ?ar = "length_prefix (length bs) @ bs @ rest"
  obtain as' where a: "read_all as ?ar 4 = (Some (length_prefix (length bs)), as', bs @ rest)" "steady as' (length bs)"
    using read_all_steady [OF assms(3), of 4 ?ar] by auto
  obtain as'' where "read_all as' (bs @ rest) (length bs) = (Some bs, as'', rest)"
    using read_all_steady [OF a(2), of "length bs" "bs @ rest"] by auto
  then show ?thesis
    using assms(1,2) a(1) prefix_frame_length [of "length bs"] by (simp add: receive_frame_def max_raft_frame_size_def)
qed

section \<open>Messages over connections\<close>

text \<open>
  A codec whose encodings fit a frame, sent with \<open>put_frame\<close>: the frame the other side receives from the
  bytes on the connection decodes to the message that was sent.
\<close>

locale frame_transport = codec +
  assumes encode_size: "encode a = Inr bs \<Longrightarrow> 0 < length bs \<and> length bs \<le> max_raft_frame_size"
begin

lemma received_is_sent:
  assumes "encode a = Inr bs" and "put_frame as bs = (ok, out)" and "receive_frame as' out = Some bs'"
  shows "ok \<and> decode bs' = Inr a"
proof -
  obtain k where k: "out = take k (length_prefix (length bs) @ bs)" "ok \<longleftrightarrow> out = length_prefix (length bs) @ bs"
    using put_frame_out [OF assms(2)] by blast
  obtain rest where out: "out = length_prefix (length bs') @ bs' @ rest" "0 < length bs'" "length bs' \<le> max_raft_frame_size"
    using receive_frame_bytes [OF assms(3)] by blast
  have "take 4 out = take 4 (length_prefix (length bs) @ bs)"
    using k(1) out(1) by (metis append_eq_conv_conj length_length_prefix length_take min.absorb4 min_def take_all_iff take_take)
  then have "length_prefix (length bs') = length_prefix (length bs)" using out(1) by simp
  then have len: "length bs' = length bs"
    using prefix_frame_length [of "length bs"] prefix_frame_length [of "length bs'"] out(3) encode_size [OF assms(1)]
    by (simp add: max_raft_frame_size_def) 
  have "length out \<le> 4 + length bs" using k(1) by simp
  moreover have "length out = 4 + length bs' + length rest" by (subst out(1)) simp
  ultimately have "rest = []" and lo: "length out = 4 + length bs" using len by simp_all
  have "out = length_prefix (length bs) @ bs" by (subst k(1), rule take_all) (use lo k(1) in simp)
  then have "ok" "bs' = bs" using k(2) out(1) len \<open>rest = []\<close> by auto
  then show ?thesis using round_trip [OF assms(1)] by simp
qed

lemma sent_is_received:
  assumes "encode a = Inr bs" and "put_frame as bs = (True, out)" and "steady as' (length out)"
  shows "\<exists>bs'. receive_frame as' out = Some bs' \<and> decode bs' = Inr a"
proof -
  have out: "out = length_prefix (length bs) @ bs" using put_frame_out [OF assms(2)] by simp
  then have "receive_frame as' out = Some bs"
    using receive_frame_steady [of bs as' "[]"] encode_size [OF assms(1)] assms(3) by simp
  then show ?thesis using round_trip [OF assms(1)] by blast
qed

end

lemma length_peer_payload: "length (peer_payload p) = 24"
  by (simp add: peer_payload_def)

interpretation envelope_transport: frame_transport encode_raft_envelope decode_raft_envelope
  by unfold_locales (auto simp: encode_raft_envelope_iff envelope_ok_def max_raft_frame_size_def rw_checksum_size_def)

interpretation reply_transport: frame_transport encode_client_reply decode_client_reply
  by unfold_locales (auto simp: reply_codec.encode_payload reply_payload_def max_raft_frame_size_def)

interpretation read_reply_transport: frame_transport encode_client_read_reply decode_client_read_reply
  by unfold_locales (auto simp: read_reply_codec.encode_payload read_reply_payload_def read_reply_ok_def max_raft_frame_size_def)

interpretation status_reply_transport: frame_transport encode_client_status_reply decode_client_status_reply
  by unfold_locales
    (auto simp: status_reply_codec.encode_payload status_reply_payload_def length_peer_payload max_raft_frame_size_def)

text \<open>Whether an envelope is refused as invalid depends on nothing the kernel answers.\<close>

lemma send_frame_invalid: "fst (send_frame opened connected as envelope) = send_result.InvalidMessage
    \<longleftrightarrow> isl (encode_raft_envelope envelope)"
  by (auto simp: send_frame_def split: sum.splits prod.splits)

lemma send_frame_out:
  assumes "send_frame opened connected as envelope = (res, out)"
  shows "out = [] \<and> res \<noteq> Sent
    \<or> (\<exists>bs ok. encode_raft_envelope envelope = Inr bs \<and> put_frame as bs = (ok, out) \<and> (res = Sent \<longleftrightarrow> ok))"
  using assms by (auto simp: send_frame_def split: sum.splits prod.splits if_splits)

lemma no_frame [simp]: "receive_frame as [] = None"
  using receive_frame_bytes [of as "[]"] by (cases "receive_frame as []") (auto dest: arg_cong [of "[]" _ length])

text \<open>C34: A frame between two servers arrives as it was sent or not at all. Whatever parts the kernels of
  the two sides send and receive at a time, with interruptions, if the receiver gets a frame out of
  the bytes that send_frame put on the connection then the sender was told it is sent, and the frame
  decodes to the envelope that was sent. If the sender was told so and the receiving side does not
  fail, the frame arrives.\<close>

theorem raft_frame_delivered:
  assumes "send_frame opened connected as envelope = (res, out)"
  shows "(\<forall>bs. receive_frame as' out = Some bs \<longrightarrow> res = Sent \<and> decode_raft_envelope bs = Inr envelope)
    \<and> (res = Sent \<and> steady as' (length out) \<longrightarrow>
         (\<exists>bs. receive_frame as' out = Some bs \<and> decode_raft_envelope bs = Inr envelope))"
  using send_frame_out [OF assms]
proof (elim disjE exE conjE)
  fix bs ok
  assume e: "encode_raft_envelope envelope = Inr bs" "put_frame as bs = (ok, out)" "res = Sent \<longleftrightarrow> ok"
  show ?thesis
    using envelope_transport.received_is_sent [OF e(1,2)] envelope_transport.sent_is_received [OF e(1), of as out as'] e(2,3)
    by auto
qed simp

definition ballot :: raft_envelope where
  "ballot = \<lparr>env_sender_id = 1, env_message = MRequestVote
     \<lparr>rv_term = 1, rv_candidate_id = 1, rv_last_log_index = 0, rv_last_log_term = 0\<rparr>, env_replied_to = None\<rparr>"

theorem raft_frame_delivered_witness:
  "\<exists>out. send_frame True True [Takes 3, SendInterrupted, Takes 100, Takes 100] ballot = (Sent, out)
     \<and> (\<exists>bs. receive_frame (replicate 100 (Gives 1)) out = Some bs \<and> decode_raft_envelope bs = Inr ballot)"
proof -
  define bs where "bs = envelope_payload ballot @ be_bytes 4 (crc32 (envelope_payload ballot))"
  let ?as = "[Takes 3, SendInterrupted, Takes 100, Takes 100]"
  have e: "encode_raft_envelope ballot = Inr bs"
    by (simp add: encode_raft_envelope_iff bs_def ballot_def envelope_simps max_raft_frame_size_def rw_checksum_size_def)
  have l: "length bs < 90" "bs \<noteq> []" by (auto simp: bs_def ballot_def envelope_simps)
  then have s: "send_frame True True ?as ballot = (Sent, length_prefix (length bs) @ bs)"
    by (simp add: send_frame_def e put_frame_def length_prefix_def)
  have "steady (replicate 100 (Gives 1)) (length (length_prefix (length bs) @ bs))" using l by (simp add: steady_def)
  then show ?thesis using raft_frame_delivered [OF s, of "replicate 100 (Gives 1)"] s by blast
qed

end
