(* ===== verification/Text_Format.thy ===== *)
theory Text_Format
  imports Prelude
begin

text \<open>
  Text as the programs read and write it: characters are bytes. \<open>parse_unsigned\<close> is
  \<open>std::from_chars\<close> into an \<open>unsigned\<close> followed by the check that the whole text was used, as
  every caller in the repository has it; \<open>decimal\<close> is how a stream prints an unsigned number;
  \<open>read_token\<close> is \<open>input >> word\<close> and \<open>skip_space\<close> is \<open>std::ws\<close> in the C locale. \<open>parse_port\<close> is in
  both programs.
\<close>

definition str :: "string \<Rightarrow> bytes" where
  "str s = map of_char s"

definition newline :: u8 where "newline = 10"

definition is_space :: "u8 \<Rightarrow> bool" where
  "is_space b \<longleftrightarrow> b = 32 \<or> (9 \<le> b \<and> b \<le> 13)"

definition skip_space :: "bytes \<Rightarrow> bytes" where
  "skip_space s = dropWhile is_space s"

text \<open>The word and the rest of the stream, \<open>None\<close> when the extraction fails.\<close>

definition read_token :: "bytes \<Rightarrow> (bytes \<times> bytes) option" where
  "read_token s =
     (let s = skip_space s; word = takeWhile (\<lambda>b. \<not> is_space b) s
      in if word = [] then None else Some (word, dropWhile (\<lambda>b. \<not> is_space b) s))"

definition is_digit :: "u8 \<Rightarrow> bool" where
  "is_digit b \<longleftrightarrow> 48 \<le> b \<and> b \<le> 57"

definition digit_value :: "u8 \<Rightarrow> nat" where
  "digit_value b = unat b - 48"

definition digits_value :: "bytes \<Rightarrow> nat" where
  "digits_value s = foldl (\<lambda>v b. 10 * v + digit_value b) 0 s"

definition parse_unsigned :: "bytes \<Rightarrow> nat option" where
  "parse_unsigned text =
     (if text = [] \<or> \<not> list_all is_digit text then None
      else if digits_value text > 0xFFFFFFFF then None
      else Some (digits_value text))"

definition parse_port :: "bytes \<Rightarrow> nat option" where
  "parse_port text =
     (case parse_unsigned text of
        None \<Rightarrow> None
      | Some value \<Rightarrow> if value = 0 \<or> value > 0xFFFF then None else Some value)"

fun decimal :: "nat \<Rightarrow> bytes" where
  "decimal n = (if n < 10 then [48 + of_nat n] else decimal (n div 10) @ [48 + of_nat (n mod 10)])"

declare decimal.simps [simp del]

section \<open>Lemmas\<close>

lemma digit_byte: "d < 10 \<Longrightarrow> is_digit (48 + of_nat d) \<and> digit_value (48 + of_nat d) = d"
proof -
  assume d: "d < 10"
  then have "unat (48 + of_nat d :: u8) = 48 + d"
    by (simp add: unat_word_ariths unat_of_nat take_bit_nat_eq_self)
  with d show ?thesis by (simp add: is_digit_def digit_value_def word_le_nat_alt)
qed

lemma decimal_digits: "decimal n \<noteq> [] \<and> list_all is_digit (decimal n) \<and> digits_value (decimal n) = n"
proof (induction n rule: decimal.induct)
  case (1 n)
  show ?case
  proof (cases "n < 10")
    case True
    then show ?thesis
      using digit_byte [of n] by (simp add: decimal.simps [of n] digits_value_def)
  next
    case False
    with 1 have ih: "list_all is_digit (decimal (n div 10))" "digits_value (decimal (n div 10)) = n div 10" by auto
    have d: "is_digit (48 + of_nat (n mod 10))" "digit_value (48 + of_nat (n mod 10)) = n mod 10"
      using digit_byte [of "n mod 10"] by simp_all
    have "digits_value (decimal n) = 10 * (n div 10) + n mod 10"
      using ih d False by (simp add: decimal.simps [of n] digits_value_def)
    with ih d False show ?thesis by (simp add: decimal.simps [of n])
  qed
qed

lemma parse_unsigned_Some:
  "parse_unsigned text = Some v \<longleftrightarrow>
     text \<noteq> [] \<and> list_all is_digit text \<and> digits_value text = v \<and> v \<le> 0xFFFFFFFF"
  by (auto simp: parse_unsigned_def)

lemma parse_unsigned_decimal: "n \<le> 0xFFFFFFFF \<Longrightarrow> parse_unsigned (decimal n) = Some n"
  by (simp add: parse_unsigned_Some decimal_digits)

lemma parse_port_Some:
  "parse_port text = Some p \<longleftrightarrow> text \<noteq> [] \<and> list_all is_digit text \<and> digits_value text = p \<and> 0 < p \<and> p \<le> 65535"
  by (auto simp: parse_port_def case_option_eq_Some parse_unsigned_Some)

lemma read_token_shorter: "read_token s = Some (word, rest) \<Longrightarrow> word \<noteq> [] \<and> list_all (\<lambda>b. \<not> is_space b) word"
  by (auto simp: read_token_def Let_def list_all_iff split: if_splits dest: set_takeWhileD)

section \<open>Properties\<close>

text \<open>Ports. The argument parser of both programs accepts exactly the nonempty digit strings whose
  value is from 1 to 65535, whatever their number of digits, and returns that value; a printed port
  is read back as itself.\<close>

theorem port_arguments:
  "(parse_port text = Some p \<longleftrightarrow>
      text \<noteq> [] \<and> list_all is_digit text \<and> digits_value text = p \<and> 0 < p \<and> p \<le> 65535)
   \<and> parse_port (decimal n) = (if 0 < n \<and> n \<le> 65535 then Some n else None)"
proof -
  have "parse_port (decimal n) = Some q \<longleftrightarrow> q = n \<and> 0 < n \<and> n \<le> 65535" for q
    using decimal_digits [of n] by (auto simp: parse_port_Some)
  then have "parse_port (decimal n) = (if 0 < n \<and> n \<le> 65535 then Some n else None)"
    by (metis not_Some_eq)
  with parse_port_Some show ?thesis by blast
qed

end
