(* ===== verification/Raft_Server.thy ===== *)
theory Raft_Server
  imports Raft_Socket Text_Format
begin

text \<open>
  The server process around a node (src/raft_server.cpp): frames in, node events, frames and
  client replies out, and the tables of clients that wait for a commit or a read.

  \<^item> \<open>server\<close> holds the object's fields. A \<open>connection\<close> is the handle of an accepted socket; a
    client that is kept waiting is one whose handle is in a table. The clock deadlines are not
    fields: setting them is an effect, and whether one has passed is an input of the loop.
  \<^item> Every handler returns the new state, the list of its effects in order, and the state of
    the operating system the node's files use. Sending a reply or a frame is an effect; whether a
    peer is reachable has no influence on the program.
  \<^item> \<open>serve\<close> is the event loop over the answers of \<open>poll\<close>.
\<close>

section \<open>State and effects\<close>

type_synonym connection = nat

record pending_write =
  pw_connections :: "connection list"
  pw_term :: u64
  pw_command :: command

record pending_read =
  pr_connection :: connection
  pr_term :: u64
  pr_key :: bytes

record server =
  sv_node :: raft_node
  sv_blocked_peers :: "bool list"
  sv_pending_writes :: "(u64 \<times> pending_write) list"
  sv_pending_reads :: "(u64 \<times> pending_read) list"
  sv_console_line :: bytes
  sv_discarding_line :: bool
  sv_console_open :: bool
  sv_running :: bool
  sv_fatal :: bool

datatype server_effect =
    ReplyWrite connection client_write_reply
  | ReplyRead connection client_read_reply
  | ReplyStatus connection client_status_reply
  | SendFrame u64 raft_envelope
  | ResetElectionTimer
  | SetHeartbeatDeadline
  | Print bytes
  | PrintError bytes

definition new_server :: "raft_node \<Rightarrow> server" where
  "new_server node =
     \<lparr>sv_node = node, sv_blocked_peers = [False, False, False], sv_pending_writes = [],
      sv_pending_reads = [], sv_console_line = [], sv_discarding_line = False,
      sv_console_open = True, sv_running = True, sv_fatal = False\<rparr>"

definition sv_term :: "server \<Rightarrow> u64" where
  "sv_term sv = node_term (sv_node sv)"

definition sv_id :: "server \<Rightarrow> u64" where
  "sv_id sv = nd_self_id (sv_node sv)"

definition leader_hint :: "server \<Rightarrow> u64" where
  "leader_hint sv = (case nd_known_leader (sv_node sv) of Some l \<Rightarrow> l | None \<Rightarrow> 0)"

definition leading :: "server \<Rightarrow> bool" where
  "leading sv \<longleftrightarrow> node_role (sv_node sv) = raft_role.Leader"

definition write_reply :: "client_write_status \<Rightarrow> u64 \<Rightarrow> u64 \<Rightarrow> u64 \<Rightarrow> client_write_reply" where
  "write_reply status trm index hint =
     \<lparr>cwr_status = status, cwr_term = trm, cwr_index = index, cwr_leader_hint = hint\<rparr>"

definition read_reply :: "client_read_status \<Rightarrow> u64 \<Rightarrow> u64 \<Rightarrow> u64 \<Rightarrow> bytes option \<Rightarrow> client_read_reply" where
  "read_reply status trm index hint v =
     \<lparr>crr_status = status, crr_term = trm, crr_index = index, crr_leader_hint = hint, crr_value = v\<rparr>"

section \<open>Waiting clients\<close>

definition fail_pending :: "server \<Rightarrow> server \<times> server_effect list" where
  "fail_pending sv =
     (sv\<lparr>sv_pending_writes := [], sv_pending_reads := []\<rparr>,
      concat (map (\<lambda>(index, pending).
        map (\<lambda>c. ReplyWrite c (write_reply OutcomeUnknown (pw_term pending) index (leader_hint sv)))
          (pw_connections pending)) (sv_pending_writes sv))
      @ map (\<lambda>(read_id, pending).
          ReplyRead (pr_connection pending)
            (read_reply client_read_status.InternalError (pr_term pending) 0 (leader_hint sv) None))
        (sv_pending_reads sv))"

text \<open>A waiting client is still served by this leadership.\<close>

definition still_leading :: "server \<Rightarrow> u64 \<Rightarrow> bool" where
  "still_leading sv trm \<longleftrightarrow> leading sv \<and> trm = sv_term sv"

definition expire_pending :: "server \<Rightarrow> server \<times> server_effect list" where
  "expire_pending sv =
     (sv\<lparr>sv_pending_writes := filter (\<lambda>(index, pending). still_leading sv (pw_term pending)) (sv_pending_writes sv),
         sv_pending_reads := filter (\<lambda>(read_id, pending). still_leading sv (pr_term pending)) (sv_pending_reads sv)\<rparr>,
      concat (map (\<lambda>(index, pending).
        if still_leading sv (pw_term pending) then []
        else map (\<lambda>c. ReplyWrite c (write_reply OutcomeUnknown (pw_term pending) index (leader_hint sv)))
               (pw_connections pending)) (sv_pending_writes sv))
      @ concat (map (\<lambda>(read_id, pending).
          if still_leading sv (pr_term pending) then []
          else [ReplyRead (pr_connection pending)
                  (read_reply client_read_status.NotLeader (sv_term sv) 0 (leader_hint sv) None)])
        (sv_pending_reads sv)))"

text \<open>\<open>map.erase\<close> of the entry found under a key.\<close>

definition erase :: "u64 \<Rightarrow> (u64 \<times> 'a) list \<Rightarrow> (u64 \<times> 'a) list" where
  "erase k m = filter (\<lambda>x. fst x \<noteq> k) m"

text \<open>The answer to a write whose request has the recorded result \<open>prior\<close>.\<close>

definition result_reply :: "applied_request option \<Rightarrow> command \<Rightarrow> server \<Rightarrow> client_write_reply" where
  "result_reply prior c sv =
     (case prior of
        Some p \<Rightarrow>
          if ar_command p = c
          then write_reply Committed (ar_term p) (ar_index p) (sv_id sv)
          else write_reply client_write_status.InvalidRequest (sv_term sv) 0 (sv_id sv)
      | None \<Rightarrow> write_reply client_write_status.InvalidRequest (sv_term sv) 0 (sv_id sv))"

text \<open>The loop over \<open>actions->applied\<close>.\<close>

primrec answer_applied :: "applied_log_entry list \<Rightarrow> server \<Rightarrow> server \<times> server_effect list" where
  "answer_applied [] sv = (sv, [])"
| "answer_applied (entry # entries) sv =
     (let out = Print (str ''applied index '' @ decimal (unat (al_index entry)) @ [newline])
      in case map_of (sv_pending_writes sv) (al_index entry) of
           None \<Rightarrow>
             (case answer_applied entries sv of (sv, effects) \<Rightarrow> (sv, out # effects))
         | Some pending \<Rightarrow>
             (let c = pw_command pending;
                  prior = kv_request_result (the (cmd_request_id c)) (nd_state (sv_node sv));
                  replies = map (\<lambda>con. ReplyWrite con (result_reply prior c sv)) (pw_connections pending);
                  sv = sv\<lparr>sv_pending_writes := erase (al_index entry) (sv_pending_writes sv)\<rparr>
              in case answer_applied entries sv of (sv, effects) \<Rightarrow> (sv, out # replies @ effects)))"

text \<open>The loop over \<open>actions->ready_reads\<close>.\<close>

primrec answer_reads :: "ready_read list \<Rightarrow> server \<Rightarrow> server \<times> server_effect list" where
  "answer_reads [] sv = (sv, [])"
| "answer_reads (ready # rest) sv =
     (case map_of (sv_pending_reads sv) (rr_id ready) of
        None \<Rightarrow> answer_reads rest sv
      | Some pending \<Rightarrow>
          (let v = kv_get (pr_key pending) (nd_state (sv_node sv));
               reply = ReplyRead (pr_connection pending)
                 (read_reply (if v \<noteq> None then Found else NotFound) (pr_term pending) (rr_index ready)
                    (sv_id sv) v);
               sv = sv\<lparr>sv_pending_reads := erase (rr_id ready) (sv_pending_reads sv)\<rparr>
           in case answer_reads rest sv of (sv, effects) \<Rightarrow> (sv, reply # effects)))"

text \<open>The loop over \<open>actions->messages\<close>; \<open>False\<close> where a message cannot be encoded and the loop is left.\<close>

primrec send_messages :: "outbound_raft_message list \<Rightarrow> append_entries option \<Rightarrow> server
    \<Rightarrow> bool \<times> server_effect list" where
  "send_messages [] replied_to sv = (True, [])"
| "send_messages (outbound # rest) replied_to sv =
     (if sv_blocked_peers sv ! unat (ob_peer_id outbound - 1) then send_messages rest replied_to sv
      else
        (let correlation = (if is_append_reply (ob_message outbound) then replied_to else None);
             envelope = \<lparr>env_sender_id = sv_id sv, env_message = ob_message outbound,
                         env_replied_to = correlation\<rparr>
         in if isl (encode_raft_envelope envelope) then (False, [])
         else
           (case send_messages rest replied_to sv of (ok, effects) \<Rightarrow>
              (ok, SendFrame (ob_peer_id outbound) envelope # effects))))"

text \<open>\<open>static_cast<int>(error)\<close>\<close>

primrec node_error_code :: "raft_node_error \<Rightarrow> nat" where
  "node_error_code InvalidPeer = 0"
| "node_error_code raft_node_error.InvalidRequest = 1"
| "node_error_code raft_node_error.NotLeader = 2"
| "node_error_code raft_node_error.InvalidCommand = 3"
| "node_error_code raft_node_error.TermExhausted = 4"
| "node_error_code raft_node_error.PersistenceError = 5"
| "node_error_code raft_node_error.InconsistentState = 6"
| "node_error_code Stopped = 7"

definition process :: "(raft_node_error + raft_node_actions) \<Rightarrow> append_entries option \<Rightarrow> server
    \<Rightarrow> server \<times> server_effect list" where
  "process result replied_to sv =
     (case expire_pending sv of (sv, expired) \<Rightarrow>
      case result of
        Inl error \<Rightarrow>
          (let out = PrintError (str ''Raft event error '' @ decimal (node_error_code error) @ [newline])
           in if error = raft_node_error.PersistenceError \<or> error = raft_node_error.InconsistentState
                 \<or> error = raft_node_error.TermExhausted \<or> error = Stopped
              then
                (case fail_pending sv of (sv, failed) \<Rightarrow>
                   (sv\<lparr>sv_fatal := True, sv_running := False\<rparr>, expired @ [out] @ failed))
              else (sv, expired @ [out]))
      | Inr actions \<Rightarrow>
          (let timers = (if reset_election_timer actions then [ResetElectionTimer] else [])
                 @ (if schedule_heartbeat actions then [SetHeartbeatDeadline] else [])
                 @ (case proposed_index actions of
                      None \<Rightarrow> []
                    | Some index \<Rightarrow> [Print (str ''proposed index '' @ decimal (unat index) @ [newline])])
           in case answer_applied (applied actions) sv of (sv, answered) \<Rightarrow>
              case answer_reads (ready_reads actions) sv of (sv, read) \<Rightarrow>
              case send_messages (messages actions) replied_to sv of (ok, sent) \<Rightarrow>
                if ok then (sv, expired @ timers @ answered @ read @ sent)
                else
                  (case fail_pending sv of (sv, failed) \<Rightarrow>
                     (sv\<lparr>sv_fatal := True, sv_running := False\<rparr>,
                      expired @ timers @ answered @ read @ sent
                      @ [PrintError (str ''could not encode Raft message'' @ [newline])] @ failed))))"

section \<open>Client requests\<close>

type_synonym server_result = "server \<times> server_effect list \<times> os"

text \<open>
  The search of \<open>pending_writes_\<close> for the request id: \<open>None\<close> when no waiting write has it; otherwise
  the table and the effects with which the handler returns.
\<close>

primrec join_pending :: "server \<Rightarrow> connection \<Rightarrow> command \<Rightarrow> (u64 \<times> pending_write) list
    \<Rightarrow> ((u64 \<times> pending_write) list \<times> server_effect list) option" where
  "join_pending sv con c [] = None"
| "join_pending sv con c (entry # entries) =
     (case entry of (index, pending) \<Rightarrow>
        if cmd_request_id (pw_command pending) \<noteq> cmd_request_id c then
          map_option (\<lambda>(table, effects). (entry # table, effects)) (join_pending sv con c entries)
        else if pw_command pending \<noteq> c then
          Some (entry # entries,
            [ReplyWrite con (write_reply client_write_status.InvalidRequest (sv_term sv) 0 (sv_id sv))])
        else if length (pw_connections pending) \<ge> 1024 then
          Some (entry # entries,
            [ReplyWrite con (write_reply client_write_status.Busy (sv_term sv) 0 (sv_id sv))])
        else
          Some ((index, pending\<lparr>pw_connections := pw_connections pending @ [con]\<rparr>) # entries, []))"

definition handle_client_write :: "connection \<Rightarrow> bytes \<Rightarrow> server \<Rightarrow> os \<Rightarrow> server_result" where
  "handle_client_write con bs sv w =
     (case decode_client_request bs of
        Inl _ \<Rightarrow>
          (sv, [ReplyWrite con (write_reply client_write_status.InvalidRequest (sv_term sv) 0 0)], w)
      | Inr request \<Rightarrow>
          (let c = cw_command request
           in if \<not> leading sv then
             (sv, [ReplyWrite con (write_reply client_write_status.NotLeader (sv_term sv) 0 (leader_hint sv))], w)
           else
             (case kv_request_result (the (cmd_request_id c)) (nd_state (sv_node sv)) of
                Some prior \<Rightarrow> (sv, [ReplyWrite con (result_reply (Some prior) c sv)], w)
              | None \<Rightarrow>
                  (case join_pending sv con c (sv_pending_writes sv) of
                     Some (table, effects) \<Rightarrow> (sv\<lparr>sv_pending_writes := table\<rparr>, effects, w)
                   | None \<Rightarrow>
                       if length (sv_pending_writes sv) + length (sv_pending_reads sv) \<ge> 1024 then
                         (sv, [ReplyWrite con (write_reply client_write_status.Busy (sv_term sv) 0 (sv_id sv))], w)
                       else
                         (let trm = sv_term sv
                          in case propose c (sv_node sv) w of (proposed, node, w) \<Rightarrow>
                             let sv = sv\<lparr>sv_node := node\<rparr>
                             in case (case proposed of Inr actions \<Rightarrow> proposed_index actions | Inl _ \<Rightarrow> None) of
                                  None \<Rightarrow>
                                    (let status =
                                           (if proposed = Inl raft_node_error.NotLeader
                                            then client_write_status.NotLeader
                                            else if proposed = Inl raft_node_error.InvalidCommand
                                            then client_write_status.InvalidRequest
                                            else client_write_status.InternalError);
                                         reply = ReplyWrite con (write_reply status (sv_term sv) 0 (leader_hint sv))
                                     in if isl proposed \<and> status = client_write_status.InternalError then
                                          (case process proposed None sv of (sv, effects) \<Rightarrow> (sv, reply # effects, w))
                                        else (sv, [reply], w))
                                | Some index \<Rightarrow>
                                    (let pending = \<lparr>pw_connections = [con], pw_term = trm, pw_command = c\<rparr>;
                                         sv = sv\<lparr>sv_pending_writes := emplace index pending (sv_pending_writes sv)\<rparr>
                                     in case process proposed None sv of (sv, effects) \<Rightarrow> (sv, effects, w)))))))"

definition handle_client_read :: "connection \<Rightarrow> bytes \<Rightarrow> server \<Rightarrow> os \<Rightarrow> server_result" where
  "handle_client_read con bs sv w =
     (case decode_client_read_request bs of
        Inl _ \<Rightarrow>
          (sv, [ReplyRead con (read_reply client_read_status.InvalidRequest (sv_term sv) 0 0 None)], w)
      | Inr request \<Rightarrow>
          if \<not> leading sv then
            (sv, [ReplyRead con (read_reply client_read_status.NotLeader (sv_term sv) 0 (leader_hint sv) None)], w)
          else if length (sv_pending_writes sv) + length (sv_pending_reads sv) \<ge> 1024 then
            (sv, [ReplyRead con (read_reply client_read_status.Busy (sv_term sv) 0 (sv_id sv) None)], w)
          else
            (let trm = sv_term sv
             in case read_barrier (sv_node sv) w of (proposed, node, w) \<Rightarrow>
                let sv = sv\<lparr>sv_node := node\<rparr>
                in case (case proposed of Inr actions \<Rightarrow> started_read_id actions | Inl _ \<Rightarrow> None) of
                     None \<Rightarrow>
                       (let status = (if proposed = Inl raft_node_error.NotLeader then client_read_status.NotLeader
                                      else client_read_status.InternalError);
                            reply = ReplyRead con (read_reply status (sv_term sv) 0 (leader_hint sv) None)
                        in if isl proposed \<and> status = client_read_status.InternalError then
                             (case process proposed None sv of (sv, effects) \<Rightarrow> (sv, reply # effects, w))
                           else (sv, [reply], w))
                   | Some read_id \<Rightarrow>
                       (let pending = \<lparr>pr_connection = con, pr_term = trm, pr_key = crq_key request\<rparr>;
                            sv = sv\<lparr>sv_pending_reads := emplace read_id pending (sv_pending_reads sv)\<rparr>
                        in case process proposed None sv of (sv, effects) \<Rightarrow> (sv, effects, w))))"

definition client_role :: "raft_role \<Rightarrow> client_node_role" where
  "client_role role =
     (case role of
        raft_role.Follower \<Rightarrow> client_node_role.Follower
      | raft_role.Candidate \<Rightarrow> client_node_role.Candidate
      | raft_role.Leader \<Rightarrow> client_node_role.Leader)"

definition peer_status :: "raft_node \<Rightarrow> u64 \<Rightarrow> client_peer_status" where
  "peer_status node peer_id =
     (case node_peer_progress peer_id node of
        None \<Rightarrow> \<lparr>cps_id = peer_id, cps_next_index = 0, cps_match_index = 0\<rparr>
      | Some prog \<Rightarrow> \<lparr>cps_id = peer_id, cps_next_index = next_index prog, cps_match_index = match_index prog\<rparr>)"

definition status_reply :: "server \<Rightarrow> client_status_reply" where
  "status_reply sv =
     (let node = sv_node sv
      in \<lparr>cs_status = Ok, cs_node_id = sv_id sv, cs_role = client_role (node_role node),
          cs_term = sv_term sv, cs_known_leader = leader_hint sv,
          cs_last_index = last_index (nd_log node), cs_commit_index = nd_commit_index node,
          cs_last_applied = kv_last_applied (nd_state node),
          cs_peers = (peer_status node (get2 0 (nd_peer_ids node)), peer_status node (get2 1 (nd_peer_ids node)))\<rparr>)"

definition empty_status_reply :: client_status_reply where
  "empty_status_reply =
     \<lparr>cs_status = client_status_code.InvalidRequest, cs_node_id = 0, cs_role = Unknown, cs_term = 0,
      cs_known_leader = 0, cs_last_index = 0, cs_commit_index = 0, cs_last_applied = 0, cs_peers = no_peers\<rparr>"

definition handle_client_status :: "connection \<Rightarrow> bytes \<Rightarrow> server \<Rightarrow> server_effect list" where
  "handle_client_status con bs sv =
     (if isl (decode_client_status_request bs) then [ReplyStatus con empty_status_reply]
      else [ReplyStatus con (status_reply sv)])"

section \<open>Receiving\<close>

definition dispatch_envelope :: "raft_envelope \<Rightarrow> server \<Rightarrow> os \<Rightarrow> server_result" where
  "dispatch_envelope envelope sv w =
     (let sender = env_sender_id envelope
      in if sender < 1 \<or> sender > 3 \<or> sender = sv_id sv then (sv, [], w)
      else if sv_blocked_peers sv ! unat (sender - 1) then (sv, [], w)
      else
        (case env_message envelope of
           MRequestVote v \<Rightarrow>
             (case on_request_vote sender v (sv_node sv) w of (result, node, w) \<Rightarrow>
              case process result None (sv\<lparr>sv_node := node\<rparr>) of (sv, effects) \<Rightarrow> (sv, effects, w))
         | MRequestVoteReply v \<Rightarrow>
             (case on_vote_reply sender v (sv_node sv) w of (result, node, w) \<Rightarrow>
              case process result None (sv\<lparr>sv_node := node\<rparr>) of (sv, effects) \<Rightarrow> (sv, effects, w))
         | MAppendEntries v \<Rightarrow>
             (case on_append_entries sender v (sv_node sv) w of (result, node, w) \<Rightarrow>
              case process result (Some v) (sv\<lparr>sv_node := node\<rparr>) of (sv, effects) \<Rightarrow> (sv, effects, w))
         | MAppendEntriesReply v \<Rightarrow>
             (case env_replied_to envelope of
                None \<Rightarrow> (sv, [], w)
              | Some replied_to \<Rightarrow>
                  (case on_append_reply sender replied_to v (sv_node sv) w of (result, node, w) \<Rightarrow>
                   case process result None (sv\<lparr>sv_node := node\<rparr>) of (sv, effects) \<Rightarrow> (sv, effects, w)))))"

text \<open>
  \<open>receive_one\<close> for an accepted connection, the answers of \<open>recv\<close> on it and the bytes that arrive.
\<close>

definition receive_one :: "connection \<Rightarrow> recv_answer list \<Rightarrow> bytes \<Rightarrow> server \<Rightarrow> os \<Rightarrow> server_result" where
  "receive_one con as arriving sv w =
     (case receive_frame as arriving of
        None \<Rightarrow> (sv, [], w)
      | Some bs \<Rightarrow>
          if length bs \<ge> 2 \<and> bs ! 1 = 5 then handle_client_write con bs sv w
          else if length bs \<ge> 2 \<and> bs ! 1 = 7 then handle_client_read con bs sv w
          else if length bs \<ge> 2 \<and> bs ! 1 = 9 then (sv, handle_client_status con bs sv, w)
          else
            (case decode_raft_envelope bs of
               Inl _ \<Rightarrow> (sv, [], w)
             | Inr envelope \<Rightarrow> dispatch_envelope envelope sv w))"

section \<open>The console\<close>

definition propose_command :: "command \<Rightarrow> server \<Rightarrow> os \<Rightarrow> server_result" where
  "propose_command c sv w =
     (case propose c (sv_node sv) w of (result, node, w) \<Rightarrow>
      case process result None (sv\<lparr>sv_node := node\<rparr>) of (sv, effects) \<Rightarrow> (sv, effects, w))"

definition status_line :: "server \<Rightarrow> bytes" where
  "status_line sv =
     (let node = sv_node sv; role = node_role node
      in str ''term '' @ decimal (unat (sv_term sv)) @ str '' role ''
         @ (if role = raft_role.Leader then str ''leader''
            else if role = raft_role.Candidate then str ''candidate'' else str ''follower'')
         @ str '' log '' @ decimal (unat (last_index (nd_log node)))
         @ str '' commit '' @ decimal (unat (nd_commit_index node))
         @ str '' applied '' @ decimal (unat (kv_last_applied (nd_state node))) @ [newline])"

definition block_command :: "bytes \<Rightarrow> bytes \<Rightarrow> server \<Rightarrow> server \<times> server_effect list" where
  "block_command operation rest sv =
     (case read_token rest of
        None \<Rightarrow> (sv, [Print (str ''usage: '' @ operation @ str '' PEER_ID'' @ [newline])])
      | Some (peer_text, rest) \<Rightarrow>
          if read_token rest \<noteq> None
          then (sv, [Print (str ''usage: '' @ operation @ str '' PEER_ID'' @ [newline])])
          else
            (case parse_unsigned peer_text of
               None \<Rightarrow> (sv, [Print (str ''invalid peer ID'' @ [newline])])
             | Some peer \<Rightarrow>
                 if peer < 1 \<or> peer > 3 \<or> of_nat peer = sv_id sv
                 then (sv, [Print (str ''invalid peer ID'' @ [newline])])
                 else
                   (let blocked = (operation = str ''block'');
                        sv = sv\<lparr>sv_blocked_peers := (sv_blocked_peers sv)[peer - 1 := blocked]\<rparr>
                    in (sv, [Print (str ''peer '' @ decimal peer
                          @ (if blocked then str '' blocked'' else str '' unblocked'') @ [newline])]))))"

definition console_usage :: bytes where
  "console_usage = str ''commands: status, put KEY VALUE, inspect KEY, delete KEY, block PEER_ID, unblock PEER_ID, quit'' @ [newline]"

definition handle_console_line :: "bytes \<Rightarrow> server \<Rightarrow> os \<Rightarrow> server_result" where
  "handle_console_line line sv w =
     (let (operation, rest) = (case read_token line of None \<Rightarrow> ([], []) | Some x \<Rightarrow> x)
      in if operation = str ''quit'' then (sv\<lparr>sv_running := False\<rparr>, [], w)
      else if operation = str ''status'' then (sv, [Print (status_line sv)], w)
      else if operation = str ''block'' \<or> operation = str ''unblock'' then
        (case block_command operation rest sv of (sv, effects) \<Rightarrow> (sv, effects, w))
      else
        (case read_token rest of
           None \<Rightarrow> (sv, [Print console_usage], w)
         | Some (key, rest) \<Rightarrow>
             if operation = str ''inspect'' then
               (sv, [Print ((case kv_get key (nd_state (sv_node sv)) of Some v \<Rightarrow> v | None \<Rightarrow> str ''(not found)'')
                      @ [newline])], w)
             else if operation = str ''put'' then
               propose_command \<lparr>cmd_type = Put, cmd_key = key, cmd_value = skip_space rest,
                                cmd_request_id = None\<rparr> sv w
             else if operation = str ''delete'' then
               propose_command \<lparr>cmd_type = Delete, cmd_key = key, cmd_value = [], cmd_request_id = None\<rparr> sv w
             else (sv, [Print console_usage], w)))"

text \<open>The loop of \<open>read_console\<close> over the bytes read.\<close>

fun console_bytes :: "bytes \<Rightarrow> server \<Rightarrow> os \<Rightarrow> server_result" where
  "console_bytes [] sv w = (sv, [], w)"
| "console_bytes (b # bs) sv w =
     (if sv_discarding_line sv then
        console_bytes bs (if b = newline then sv\<lparr>sv_discarding_line := False\<rparr> else sv) w
      else if b = newline then
        (case handle_console_line (sv_console_line sv) sv w of (sv, effects, w) \<Rightarrow>
         let sv = sv\<lparr>sv_console_line := []\<rparr>
         in if \<not> sv_running sv then (sv, effects, w)
            else (case console_bytes bs sv w of (sv, later, w) \<Rightarrow> (sv, effects @ later, w)))
      else if length (sv_console_line sv) < 1024 * 1024 then
        console_bytes bs (sv\<lparr>sv_console_line := sv_console_line sv @ [b]\<rparr>) w
      else
        (case console_bytes bs (sv\<lparr>sv_console_line := [], sv_discarding_line := True\<rparr>) w of
           (sv, effects, w) \<Rightarrow> (sv, Print (str ''command too large'' @ [newline]) # effects, w)))"

text \<open>The result of \<open>read\<close>: bytes (none at the end of the input), or an error.\<close>

datatype console_input = ConsoleBytes bytes | ConsoleInterrupted | ConsoleError

definition read_console :: "console_input \<Rightarrow> server \<Rightarrow> os \<Rightarrow> server_result" where
  "read_console input sv w =
     (case input of
        ConsoleBytes bs \<Rightarrow>
          if bs = [] then (sv\<lparr>sv_console_open := False\<rparr>, [], w) else console_bytes bs sv w
      | ConsoleInterrupted \<Rightarrow> (sv, [], w)
      | ConsoleError \<Rightarrow> (sv\<lparr>sv_console_open := False\<rparr>, [], w))"

section \<open>The event loop\<close>

text \<open>
  One answer of \<open>poll\<close> with what the calls after it find: a connection that was accepted, the answers
  of \<open>recv\<close> and the bytes arriving on it, the console input, whether the console was hung up, and whether the
  deadlines have passed.
\<close>

record poll_answer =
  pa_failed :: bool
  pa_accepted :: "(connection \<times> recv_answer list \<times> bytes) option"
  pa_console :: "console_input option"
  pa_hangup :: bool
  pa_heartbeat_due :: bool
  pa_election_due :: bool

definition fire_timers :: "poll_answer \<Rightarrow> server \<Rightarrow> os \<Rightarrow> server_result" where
  "fire_timers pa sv w =
     (if leading sv \<and> pa_heartbeat_due pa then
        (case on_heartbeat_timeout (sv_node sv) w of (result, node, w) \<Rightarrow>
         case process result None (sv\<lparr>sv_node := node\<rparr>) of (sv, effects) \<Rightarrow>
           (sv, effects @ [SetHeartbeatDeadline], w))
      else if \<not> leading sv \<and> pa_election_due pa then
        (case on_election_timeout (sv_node sv) w of (result, node, w) \<Rightarrow>
         case process result None (sv\<lparr>sv_node := node\<rparr>) of (sv, effects) \<Rightarrow>
           (sv, effects @ [ResetElectionTimer], w))
      else (sv, [], w))"

definition server_iteration :: "poll_answer \<Rightarrow> server \<Rightarrow> os \<Rightarrow> server_result" where
  "server_iteration pa sv w =
     (case (case pa_accepted pa of
              None \<Rightarrow> (sv, [], w)
            | Some (con, as, arriving) \<Rightarrow> receive_one con as arriving sv w) of (sv, received, w) \<Rightarrow>
      case (case pa_console pa of
              None \<Rightarrow> (sv, [], w)
            | Some input \<Rightarrow> read_console input sv w) of (sv, typed, w) \<Rightarrow>
      let sv = (if pa_hangup pa then sv\<lparr>sv_console_open := False\<rparr> else sv)
      in if \<not> sv_running sv then (sv, received @ typed, w)
         else (case fire_timers pa sv w of (sv, fired, w) \<Rightarrow> (sv, received @ typed @ fired, w)))"

text \<open>
  The loop over the answers of \<open>poll\<close>, and what follows it; the console is polled only while it is
  open. The result \<open>None\<close> says the answers ended while the server was still running.
\<close>

primrec serve :: "poll_answer list \<Rightarrow> server \<Rightarrow> os \<Rightarrow> int option \<times> server_result" where
  "serve [] sv w =
     (if sv_running sv then (None, sv, [], w)
      else (case fail_pending sv of (sv, failed) \<Rightarrow>
              (Some (if sv_fatal sv then 1 else 0), sv, failed, w)))"
| "serve (pa # pas) sv w =
     (if \<not> sv_running sv then
        (case fail_pending sv of (sv, failed) \<Rightarrow>
           (Some (if sv_fatal sv then 1 else 0), sv, failed, w))
      else if pa_failed pa then
        (case fail_pending (sv\<lparr>sv_fatal := True\<rparr>) of (sv, failed) \<Rightarrow>
           (Some (if sv_fatal sv then 1 else 0), sv, PrintError (str ''poll failed'' @ [newline]) # failed, w))
      else
        (let pa = (if sv_console_open sv then pa else pa\<lparr>pa_console := None, pa_hangup := False\<rparr>)
         in case server_iteration pa sv w of (sv, effects, w) \<Rightarrow>
            case serve pas sv w of (code, sv, later, w) \<Rightarrow> (code, sv, effects @ later, w)))"

text \<open>The constructor's timer and \<open>run\<close>.\<close>

definition run_server :: "poll_answer list \<Rightarrow> raft_node \<Rightarrow> nat list \<Rightarrow> os \<Rightarrow> int option \<times> server_result" where
  "run_server pas node ports w =
     (let sv = new_server node;
          banner = Print (str ''node '' @ decimal (unat (sv_id sv)) @ str '' listening on 127.0.0.1:''
            @ decimal (ports ! unat (sv_id sv - 1)) @ [newline])
      in case serve pas sv w of (code, sv, effects, w) \<Rightarrow>
           (code, sv, ResetElectionTimer # banner # effects, w))"

section \<open>Starting\<close>

record server_config =
  cf_id :: u64
  cf_peers :: "u64 array2"
  cf_data_dir :: bytes
  cf_ports :: "nat list"

text \<open>The argument checks of \<open>main\<close>: an exit code with its message, or the configuration.\<close>

definition parse_arguments :: "bytes list \<Rightarrow> (int \<times> bytes) + server_config" where
  "parse_arguments argv =
     (if length argv \<noteq> 6 then Inl (2, str ''usage: dkv_node ID DATA_DIR PORT1 PORT2 PORT3'' @ [newline])
      else
        (case parse_unsigned (argv ! 1) of
           None \<Rightarrow> Inl (2, str ''ID must be 1, 2, or 3'' @ [newline])
         | Some node_id \<Rightarrow>
             if node_id < 1 \<or> node_id > 3 then Inl (2, str ''ID must be 1, 2, or 3'' @ [newline])
             else
               (case (parse_port (argv ! 3), parse_port (argv ! 4), parse_port (argv ! 5)) of
                  (Some p0, Some p1, Some p2) \<Rightarrow>
                    if p0 = p1 \<or> p0 = p2 \<or> p1 = p2
                    then Inl (2, str ''ports must be distinct'' @ [newline])
                    else
                      (let peers = filter (\<lambda>peer. peer \<noteq> of_nat node_id) [1, 2, 3]
                       in Inr \<lparr>cf_id = of_nat node_id, cf_peers = (peers ! 0, peers ! 1),
                               cf_data_dir = argv ! 2, cf_ports = [p0, p1, p2]\<rparr>)
                | _ \<Rightarrow> Inl (2, str ''invalid port'' @ [newline]))))"

text \<open>
  \<open>main\<close>. \<open>directory_error\<close> is the message with which \<open>create_directories\<close> failed, if it did; \<open>fd\<close>,
  \<open>bound\<close> and \<open>listening\<close> are the answers for the listening socket.
\<close>

definition server_main :: "bytes list \<Rightarrow> bytes option \<Rightarrow> int \<Rightarrow> bool \<Rightarrow> bool \<Rightarrow> poll_answer list \<Rightarrow> os
    \<Rightarrow> int option \<times> server_effect list \<times> os" where
  "server_main argv directory_error fd bound listening pas w =
     (case parse_arguments argv of
        Inl (code, complaint) \<Rightarrow> (Some code, [PrintError complaint], w)
      | Inr config \<Rightarrow>
          (case directory_error of
             Some reason \<Rightarrow>
               (Some 1, [PrintError (str ''could not create data directory: '' @ reason @ [newline])], w)
           | None \<Rightarrow>
               (case node_open (cf_id config) (cf_peers config) (cf_data_dir config) w of
                  (Inl _, w) \<Rightarrow> (Some 1, [PrintError (str ''could not open Raft storage'' @ [newline])], w)
                | (Inr node, w) \<Rightarrow>
                    if listen_on fd bound listening < 0 then
                      (Some 1, [PrintError (str ''could not listen on port ''
                         @ decimal (cf_ports config ! unat (cf_id config - 1)) @ [newline])], w)
                    else
                      (case run_server pas node (cf_ports config) w of
                         (code, sv, effects, w) \<Rightarrow> (code, effects, w)))))"

end
