(* ===== verification/Raft_Server_Tables.thy ===== *)
theory Raft_Server_Tables
  imports "HOL-Library.Multiset" Raft_Server Raft_Cluster Raft_Node_Reads
begin

text \<open>
  The tables of waiting clients of a server: what they hold, what every handler does to them, and whom
  it answers.

  \<^item> \<open>waiting\<close> are the connections in the tables, \<open>answered\<close> those that get a reply.
  \<^item> \<open>write_ok\<close> and \<open>read_ok\<close> are what holds of a waiting write and read between two events;
    \<open>tables_ok\<close> of the tables.
  \<^item> \<open>process_outcome\<close> says what \<open>process\<close> makes of tables that were right before the event.
\<close>

section \<open>What events do to read ids and proposals\<close>

text \<open>A proposal and a read barrier change neither term nor role; what they start has a fresh number.\<close>

lemma queue_appends_proposed: "queue_appends ps a nd = (ok, a', nd') \<Longrightarrow> proposed_index a' = proposed_index a"
  by (induction ps arbitrary: a nd)
    (auto simp: queue_append_def add_messages_def split: prod.splits if_splits option.splits sum.splits)

lemma propose_outcome:
  assumes inv: "full_inv nd" and run: "propose c nd w = (r, nd', w')"
  shows "nd_metadata nd' = nd_metadata nd \<and> nd_election nd' = nd_election nd
    \<and> (\<forall>a. r = Inr a \<longrightarrow> (\<exists>i. proposed_index a = Some i \<and> unat i = Suc (length (node_entries nd))
         \<and> node_entries nd' = node_entries nd
             @ [\<lparr>entry_index = i, entry_term = node_term nd, entry_command = c\<rparr>]))"
proof (cases "nd_stopped nd \<or> nd_leader nd = None \<or> cmd_type c = NoOp")
  case True
  then show ?thesis using run by (auto simp: propose_def split: if_splits option.splits)
next
  case False
  then obtain ld where ld: "nd_leader nd = Some ld" and live: "\<not> nd_stopped nd" "cmd_type c \<noteq> NoOp" by auto
  have act: "leader_active nd ld" using leading_node(1) [OF full_inv_parts(1) [OF inv] ld] .
  have wf: "log_wf (nd_log nd)" using full_inv_parts(3) [OF inv] by (simp add: core_inv_def)
  obtain ap l ld1 v where a: "append_command (nd_election nd) (nd_metadata nd) c (nd_log nd) ld w = (ap, l, ld1, v)"
    by (metis prod_cases4)
  note o = append_command_outcome [OF wf act [unfolded leader_active_def] a]
  define nd1 where "nd1 = nd\<lparr>nd_log := l, nd_leader := Some ld1\<rparr>"
  have same: "nd_metadata nd1 = nd_metadata nd" "nd_election nd1 = nd_election nd" "nd_log nd1 = l"
    by (simp_all add: nd1_def)
  have un: "(case ap of Inl error \<Rightarrow>
        if error = leader_replication_error.InvalidCommand then (Inl InvalidCommand, nd1, v)
        else stop (if error = leader_replication_error.PersistenceError then PersistenceError else InconsistentState) nd1 v
      | Inr index \<Rightarrow>
        (case queue_appends (list2 (nd_peer_ids nd1)) (no_actions\<lparr>proposed_index := Some index\<rparr>) nd1 of
           (ok, actions, nd2) \<Rightarrow> if \<not> ok then stop InconsistentState nd2 v else (Inr actions, nd2, v))) = (r, nd', w')"
    using run ld live act unfolding nd1_def by (simp add: propose_def append_as_leader_def a Let_def split del: if_split)
  show ?thesis
  proof (cases ap)
    case (Inl e)
    then show ?thesis using un same by (auto simp: stop_def split: if_splits)
  next
    case (Inr i)
    obtain ok b nd2 where q: "queue_appends (list2 (nd_peer_ids nd1)) (no_actions\<lparr>proposed_index := Some i\<rparr>) nd1 = (ok, b, nd2)"
      by (metis prod_cases3)
    note f = leader_moved_fields [OF queue_appends_moved [OF q]]
    have "proposed_index b = Some i" using queue_appends_proposed [OF q] by simp
    moreover have "ld_term ld = node_term nd" using act by (simp add: leader_active_def active_def node_term_def)
    then have "node_entries nd2 = node_entries nd
        @ [\<lparr>entry_index = i, entry_term = node_term nd, entry_command = c\<rparr>]"
      using o Inr by (simp add: f same)
    ultimately show ?thesis using un Inr q f same o by (auto simp: stop_def split: if_splits)
  qed
qed

section \<open>Waiting and answered clients\<close>

definition write_waiters :: "(u64 \<times> pending_write) list \<Rightarrow> connection multiset" where
  "write_waiters waits = sum_list (map (\<lambda>e. mset (pw_connections (snd e))) waits)"

definition read_waiters :: "(u64 \<times> pending_read) list \<Rightarrow> connection multiset" where
  "read_waiters waits = mset (map (\<lambda>e. pr_connection (snd e)) waits)"

definition waiting :: "server \<Rightarrow> connection multiset" where
  "waiting sv = write_waiters (sv_pending_writes sv) + read_waiters (sv_pending_reads sv)"

primrec replied_by :: "server_effect \<Rightarrow> connection list" where
  "replied_by (ReplyWrite con y) = [con]"
| "replied_by (ReplyRead con y) = [con]"
| "replied_by (ReplyStatus con y) = [con]"
| "replied_by (SendFrame p e) = []"
| "replied_by ResetElectionTimer = []"
| "replied_by SetHeartbeatDeadline = []"
| "replied_by (Print bs) = []"
| "replied_by (PrintError bs) = []"

definition answered :: "server_effect list \<Rightarrow> connection multiset" where
  "answered effects = mset (concat (map replied_by effects))"

lemma answered_simps [simp]:
  "answered [] = {#}" "answered (e # es) = mset (replied_by e) + answered es"
  "answered (es @ fs) = answered es + answered fs"
  by (simp_all add: answered_def)

lemma waiters_simps [simp]:
  "write_waiters [] = {#}" "write_waiters (e # es) = mset (pw_connections (snd e)) + write_waiters es"
  "read_waiters [] = {#}" "read_waiters (f # fs) = add_mset (pr_connection (snd f)) (read_waiters fs)"
  by (simp_all add: write_waiters_def read_waiters_def)

text \<open>Who waits for what.\<close>

datatype wish = Writes command | Reads bytes

definition askers :: "(u64 \<times> pending_write) list \<Rightarrow> (connection \<times> wish) set" where
  "askers waits = (\<Union>e \<in> set waits. (\<lambda>con. (con, Writes (pw_command (snd e)))) ` set (pw_connections (snd e)))"

definition readers :: "(u64 \<times> pending_read) list \<Rightarrow> (connection \<times> wish) set" where
  "readers waits = (\<lambda>e. (pr_connection (snd e), Reads (pr_key (snd e)))) ` set waits"

definition asking :: "server \<Rightarrow> (connection \<times> wish) set" where
  "asking sv = askers (sv_pending_writes sv) \<union> readers (sv_pending_reads sv)"

text \<open>
  \<open>committed_as nd c t i\<close>: the command is entry \<open>i\<close> of the node's log, with term \<open>t\<close>, and committed.
  \<open>read_as nd key y\<close>: the value in the reply is what the replay of committed entries, at least up to the
  index in the reply, has under the key.
  \<open>truthful\<close>: a client that is told its write is committed asked for a command that is committed with
  the index and term it is told, and a client that is told a value asked for a key that had it.
\<close>

definition committed_as :: "raft_node \<Rightarrow> command \<Rightarrow> u64 \<Rightarrow> u64 \<Rightarrow> bool" where
  "committed_as nd c t i \<longleftrightarrow> 0 < i \<and> i \<le> nd_commit_index nd
     \<and> node_entries nd ! (unat i - 1) = \<lparr>entry_index = i, entry_term = t, entry_command = c\<rparr>"

definition read_as :: "raft_node \<Rightarrow> bytes \<Rightarrow> client_read_reply \<Rightarrow> bool" where
  "read_as nd key y \<longleftrightarrow>
     (\<exists>n. unat (crr_index y) \<le> n \<and> n \<le> unat (nd_commit_index nd)
        \<and> crr_value y = kv_get key (kv_replay (take n (node_entries nd))))
     \<and> (crr_status y = Found \<longleftrightarrow> crr_value y \<noteq> None)"

definition tells_value :: "client_read_reply \<Rightarrow> bool" where
  "tells_value y \<longleftrightarrow> crr_status y = Found \<or> crr_status y = NotFound"

definition truthful :: "(connection \<times> wish) set \<Rightarrow> raft_node \<Rightarrow> server_effect list \<Rightarrow> bool" where
  "truthful reqs nd effects \<longleftrightarrow>
     (\<forall>con y. ReplyWrite con y \<in> set effects \<longrightarrow> cwr_status y = Committed \<longrightarrow>
        (\<exists>c. (con, Writes c) \<in> reqs \<and> committed_as nd c (cwr_term y) (cwr_index y)))
     \<and> (\<forall>con y. ReplyRead con y \<in> set effects \<longrightarrow> tells_value y \<longrightarrow>
        (\<exists>key. (con, Reads key) \<in> reqs \<and> read_as nd key y))"

lemma truthful_simps [simp]:
  "truthful reqs nd []" "truthful reqs nd (es @ fs) \<longleftrightarrow> truthful reqs nd es \<and> truthful reqs nd fs"
  by (auto simp: truthful_def)

lemma truthful_mono: "truthful reqs nd effects \<Longrightarrow> reqs \<subseteq> reqs' \<Longrightarrow> truthful reqs' nd effects"
  unfolding truthful_def by blast

text \<open>A recorded result is that of a committed entry.\<close>

lemma kv_apply_request:
  "kv_requests (snd (kv_apply i c t s)) rid = Some p \<Longrightarrow> kv_requests s rid = Some p \<or>
     ar_command p = c \<and> ar_index p = i \<and> ar_term p = t"
  by (auto simp: kv_apply_def Let_def split: if_splits option.splits command_type.splits)

lemma replayed_request:
  assumes "sequential es" and "kv_requests (kv_replay es) rid = Some p"
  shows "\<exists>j < length es. es ! j = \<lparr>entry_index = ar_index p, entry_term = ar_term p, entry_command = ar_command p\<rparr>"
  using assms
proof (induction es rule: rev_induct)
  case Nil
  then show ?case by (simp add: kv_init_def)
next
  case (snoc e es)
  have seq: "sequential es" using snoc.prems(1) by (simp add: sequential_snoc)
  have "kv_requests (snd (kv_apply (entry_index e) (entry_command e) (entry_term e) (kv_replay es))) rid = Some p"
    using snoc.prems(2) by (simp add: kv_replay_snoc apply_entry_def)
  then consider "kv_requests (kv_replay es) rid = Some p"
    | "ar_command p = entry_command e" "ar_index p = entry_index e" "ar_term p = entry_term e"
    using kv_apply_request by blast
  then show ?case
  proof cases
    case 1
    then obtain j where "j < length es"
      "es ! j = \<lparr>entry_index = ar_index p, entry_term = ar_term p, entry_command = ar_command p\<rparr>"
      using snoc.IH [OF seq] by blast
    then show ?thesis by (intro exI [of _ j]) (simp add: nth_append)
  next
    case 2
    then show ?thesis by (intro exI [of _ "length es"]) simp
  qed
qed

lemma request_committed:
  assumes core: "core_inv nd" and rec: "kv_request_result rid (nd_state nd) = Some p"
  shows "committed_as nd (ar_command p) (ar_term p) (ar_index p)"
proof -
  let ?n = "unat (kv_last_applied (nd_state nd))"
  let ?es = "take ?n (node_entries nd)"
  have st: "nd_state nd = kv_replay ?es" and seq: "sequential (node_entries nd)"
    and le: "kv_last_applied (nd_state nd) \<le> nd_commit_index nd"
    using core by (simp_all add: core_inv_def applied_prefix_def log_wf_def)
  have "kv_requests (kv_replay ?es) rid = Some p" using rec st unfolding kv_request_result_def by simp
  then obtain j where j: "j < length ?es"
    "?es ! j = \<lparr>entry_index = ar_index p, entry_term = ar_term p, entry_command = ar_command p\<rparr>"
    using replayed_request [OF sequential_take [OF seq]] by blast
  then have nth: "node_entries nd ! j = \<lparr>entry_index = ar_index p, entry_term = ar_term p, entry_command = ar_command p\<rparr>"
    and lt: "j < ?n" "j < length (node_entries nd)" by simp_all
  have "entry_index (node_entries nd ! j) = of_nat (Suc j)" using seq lt(2) by (simp add: sequential_def)
  then have idx: "ar_index p = of_nat (Suc j)" using nth by simp
  have "Suc j < 2 ^ 64" using lt(1) unsigned_less [of "kv_last_applied (nd_state nd)", where 'a = nat] by simp
  then have "unat (ar_index p) = Suc j" by (simp add: idx unat_of_nat take_bit_nat_eq_self del: of_nat_Suc)
  then show ?thesis
    using nth lt(1) le by (simp add: committed_as_def word_le_nat_alt word_less_nat_alt)
qed

lemma committed_as_kept:
  assumes "node_le nd nd'" and "committed_as nd c t i"
  shows "committed_as nd' c t i"
proof -
  let ?k = "unat (nd_commit_index nd)"
  have i: "0 < i" "i \<le> nd_commit_index nd" using assms(2) by (simp_all add: committed_as_def)
  then have lt: "unat i - 1 < ?k" by (simp add: word_le_nat_alt word_less_nat_alt)
  have "take ?k (node_entries nd') = take ?k (node_entries nd)" using assms(1) by (simp add: node_le_def)
  then have "node_entries nd' ! (unat i - 1) = node_entries nd ! (unat i - 1)" using nth_take [OF lt] by metis
  moreover have "i \<le> nd_commit_index nd'" using i assms(1) by (auto simp: node_le_def)
  ultimately show ?thesis using assms(2) by (simp add: committed_as_def)
qed

lemma read_as_kept:
  assumes "node_le nd nd'" and "read_as nd key y"
  shows "read_as nd' key y"
proof -
  obtain n where n: "unat (crr_index y) \<le> n" "n \<le> unat (nd_commit_index nd)"
    "crr_value y = kv_get key (kv_replay (take n (node_entries nd)))"
    using assms(2) by (auto simp: read_as_def)
  have le: "unat (nd_commit_index nd) \<le> unat (nd_commit_index nd')"
    and eq: "take (unat (nd_commit_index nd)) (node_entries nd') = take (unat (nd_commit_index nd)) (node_entries nd)"
    using assms(1) by (simp_all add: node_le_def word_le_nat_alt)
  have "take n (node_entries nd') = take n (node_entries nd)"
    using arg_cong [OF eq, of "take n"] n(2) by (simp add: min_absorb1)
  then show ?thesis using n le assms(2) unfolding read_as_def by (metis order_trans)
qed

lemma truthful_kept: "node_le nd nd' \<Longrightarrow> truthful reqs nd effects \<Longrightarrow> truthful reqs nd' effects"
  unfolding truthful_def using committed_as_kept read_as_kept by blast

text \<open>A read of the state is a read of the replay of the applied entries.\<close>

lemma state_read_as:
  assumes core: "core_inv nd" and i: "unat (crr_index y) \<le> unat (kv_last_applied (nd_state nd))"
    and v: "crr_value y = kv_get key (nd_state nd)" "crr_status y = (if crr_value y \<noteq> None then Found else NotFound)"
  shows "read_as nd key y"
proof -
  have "nd_state nd = kv_replay (take (unat (kv_last_applied (nd_state nd))) (node_entries nd))"
    and "unat (kv_last_applied (nd_state nd)) \<le> unat (nd_commit_index nd)"
    using core by (simp_all add: core_inv_def applied_prefix_def word_le_nat_alt)
  then show ?thesis using i v unfolding read_as_def by auto
qed

section \<open>Settling waiting clients\<close>

text \<open>
  \<open>settles sv effects sv'\<close>: entries leave the tables, their clients are answered truthfully, and nothing
  else changes that events depend on.
\<close>

definition settles :: "server \<Rightarrow> server_effect list \<Rightarrow> server \<Rightarrow> bool" where
  "settles sv effects sv' \<longleftrightarrow>
     sv_node sv' = sv_node sv \<and> sv_blocked_peers sv' = sv_blocked_peers sv \<and> sv_console_line sv' = sv_console_line sv
     \<and> (\<exists>P. sv_pending_writes sv' = filter P (sv_pending_writes sv))
     \<and> (\<exists>Q. sv_pending_reads sv' = filter Q (sv_pending_reads sv))
     \<and> waiting sv' + answered effects = waiting sv \<and> truthful (asking sv) (sv_node sv) effects"

lemma askers_filter: "askers (filter P W) \<subseteq> askers W"
  by (auto simp: askers_def)

lemma readers_filter: "readers (filter P R) \<subseteq> readers R"
  by (auto simp: readers_def)

lemma settles_asking: "settles sv effects sv' \<Longrightarrow> asking sv' \<subseteq> asking sv"
  unfolding settles_def asking_def using askers_filter readers_filter by (metis Un_mono)

lemma settles_trans:
  assumes ab: "settles a es b" and bc: "settles b fs c"
  shows "settles a (es @ fs) c"
proof -
  have "truthful (asking a) (sv_node a) fs"
    using bc truthful_mono [OF _ settles_asking [OF ab]] ab by (simp add: settles_def)
  moreover have "waiting c + answered (es @ fs) = waiting a"
  proof -
    have "waiting c + answered (es @ fs) = (waiting c + answered fs) + answered es" by (simp add: ac_simps)
    also have "\<dots> = waiting b + answered es" using bc by (simp add: settles_def)
    also have "\<dots> = waiting a" using ab by (simp add: settles_def)
    finally show ?thesis .
  qed
  moreover obtain P Q where "sv_pending_writes b = filter P (sv_pending_writes a)" "sv_pending_reads b = filter Q (sv_pending_reads a)"
    using ab by (auto simp: settles_def)
  moreover obtain P' Q' where "sv_pending_writes c = filter P' (sv_pending_writes b)" "sv_pending_reads c = filter Q' (sv_pending_reads b)"
    using bc by (auto simp: settles_def)
  ultimately show ?thesis
    using ab bc unfolding settles_def filter_filter truthful_simps by (simp add: filter_filter) blast
qed

lemma settles_quiet: "list_all (\<lambda>e. replied_by e = []) effects \<Longrightarrow> settles sv effects sv"
proof -
  assume q: "list_all (\<lambda>e. replied_by e = []) effects"
  then have "answered effects = {#}" by (induction effects) simp_all
  moreover have "truthful (asking sv) (sv_node sv) effects" using q by (auto simp: list_all_iff truthful_def)
  moreover have "filter (\<lambda>_. True) xs = xs" for xs :: "'a list" by simp
  ultimately show ?thesis unfolding settles_def by (metis (no_types, lifting) add.right_neutral)
qed

lemma settles_flags [simp]:
  "settles sv effects (sv'\<lparr>sv_fatal := b\<rparr>) \<longleftrightarrow> settles sv effects sv'"
  "settles sv effects (sv'\<lparr>sv_running := b\<rparr>) \<longleftrightarrow> settles sv effects sv'"
  "settles (sv\<lparr>sv_fatal := b\<rparr>) effects sv' \<longleftrightarrow> settles sv effects sv'"
  by (simp_all add: settles_def waiting_def asking_def)

lemma answered_writes [simp]: "answered (map (\<lambda>con. ReplyWrite con y) cons) = mset cons"
  by (induction cons) simp_all

lemma answered_write_table:
  "write_waiters (filter (\<lambda>(i, p). keep i p) W) + answered (concat (map (\<lambda>(i, p). if keep i p then []
     else map (\<lambda>con. ReplyWrite con (y i p)) (pw_connections p)) W)) = write_waiters W"
  by (induction W) (auto simp: ac_simps)

lemma answered_read_table:
  "read_waiters (filter (\<lambda>(i, p). keep i p) R) + answered (concat (map (\<lambda>(i, p). if keep i p then []
     else [ReplyRead (pr_connection p) (y i p)]) R)) = read_waiters R"
  by (induction R) (auto simp: ac_simps)

lemma add_pairs: "a + b = (c :: 'a multiset) \<Longrightarrow> d + e = f \<Longrightarrow> (a + d) + (b + e) = c + f"
  by (auto simp: ac_simps)

lemma answered_all_writes:
  "answered (concat (map (\<lambda>(i, p). map (\<lambda>con. ReplyWrite con (y i p)) (pw_connections p)) W)) = write_waiters W"
  by (induction W) auto

lemma answered_all_reads: "answered (map (\<lambda>(i, p). ReplyRead (pr_connection p) (y i p)) R) = read_waiters R"
  by (induction R) auto

lemma none_kept: "\<exists>P. [] = filter P xs"
  by (rule exI [of _ "\<lambda>_. False"]) simp

lemma expire_pending_settles:
  assumes "expire_pending sv = (sv', effects)"
  shows "settles sv effects sv'"
    and "sv_pending_writes sv' = filter (\<lambda>e. still_leading sv (pw_term (snd e))) (sv_pending_writes sv)"
    and "sv_pending_reads sv' = filter (\<lambda>e. still_leading sv (pr_term (snd e))) (sv_pending_reads sv)"
proof -
  let ?W = "sv_pending_writes sv" and ?R = "sv_pending_reads sv"
  have run: "sv' = fst (expire_pending sv)" "effects = snd (expire_pending sv)" using assms by simp_all
  have w: "waiting sv' + answered effects = waiting sv"
  proof -
    note sums = answered_write_table [of "\<lambda>i p. still_leading sv (pw_term p)" ?W
        "\<lambda>i p. write_reply OutcomeUnknown (pw_term p) i (leader_hint sv)"]
      answered_read_table [of "\<lambda>i p. still_leading sv (pr_term p)" ?R
        "\<lambda>i p. read_reply client_read_status.NotLeader (sv_term sv) 0 (leader_hint sv) None"]
    show ?thesis unfolding run using add_pairs [OF sums] by (simp add: expire_pending_def waiting_def)
  qed
  have t: "truthful (asking sv) (sv_node sv) effects"
    using assms
    by (auto simp: expire_pending_def truthful_def write_reply_def read_reply_def tells_value_def split: if_splits)
  show "sv_pending_writes sv' = filter (\<lambda>e. still_leading sv (pw_term (snd e))) ?W"
    and "sv_pending_reads sv' = filter (\<lambda>e. still_leading sv (pr_term (snd e))) ?R"
    using assms by (auto simp: expire_pending_def split_def)
  then show "settles sv effects sv'" using assms w t by (auto simp: settles_def expire_pending_def)
qed

lemma fail_pending_settles:
  assumes "fail_pending sv = (sv', effects)"
  shows "settles sv effects sv'" "sv_pending_writes sv' = []" "sv_pending_reads sv' = []"
proof -
  let ?W = "sv_pending_writes sv" and ?R = "sv_pending_reads sv"
  show e: "sv_pending_writes sv' = []" "sv_pending_reads sv' = []" using assms by (auto simp: fail_pending_def)
  have run: "sv' = fst (fail_pending sv)" "effects = snd (fail_pending sv)" using assms by simp_all
  have w: "waiting sv' + answered effects = waiting sv"
    by (simp add: run fail_pending_def waiting_def answered_all_writes answered_all_reads)
  have t: "truthful (asking sv) (sv_node sv) effects"
    using assms by (auto simp: fail_pending_def truthful_def write_reply_def read_reply_def tells_value_def)
  show "settles sv effects sv'" unfolding settles_def e using w t by (intro conjI none_kept) (simp_all add: run fail_pending_def)
qed

text \<open>Removing an entry that was found: the keys of the tables are distinct.\<close>

definition keys_distinct :: "server \<Rightarrow> bool" where
  "keys_distinct sv \<longleftrightarrow> distinct (map fst (sv_pending_writes sv)) \<and> distinct (map fst (sv_pending_reads sv))"

lemma settles_keys: "settles sv effects sv' \<Longrightarrow> keys_distinct sv \<Longrightarrow> keys_distinct sv'"
  by (auto simp: settles_def keys_distinct_def distinct_map_filter)

lemma erase_absent: "k \<notin> fst ` set W \<Longrightarrow> erase k W = W"
  by (induction W) (auto simp: erase_def)

lemma erase_found:
  assumes "distinct (map fst W)" and "map_of W k = Some p"
  shows "write_waiters (erase k W) + mset (pw_connections p) = write_waiters W"
  using assms
proof (induction W)
  case (Cons e W)
  show ?case
  proof (cases "fst e = k")
    case True
    then have "erase k (e # W) = W" using Cons.prems(1) erase_absent [of k W] by (auto simp: erase_def)
    then show ?thesis using Cons.prems(2) True by (cases e) (simp add: ac_simps)
  next
    case False
    then have "map_of W k = Some p" using Cons.prems(2) by (cases e) auto
    then show ?thesis using Cons False by (simp add: erase_def ac_simps)
  qed
qed simp

lemma erase_read_found:
  assumes "distinct (map fst R)" and "map_of R k = Some p"
  shows "add_mset (pr_connection p) (read_waiters (erase k R)) = read_waiters R"
  using assms
proof (induction R)
  case (Cons e R)
  show ?case
  proof (cases "fst e = k")
    case True
    then have "erase k (e # R) = R" using Cons.prems(1) erase_absent [of k R] by (auto simp: erase_def)
    then show ?thesis using Cons.prems(2) True by (cases e) (simp add: ac_simps)
  next
    case False
    then have "map_of R k = Some p" using Cons.prems(2) by (cases e) auto
    then show ?thesis using Cons False by (simp add: erase_def add_mset_commute)
  qed
qed simp

section \<open>Processing the actions of an event\<close>

definition frames :: "server_effect list \<Rightarrow> (u64 \<times> raft_envelope) set" where
  "frames effects = {(p, e). SendFrame p e \<in> set effects}"

lemma frames_simps [simp]:
  "frames [] = {}" "frames (es @ fs) = frames es \<union> frames fs"
  "frames (e # es) = (case e of SendFrame p x \<Rightarrow> {(p, x)} | _ \<Rightarrow> {}) \<union> frames es"
  by (auto simp: frames_def split: server_effect.splits)

lemma expire_frames [simp]: "frames (snd (expire_pending sv)) = {}"
  by (auto simp: frames_def expire_pending_def split: if_splits)

lemma fail_frames [simp]: "frames (snd (fail_pending sv)) = {}"
  by (auto simp: frames_def fail_pending_def)

lemma reply_frames [simp]: "frames (map (\<lambda>con. ReplyWrite con y) cons) = {}"
  by (auto simp: frames_def)

lemma answer_applied_frames: "answer_applied es sv = (sv', effects) \<Longrightarrow> frames effects = {}"
  by (induction es arbitrary: sv effects) (auto simp: Let_def split: option.splits prod.splits)

lemma answer_reads_frames: "answer_reads rs sv = (sv', effects) \<Longrightarrow> frames effects = {}"
  by (induction rs arbitrary: sv effects) (auto simp: Let_def split: option.splits prod.splits)

lemma result_reply_truthful:
  assumes "core_inv (sv_node sv)" and "cwr_status y = Committed"
    and "y = result_reply (kv_request_result rid (nd_state (sv_node sv))) c sv"
  shows "committed_as (sv_node sv) c (cwr_term y) (cwr_index y)"
  using assms request_committed [OF assms(1), of rid]
  by (auto simp: result_reply_def write_reply_def split: option.splits if_splits)

lemma answer_applied_settles:
  assumes "keys_distinct sv" and "core_inv (sv_node sv)" and "answer_applied es sv = (sv', effects)"
  shows "settles sv effects sv'"
  using assms
proof (induction es arbitrary: sv sv' effects)
  case Nil
  then show ?case by (simp add: settles_quiet)
next
  case (Cons entry es)
  let ?out = "Print (str ''applied index '' @ decimal (unat (al_index entry)) @ [newline])"
  show ?case
  proof (cases "map_of (sv_pending_writes sv) (al_index entry)")
    case None
    obtain sv1 fs where r: "answer_applied es sv = (sv1, fs)" by fastforce
    then have e: "sv' = sv1" "effects = [?out] @ fs" using Cons.prems(3) None by auto
    have "settles sv [?out] sv" by (rule settles_quiet) simp
    then show ?thesis unfolding e by (rule settles_trans) (rule Cons.IH [OF Cons.prems(1,2) r])
  next
    case (Some pending)
    let ?c = "pw_command pending"
    let ?y = "result_reply (kv_request_result (the (cmd_request_id ?c)) (nd_state (sv_node sv))) ?c sv"
    let ?replies = "map (\<lambda>con. ReplyWrite con ?y) (pw_connections pending)"
    let ?sv = "sv\<lparr>sv_pending_writes := erase (al_index entry) (sv_pending_writes sv)\<rparr>"
    obtain sv1 fs where r: "answer_applied es ?sv = (sv1, fs)" by fastforce
    then have e: "sv' = sv1" "effects = (?out # ?replies) @ fs" using Cons.prems(3) Some by (auto simp: Let_def)
    have "waiting ?sv + answered (?out # ?replies) = waiting sv"
      using erase_found [OF _ Some] Cons.prems(1) by (simp add: keys_distinct_def waiting_def ac_simps)
    moreover have "truthful (asking sv) (sv_node sv) (?out # ?replies)"
    proof -
      have "(con, Writes ?c) \<in> asking sv" if "con \<in> set (pw_connections pending)" for con
        using that map_of_SomeD [OF Some] by (force simp: asking_def askers_def)
      then show ?thesis
        using result_reply_truthful [OF Cons.prems(2), of ?y "the (cmd_request_id ?c)" ?c] by (auto simp: truthful_def)
    qed
    moreover have "\<exists>Q. sv_pending_reads sv = filter Q (sv_pending_reads sv)" by (rule exI [of _ "\<lambda>_. True"]) simp
    ultimately have s: "settles sv (?out # ?replies) ?sv" by (auto simp: settles_def erase_def)
    show ?thesis
      unfolding e by (rule settles_trans [OF s]) (rule Cons.IH [OF settles_keys [OF s Cons.prems(1)] _ r], use Cons.prems(2) in simp)
  qed
qed

lemma answer_reads_settles:
  assumes "keys_distinct sv" and "core_inv (sv_node sv)"
    and "\<forall>x \<in> set rs. rr_index x \<le> kv_last_applied (nd_state (sv_node sv))" and "answer_reads rs sv = (sv', effects)"
  shows "settles sv effects sv'"
  using assms
proof (induction rs arbitrary: sv sv' effects)
  case Nil
  then show ?case by (simp add: settles_quiet)
next
  case (Cons ready rs)
  show ?case
  proof (cases "map_of (sv_pending_reads sv) (rr_id ready)")
    case None
    then show ?thesis using Cons by simp
  next
    case (Some pending)
    let ?v = "kv_get (pr_key pending) (nd_state (sv_node sv))"
    let ?reply = "ReplyRead (pr_connection pending) (read_reply (if ?v \<noteq> None then Found else NotFound)
      (pr_term pending) (rr_index ready) (sv_id sv) ?v)"
    let ?sv = "sv\<lparr>sv_pending_reads := erase (rr_id ready) (sv_pending_reads sv)\<rparr>"
    obtain sv1 fs where r: "answer_reads rs ?sv = (sv1, fs)" by fastforce
    then have e: "sv' = sv1" "effects = [?reply] @ fs" using Cons.prems(4) Some by (auto simp: Let_def)
    have "waiting ?sv + answered [?reply] = waiting sv"
      using erase_read_found [OF _ Some] Cons.prems(1) by (auto simp: keys_distinct_def waiting_def ac_simps)
    moreover have "\<exists>P. sv_pending_writes sv = filter P (sv_pending_writes sv)" by (rule exI [of _ "\<lambda>_. True"]) simp
    moreover have "truthful (asking sv) (sv_node sv) [?reply]"
    proof -
      have "(pr_connection pending, Reads (pr_key pending)) \<in> asking sv"
        using map_of_SomeD [OF Some] by (force simp: asking_def readers_def)
      moreover have "read_as (sv_node sv) (pr_key pending) (read_reply (if ?v \<noteq> None then Found else NotFound)
          (pr_term pending) (rr_index ready) (sv_id sv) ?v)"
        by (rule state_read_as [OF Cons.prems(2)]) (use Cons.prems(3) in \<open>simp_all add: read_reply_def word_le_nat_alt\<close>)
      ultimately show ?thesis by (auto simp: truthful_def)
    qed
    ultimately have s: "settles sv [?reply] ?sv" by (auto simp: settles_def erase_def)
    show ?thesis
      unfolding e
      by (rule settles_trans [OF s], rule Cons.IH [OF settles_keys [OF s Cons.prems(1)] _ _ r])
        (use Cons.prems(2,3) in simp_all)
  qed
qed

text \<open>The frames carry messages of the event, to peers that are not blocked.\<close>

definition carried :: "server \<Rightarrow> append_entries option \<Rightarrow> outbound_raft_message list \<Rightarrow> (u64 \<times> raft_envelope) set" where
  "carried sv rt ms = {(p, e). \<not> sv_blocked_peers sv ! unat (p - 1) \<and> (\<exists>m \<in> set ms. ob_peer_id m = p
     \<and> e = \<lparr>env_sender_id = sv_id sv, env_message = ob_message m,
            env_replied_to = (if is_append_reply (ob_message m) then rt else None)\<rparr>)}"

lemma send_messages_effects:
  "send_messages ms rt sv = (ok, effects) \<Longrightarrow>
     list_all (\<lambda>e. replied_by e = []) effects \<and> frames effects \<subseteq> carried sv rt ms"
proof (induction ms arbitrary: ok effects)
  case Nil
  then show ?case by (auto simp: carried_def)
next
  case (Cons m ms)
  obtain ok1 fs where r: "send_messages ms rt sv = (ok1, fs)" by fastforce
  have "carried sv rt ms \<subseteq> carried sv rt (m # ms)" by (auto simp: carried_def)
  then show ?case
    using Cons.prems Cons.IH [OF r] r by (auto simp: Let_def carried_def split: if_splits)
qed

lemma process_settles:
  assumes keys: "keys_distinct sv" and core: "core_inv (sv_node sv)"
    and ready: "\<forall>x \<in> set (reads_of r). rr_index x \<le> kv_last_applied (nd_state (sv_node sv))"
    and run: "process r rt sv = (sv', effects)"
  shows "settles sv effects sv'"
    and "\<forall>e \<in> set (sv_pending_writes sv'). still_leading sv (pw_term (snd e))"
    and "\<forall>e \<in> set (sv_pending_reads sv'). still_leading sv (pr_term (snd e))"
    and "frames effects \<subseteq> carried sv rt (msgs r)"
proof -
  obtain sv1 es where x: "expire_pending sv = (sv1, es)" by fastforce
  have fx: "frames es = {}" using expire_frames [of sv] x by simp
  note s1 = expire_pending_settles [OF x]
  have blocked: "carried sv1 rt ms = carried sv rt ms" for ms
    using s1(1) by (simp add: carried_def settles_def sv_id_def)
  have keep: "\<exists>fs. effects = es @ fs \<and> settles sv1 fs sv' \<and> frames fs \<subseteq> carried sv rt (msgs r)"
  proof (cases r)
    case (Inl e)
    obtain sv2 fs where f: "fail_pending sv1 = (sv2, fs)" by fastforce
    let ?out = "PrintError (str ''Raft event error '' @ decimal (node_error_code e) @ [newline])"
    have "settles sv1 ([?out] @ fs) sv2"
      by (rule settles_trans [OF settles_quiet fail_pending_settles(1) [OF f]]) simp
    moreover have "settles sv1 [?out] sv1" by (rule settles_quiet) simp
    moreover have "frames fs = {}" using fail_frames [of sv1] f by simp
    ultimately show ?thesis using run x f Inl by (auto simp: process_def Let_def split: if_splits)
  next
    case (Inr a)
    define timers where "timers = (if reset_election_timer a then [ResetElectionTimer] else [])
      @ (if schedule_heartbeat a then [SetHeartbeatDeadline] else [])
      @ (case proposed_index a of None \<Rightarrow> []
         | Some index \<Rightarrow> [Print (str ''proposed index '' @ decimal (unat index) @ [newline])])"
    have t: "settles sv1 timers sv1" "frames timers = {}"
      by (auto simp: timers_def intro!: settles_quiet split: option.split)
    obtain sv2 ans where a2: "answer_applied (applied a) sv1 = (sv2, ans)" by fastforce
    obtain sv3 rds where a3: "answer_reads (ready_reads a) sv2 = (sv3, rds)" by fastforce
    obtain ok sent where a4: "send_messages (messages a) rt sv3 = (ok, sent)" by fastforce
    obtain sv4 fs where f: "fail_pending sv3 = (sv4, fs)" by fastforce
    have k1: "keys_distinct sv1" by (rule settles_keys [OF s1(1) keys])
    have c1: "core_inv (sv_node sv1)" using s1(1) core by (simp add: settles_def)
    have s2: "settles sv1 ans sv2" by (rule answer_applied_settles [OF k1 c1 a2])
    have "sv_node sv2 = sv_node sv" using s1(1) s2 by (simp add: settles_def)
    then have s3: "settles sv2 rds sv3"
      using core ready Inr by (intro answer_reads_settles [OF settles_keys [OF s2 k1] _ _ a3]) simp_all
    have s4: "settles sv3 sent sv3" "frames sent \<subseteq> carried sv3 rt (messages a)"
      using send_messages_effects [OF a4] by (auto intro: settles_quiet)
    have "settles sv3 ([PrintError (str ''could not encode Raft message'' @ [newline])] @ fs) sv4"
      by (rule settles_trans [OF settles_quiet fail_pending_settles(1) [OF f]]) simp
    note s5 = settles_trans [OF s4(1) this]
    note front = settles_trans [OF t(1) settles_trans [OF s2 s3]]
    have "frames ans = {}" "frames rds = {}" "frames fs = {}"
      using answer_applied_frames [OF a2] answer_reads_frames [OF a3] fail_frames [of sv3] f by simp_all
    moreover have "carried sv3 rt (messages a) = carried sv rt (messages a)"
      using s1(1) s2 s3 by (simp add: carried_def settles_def sv_id_def)
    moreover have "effects = es @ (timers @ ans @ rds) @ (if ok then sent
        else sent @ [PrintError (str ''could not encode Raft message'' @ [newline])] @ fs)"
      and "sv' = (if ok then sv3 else sv4\<lparr>sv_fatal := True, sv_running := False\<rparr>)"
      using run x a2 a3 a4 f Inr by (auto simp: process_def timers_def [symmetric])
    ultimately show ?thesis
      using settles_trans [OF front s4(1)] settles_trans [OF front s5] s4(2) t(2)
      by (intro exI [of _ "(timers @ ans @ rds) @ (if ok then sent
        else sent @ [PrintError (str ''could not encode Raft message'' @ [newline])] @ fs)"]) (simp add: Inr)
  qed
  then obtain fs where fs: "effects = es @ fs" "settles sv1 fs sv'" "frames fs \<subseteq> carried sv rt (msgs r)" by blast
  show "settles sv effects sv'" unfolding fs(1) by (rule settles_trans [OF s1(1) fs(2)])
  show "frames effects \<subseteq> carried sv rt (msgs r)" using fs fx by simp
  show "\<forall>e \<in> set (sv_pending_writes sv'). still_leading sv (pw_term (snd e))"
    and "\<forall>e \<in> set (sv_pending_reads sv'). still_leading sv (pr_term (snd e))"
    using fs(2) s1(2,3) by (auto simp: settles_def)
qed

end
