(* ===== verification/Raft_Server_Inv.thy ===== *)
theory Raft_Server_Inv
  imports Raft_Server_Tables
begin

text \<open>
  What the server process keeps, from one answer of \<open>poll\<close> to the next.

  \<^item> \<open>server_inv\<close>: the node's invariant, its place in the cluster, and tables of waiting clients that
    are in key order, bounded, and hold only clients of the current leadership.
  \<^item> \<open>outcome\<close>: everything said of a handler at once, and closed under composition: the invariant,
    what the node does not take back, who waits and who is answered, what clients are told, and that
    the node moves as the cluster's step relation allows.
  \<^item> one lemma per handler, up to the whole event loop.
\<close>

section \<open>The invariant\<close>

text \<open>The waiting write under index \<open>fst e\<close> is the log's entry there: its command, in its term.\<close>

definition write_in_log :: "raft_node \<Rightarrow> u64 \<times> pending_write \<Rightarrow> bool" where
  "write_in_log nd e \<longleftrightarrow> 0 < unat (fst e) \<and> unat (fst e) \<le> length (node_entries nd)
     \<and> node_entries nd ! (unat (fst e) - 1)
         = \<lparr>entry_index = fst e, entry_term = pw_term (snd e), entry_command = pw_command (snd e)\<rparr>"

definition write_ok :: "raft_node \<Rightarrow> u64 \<times> pending_write \<Rightarrow> bool" where
  "write_ok nd e \<longleftrightarrow> node_role nd = raft_role.Leader \<and> pw_term (snd e) = node_term nd
     \<and> (\<not> nd_stopped nd \<longrightarrow> write_in_log nd e)
     \<and> cmd_request_id (pw_command (snd e)) \<noteq> None
     \<and> pw_connections (snd e) \<noteq> [] \<and> length (pw_connections (snd e)) \<le> 1024"

definition read_ok :: "raft_node \<Rightarrow> u64 \<times> pending_read \<Rightarrow> bool" where
  "read_ok nd e \<longleftrightarrow> node_role nd = raft_role.Leader \<and> pr_term (snd e) = node_term nd
     \<and> (nd_next_read_id nd \<noteq> 0 \<longrightarrow> fst e < nd_next_read_id nd)"

definition ordered :: "(u64 \<times> 'a) list \<Rightarrow> bool" where
  "ordered m \<longleftrightarrow> sorted_wrt (<) (map fst m)"

definition tables_ok :: "raft_node \<Rightarrow> (u64 \<times> pending_write) list \<Rightarrow> (u64 \<times> pending_read) list \<Rightarrow> bool" where
  "tables_ok nd W R \<longleftrightarrow> ordered W \<and> ordered R \<and> length W + length R \<le> 1024
     \<and> (\<forall>e \<in> set W. write_ok nd e) \<and> (\<forall>e \<in> set R. read_ok nd e)"

definition seated :: "server \<Rightarrow> bool" where
  "seated sv \<longleftrightarrow> full_inv (sv_node sv) \<and> sv_id sv \<in> ids \<and> nd_peer_ids (sv_node sv) = peers_of (sv_id sv)
     \<and> length (sv_blocked_peers sv) = 3 \<and> length (sv_console_line sv) \<le> 1024 * 1024"

definition server_inv :: "server \<Rightarrow> bool" where
  "server_inv sv \<longleftrightarrow> seated sv \<and> tables_ok (sv_node sv) (sv_pending_writes sv) (sv_pending_reads sv)"

text \<open>The tables between an event of the node and the end of \<open>process\<close>.\<close>

definition tables_pre :: "raft_node \<Rightarrow> (u64 \<times> pending_write) list \<Rightarrow> (u64 \<times> pending_read) list \<Rightarrow> bool" where
  "tables_pre nd W R \<longleftrightarrow> ordered W \<and> ordered R \<and> length W + length R \<le> 1024
     \<and> (\<forall>e \<in> set W. node_role nd = raft_role.Leader \<and> pw_term (snd e) = node_term nd \<longrightarrow> write_ok nd e)
     \<and> (\<forall>e \<in> set R. node_role nd = raft_role.Leader \<and> pr_term (snd e) = node_term nd \<longrightarrow> read_ok nd e)"

lemma ordered_filter: "ordered m \<Longrightarrow> ordered (filter P m)"
  by (induction m) (auto simp: ordered_def)

lemma ordered_distinct: "ordered m \<Longrightarrow> distinct (map fst m)"
  by (simp add: ordered_def strict_sorted_iff)

lemma ordered_emplace: "ordered m \<Longrightarrow> ordered (emplace k v m)"
  by (simp add: ordered_def sorted_emplace)

lemma emplace_fresh: "k \<notin> fst ` set m \<Longrightarrow> mset (emplace k v m) = add_mset (k, v) (mset m)"
  by (induction m) auto

lemma process_inv:
  assumes seat: "seated sv" and pre: "tables_pre (sv_node sv) (sv_pending_writes sv) (sv_pending_reads sv)"
    and ready: "\<forall>x \<in> set (reads_of r). rr_index x \<le> kv_last_applied (nd_state (sv_node sv))"
    and run: "process r rt sv = (sv', effects)"
  shows "server_inv sv' \<and> settles sv effects sv' \<and> frames effects \<subseteq> carried sv rt (msgs r)"
proof -
  have "keys_distinct sv" using pre by (simp add: tables_pre_def keys_distinct_def ordered_distinct)
  moreover have "core_inv (sv_node sv)" using seat full_inv_parts(3) by (simp add: seated_def)
  ultimately have p: "settles sv effects sv'"
    "\<forall>e \<in> set (sv_pending_writes sv'). still_leading sv (pw_term (snd e))"
    "\<forall>e \<in> set (sv_pending_reads sv'). still_leading sv (pr_term (snd e))"
    "frames effects \<subseteq> carried sv rt (msgs r)"
    using process_settles [OF _ _ ready run] by blast+
  obtain P Q where f: "sv_pending_writes sv' = filter P (sv_pending_writes sv)" "sv_pending_reads sv' = filter Q (sv_pending_reads sv)"
    using p(1) by (auto simp: settles_def)
  have same: "sv_node sv' = sv_node sv" "sv_blocked_peers sv' = sv_blocked_peers sv" "sv_console_line sv' = sv_console_line sv"
    using p(1) by (simp_all add: settles_def)
  have "length (filter P (sv_pending_writes sv)) + length (filter Q (sv_pending_reads sv)) \<le> 1024"
    using pre length_filter_le [of P "sv_pending_writes sv"] length_filter_le [of Q "sv_pending_reads sv"]
    unfolding tables_pre_def by linarith
  moreover have "\<forall>e \<in> set (sv_pending_writes sv'). write_ok (sv_node sv) e"
    and "\<forall>e \<in> set (sv_pending_reads sv'). read_ok (sv_node sv) e"
    using pre p(2,3) f by (auto simp: tables_pre_def still_leading_def leading_def sv_term_def)
  ultimately have "tables_ok (sv_node sv') (sv_pending_writes sv') (sv_pending_reads sv')"
    using pre f by (simp add: tables_ok_def tables_pre_def same ordered_filter)
  moreover have "seated sv'" using seat by (simp add: seated_def same sv_id_def)
  ultimately show ?thesis using p by (simp add: server_inv_def)
qed

text \<open>An event leaves the entries of the same leadership right.\<close>

lemma event_keeps_leader:
  assumes inv: "full_inv nd" and run: "node_step ev nd w = (r, nd', w')"
    and role: "node_role nd = raft_role.Leader" "node_role nd' = raft_role.Leader" and live: "\<not> nd_stopped nd'"
  shows "\<not> nd_stopped nd \<and> (\<exists>xs. node_entries nd' = node_entries nd @ xs)"
proof -
  have l: "local_step ev nd r nd'" by (rule node_step_local [OF inv run])
  then have inv': "full_inv nd'" by (simp add: local_step_def)
  have "\<not> nd_stopped nd" using node_step_sound [OF full_inv_parts(1) [OF inv] run] live by (auto simp: sound_step_def node_le_def)
  moreover have "leads nd'"
    using full_inv_parts(1) [OF inv'] role(2) live by (auto simp: node_inv_def lead_inv_def leads_def split: option.splits)
  then have "\<exists>xs. node_entries nd' = node_entries nd @ xs"
    using l role(1) by (auto simp: local_step_def lead_step_def wins_def)
  ultimately show ?thesis by simp
qed

lemma write_in_log_kept: "write_in_log nd e \<Longrightarrow> node_entries nd' = node_entries nd @ xs \<Longrightarrow> write_in_log nd' e"
  by (auto simp: write_in_log_def nth_append)

lemma write_ok_kept:
  assumes "full_inv nd" and "node_step ev nd w = (r, nd', w')" and "write_ok nd e"
    and "node_role nd' = raft_role.Leader" and "pw_term (snd e) = node_term nd'"
  shows "write_ok nd' e"
  using assms event_keeps_leader [OF assms(1,2)] write_in_log_kept by (fastforce simp: write_ok_def)

lemma read_ok_kept:
  assumes "node_step ev nd w = (r, nd', w')" and "read_ok nd e"
    and "node_role nd' = raft_role.Leader" and "pr_term (snd e) = node_term nd'"
  shows "read_ok nd' e"
  using assms(2-) next_read_id_step [OF assms(1)] below_next [of "fst e" "nd_next_read_id nd"] by (auto simp: read_ok_def)

lemma tables_pre_kept:
  assumes "full_inv nd" and "node_step ev nd w = (r, nd', w')" and "tables_ok nd W R"
  shows "tables_pre nd' W R"
  using assms write_ok_kept [OF assms(1,2)] read_ok_kept [OF assms(2)]
  by (simp add: tables_pre_def tables_ok_def)

text \<open>An event that changes neither term nor role leaves all of them right.\<close>

lemma tables_ok_kept:
  assumes "full_inv nd" and "node_step ev nd w = (r, nd', w')" and "tables_ok nd W R"
    and "nd_metadata nd' = nd_metadata nd" "nd_election nd' = nd_election nd"
  shows "tables_ok nd' W R"
proof -
  have "node_role nd' = node_role nd" "node_term nd' = node_term nd" using assms(4,5) by (simp_all add: node_role_def node_term_def)
  then show ?thesis
    using tables_pre_kept [OF assms(1-3)] assms(3) by (auto simp: tables_pre_def tables_ok_def write_ok_def read_ok_def)
qed

section \<open>The server as a part of the cluster\<close>

text \<open>
  \<open>follows i nd heard sent nd'\<close>: in every cluster whose node \<open>i\<close> is \<open>nd\<close> and whose network has the
  envelopes \<open>heard\<close> for it, steps of the cluster take that node, and no other, to \<open>nd'\<close>, and put all of
  \<open>sent\<close> into the network.
\<close>

definition follows :: "u64 \<Rightarrow> raft_node \<Rightarrow> raft_envelope set \<Rightarrow> (u64 \<times> raft_envelope) set \<Rightarrow> raft_node \<Rightarrow> bool" where
  "follows i nd heard sent nd' \<longleftrightarrow>
     (\<forall>s :: cluster. cl_node s i = nd \<longrightarrow> (\<forall>e \<in> heard. (i, e) \<in> cl_net s) \<longrightarrow>
        (\<exists>s'. cluster_step\<^sup>*\<^sup>* s s' \<and> cl_node s' = (cl_node s)(i := nd') \<and> cl_net s \<subseteq> cl_net s' \<and> sent \<subseteq> cl_net s'))"

lemma follows_refl [simp]: "follows i nd heard {} nd"
  unfolding follows_def by (metis empty_subsetI fun_upd_triv order_refl rtranclp.rtrancl_refl)

lemma follows_trans:
  assumes ab: "follows i a h x b" and bc: "follows i b k y c"
  shows "follows i a (h \<union> k) (x \<union> y) c"
  unfolding follows_def
proof (intro allI impI)
  fix s :: cluster
  assume s: "cl_node s i = a" "\<forall>e \<in> h \<union> k. (i, e) \<in> cl_net s"
  obtain t where t: "cluster_step\<^sup>*\<^sup>* s t" "cl_node t = (cl_node s)(i := b)" "cl_net s \<subseteq> cl_net t" "x \<subseteq> cl_net t"
    using ab s unfolding follows_def by blast
  then have "cl_node t i = b" "\<forall>e \<in> k. (i, e) \<in> cl_net t" using s by auto
  then obtain u where u: "cluster_step\<^sup>*\<^sup>* t u" "cl_node u = (cl_node t)(i := c)" "cl_net t \<subseteq> cl_net u" "y \<subseteq> cl_net u"
    using bc unfolding follows_def by blast
  show "\<exists>s'. cluster_step\<^sup>*\<^sup>* s s' \<and> cl_node s' = (cl_node s)(i := c) \<and> cl_net s \<subseteq> cl_net s' \<and> x \<union> y \<subseteq> cl_net s'"
    using t u by (intro exI [of _ u]) auto
qed

lemma follows_mono:
  assumes f: "follows i nd h x nd'" and sub: "h \<subseteq> k" "y \<subseteq> x"
  shows "follows i nd k y nd'"
  unfolding follows_def
proof (intro allI impI)
  fix s :: cluster
  assume "cl_node s i = nd" "\<forall>e \<in> k. (i, e) \<in> cl_net s"
  then obtain s' where "cluster_step\<^sup>*\<^sup>* s s'" "cl_node s' = (cl_node s)(i := nd')" "cl_net s \<subseteq> cl_net s'" "x \<subseteq> cl_net s'"
    using f sub(1) unfolding follows_def by blast
  then show "\<exists>s'. cluster_step\<^sup>*\<^sup>* s s' \<and> cl_node s' = (cl_node s)(i := nd') \<and> cl_net s \<subseteq> cl_net s' \<and> y \<subseteq> cl_net s'"
    using sub(2) by blast
qed

lemma follows_event:
  assumes "i \<in> ids" and "local_event ev \<or> (\<exists>e \<in> heard. event_of e = Some ev)"
    and run: "node_step ev nd w = (r, nd', w')"
    and sent: "sent \<subseteq> (\<lambda>m. (ob_peer_id m, envelope_of i ev (ob_message m))) ` set (msgs r)"
  shows "follows i nd heard sent nd'"
  unfolding follows_def
proof (intro allI impI)
  fix s :: cluster
  assume s: "cl_node s i = nd" "\<forall>e \<in> heard. (i, e) \<in> cl_net s"
  then have "enabled i ev s" using assms(2) by (auto simp: enabled_def)
  moreover have "node_step ev (cl_node s i) w = (r, nd', w')" using run s(1) by simp
  ultimately have "cluster_step s (move i ev r nd' s)" by (rule Event [OF assms(1)])
  then show "\<exists>s'. cluster_step\<^sup>*\<^sup>* s s' \<and> cl_node s' = (cl_node s)(i := nd') \<and> cl_net s \<subseteq> cl_net s' \<and> sent \<subseteq> cl_net s'"
    using sent by (intro exI [of _ "move i ev r nd' s"]) auto
qed

section \<open>What a handler does\<close>

text \<open>
  \<open>outcome sv new reqs heard effects sv'\<close>: \<open>new\<close> are the connections of clients that came in, \<open>reqs\<close>
  the requests they made, \<open>heard\<close> the envelopes received.
\<close>

definition outcome :: "server \<Rightarrow> connection multiset \<Rightarrow> (connection \<times> wish) set \<Rightarrow> raft_envelope set
    \<Rightarrow> server_effect list \<Rightarrow> server \<Rightarrow> bool" where
  "outcome sv new reqs heard effects sv' \<longleftrightarrow>
     server_inv sv' \<and> node_le (sv_node sv) (sv_node sv')
     \<and> waiting sv' + answered effects = waiting sv + new
     \<and> asking sv' \<subseteq> asking sv \<union> reqs \<and> truthful (asking sv \<union> reqs) (sv_node sv') effects
     \<and> follows (sv_id sv) (sv_node sv) heard (frames effects) (sv_node sv')"

lemma node_le_id: "node_le (sv_node sv) (sv_node sv') \<Longrightarrow> sv_id sv' = sv_id sv"
  by (simp add: node_le_def sv_id_def)

lemma outcome_trans:
  assumes ab: "outcome a n1 q1 h1 es b" and bc: "outcome b n2 q2 h2 fs c"
  shows "outcome a (n1 + n2) (q1 \<union> q2) (h1 \<union> h2) (es @ fs) c"
proof -
  have le: "node_le (sv_node a) (sv_node b)" "node_le (sv_node b) (sv_node c)" using ab bc by (simp_all add: outcome_def)
  have "waiting c + answered (es @ fs) = (waiting c + answered fs) + answered es" by (simp add: ac_simps)
  also have "\<dots> = (waiting b + answered es) + n2" using bc by (simp add: outcome_def ac_simps)
  also have "\<dots> = waiting a + (n1 + n2)" using ab by (simp add: outcome_def ac_simps)
  finally have "waiting c + answered (es @ fs) = waiting a + (n1 + n2)" .
  moreover have "asking c \<subseteq> asking a \<union> (q1 \<union> q2)" using ab bc unfolding outcome_def by blast
  moreover have "truthful (asking a \<union> (q1 \<union> q2)) (sv_node c) es"
    by (rule truthful_mono [of "asking a \<union> q1"]) (use ab truthful_kept [OF le(2)] in \<open>auto simp: outcome_def\<close>)
  moreover have "truthful (asking a \<union> (q1 \<union> q2)) (sv_node c) fs"
    by (rule truthful_mono [of "asking b \<union> q2"]) (use ab bc in \<open>auto simp: outcome_def\<close>)
  moreover have "follows (sv_id a) (sv_node a) (h1 \<union> h2) (frames (es @ fs)) (sv_node c)"
    using ab bc node_le_id [OF le(1)] by (auto simp: outcome_def intro: follows_trans)
  ultimately show ?thesis using bc node_le_trans [OF le] by (simp add: outcome_def)
qed

lemma outcome_mono:
  "outcome sv new reqs heard effects sv' \<Longrightarrow> reqs \<subseteq> reqs' \<Longrightarrow> heard \<subseteq> heard' \<Longrightarrow> outcome sv new reqs' heard' effects sv'"
  unfolding outcome_def using truthful_mono follows_mono by (metis (no_types, lifting) Un_mono order_refl subset_trans)

text \<open>The node has moved, but the tables are as they were, up to one new entry or client.\<close>

lemma outcome_event:
  assumes inv: "server_inv sv" and run: "node_step ev (sv_node sv) w = (r, nd, w')"
    and ev: "local_event ev \<or> (\<exists>e \<in> heard. event_of e = Some ev)"
    and sv1: "sv1 = sv\<lparr>sv_node := nd, sv_pending_writes := W, sv_pending_reads := R\<rparr>"
    and pre: "tables_pre nd W R" and new: "waiting sv1 = waiting sv + new" and reqs: "asking sv1 \<subseteq> asking sv \<union> reqs"
    and proc: "process r (replied_to ev) sv1 = (sv', effects)"
  shows "outcome sv new reqs heard effects sv'"
proof -
  have full: "full_inv (sv_node sv)" and seat: "seated sv" using inv by (simp_all add: server_inv_def seated_def)
  have full': "full_inv nd" using node_step_local [OF full run] by (simp add: local_step_def)
  have le: "node_le (sv_node sv) nd" using node_step_sound [OF full_inv_parts(1) [OF full] run] by (simp add: sound_step_def)
  have seat1: "seated sv1" using seat full' le by (simp add: seated_def sv1 sv_id_def node_le_def)
  have pre1: "tables_pre (sv_node sv1) (sv_pending_writes sv1) (sv_pending_reads sv1)" using pre by (simp add: sv1)
  have "\<forall>x \<in> set (reads_of r). rr_index x \<le> kv_last_applied (nd_state (sv_node sv1))"
    using node_step_reads [OF full run] by (auto simp: reads_step_def ready_from_def sv1)
  note p = process_inv [OF seat1 pre1 this proc]
  then have node: "sv_node sv' = nd" by (simp add: settles_def sv1)
  have "asking sv' \<subseteq> asking sv \<union> reqs" using settles_asking p reqs by blast
  moreover have "truthful (asking sv \<union> reqs) (sv_node sv') effects"
    by (rule truthful_mono [OF _ reqs]) (use p node in \<open>simp add: settles_def sv1\<close>)
  moreover have "carried sv1 (replied_to ev) (msgs r)
      \<subseteq> (\<lambda>m. (ob_peer_id m, envelope_of (sv_id sv) ev (ob_message m))) ` set (msgs r)"
    using le by (auto simp: carried_def envelope_of_def sv1 sv_id_def node_le_def)
  then have "follows (sv_id sv) (sv_node sv) heard (frames effects) (sv_node sv')"
    unfolding node using follows_event [OF _ ev run] p seat by (auto simp: seated_def)
  ultimately show ?thesis using p new le node by (simp add: outcome_def settles_def)
qed

lemma outcome_plain_event:
  assumes inv: "server_inv sv" and run: "node_step ev (sv_node sv) w = (r, nd, w')"
    and ev: "local_event ev \<or> (\<exists>e \<in> heard. event_of e = Some ev)"
    and proc: "process r (replied_to ev) (sv\<lparr>sv_node := nd\<rparr>) = (sv', effects)"
  shows "outcome sv {#} reqs heard effects sv'"
proof (rule outcome_event [OF inv run ev])
  show "sv\<lparr>sv_node := nd\<rparr> = sv\<lparr>sv_node := nd, sv_pending_writes := sv_pending_writes sv, sv_pending_reads := sv_pending_reads sv\<rparr>"
    by simp
  show "tables_pre nd (sv_pending_writes sv) (sv_pending_reads sv)"
    by (rule tables_pre_kept [OF _ run]) (use inv in \<open>simp_all add: server_inv_def seated_def\<close>)
qed (use proc in \<open>simp_all add: waiting_def asking_def\<close>)

text \<open>Nothing but replies, printing and fields no event depends on.\<close>

lemma outcome_quiet:
  assumes "server_inv sv'" and "sv_node sv' = sv_node sv" "waiting sv' = waiting sv" "asking sv' = asking sv"
    and "frames effects = {}" "answered effects = new" and "truthful (asking sv \<union> reqs) (sv_node sv) effects"
  shows "outcome sv new reqs heard effects sv'"
  using assms by (simp add: outcome_def)

lemma outcome_reply:
  assumes "outcome sv new reqs heard effects sv'" and "replied_by e = [con]"
    and "\<And>y. e = ReplyWrite con y \<Longrightarrow> cwr_status y \<noteq> Committed" and "\<And>y. e = ReplyRead con y \<Longrightarrow> \<not> tells_value y"
  shows "outcome sv (new + {#con#}) reqs heard (e # effects) sv'"
proof -
  have "frames (e # effects) = frames effects" using assms(2) by (cases e) simp_all
  moreover have "truthful (asking sv \<union> reqs) (sv_node sv') (e # effects)"
    using assms by (cases e) (auto simp: outcome_def truthful_def)
  ultimately show ?thesis using assms(1,2) by (simp add: outcome_def)
qed

lemma outcome_refl: "server_inv sv \<Longrightarrow> outcome sv {#} reqs heard [] sv"
  by (rule outcome_quiet) simp_all

lemma outcome_refused:
  assumes "server_inv sv" and "replied_by e = [con]" and "\<And>y. e = ReplyWrite con y \<Longrightarrow> cwr_status y \<noteq> Committed"
    and "\<And>y. e = ReplyRead con y \<Longrightarrow> \<not> tells_value y"
  shows "outcome sv {#con#} reqs heard [e] sv"
  using outcome_reply [OF outcome_refl [OF assms(1)] assms(2-4)] by simp

text \<open>A proposal that the node refuses without a change of term or role is not processed further.\<close>

lemma outcome_unprocessed:
  assumes inv: "server_inv sv" and run: "node_step ev (sv_node sv) w = (r, nd, w')" and ev: "local_event ev"
    and same: "nd_metadata nd = nd_metadata (sv_node sv)" "nd_election nd = nd_election (sv_node sv)"
  shows "outcome sv {#} reqs heard [] (sv\<lparr>sv_node := nd\<rparr>)"
proof -
  have full: "full_inv (sv_node sv)" and seat: "seated sv"
    and tabs: "tables_ok (sv_node sv) (sv_pending_writes sv) (sv_pending_reads sv)"
    using inv by (simp_all add: server_inv_def seated_def)
  have full': "full_inv nd" using node_step_local [OF full run] by (simp add: local_step_def)
  have le: "node_le (sv_node sv) nd" using node_step_sound [OF full_inv_parts(1) [OF full] run] by (simp add: sound_step_def)
  have "seated (sv\<lparr>sv_node := nd\<rparr>)" using seat full' le by (simp add: seated_def sv_id_def node_le_def)
  then have "server_inv (sv\<lparr>sv_node := nd\<rparr>)" using tables_ok_kept [OF full run tabs same] by (simp add: server_inv_def)
  moreover have "follows (sv_id sv) (sv_node sv) heard {} nd"
    by (rule follows_event [OF _ _ run]) (use seat ev in \<open>auto simp: seated_def\<close>)
  ultimately show ?thesis using le by (simp add: outcome_def waiting_def asking_def)
qed

section \<open>Client requests\<close>

lemma write_reply_status [simp]: "cwr_status (write_reply status t i h) = status"
  by (simp add: write_reply_def)

lemma read_reply_tells [simp]: "tells_value (read_reply status t i h v) \<longleftrightarrow> status = Found \<or> status = NotFound"
  by (simp add: tells_value_def read_reply_def)

definition join_ok :: "connection \<Rightarrow> command \<Rightarrow> (u64 \<times> pending_write) list
    \<Rightarrow> (u64 \<times> pending_write) list \<times> server_effect list \<Rightarrow> bool" where
  "join_ok con c W out \<longleftrightarrow>
     (case out of (W', effects) \<Rightarrow>
        map fst W' = map fst W \<and> write_waiters W' + answered effects = write_waiters W + {#con#}
        \<and> askers W' \<subseteq> askers W \<union> {(con, Writes c)} \<and> frames effects = {} \<and> (\<forall>reqs nd. truthful reqs nd effects)
        \<and> (\<forall>nd. (\<forall>e \<in> set W. write_ok nd e) \<longrightarrow> (\<forall>e \<in> set W'. write_ok nd e)))"

lemma askers_Cons: "askers (e # W) = (\<lambda>con. (con, Writes (pw_command (snd e)))) ` set (pw_connections (snd e)) \<union> askers W"
  by (simp add: askers_def)

lemma join_pending_ok: "join_pending sv con c W = Some out \<Longrightarrow> join_ok con c W out"
proof (induction W arbitrary: out)
  case Nil
  then show ?case by simp
next
  case (Cons entry W)
  obtain i p where e: "entry = (i, p)" by fastforce
  consider (skip) "cmd_request_id (pw_command p) \<noteq> cmd_request_id c"
    | (refuse) y where "cmd_request_id (pw_command p) = cmd_request_id c" "out = (entry # W, [ReplyWrite con y])"
        "cwr_status y \<noteq> Committed"
    | (join) "cmd_request_id (pw_command p) = cmd_request_id c" "pw_command p = c" "length (pw_connections p) < 1024"
        "out = ((i, p\<lparr>pw_connections := pw_connections p @ [con]\<rparr>) # W, [])"
    using Cons.prems e by (auto split: if_splits)
  then show ?case
  proof cases
    case skip
    then obtain W' effects where j: "join_pending sv con c W = Some (W', effects)" "out = (entry # W', effects)"
      using Cons.prems e by auto
    have "join_ok con c W (W', effects)" by (rule Cons.IH [OF j(1)])
    then show ?thesis using j(2) by (auto simp: join_ok_def askers_Cons ac_simps)
  next
    case (refuse y)
    then show ?thesis by (auto simp: join_ok_def truthful_def)
  next
    case join
    then show ?thesis by (auto simp: join_ok_def askers_Cons e write_ok_def write_in_log_def ac_simps)
  qed
qed

lemma outcome_joined:
  assumes inv: "server_inv sv" and join: "join_pending sv con c (sv_pending_writes sv) = Some (W, effects)"
  shows "outcome sv {#con#} {(con, Writes c)} heard effects (sv\<lparr>sv_pending_writes := W\<rparr>)"
proof -
  note j = join_pending_ok [OF join, unfolded join_ok_def prod.case]
  have "length W = length (sv_pending_writes sv)" using j by (metis length_map)
  then have "server_inv (sv\<lparr>sv_pending_writes := W\<rparr>)"
    using inv j by (auto simp: server_inv_def seated_def tables_ok_def ordered_def sv_id_def)
  moreover have "waiting (sv\<lparr>sv_pending_writes := W\<rparr>) + answered effects = waiting sv + {#con#}"
    using j by (simp add: waiting_def ac_simps)
  ultimately show ?thesis using j by (auto simp: outcome_def asking_def)
qed

definition write_requests :: "connection \<Rightarrow> bytes \<Rightarrow> (connection \<times> wish) set" where
  "write_requests con bs = (case decode_client_request bs of Inl e \<Rightarrow> {} | Inr q \<Rightarrow> {(con, Writes (cw_command q))})"

definition read_requests :: "connection \<Rightarrow> bytes \<Rightarrow> (connection \<times> wish) set" where
  "read_requests con bs = (case decode_client_read_request bs of Inl e \<Rightarrow> {} | Inr q \<Rightarrow> {(con, Reads (crq_key q))})"

lemma request_has_id: "decode_client_request bs = Inr q \<Longrightarrow> cmd_request_id (cw_command q) \<noteq> None"
  by (simp add: request_codec.decode_encode_iff request_codec.encode_payload request_ok_def)

text \<open>A new entry in a table, for a proposal or a read barrier of this event.\<close>

lemma write_waiters_mset: "write_waiters W = (\<Sum>e \<in># mset W. mset (pw_connections (snd e)))"
  by (induction W) simp_all

lemma outcome_new_write:
  assumes inv: "server_inv sv" and run: "propose c (sv_node sv) w = (Inr a, nd, w')" and idx: "proposed_index a = Some i"
    and lead: "leading sv" and room: "length (sv_pending_writes sv) + length (sv_pending_reads sv) < 1024"
    and id: "cmd_request_id c \<noteq> None"
    and pending: "pending = \<lparr>pw_connections = [con], pw_term = sv_term sv, pw_command = c\<rparr>"
    and proc: "process (Inr a) None (sv\<lparr>sv_node := nd, sv_pending_writes := emplace i pending (sv_pending_writes sv)\<rparr>)
      = (sv', effects)"
  shows "outcome sv {#con#} {(con, Writes c)} heard effects sv'"
proof -
  let ?W = "sv_pending_writes sv" and ?R = "sv_pending_reads sv"
  have full: "full_inv (sv_node sv)" and tabs: "tables_ok (sv_node sv) ?W ?R"
    using inv by (simp_all add: server_inv_def seated_def)
  have step: "node_step (Propose c) (sv_node sv) w = (Inr a, nd, w')" using run by simp
  have same: "node_role nd = node_role (sv_node sv)" "node_term nd = node_term (sv_node sv)"
    and i: "unat i = Suc (length (node_entries (sv_node sv)))"
      "node_entries nd = node_entries (sv_node sv)
        @ [\<lparr>entry_index = i, entry_term = node_term (sv_node sv), entry_command = c\<rparr>]"
    using propose_outcome [OF full run] idx by (simp_all add: node_role_def node_term_def)
  have live: "\<not> nd_stopped (sv_node sv)" using run by (auto simp: propose_def)
  have bound: "unat (fst e) \<le> length (node_entries (sv_node sv))" if "e \<in> set ?W" for e
    using tabs that live by (simp add: tables_ok_def write_ok_def write_in_log_def)
  have fresh: "i \<notin> fst ` set ?W"
  proof
    assume "i \<in> fst ` set ?W"
    then obtain e where "e \<in> set ?W" "fst e = i" by auto
    then show False using bound [of e] i(1) by simp
  qed
  note mset_W = emplace_fresh [OF fresh, of pending]
  have set_W: "set (emplace i pending ?W) = insert (i, pending) (set ?W)" using arg_cong [OF mset_W, of set_mset] by simp
  have len: "length (emplace i pending ?W) = Suc (length ?W)" using arg_cong [OF mset_W, of size] by simp
  have new: "write_ok nd (i, pending)"
    using lead i id by (simp add: write_ok_def write_in_log_def pending same leading_def sv_term_def nth_append)
  note kept = tables_pre_kept [OF full step tabs]
  show ?thesis
  proof (rule outcome_event [OF inv step])
    show "sv\<lparr>sv_node := nd, sv_pending_writes := emplace i pending ?W\<rparr>
      = sv\<lparr>sv_node := nd, sv_pending_writes := emplace i pending ?W, sv_pending_reads := ?R\<rparr>" by simp
    show "tables_pre nd (emplace i pending ?W) ?R"
      using kept new room by (simp add: tables_pre_def set_W len ordered_emplace)
    have "write_waiters (emplace i pending ?W) = add_mset con (write_waiters ?W)"
      unfolding write_waiters_mset mset_W by (simp add: pending)
    then show "waiting (sv\<lparr>sv_node := nd, sv_pending_writes := emplace i pending ?W\<rparr>) = waiting sv + {#con#}"
      by (simp add: waiting_def)
    show "asking (sv\<lparr>sv_node := nd, sv_pending_writes := emplace i pending ?W\<rparr>) \<subseteq> asking sv \<union> {(con, Writes c)}"
      by (simp add: asking_def askers_def set_W) (auto simp: pending)
  qed (use proc in \<open>simp_all add: local_event_def replied_to_def\<close>)
qed

lemma outcome_new_read:
  assumes inv: "server_inv sv" and run: "read_barrier (sv_node sv) w = (Inr a, nd, w')" and idx: "started_read_id a = Some i"
    and lead: "leading sv" and room: "length (sv_pending_writes sv) + length (sv_pending_reads sv) < 1024"
    and pending: "pending = \<lparr>pr_connection = con, pr_term = sv_term sv, pr_key = key\<rparr>"
    and proc: "process (Inr a) None (sv\<lparr>sv_node := nd, sv_pending_reads := emplace i pending (sv_pending_reads sv)\<rparr>)
      = (sv', effects)"
  shows "outcome sv {#con#} {(con, Reads key)} heard effects sv'"
proof -
  let ?W = "sv_pending_writes sv" and ?R = "sv_pending_reads sv"
  have full: "full_inv (sv_node sv)" and tabs: "tables_ok (sv_node sv) ?W ?R"
    using inv by (simp_all add: server_inv_def seated_def)
  have step: "node_step ReadBarrier (sv_node sv) w = (Inr a, nd, w')" using run by simp
  note o = read_barrier_outcome [OF run, unfolded sum.case]
  have same: "node_role nd = node_role (sv_node sv)" "node_term nd = node_term (sv_node sv)"
    using o by (simp_all add: node_role_def node_term_def)
  have i: "i = nd_next_read_id (sv_node sv)" "i \<noteq> 0" "nd_next_read_id nd = i + 1" using o idx by auto
  have "fst e < i" if "e \<in> set ?R" for e using tabs that i by (simp add: tables_ok_def read_ok_def)
  then have fresh: "i \<notin> fst ` set ?R" by fastforce
  note mset_R = emplace_fresh [OF fresh, of pending]
  have set_R: "set (emplace i pending ?R) = insert (i, pending) (set ?R)" using arg_cong [OF mset_R, of set_mset] by simp
  have len: "length (emplace i pending ?R) = Suc (length ?R)" using arg_cong [OF mset_R, of size] by simp
  have "i < i + 1" if "i + 1 \<noteq> 0" using unatSuc [of i] that by (simp add: word_less_nat_alt add.commute)
  then have new: "read_ok nd (i, pending)"
    using lead i by (simp add: read_ok_def pending same leading_def sv_term_def)
  note kept = tables_pre_kept [OF full step tabs]
  show ?thesis
  proof (rule outcome_event [OF inv step])
    show "sv\<lparr>sv_node := nd, sv_pending_reads := emplace i pending ?R\<rparr>
      = sv\<lparr>sv_node := nd, sv_pending_writes := ?W, sv_pending_reads := emplace i pending ?R\<rparr>" by simp
    show "tables_pre nd ?W (emplace i pending ?R)"
      using kept new room by (simp add: tables_pre_def set_R len ordered_emplace)
    have "read_waiters (emplace i pending ?R) = add_mset con (read_waiters ?R)"
      unfolding read_waiters_def mset_map mset_R by (simp add: pending)
    then show "waiting (sv\<lparr>sv_node := nd, sv_pending_reads := emplace i pending ?R\<rparr>) = waiting sv + {#con#}"
      by (simp add: waiting_def)
    show "asking (sv\<lparr>sv_node := nd, sv_pending_reads := emplace i pending ?R\<rparr>) \<subseteq> asking sv \<union> {(con, Reads key)}"
      by (simp add: asking_def readers_def set_R) (auto simp: pending)
  qed (use proc in \<open>simp_all add: local_event_def replied_to_def\<close>)
qed

lemma handle_client_write_outcome:
  assumes inv: "server_inv sv" and run: "handle_client_write con bs sv w = (sv', effects, w')"
  shows "outcome sv {#con#} (write_requests con bs) {} effects sv'"
proof (cases "decode_client_request bs")
  case (Inl e)
  then show ?thesis using run inv by (auto simp: handle_client_write_def intro!: outcome_refused)
next
  case (Inr q)
  note Inr_q = Inr
  let ?c = "cw_command q" and ?prior = "kv_request_result (the (cmd_request_id (cw_command q))) (nd_state (sv_node sv))"
  have reqs: "write_requests con bs = {(con, Writes ?c)}" by (simp add: write_requests_def Inr)
  note un = run [unfolded handle_client_write_def Inr sum.case Let_def]
  consider (follower) "\<not> leading sv" | (known) p where "leading sv" "?prior = Some p"
    | (joined) W es where "leading sv" "?prior = None" "join_pending sv con ?c (sv_pending_writes sv) = Some (W, es)"
    | (busy) "leading sv" "?prior = None" "join_pending sv con ?c (sv_pending_writes sv) = None"
        "length (sv_pending_writes sv) + length (sv_pending_reads sv) \<ge> 1024"
    | (propose) "leading sv" "?prior = None" "join_pending sv con ?c (sv_pending_writes sv) = None"
        "length (sv_pending_writes sv) + length (sv_pending_reads sv) < 1024"
    by (cases ?prior; cases "join_pending sv con ?c (sv_pending_writes sv)"; fastforce)
  then show ?thesis
  proof cases
    case follower
    then show ?thesis using un inv by (auto intro!: outcome_refused)
  next
    case (known p)
    let ?y = "result_reply ?prior ?c sv"
    have e: "sv' = sv" "effects = [ReplyWrite con ?y]" using un known by auto
    have core: "core_inv (sv_node sv)" using inv full_inv_parts(3) by (simp add: server_inv_def seated_def)
    have "truthful (asking sv \<union> {(con, Writes ?c)}) (sv_node sv) effects"
      using result_reply_truthful [OF core _ refl, of "the (cmd_request_id ?c)" ?c] by (auto simp: truthful_def e)
    then show ?thesis unfolding reqs by (intro outcome_quiet) (use inv in \<open>simp_all add: e\<close>)
  next
    case (joined W es)
    then have e: "sv' = sv\<lparr>sv_pending_writes := W\<rparr>" "effects = es" using un by auto
    show ?thesis unfolding reqs e by (rule outcome_joined [OF inv joined(3)])
  next
    case busy
    then show ?thesis using un inv by (auto intro!: outcome_refused)
  next
    case propose
    obtain r nd v where p: "propose ?c (sv_node sv) w = (r, nd, v)" by (metis prod_cases3)
    have step: "node_step (Propose ?c) (sv_node sv) w = (r, nd, v)" and local: "local_event (Propose ?c)"
      using p by (simp_all add: local_event_def)
    have full: "full_inv (sv_node sv)" using inv by (simp add: server_inv_def seated_def)
    note o = propose_outcome [OF full p]
    show ?thesis
    proof (cases r)
      case (Inr a)
      then obtain i where i: "proposed_index a = Some i" using o by auto
      let ?pending = "\<lparr>pw_connections = [con], pw_term = sv_term sv, pw_command = ?c\<rparr>"
      have "process (Inr a) None (sv\<lparr>sv_node := nd, sv_pending_writes := emplace i ?pending (sv_pending_writes sv)\<rparr>)
          = (sv', effects)"
        using un propose p Inr i by (auto split: prod.splits)
      then show ?thesis
        unfolding reqs using outcome_new_write [OF inv p [unfolded Inr] i propose(1,4) request_has_id [OF Inr_q] refl]
        by blast
    next
      case (Inl e)
      define status where "status = (if e = raft_node_error.NotLeader then client_write_status.NotLeader
        else if e = raft_node_error.InvalidCommand then client_write_status.InvalidRequest
        else client_write_status.InternalError)"
      define reply where "reply = ReplyWrite con (write_reply status (sv_term (sv\<lparr>sv_node := nd\<rparr>)) 0 (leader_hint (sv\<lparr>sv_node := nd\<rparr>)))"
      have quiet: "replied_by reply = [con]" "\<And>y. reply = ReplyWrite con y \<Longrightarrow> cwr_status y \<noteq> Committed"
        "\<And>y. reply = ReplyRead con y \<Longrightarrow> \<not> tells_value y"
        by (auto simp: reply_def status_def write_reply_def split: if_splits)
      have un2: "(if status = client_write_status.InternalError then
          (case process (Inl e) None (sv\<lparr>sv_node := nd\<rparr>) of (sv2, es) \<Rightarrow> (sv2, reply # es, v))
        else (sv\<lparr>sv_node := nd\<rparr>, [reply], v)) = (sv', effects, w')"
        using un propose p Inl unfolding reply_def status_def by (simp split del: if_split cong: if_cong)
      show ?thesis
      proof (cases "status = client_write_status.InternalError")
        case True
        obtain sv2 es where pr: "process (Inl e) None (sv\<lparr>sv_node := nd\<rparr>) = (sv2, es)" by fastforce
        have "outcome sv {#} (write_requests con bs) {} es sv2"
          by (rule outcome_plain_event [OF inv step]) (use pr local Inl in \<open>simp_all add: replied_to_def\<close>)
        then show ?thesis using outcome_reply [OF _ quiet] un2 True pr by fastforce
      next
        case False
        have "outcome sv {#} (write_requests con bs) {} [] (sv\<lparr>sv_node := nd\<rparr>)"
          by (rule outcome_unprocessed [OF inv step local]) (use o in simp_all)
        then show ?thesis using outcome_reply [OF _ quiet] un2 False by fastforce
      qed
    qed
  qed
qed

lemma handle_client_read_outcome:
  assumes inv: "server_inv sv" and run: "handle_client_read con bs sv w = (sv', effects, w')"
  shows "outcome sv {#con#} (read_requests con bs) {} effects sv'"
proof (cases "decode_client_read_request bs")
  case (Inl e)
  then show ?thesis using run inv by (auto simp: handle_client_read_def intro!: outcome_refused)
next
  case (Inr q)
  have reqs: "read_requests con bs = {(con, Reads (crq_key q))}" by (simp add: read_requests_def Inr)
  note un = run [unfolded handle_client_read_def Inr sum.case Let_def]
  consider (follower) "\<not> leading sv"
    | (busy) "leading sv" "length (sv_pending_writes sv) + length (sv_pending_reads sv) \<ge> 1024"
    | (barrier) "leading sv" "length (sv_pending_writes sv) + length (sv_pending_reads sv) < 1024"
    by linarith
  then show ?thesis
  proof cases
    case barrier
    obtain r nd v where p: "read_barrier (sv_node sv) w = (r, nd, v)" by (metis prod_cases3)
    have step: "node_step ReadBarrier (sv_node sv) w = (r, nd, v)" and local: "local_event ReadBarrier"
      using p by (simp_all add: local_event_def)
    note o = read_barrier_outcome [OF p]
    show ?thesis
    proof (cases r)
      case (Inr a)
      then obtain i where i: "started_read_id a = Some i" using o by auto
      let ?pending = "\<lparr>pr_connection = con, pr_term = sv_term sv, pr_key = crq_key q\<rparr>"
      have "process (Inr a) None (sv\<lparr>sv_node := nd, sv_pending_reads := emplace i ?pending (sv_pending_reads sv)\<rparr>)
          = (sv', effects)"
        using un barrier p Inr i by (auto split: prod.splits)
      then show ?thesis unfolding reqs using outcome_new_read [OF inv p [unfolded Inr] i barrier refl] by blast
    next
      case (Inl e)
      define status where "status = (if e = raft_node_error.NotLeader then client_read_status.NotLeader
        else client_read_status.InternalError)"
      define reply where "reply = ReplyRead con (read_reply status (sv_term (sv\<lparr>sv_node := nd\<rparr>)) 0
        (leader_hint (sv\<lparr>sv_node := nd\<rparr>)) None)"
      have quiet: "replied_by reply = [con]" "\<And>y. reply = ReplyWrite con y \<Longrightarrow> cwr_status y \<noteq> Committed"
        "\<And>y. reply = ReplyRead con y \<Longrightarrow> \<not> tells_value y"
        by (auto simp: reply_def status_def split: if_splits)
      have un2: "(if status = client_read_status.InternalError then
          (case process (Inl e) None (sv\<lparr>sv_node := nd\<rparr>) of (sv2, es) \<Rightarrow> (sv2, reply # es, v))
        else (sv\<lparr>sv_node := nd\<rparr>, [reply], v)) = (sv', effects, w')"
        using un barrier p Inl unfolding reply_def status_def by (simp split del: if_split cong: if_cong)
      show ?thesis
      proof (cases "status = client_read_status.InternalError")
        case True
        obtain sv2 es where pr: "process (Inl e) None (sv\<lparr>sv_node := nd\<rparr>) = (sv2, es)" by fastforce
        have "outcome sv {#} (read_requests con bs) {} es sv2"
          by (rule outcome_plain_event [OF inv step]) (use pr local Inl in \<open>simp_all add: replied_to_def\<close>)
        then show ?thesis using outcome_reply [OF _ quiet] un2 True pr by fastforce
      next
        case False
        have "outcome sv {#} (read_requests con bs) {} [] (sv\<lparr>sv_node := nd\<rparr>)"
          by (rule outcome_unprocessed [OF inv step local]) (use o in simp_all)
        then show ?thesis using outcome_reply [OF _ quiet] un2 False by fastforce
      qed
    qed
  qed (use un inv in \<open>auto intro!: outcome_refused\<close>)
qed

end
