(* ===== verification/Raft_Server_Loop.thy ===== *)
theory Raft_Server_Loop
  imports Raft_Server_Inv Raft_Cluster_Run
begin

text \<open>
  The event loop of the server process as a whole: what comes in with one answer of \<open>poll\<close>
  (\<open>clients_of\<close>, \<open>requests_of\<close>, \<open>envelopes_of\<close>), and the outcome of one round of the loop and
  of all rounds.
\<close>

section \<open>Messages from the other servers\<close>

lemma dispatch_envelope_event:
  assumes "dispatch_envelope envelope sv w = (sv', effects, w')"
  shows "sv' = sv \<and> effects = []
    \<or> (\<exists>ev r nd. event_of envelope = Some ev \<and> node_step ev (sv_node sv) w = (r, nd, w')
         \<and> process r (replied_to ev) (sv\<lparr>sv_node := nd\<rparr>) = (sv', effects))"
  using assms
  by (auto simp: dispatch_envelope_def Let_def event_of_def replied_to_def
      split: if_splits raft_message.splits option.splits prod.splits)

lemma dispatch_envelope_outcome:
  assumes inv: "server_inv sv" and run: "dispatch_envelope envelope sv w = (sv', effects, w')"
  shows "outcome sv {#} {} {envelope} effects sv'"
  using dispatch_envelope_event [OF run]
proof (elim disjE exE conjE)
  fix ev r nd
  assume ev: "event_of envelope = Some ev" "node_step ev (sv_node sv) w = (r, nd, w')"
    and pr: "process r (replied_to ev) (sv\<lparr>sv_node := nd\<rparr>) = (sv', effects)"
  show ?thesis by (rule outcome_plain_event [OF inv ev(2) _ pr]) (use ev(1) in simp)
qed (simp add: outcome_refl [OF inv])

text \<open>What arrives on an accepted connection.\<close>

definition client_frame :: "bytes \<Rightarrow> bool" where
  "client_frame bs \<longleftrightarrow> length bs \<ge> 2 \<and> (bs ! 1 = 5 \<or> bs ! 1 = 7 \<or> bs ! 1 = 9)"

definition clients_in :: "connection \<Rightarrow> bytes option \<Rightarrow> connection multiset" where
  "clients_in con arrived = (case arrived of Some bs \<Rightarrow> if client_frame bs then {#con#} else {#} | None \<Rightarrow> {#})"

definition requests_in :: "connection \<Rightarrow> bytes option \<Rightarrow> (connection \<times> wish) set" where
  "requests_in con arrived = (case arrived of Some bs \<Rightarrow> write_requests con bs \<union> read_requests con bs | None \<Rightarrow> {})"

definition envelopes_in :: "bytes option \<Rightarrow> raft_envelope set" where
  "envelopes_in arrived = (case arrived of
     Some bs \<Rightarrow> (case decode_raft_envelope bs of Inl e \<Rightarrow> {} | Inr e \<Rightarrow> {e}) | None \<Rightarrow> {})"

lemma receive_one_outcome:
  assumes inv: "server_inv sv" and run: "receive_one con as arriving sv w = (sv', effects, w')"
  defines "arrived \<equiv> receive_frame as arriving"
  shows "outcome sv (clients_in con arrived) (requests_in con arrived) (envelopes_in arrived) effects sv'"
proof (cases arrived)
  case None
  then show ?thesis
    using run inv by (auto simp: receive_one_def arrived_def clients_in_def intro!: outcome_refl)
next
  case (Some bs)
  have arr: "receive_frame as arriving = Some bs" using Some by (simp add: arrived_def)
  have in_bs: "write_requests con bs \<subseteq> requests_in con arrived" "read_requests con bs \<subseteq> requests_in con arrived"
    by (simp_all add: requests_in_def Some)
  note un = run [unfolded receive_one_def arr option.case]
  consider (wr) "length bs \<ge> 2" "bs ! 1 = 5" | (read) "length bs \<ge> 2" "bs ! 1 = 7"
    | (status) "length bs \<ge> 2" "bs ! 1 = 9" | (raft) "\<not> client_frame bs"
    by (auto simp: client_frame_def)
  then show ?thesis
  proof cases
    case wr
    then have "clients_in con arrived = {#con#}" by (simp add: clients_in_def Some client_frame_def)
    moreover have "handle_client_write con bs sv w = (sv', effects, w')" using un wr by simp
    ultimately show ?thesis
      using outcome_mono [OF handle_client_write_outcome [OF inv]] in_bs(1) by (metis empty_subsetI)
  next
    case read
    then have "clients_in con arrived = {#con#}" by (simp add: clients_in_def Some client_frame_def)
    moreover have "handle_client_read con bs sv w = (sv', effects, w')" using un read by simp
    ultimately show ?thesis using outcome_mono [OF handle_client_read_outcome [OF inv]] in_bs(2) by (metis empty_subsetI)
  next
    case status
    then have "clients_in con arrived = {#con#}" by (simp add: clients_in_def Some client_frame_def)
    moreover have "sv' = sv" "effects = handle_client_status con bs sv" using un status by (simp split: if_splits; blast)+
    ultimately show ?thesis using inv by (auto simp: handle_client_status_def intro: outcome_refused)
  next
    case raft
    then have none: "clients_in con arrived = {#}" by (simp add: clients_in_def Some)
    have un2: "(case decode_raft_envelope bs of Inl e \<Rightarrow> (sv, [], w) | Inr e \<Rightarrow> dispatch_envelope e sv w) = (sv', effects, w')"
      using un raft by (auto simp: client_frame_def split: if_splits)
    show ?thesis
    proof (cases "decode_raft_envelope bs")
      case (Inl e)
      then have "sv' = sv" "effects = []" using un2 by auto
      then show ?thesis using none outcome_refl [OF inv] by simp
    next
      case (Inr e)
      then have "envelopes_in arrived = {e}" by (simp add: envelopes_in_def Some)
      moreover have "dispatch_envelope e sv w = (sv', effects, w')" using un2 Inr by simp
      ultimately show ?thesis
        using outcome_mono [OF dispatch_envelope_outcome [OF inv]] none by (metis empty_subsetI order_refl)
    qed
  qed
qed

section \<open>The console and the timers\<close>

lemma propose_command_outcome:
  assumes inv: "server_inv sv" and run: "propose_command c sv w = (sv', effects, w')"
  shows "outcome sv {#} {} {} effects sv'"
proof -
  obtain r nd v where p: "propose c (sv_node sv) w = (r, nd, v)" by (metis prod_cases3)
  have step: "node_step (Propose c) (sv_node sv) w = (r, nd, v)" using p by simp
  have "process r None (sv\<lparr>sv_node := nd\<rparr>) = (sv', effects)"
    using run p by (auto simp: propose_command_def split: prod.splits)
  then show ?thesis using outcome_plain_event [OF inv step] by (simp add: local_event_def replied_to_def)
qed

lemma server_inv_fields [simp]:
  "server_inv (sv\<lparr>sv_running := b\<rparr>) \<longleftrightarrow> server_inv sv" "server_inv (sv\<lparr>sv_console_open := b\<rparr>) \<longleftrightarrow> server_inv sv"
  "server_inv (sv\<lparr>sv_discarding_line := b\<rparr>) \<longleftrightarrow> server_inv sv" "server_inv (sv\<lparr>sv_fatal := b\<rparr>) \<longleftrightarrow> server_inv sv"
  by (simp_all add: server_inv_def seated_def sv_id_def)

lemma waiting_fields [simp]:
  "waiting (sv\<lparr>sv_running := b\<rparr>) = waiting sv" "waiting (sv\<lparr>sv_console_open := b\<rparr>) = waiting sv"
  "waiting (sv\<lparr>sv_discarding_line := b\<rparr>) = waiting sv" "waiting (sv\<lparr>sv_fatal := b\<rparr>) = waiting sv"
  "waiting (sv\<lparr>sv_console_line := l\<rparr>) = waiting sv" "waiting (sv\<lparr>sv_blocked_peers := bp\<rparr>) = waiting sv"
  "asking (sv\<lparr>sv_running := b\<rparr>) = asking sv" "asking (sv\<lparr>sv_console_open := b\<rparr>) = asking sv"
  "asking (sv\<lparr>sv_discarding_line := b\<rparr>) = asking sv" "asking (sv\<lparr>sv_fatal := b\<rparr>) = asking sv"
  "asking (sv\<lparr>sv_console_line := l\<rparr>) = asking sv" "asking (sv\<lparr>sv_blocked_peers := bp\<rparr>) = asking sv"
  by (simp_all add: waiting_def asking_def)

lemma server_inv_line: "server_inv sv \<Longrightarrow> length l \<le> 1024 * 1024 \<Longrightarrow> server_inv (sv\<lparr>sv_console_line := l\<rparr>)"
  by (simp add: server_inv_def seated_def sv_id_def)

lemma server_inv_blocked: "server_inv sv \<Longrightarrow> length bp = 3 \<Longrightarrow> server_inv (sv\<lparr>sv_blocked_peers := bp\<rparr>)"
  by (simp add: server_inv_def seated_def sv_id_def)

text \<open>Printing only.\<close>

lemma outcome_print:
  assumes "server_inv sv'" "sv_node sv' = sv_node sv" "waiting sv' = waiting sv" "asking sv' = asking sv"
    and "list_all (\<lambda>e. \<exists>bs. e = Print bs \<or> e = PrintError bs) effects"
  shows "outcome sv {#} reqs heard effects sv'"
proof -
  have "frames effects = {} \<and> answered effects = {#} \<and> truthful (asking sv \<union> reqs) (sv_node sv) effects"
    using assms(5) by (induction effects) (auto simp: truthful_def)
  then show ?thesis using outcome_quiet [OF assms(1-4)] by blast
qed

lemma block_command_outcome:
  assumes inv: "server_inv sv" and run: "block_command operation rest sv = (sv', effects)"
  shows "outcome sv {#} {} {} effects sv'"
proof -
  have "(sv' = sv \<or> (\<exists>p b. sv' = sv\<lparr>sv_blocked_peers := (sv_blocked_peers sv)[p := b]\<rparr>)) \<and> (\<exists>bs. effects = [Print bs])"
    using run by (auto simp: block_command_def Let_def split: option.splits if_splits prod.splits)
  moreover have "length (sv_blocked_peers sv) = 3" using inv by (simp add: server_inv_def seated_def)
  ultimately show ?thesis using inv server_inv_blocked [OF inv] by (auto intro!: outcome_print)
qed

lemma handle_console_line_outcome:
  assumes inv: "server_inv sv" and run: "handle_console_line line sv w = (sv', effects, w')"
  shows "outcome sv {#} {} {} effects sv'"
proof -
  obtain op rest where t: "(case read_token line of None \<Rightarrow> ([], []) | Some x \<Rightarrow> x) = (op, rest)" by fastforce
  have print: "outcome sv {#} {} {} [Print bs] sv" for bs by (rule outcome_print) (use inv in simp_all)
  have quit: "outcome sv {#} {} {} [] (sv\<lparr>sv_running := False\<rparr>)" by (rule outcome_print) (use inv in simp_all)
  show ?thesis
    using run print quit propose_command_outcome [OF inv] block_command_outcome [OF inv]
    by (auto simp: handle_console_line_def t Let_def split: if_splits option.splits prod.splits)
qed

lemma console_bytes_outcome:
  "server_inv sv \<Longrightarrow> console_bytes bs sv w = (sv', effects, w') \<Longrightarrow> outcome sv {#} {} {} effects sv'"
proof (induction bs sv w arbitrary: sv' effects w' rule: console_bytes.induct)
  case (1 sv w)
  then show ?case by (simp add: outcome_refl)
next
  case (2 b bs sv w)
  note inv = "2.prems"(1)
  have "sv\<lparr>sv_node := sv_node sv\<rparr> = sv" by simp
  have quiet: "outcome sv {#} {} {} [] sv1" if "server_inv sv1" "sv_node sv1 = sv_node sv" "waiting sv1 = waiting sv"
    "asking sv1 = asking sv" for sv1
    by (rule outcome_print) (use that in simp_all)
  consider (skip) "sv_discarding_line sv" | (line) "\<not> sv_discarding_line sv" "b = newline"
    | (add) "\<not> sv_discarding_line sv" "b \<noteq> newline" "length (sv_console_line sv) < 1024 * 1024"
    | (large) "\<not> sv_discarding_line sv" "b \<noteq> newline" "\<not> length (sv_console_line sv) < 1024 * 1024" by blast
  then show ?case
  proof cases
    case skip
    let ?sv = "if b = newline then sv\<lparr>sv_discarding_line := False\<rparr> else sv"
    have "outcome ?sv {#} {} {} effects sv'"
      by (rule "2.IH"(1) [OF skip]) (use inv "2.prems"(2) skip in simp_all)
    moreover have "outcome sv {#} {} {} [] ?sv" by (rule quiet) (use inv in simp_all)
    ultimately show ?thesis using outcome_trans [of sv "{#}" "{}" "{}" "[]" ?sv "{#}" "{}" "{}" effects sv'] by simp
  next
    case line
    obtain sv1 es v where h: "handle_console_line (sv_console_line sv) sv w = (sv1, es, v)" by (metis prod_cases3)
    let ?sv = "sv1\<lparr>sv_console_line := []\<rparr>"
    have o1: "outcome sv {#} {} {} es sv1" by (rule handle_console_line_outcome [OF inv h])
    have inv1: "server_inv ?sv" using o1 by (auto simp: outcome_def intro: server_inv_line)
    have "outcome sv1 {#} {} {} [] ?sv" by (rule outcome_print) (use inv1 in simp_all)
    from outcome_trans [OF o1 this] have o2: "outcome sv {#} {} {} es ?sv" by simp
    show ?thesis
    proof (cases "sv_running sv1")
      case False
      then show ?thesis using "2.prems"(2) line h o2 by simp
    next
      case True
      obtain sv2 fs u where r: "console_bytes bs ?sv v = (sv2, fs, u)" by (metis prod_cases3)
      have "outcome ?sv {#} {} {} fs sv2"
        by (rule "2.IH"(2) [OF line h [symmetric] refl refl]) (use True inv1 r in simp_all)
      from outcome_trans [OF o2 this] show ?thesis using "2.prems"(2) line h r True by simp
    qed
  next
    case add
    let ?sv = "sv\<lparr>sv_console_line := sv_console_line sv @ [b]\<rparr>"
    have inv1: "server_inv ?sv" by (rule server_inv_line [OF inv]) (use add in simp)
    have "outcome ?sv {#} {} {} effects sv'" by (rule "2.IH"(3) [OF add inv1]) (use "2.prems"(2) add in simp)
    moreover have "outcome sv {#} {} {} [] ?sv" by (rule quiet) (use inv1 in simp_all)
    ultimately show ?thesis using outcome_trans [of sv "{#}" "{}" "{}" "[]" ?sv "{#}" "{}" "{}" effects sv'] by simp
  next
    case large
    let ?sv = "sv\<lparr>sv_console_line := [], sv_discarding_line := True\<rparr>" and ?out = "Print (str ''command too large'' @ [newline])"
    have inv1: "server_inv ?sv" using server_inv_line [OF inv, of "[]"] by simp
    obtain sv2 fs u where r: "console_bytes bs ?sv w = (sv2, fs, u)" by (metis prod_cases3)
    have "outcome ?sv {#} {} {} fs sv2" by (rule "2.IH"(4) [OF large inv1 r])
    moreover have "outcome sv {#} {} {} [?out] ?sv" by (rule outcome_print) (use inv1 in simp_all)
    moreover have "sv' = sv2" "effects = [?out] @ fs" using "2.prems"(2) large r by simp_all
    ultimately show ?thesis using outcome_trans [of sv "{#}" "{}" "{}" "[?out]" ?sv "{#}" "{}" "{}" fs sv2] by simp
  qed
qed

lemma read_console_outcome:
  assumes inv: "server_inv sv" and run: "read_console input sv w = (sv', effects, w')"
  shows "outcome sv {#} {} {} effects sv'"
proof -
  have "outcome sv {#} {} {} [] sv" "outcome sv {#} {} {} [] (sv\<lparr>sv_console_open := False\<rparr>)"
    by (rule outcome_print; use inv in simp)+
  then show ?thesis
    using run console_bytes_outcome [OF inv]
    by (cases input) (auto simp: read_console_def split: if_splits)
qed

lemma outcome_timer:
  assumes o: "outcome sv new reqs heard effects sv'" and e: "e = ResetElectionTimer \<or> e = SetHeartbeatDeadline"
  shows "outcome sv new reqs heard (effects @ [e]) sv'"
proof -
  have "truthful (asking sv \<union> reqs) (sv_node sv') [e]" using e by (auto simp: truthful_def)
  then show ?thesis using o e by (auto simp: outcome_def)
qed

lemma timeout_outcome:
  assumes inv: "server_inv sv" and ev: "ev = ElectionTimeout \<or> ev = HeartbeatTimeout"
    and run: "node_step ev (sv_node sv) w = (r, nd, w')" and pr: "process r None (sv\<lparr>sv_node := nd\<rparr>) = (sv', effects)"
  shows "outcome sv {#} {} {} effects sv'"
  by (rule outcome_plain_event [OF inv run]) (use ev pr in \<open>auto simp: local_event_def replied_to_def\<close>)

lemma fire_timers_outcome:
  assumes inv: "server_inv sv" and run: "fire_timers pa sv w = (sv', effects, w')"
  shows "outcome sv {#} {} {} effects sv'"
proof -
  consider (heartbeat) "leading sv" "pa_heartbeat_due pa" | (election) "\<not> leading sv" "pa_election_due pa"
    | (none) "\<not> (leading sv \<and> pa_heartbeat_due pa)" "\<not> (\<not> leading sv \<and> pa_election_due pa)" by blast
  then show ?thesis
  proof cases
    case heartbeat
    obtain r nd v where s: "on_heartbeat_timeout (sv_node sv) w = (r, nd, v)" by (metis prod_cases3)
    obtain sv1 es where p: "process r None (sv\<lparr>sv_node := nd\<rparr>) = (sv1, es)" by fastforce
    have "outcome sv {#} {} {} es sv1" by (rule timeout_outcome [OF inv _ _ p, of HeartbeatTimeout]) (use s in simp_all)
    then have "outcome sv {#} {} {} (es @ [SetHeartbeatDeadline]) sv1" by (rule outcome_timer) simp
    then show ?thesis using run heartbeat s p by (simp add: fire_timers_def)
  next
    case election
    obtain r nd v where s: "on_election_timeout (sv_node sv) w = (r, nd, v)" by (metis prod_cases3)
    obtain sv1 es where p: "process r None (sv\<lparr>sv_node := nd\<rparr>) = (sv1, es)" by fastforce
    have "outcome sv {#} {} {} es sv1" by (rule timeout_outcome [OF inv _ _ p, of ElectionTimeout]) (use s in simp_all)
    then have "outcome sv {#} {} {} (es @ [ResetElectionTimer]) sv1" by (rule outcome_timer) simp
    then show ?thesis using run election s p by (simp add: fire_timers_def)
  next
    case none
    then have "sv' = sv" "effects = []" using run by (auto simp: fire_timers_def split: if_splits)
    then show ?thesis using outcome_refl [OF inv] by simp
  qed
qed

section \<open>The loop\<close>

text \<open>What comes in with an answer of \<open>poll\<close>.\<close>

definition clients_of :: "poll_answer \<Rightarrow> connection multiset" where
  "clients_of pa = (case pa_accepted pa of
     Some (con, as, arriving) \<Rightarrow> clients_in con (receive_frame as arriving) | None \<Rightarrow> {#})"

definition requests_of :: "poll_answer \<Rightarrow> (connection \<times> wish) set" where
  "requests_of pa = (case pa_accepted pa of
     Some (con, as, arriving) \<Rightarrow> requests_in con (receive_frame as arriving) | None \<Rightarrow> {})"

definition envelopes_of :: "poll_answer \<Rightarrow> raft_envelope set" where
  "envelopes_of pa = (case pa_accepted pa of
     Some (con, as, arriving) \<Rightarrow> envelopes_in (receive_frame as arriving) | None \<Rightarrow> {})"

lemma server_iteration_outcome:
  assumes inv: "server_inv sv" and run: "server_iteration pa sv w = (sv', effects, w')"
  shows "outcome sv (clients_of pa) (requests_of pa) (envelopes_of pa) effects sv'"
proof -
  obtain sv1 e1 w1 where r: "(case pa_accepted pa of None \<Rightarrow> (sv, [], w)
      | Some (con, as, arriving) \<Rightarrow> receive_one con as arriving sv w) = (sv1, e1, w1)" by (metis prod_cases3)
  obtain sv2 e2 w2 where c: "(case pa_console pa of None \<Rightarrow> (sv1, [], w1) | Some input \<Rightarrow> read_console input sv1 w1)
      = (sv2, e2, w2)" by (metis prod_cases3)
  let ?sv3 = "if pa_hangup pa then sv2\<lparr>sv_console_open := False\<rparr> else sv2"
  obtain sv4 e4 w4 where t: "fire_timers pa ?sv3 w2 = (sv4, e4, w4)" by (metis prod_cases3)
  have o1: "outcome sv (clients_of pa) (requests_of pa) (envelopes_of pa) e1 sv1"
  proof (cases "pa_accepted pa")
    case None
    then have "sv1 = sv" "e1 = []" using r by auto
    then show ?thesis using outcome_refl [OF inv] None by (simp add: clients_of_def)
  next
    case (Some x)
    obtain con as arriving where x: "x = (con, as, arriving)" by (metis prod_cases3)
    then have "receive_one con as arriving sv w = (sv1, e1, w1)" using r Some by simp
    from receive_one_outcome [OF inv this] show ?thesis by (simp add: clients_of_def requests_of_def envelopes_of_def Some x)
  qed
  then have inv1: "server_inv sv1" by (simp add: outcome_def)
  have o2: "outcome sv1 {#} {} {} e2 sv2"
  proof (cases "pa_console pa")
    case None
    then have "sv2 = sv1" "e2 = []" using c by auto
    then show ?thesis using outcome_refl [OF inv1] by simp
  next
    case (Some input)
    then show ?thesis using c by (intro read_console_outcome [OF inv1]) simp
  qed
  then have inv2: "server_inv sv2" by (simp add: outcome_def)
  have o3: "outcome sv2 {#} {} {} [] ?sv3" by (rule outcome_print) (use inv2 in simp_all)
  then have inv3: "server_inv ?sv3" by (simp add: outcome_def)
  from outcome_trans [OF outcome_trans [OF o1 o2] o3]
  have o123: "outcome sv (clients_of pa) (requests_of pa) (envelopes_of pa) (e1 @ e2) ?sv3" by simp
  show ?thesis
  proof (cases "sv_running ?sv3")
    case True
    have "outcome ?sv3 {#} {} {} e4 sv4" by (rule fire_timers_outcome [OF inv3 t])
    from outcome_trans [OF o123 this] have "outcome sv (clients_of pa) (requests_of pa) (envelopes_of pa) (e1 @ e2 @ e4) sv4"
      by simp
    moreover have "sv' = sv4" "effects = e1 @ e2 @ e4"
      using run r c t True by (simp_all add: server_iteration_def Let_def)
    ultimately show ?thesis by simp
  next
    case False
    then have "sv' = ?sv3" "effects = e1 @ e2" using run r c by (simp_all add: server_iteration_def Let_def split: if_splits)
    then show ?thesis using o123 by simp
  qed
qed

lemma fail_pending_outcome:
  assumes inv: "server_inv sv" and run: "fail_pending sv = (sv', effects)"
  shows "outcome sv {#} {} {} effects sv' \<and> waiting sv' = {#}"
proof -
  note f = fail_pending_settles [OF run]
  have "server_inv sv'" using inv f by (simp add: server_inv_def seated_def settles_def tables_ok_def ordered_def sv_id_def)
  moreover have "frames effects = {}" using fail_frames [of sv] run by simp
  moreover have "waiting sv' = {#}" using f(2,3) by (simp add: waiting_def)
  ultimately show ?thesis using f(1) settles_asking [OF f(1)] by (auto simp: outcome_def settles_def)
qed

definition all_requests :: "poll_answer list \<Rightarrow> (connection \<times> wish) set" where
  "all_requests pas = (\<Union>pa \<in> set pas. requests_of pa)"

definition all_envelopes :: "poll_answer list \<Rightarrow> raft_envelope set" where
  "all_envelopes pas = (\<Union>pa \<in> set pas. envelopes_of pa)"

definition all_clients :: "poll_answer list \<Rightarrow> connection multiset" where
  "all_clients pas = sum_list (map clients_of pas)"

lemma serve_ends:
  assumes inv: "server_inv sv" and run: "fail_pending sv = (sv', effects)"
  shows "outcome sv (all_clients (take 0 pas)) (all_requests pas) (all_envelopes pas) effects sv' \<and> waiting sv' = {#}"
  using fail_pending_outcome [OF inv run] outcome_mono [of sv "{#}" "{}" "{}" effects sv'] by (simp add: all_clients_def)

lemma serve_outcome:
  "server_inv sv \<Longrightarrow> serve pas sv w = (code, sv', effects, w') \<Longrightarrow>
     \<exists>n \<le> length pas. outcome sv (all_clients (take n pas)) (all_requests pas) (all_envelopes pas) effects sv'
       \<and> (code = None \<longrightarrow> n = length pas) \<and> (code \<noteq> None \<longrightarrow> waiting sv' = {#})"
proof (induction pas arbitrary: sv w code sv' effects w')
  case Nil
  obtain sv1 es where f: "fail_pending sv = (sv1, es)" by fastforce
  show ?case
  proof (cases "sv_running sv")
    case True
    then show ?thesis using Nil outcome_refl [OF Nil(1)] by (simp add: all_clients_def)
  next
    case False
    then show ?thesis using Nil(2) f serve_ends [OF Nil(1) f, of "[]"] by auto
  qed
next
  case (Cons pa pas)
  note inv = Cons.prems(1)
  consider (stopped) "\<not> sv_running sv" | (failed) "sv_running sv" "pa_failed pa" | (go) "sv_running sv" "\<not> pa_failed pa" by blast
  then show ?case
  proof cases
    case stopped
    obtain sv1 es where f: "fail_pending sv = (sv1, es)" by fastforce
    then have "sv' = sv1" "effects = es" "code \<noteq> None" using Cons.prems(2) stopped by auto
    then show ?thesis using serve_ends [OF inv f, of "pa # pas"] by (intro exI [of _ 0]) simp
  next
    case failed
    let ?sv = "sv\<lparr>sv_fatal := True\<rparr>" and ?out = "PrintError (str ''poll failed'' @ [newline])"
    obtain sv1 es where f: "fail_pending ?sv = (sv1, es)" by fastforce
    then have e: "sv' = sv1" "effects = [?out] @ es" "code \<noteq> None" using Cons.prems(2) failed by auto
    have "outcome sv {#} {} {} [?out] ?sv" by (rule outcome_print) (use inv in simp_all)
    moreover note serve_ends [of ?sv sv1 es "pa # pas"]
    ultimately show ?thesis
      using outcome_trans [of sv "{#}" "{}" "{}" "[?out]" ?sv] f inv e by (intro exI [of _ 0]) (simp add: all_clients_def)
  next
    case go
    let ?pa = "if sv_console_open sv then pa else pa\<lparr>pa_console := None, pa_hangup := False\<rparr>"
    obtain sv1 e1 w1 where i: "server_iteration ?pa sv w = (sv1, e1, w1)" by (metis prod_cases3)
    obtain code2 sv2 e2 w2 where r: "serve pas sv1 w1 = (code2, sv2, e2, w2)" by (metis prod_cases4)
    have same: "clients_of ?pa = clients_of pa" "requests_of ?pa = requests_of pa" "envelopes_of ?pa = envelopes_of pa"
      by (simp_all add: clients_of_def requests_of_def envelopes_of_def)
    have o1: "outcome sv (clients_of pa) (requests_of pa) (envelopes_of pa) e1 sv1"
      using server_iteration_outcome [OF inv i] by (simp only: same)
    then have "server_inv sv1" by (simp add: outcome_def)
    then obtain n where n: "n \<le> length pas"
      "outcome sv1 (all_clients (take n pas)) (all_requests pas) (all_envelopes pas) e2 sv2"
      "code2 = None \<longrightarrow> n = length pas" "code2 \<noteq> None \<longrightarrow> waiting sv2 = {#}"
      using Cons.IH [OF _ r] by blast
    have "code = code2" "sv' = sv2" "effects = e1 @ e2" using Cons.prems(2) go i r by (simp_all add: Let_def)
    then show ?thesis
      using outcome_trans [OF o1 n(2)] n(1,3,4)
      by (intro exI [of _ "Suc n"]) (simp add: all_clients_def all_requests_def all_envelopes_def)
  qed
qed

text \<open>A server that has just started.\<close>

lemma new_server_inv:
  assumes "full_inv nd" and "nd_self_id nd \<in> ids" and "nd_peer_ids nd = peers_of (nd_self_id nd)"
  shows "server_inv (new_server nd)"
  using assms by (simp add: server_inv_def seated_def new_server_def sv_id_def tables_ok_def ordered_def)

end
