(* ===== verification/Raft_Server_Safety.thy ===== *)
theory Raft_Server_Safety
  imports Raft_Server_Loop
begin

text \<open>
  The properties of the server process, with their concrete inputs: a server whose node leads and has
  one committed write, a client frame that arrives on a connection, and a server that has just started.
\<close>

section \<open>Concrete servers\<close>

definition put_entry :: log_entry where
  "put_entry = sample_put 1 1"

definition put_log :: persistent_log where
  "put_log = \<lparr>pl_io_failed = False, pl_fd = 4, pl_entries = [\<lparr>se_entry = put_entry, se_offset = 0\<rparr>],
     pl_file_size = of_nat (length (entry_bytes put_entry))\<rparr>"

definition put_leader :: raft_node where
  "put_leader = (reign_of (peer_of 2 1 None) (peer_of 3 0 None))\<lparr>nd_log := put_log, nd_commit_index := 1,
     nd_state := kv_replay [put_entry]\<rparr>"

lemma put_entry_fields [simp]: "entry_index put_entry = 1" "entry_term put_entry = 1"
  "cmd_request_id (entry_command put_entry) = Some (request_id_of (replicate 16 7))" "cmd_type (entry_command put_entry) = Put"
  by (simp_all add: put_entry_def sample_put_def)

lemma put_entry_encoded: "encode_log_entry put_entry = Inr (entry_record 1 1 (command_layout (entry_command put_entry)))"
  by (simp add: encode_log_entry_Inr encode_command_Inr put_entry_def sample_put_def
      command_shape_ok_def length_command_layout maximum_field_size_def)

lemma put_record_length: "0 < length (entry_bytes put_entry)" "length (entry_bytes put_entry) < 100"
  by (simp_all add: entry_bytes_def put_entry_encoded length_entry_record length_command_layout)
    (simp_all add: put_entry_def sample_put_def)

lemma put_log_fields [simp]: "log_entries put_log = [put_entry]" "length (pl_entries put_log) = 1"
  by (simp_all add: put_log_def log_entries_def)

lemma put_log_wf: "log_wf put_log"
proof -
  have "encodable put_entry" by (simp add: encodable_def put_entry_encoded)
  then show ?thesis
    using put_record_length
    by (simp add: log_wf_def sequential_def log_image_def put_log_def log_entries_def unat_of_nat take_bit_nat_eq_self off_max_def
        word_le_nat_alt)
qed

lemma put_state: "kv_last_applied (kv_replay [put_entry]) = 1"
  "kv_request_result (request_id_of (replicate 16 7)) (kv_replay [put_entry])
    = Some \<lparr>ar_command = entry_command put_entry, ar_result = Applied, ar_index = 1, ar_term = 1\<rparr>"
  by (simp_all add: kv_replay_def apply_entry_def kv_apply_def kv_init_def kv_request_result_def put_entry_def
      sample_put_def Let_def)

lemma put_leader_inv: "full_inv put_leader"
proof -
  have f: "nd_metadata put_leader = stored 1 (Some 1)" "nd_log put_leader = put_log" "nd_commit_index put_leader = 1"
    "nd_election put_leader = election_of 1 raft_role.Leader True" "nd_state put_leader = kv_replay [put_entry]"
    "nd_leader put_leader = Some (leader_of (peer_of 2 1 None) (peer_of 3 0 None))" "nd_read_rounds put_leader = []"
    "nd_self_id put_leader = 1" "nd_peer_ids put_leader = (2, 3)" "nd_known_leader put_leader = Some 1"
    "\<not> nd_stopped put_leader"
    by (simp_all add: put_leader_def reign_of_def voted_node_def opened_node_def)
  have "core_inv put_leader"
    using put_log_wf
    by (simp add: core_inv_def f node_term_def terms_ok_def applied_prefix_def put_state election_inv_def election_of_def)
  moreover have "lead_inv put_leader"
    by (simp add: lead_inv_def f leader_active_def leader_active_run leader_ids_def) (simp add: leader_of_def peer_of_def)
  moreover have "repl_inv put_leader"
    by (simp add: repl_inv_def f leader_inv_def pending_commits_def leader_of_def peer_inv_def list2_def)
  ultimately show ?thesis by (simp add: full_inv_def node_inv_def reads_inv_def f)
qed

section \<open>Concrete rounds of the loop\<close>

definition arrival :: "connection \<Rightarrow> bytes \<Rightarrow> poll_answer" where
  "arrival con bs = \<lparr>pa_failed = False,
     pa_accepted = Some (con, replicate (4 + length bs) (Gives 1), length_prefix (length bs) @ bs),
     pa_console = None, pa_hangup = False, pa_heartbeat_due = False, pa_election_due = False\<rparr>"

lemma arrival_frame:
  "0 < length bs \<Longrightarrow> length bs \<le> max_raft_frame_size \<Longrightarrow>
     receive_frame (replicate (4 + length bs) (Gives 1)) (length_prefix (length bs) @ bs) = Some bs"
  using receive_frame_steady [of bs "replicate (4 + length bs) (Gives 1)" "[]"] by (simp add: steady_def)

lemma arrival_of:
  assumes "0 < length bs" "length bs \<le> max_raft_frame_size"
  shows "clients_of (arrival con bs) = (if client_frame bs then {#con#} else {#})"
    "requests_of (arrival con bs) = write_requests con bs \<union> read_requests con bs" "envelopes_of (arrival con bs) = envelopes_in (Some bs)"
  using arrival_frame [OF assms]
  by (simp_all add: clients_of_def requests_of_def envelopes_of_def arrival_def clients_in_def requests_in_def)

lemma iterate_arrival:
  assumes "receive_one con (replicate (4 + length bs) (Gives 1)) (length_prefix (length bs) @ bs) sv w = (sv', effects, w')"
    and "sv_running sv'"
  shows "server_iteration (arrival con bs) sv w = (sv', effects, w')"
  using assms by (simp add: server_iteration_def arrival_def fire_timers_def Let_def)

lemma serve_arrival:
  assumes "receive_one con (replicate (4 + length bs) (Gives 1)) (length_prefix (length bs) @ bs) sv w = (sv', effects, w')"
    and "sv_running sv" "sv_running sv'" "sv_console_open sv"
  shows "serve [arrival con bs] sv w = (None, sv', effects, w')"
  using iterate_arrival [OF assms(1,3)] assms(2-4) by (simp add: Let_def) (simp add: arrival_def)

text \<open>The client of the committed write asks again.\<close>

definition put_server :: server where
  "put_server = new_server put_leader"

definition put_frame_bytes :: bytes where
  "put_frame_bytes = request_payload \<lparr>cw_command = entry_command put_entry\<rparr>
     @ be_bytes 4 (crc32 (request_payload \<lparr>cw_command = entry_command put_entry\<rparr>))"

lemma put_server_inv: "server_inv put_server"
  unfolding put_server_def
  by (rule new_server_inv [OF put_leader_inv]) (simp_all add: put_leader_def reign_of_def voted_node_def opened_node_def ids_def)

lemma put_request_decoded: "decode_client_request put_frame_bytes = Inr \<lparr>cw_command = entry_command put_entry\<rparr>"
proof -
  have "encode_client_request \<lparr>cw_command = entry_command put_entry\<rparr> = Inr put_frame_bytes"
    by (simp add: request_codec.encode_payload request_ok_def put_frame_bytes_def length_command_layout
        command_shape_ok_def) (simp add: put_entry_def sample_put_def)
  then show ?thesis by (simp add: request_codec.decode_encode_iff)
qed

lemma put_frame_shape: "0 < length put_frame_bytes" "length put_frame_bytes \<le> max_raft_frame_size"
    "length put_frame_bytes \<ge> 2" "put_frame_bytes ! 1 = 5" "client_frame put_frame_bytes"
  by (simp_all add: put_frame_bytes_def request_payload_def length_command_layout max_raft_frame_size_def client_frame_def)
    (simp_all add: put_entry_def sample_put_def)

definition committed_reply :: client_write_reply where
  "committed_reply = \<lparr>cwr_status = Committed, cwr_term = 1, cwr_index = 1, cwr_leader_hint = 1\<rparr>"

lemma put_answered:
  "receive_one 7 (replicate (4 + length put_frame_bytes) (Gives 1)) (length_prefix (length put_frame_bytes) @ put_frame_bytes)
     put_server w = (put_server, [ReplyWrite 7 committed_reply], w)"
proof -
  have "leading put_server"
    by (simp add: leading_def put_server_def new_server_def put_leader_def reign_of_def voted_node_def opened_node_def
        node_role_def election_role_def election_of_def)
  moreover have "nd_state (sv_node put_server) = kv_replay [put_entry]" "sv_id put_server = 1"
    by (simp_all add: put_server_def new_server_def put_leader_def sv_id_def reign_of_def voted_node_def opened_node_def)
  ultimately have "handle_client_write 7 put_frame_bytes put_server w = (put_server, [ReplyWrite 7 committed_reply], w)"
    by (simp add: handle_client_write_def put_request_decoded Let_def put_state result_reply_def write_reply_def committed_reply_def)
  then show ?thesis
    using arrival_frame [OF put_frame_shape(1,2)] put_frame_shape(3,4) by (simp add: receive_one_def)
qed

lemma put_served: "serve [arrival 7 put_frame_bytes] put_server w = (None, put_server, [ReplyWrite 7 committed_reply], w)"
  by (rule serve_arrival [OF put_answered]) (simp_all add: put_server_def new_server_def)

section \<open>Properties\<close>

text \<open>C7: A client that is told its write is committed was told the truth. However long the event loop
  runs, whatever clients, servers, timers and disks do, if the server answers a connection Committed
  with a term and an index, then a client on that connection asked for a command, and at the end of the run
  that command is the entry of the server's log at that index, with that term, within its commit
  index.\<close>

theorem committed_reply_true:
  assumes "server_inv sv" and "serve pas sv w = (code, sv', effects, w')"
    and "ReplyWrite con y \<in> set effects" and "cwr_status y = Committed"
  shows "\<exists>c. (con, Writes c) \<in> asking sv \<union> all_requests pas \<and> committed_as (sv_node sv') c (cwr_term y) (cwr_index y)"
  using serve_outcome [OF assms(1,2)] assms(3,4) unfolding outcome_def truthful_def by blast

theorem committed_reply_true_witness:
  "committed_as (sv_node put_server) (entry_command put_entry) 1 1"
proof -
  have "\<exists>c. (7, Writes c) \<in> asking put_server \<union> all_requests [arrival 7 put_frame_bytes]
      \<and> committed_as (sv_node put_server) c (cwr_term committed_reply) (cwr_index committed_reply)"
    by (rule committed_reply_true [OF put_server_inv put_served]) (simp_all add: committed_reply_def)
  then show ?thesis
    by (auto simp: asking_def askers_def readers_def put_server_def new_server_def all_requests_def
        arrival_of [OF put_frame_shape(1,2)] write_requests_def read_requests_def put_request_decoded committed_reply_def
        split: sum.splits)
qed

text \<open>C9: Every client is answered exactly once. Counting connections, those that wait at the start and
  those that send a client request in a round of the loop are, together, those that have been answered and those that
  still wait; when the loop has ended, none waits.\<close>

theorem clients_answered_once:
  assumes "server_inv sv" and "serve pas sv w = (code, sv', effects, w')"
  shows "\<exists>n \<le> length pas. waiting sv' + answered effects = waiting sv + all_clients (take n pas)
    \<and> (code = None \<longrightarrow> n = length pas) \<and> (code \<noteq> None \<longrightarrow> waiting sv' = {#})"
  using serve_outcome [OF assms] unfolding outcome_def by blast

theorem clients_answered_once_witness:
  "\<exists>effects. serve [arrival 7 put_frame_bytes] put_server \<lparr>script = [], trace = []\<rparr>
       = (None, put_server, effects, \<lparr>script = [], trace = []\<rparr>) \<and> answered effects = {#7#}"
proof -
  have "\<exists>n \<le> length [arrival 7 put_frame_bytes]. waiting put_server + answered [ReplyWrite 7 committed_reply]
      = waiting put_server + all_clients (take n [arrival 7 put_frame_bytes])
      \<and> (None = (None :: int option) \<longrightarrow> n = length [arrival 7 put_frame_bytes])
      \<and> (None \<noteq> (None :: int option) \<longrightarrow> waiting put_server = {#})"
    by (rule clients_answered_once [OF put_server_inv put_served])
  then have "answered [ReplyWrite 7 committed_reply] = {#7#}"
    by (auto simp: all_clients_def arrival_of [OF put_frame_shape(1,2)] put_frame_shape(5))
  then show ?thesis using put_served by blast
qed

text \<open>C13: The state of the server process stays well formed through every run of the event loop, from a
  server that is well formed and from one just started on a node opened from files whose stored term covers
  the stored log: the node's invariant holds, the tables of waiting clients are in strict key order with
  at most 1024 entries, no entry with more than 1024 connections, and every waiting client belongs to the
  current leadership. As long as the node is not stopped, each waiting write is in the log: the entry at
  its index holds its command and was appended in its term.\<close>

theorem server_state_well_formed:
  assumes "server_inv sv \<or>
      (self \<in> ids \<and> node_open self (peers_of self) dir v = (Inr nd, v')
       \<and> terms_ok (node_term nd) (node_entries nd) \<and> sv = new_server nd)"
    and "serve pas sv w = (code, sv', effects, w')"
  shows "server_inv sv \<and> server_inv sv' \<and>
    (\<not> nd_stopped (sv_node sv') \<longrightarrow>
      (\<forall>(i, p) \<in> set (sv_pending_writes sv'). 0 < unat i \<and> unat i \<le> length (node_entries (sv_node sv'))
        \<and> node_entries (sv_node sv') ! (unat i - 1)
            = \<lparr>entry_index = i, entry_term = pw_term p, entry_command = pw_command p\<rparr>))"
proof -
  have start: "server_inv sv"
    using assms(1) node_open_full_inv [of self "peers_of self" dir v nd v'] new_server_inv [of nd]
      node_open_inv [of self "peers_of self" dir v nd v'] by auto
  have "server_inv sv'" using serve_outcome [OF start assms(2)] unfolding outcome_def by blast
  then show ?thesis using start by (auto simp: server_inv_def tables_ok_def write_ok_def write_in_log_def)
qed

theorem server_state_well_formed_witness:
  "server_inv put_server \<and> server_inv (new_server (opened_node 1))"
proof
  show "server_inv put_server" using server_state_well_formed [OF disjI1 [OF put_server_inv] put_served] by simp
  have one: "(1 :: u64) \<in> ids" by (simp add: ids_def)
  obtain w' where opened: "node_open 1 (peers_of 1) [100]
      \<lparr>script = [Ret 3, Fail ENOENT, Ret 0, Ret 4, Stat 0 True, Ret 5, Ret 0, Ret 0, Ret 0], trace = []\<rparr>
    = (Inr (opened_node 1), w')"
    using opens [OF one] by blast
  have terms: "terms_ok (node_term (opened_node 1)) (node_entries (opened_node 1))"
    by (simp add: opened_node_def no_log_def log_entries_def terms_ok_def)
  obtain code sv' effects u where run: "serve [] (new_server (opened_node 1)) w' = (code, sv', effects, u)"
    by (metis prod_cases4)
  show "server_inv (new_server (opened_node 1))"
    by (rule conjunct1 [OF server_state_well_formed
          [OF disjI2 [OF conjI [OF one conjI [OF opened conjI [OF terms refl]]]] run]])
qed

text \<open>C6: The server process implements the cluster's step relation. In every reachable cluster in which
  the server's node is as the server has it, and in which the envelopes arriving in this round
  were sent to it, one round of the event loop takes the cluster to a reachable cluster that differs in no
  other node, has the server's new node, and has every frame the server sent in its network. So what is
  proved of reachable clusters holds of servers that run this loop.\<close>

theorem server_refines_cluster:
  assumes "server_inv sv" and "reachable s" and "cl_node s (sv_id sv) = sv_node sv"
    and "\<forall>e \<in> envelopes_of pa. (sv_id sv, e) \<in> cl_net s"
    and "server_iteration pa sv w = (sv', effects, w')"
  shows "\<exists>s'. cluster_step\<^sup>*\<^sup>* s s' \<and> reachable s' \<and> cl_node s' = (cl_node s)(sv_id sv := sv_node sv')
    \<and> cl_net s \<subseteq> cl_net s' \<and> frames effects \<subseteq> cl_net s'"
proof -
  have "follows (sv_id sv) (sv_node sv) (envelopes_of pa) (frames effects) (sv_node sv')"
    using server_iteration_outcome [OF assms(1,5)] by (simp add: outcome_def)
  then obtain s' where s': "cluster_step\<^sup>*\<^sup>* s s'" "cl_node s' = (cl_node s)(sv_id sv := sv_node sv')"
    "cl_net s \<subseteq> cl_net s'" "frames effects \<subseteq> cl_net s'"
    using assms(3,4) unfolding follows_def by blast
  have "reachable s'" using s'(1) assms(2) by (induction rule: rtranclp_induct) (auto intro: reachable.Step)
  then show ?thesis using s' by blast
qed

text \<open>The first election timeout of server 1: it asks the others for their votes.\<close>

definition timer_round :: poll_answer where
  "timer_round = \<lparr>pa_failed = False, pa_accepted = None, pa_console = None, pa_hangup = False,
     pa_heartbeat_due = False, pa_election_due = True\<rparr>"

definition first_server :: server where
  "first_server = new_server (opened_node 1)"

lemma first_server_inv: "server_inv first_server"
proof -
  have one: "(1 :: u64) \<in> ids" by (simp add: ids_def)
  have "fresh_node 1 (opened_node 1)"
    unfolding fresh_node_def using opens [OF one] by (auto simp: opened_node_def no_log_def log_entries_def)
  then have "full_inv (opened_node 1) \<and> nd_self_id (opened_node 1) = 1 \<and> nd_peer_ids (opened_node 1) = peers_of 1"
    by (rule fresh_node_inv)
  then show ?thesis unfolding first_server_def by (intro new_server_inv) (simp_all add: ids_def)
qed

lemma first_timeout:
  "\<exists>sv' effects w'. server_iteration timer_round first_server two_good = (sv', effects, w') \<and> sv_node sv' = candidate_node"
proof -
  obtain a v where asks: "on_election_timeout (opened_node 1) two_good = (Inr a, candidate_node, v)" using run_asks by auto
  have node: "sv_node first_server = opened_node 1" by (simp add: first_server_def new_server_def)
  let ?sv = "first_server\<lparr>sv_node := candidate_node\<rparr>"
  obtain sv1 es where p: "process (Inr a) None ?sv = (sv1, es)" by fastforce
  have step: "node_step ElectionTimeout (sv_node first_server) two_good = (Inr a, candidate_node, v)" using asks node by simp
  have "full_inv (opened_node 1)" using first_server_inv node by (simp add: server_inv_def seated_def)
  then have "core_inv candidate_node"
    using node_step_local [OF _ step] node full_inv_parts(3) by (simp add: local_step_def)
  moreover have "ready_reads a = []"
    using node_step_reads [OF _ step] first_server_inv
    by (auto simp: reads_step_def ready_from_def server_inv_def seated_def)
  ultimately have "sv_node sv1 = candidate_node"
    using process_settles(1) [OF _ _ _ p] by (simp add: settles_def keys_distinct_def first_server_def new_server_def)
  moreover have "\<not> leading first_server"
    by (simp add: leading_def node opened_node_def node_role_def election_role_def election_of_def)
  then have "server_iteration timer_round first_server two_good = (sv1, es @ [ResetElectionTimer], v)"
    using asks node p by (simp add: server_iteration_def timer_round_def fire_timers_def Let_def)
      (simp add: first_server_def new_server_def)
  ultimately show ?thesis by blast
qed

theorem server_refines_cluster_witness:
  "\<exists>s'. reachable s' \<and> cluster_step\<^sup>*\<^sup>* start_cluster s' \<and> cl_node s' = opened_node(1 := candidate_node)"
proof -
  obtain sv' effects w' where run: "server_iteration timer_round first_server two_good = (sv', effects, w')"
    "sv_node sv' = candidate_node" using first_timeout by blast
  have id: "sv_id first_server = 1" "cl_node start_cluster (sv_id first_server) = sv_node first_server"
    by (simp_all add: sv_id_def first_server_def new_server_def opened_node_def start_cluster_def)
  have "\<forall>e \<in> envelopes_of timer_round. (sv_id first_server, e) \<in> cl_net start_cluster"
    by (simp add: envelopes_of_def timer_round_def)
  from server_refines_cluster [OF first_server_inv start_reachable id(2) this run(1)] show ?thesis
    using run(2) id(1) by (auto simp: start_cluster_def)
qed

text \<open>A running server's description of itself satisfies every check of the status format.\<close>

lemma leader_progress_valid:
  assumes "peer_inv 4 t self es p" and "length es < 2 ^ 64"
  shows "next_index (ps_progress p) \<noteq> 0" "match_index (ps_progress p) < next_index (ps_progress p)"
    "unat (match_index (ps_progress p)) \<le> length es"
  using assms by (auto simp: peer_inv_def word_less_nat_alt)

lemma status_reply_valid:
  assumes inv: "server_inv sv" and live: "\<not> nd_stopped (sv_node sv)"
  shows "valid_status_reply (status_reply sv)"
proof -
  let ?nd = "sv_node sv"
  have full: "full_inv ?nd" and seat: "sv_id sv \<in> ids" "nd_peer_ids ?nd = peers_of (sv_id sv)"
    using inv by (simp_all add: server_inv_def seated_def)
  have core: "core_inv ?nd" and li: "lead_inv ?nd" using full by (simp_all add: full_inv_def node_inv_def)
  have wf: "log_wf (nd_log ?nd)" using core by (simp add: core_inv_def)
  have last: "unat (last_index (nd_log ?nd)) = length (node_entries ?nd)"
  proof -
    have up: "unat (1 + last_index (nd_log ?nd)) = Suc (length (node_entries ?nd))"
      using next_index_nat [OF wf] by (simp add: add.commute)
    then have "1 + last_index (nd_log ?nd) \<noteq> 0" by (metis nat.distinct(1) unsigned_0)
    from unatSuc [OF this] show ?thesis using up by simp
  qed
  have le: "kv_last_applied (nd_state ?nd) \<le> nd_commit_index ?nd" "nd_commit_index ?nd \<le> last_index (nd_log ?nd)"
    using core last by (simp_all add: core_inv_def word_le_nat_alt)
  have ids: "sv_id sv \<noteq> 0" "fst (peers_of (sv_id sv)) \<noteq> 0" "snd (peers_of (sv_id sv)) \<noteq> 0"
    "fst (peers_of (sv_id sv)) \<noteq> snd (peers_of (sv_id sv))" "fst (peers_of (sv_id sv)) \<noteq> sv_id sv"
    "snd (peers_of (sv_id sv)) \<noteq> sv_id sv"
    using seat(1) by (auto simp: ids_def)
  show ?thesis
  proof (cases "nd_leader ?nd")
    case None
    then have "node_role ?nd \<noteq> raft_role.Leader" using li live by (simp add: lead_inv_def)
    then show ?thesis
      using ids le None seat(2)
      by (cases "node_role ?nd")
        (simp_all add: valid_status_reply_def status_reply_def client_role_def peer_status_def node_peer_progress_def
          get2_def list2_def Let_def not_less)
  next
    case (Some ld)
    note n = leading_node [OF full_inv_parts(1) [OF full] Some]
    have repl: "leader_inv 4 ld (node_entries ?nd)" "nd_known_leader ?nd = Some (nd_self_id ?nd)"
      using full Some by (simp_all add: full_inv_def repl_inv_def)
    have role: "client_role (node_role ?nd) = client_node_role.Leader" by (simp add: n client_role_def)
    have small: "length (node_entries ?nd) < 2 ^ 64" using unsigned_less [of "last_index (nd_log ?nd)", where 'a = nat] last by simp
    have valid: "next_index (ps_progress p) \<noteq> 0 \<and> match_index (ps_progress p) < next_index (ps_progress p)
        \<and> match_index (ps_progress p) \<le> last_index (nd_log ?nd)" if "p \<in> {fst (ld_peers ld), snd (ld_peers ld)}" for p
    proof -
      have "peer_inv 4 (ld_term ld) (ld_self_id ld) (node_entries ?nd) p" using repl(1) that by (auto simp: leader_inv_def)
      from leader_progress_valid [OF this small] show ?thesis using last by (simp add: word_le_nat_alt)
    qed
    have "ps_id (fst (ld_peers ld)) = fst (peers_of (sv_id sv))" "ps_id (snd (ld_peers ld)) = snd (peers_of (sv_id sv))"
      using n(2) seat(2) by (simp_all add: leader_ids_def prod_eq_iff)
    then have "node_peer_progress (fst (peers_of (sv_id sv))) ?nd = Some (ps_progress (fst (ld_peers ld)))"
      and "node_peer_progress (snd (peers_of (sv_id sv))) ?nd = Some (ps_progress (snd (ld_peers ld)))"
      using n(1) ids(4) by (simp_all add: node_peer_progress_def Some progress_def find_peer_def get2_def)
    then show ?thesis
      using ids le seat(2) valid [of "fst (ld_peers ld)"] valid [of "snd (ld_peers ld)"]
      by (simp add: valid_status_reply_def status_reply_def role peer_status_def get2_def list2_def Let_def leader_hint_def
          repl(2) sv_id_def not_le not_less)
  qed
qed

text \<open>C35: A server whose node is not stopped produces exactly one answer to every status request, the
  description of its own state, and this answer is always fit to be sent: it passes every check of the
  status format, with the leader's progress of its peers within its log and no progress shown by the
  others, so it has an encoding, and the client's decoder reads back the same description. Whatever the
  socket does, sending it writes a part of the frame with this encoding, and reports success exactly
  when the whole frame was written.\<close>

theorem status_always_answered:
  assumes "server_inv sv" and "\<not> nd_stopped (sv_node sv)" and "decode_client_status_request bs = Inr q"
  shows "handle_client_status con bs sv = [ReplyStatus con (status_reply sv)]
    \<and> (\<exists>frame. encode_client_status_reply (status_reply sv) = Inr frame
         \<and> decode_client_status_reply frame = Inr (status_reply sv)
         \<and> (\<forall>as. case send_client_status_reply as (status_reply sv) of (ok, out) \<Rightarrow>
              (\<exists>k. out = take k (length_prefix (length frame) @ frame))
              \<and> (ok \<longleftrightarrow> out = length_prefix (length frame) @ frame)))"
proof -
  let ?y = "status_reply sv"
  let ?frame = "status_reply_payload ?y @ be_bytes 4 (crc32 (status_reply_payload ?y))"
  have enc: "encode_client_status_reply ?y = Inr ?frame"
    using status_reply_valid [OF assms(1,2)] by (simp add: status_reply_codec.encode_payload)
  have "case send_client_status_reply as ?y of (ok, out) \<Rightarrow>
      (\<exists>k. out = take k (length_prefix (length ?frame) @ ?frame)) \<and> (ok \<longleftrightarrow> out = length_prefix (length ?frame) @ ?frame)" for as
    using put_frame_out [of as ?frame] unfolding send_client_status_reply_def enc by (auto split: prod.splits)
  moreover have "handle_client_status con bs sv = [ReplyStatus con ?y]"
    using assms(3) by (simp add: handle_client_status_def)
  ultimately show ?thesis using enc status_reply_codec.round_trip [OF enc] by blast
qed

theorem status_always_answered_witness:
  "\<exists>frame. encode_client_status_reply (status_reply put_server) = Inr frame"
proof -
  let ?bs = "[2, 9] @ be_bytes 4 (crc32 [2, 9])"
  have "encode_client_status_request q = Inr ?bs" for q by (simp add: status_request_codec.encode_payload)
  then have "decode_client_status_request ?bs = Inr q" for q by (simp only: status_request_codec.decode_encode_iff)
  moreover have "\<not> nd_stopped (sv_node put_server)"
    by (simp add: put_server_def new_server_def put_leader_def reign_of_def voted_node_def opened_node_def)
  ultimately show ?thesis using status_always_answered [OF put_server_inv] by blast
qed

end
