(* ===== verification/Raft_Server_Reads.thy ===== *)
theory Raft_Server_Reads
  imports Raft_Server_Safety
begin

text \<open>
  What the server process tells the clients that read, with a concrete round of the loop: a leading server
  with a client waiting for a read, to which node 2 answers the probe of that read.
\<close>

section \<open>A round that answers a read\<close>

definition reading_node :: raft_node where
  "reading_node = put_leader\<lparr>nd_read_rounds := [(1, Some run_probe)], nd_next_read_id := 2\<rparr>"

definition reading_server :: server where
  "reading_server = (new_server reading_node)\<lparr>sv_pending_reads := [(1, \<lparr>pr_connection = 8, pr_term = 1, pr_key = [107]\<rparr>)]\<rparr>"

abbreviation probe_answer :: append_entries_reply where
  "probe_answer \<equiv> \<lparr>aer_term = 1, aer_success = True\<rparr>"

definition probe_reply :: raft_envelope where
  "probe_reply = \<lparr>env_sender_id = 2, env_message = MAppendEntriesReply probe_answer, env_replied_to = Some run_probe\<rparr>"

definition probe_frame :: bytes where
  "probe_frame = envelope_payload probe_reply @ be_bytes 4 (crc32 (envelope_payload probe_reply))"

lemmas put_leader_defs = put_leader_def reign_of_def voted_node_def opened_node_def

lemma reading_node_inv: "full_inv reading_node"
proof -
  have "core_inv reading_node" using full_inv_parts(3) [OF put_leader_inv] by (simp add: reading_node_def)
  moreover have "lead_inv reading_node"
  proof -
    obtain ld where "nd_leader put_leader = Some ld" by (simp add: put_leader_defs)
    then show ?thesis
      using put_leader_inv by (simp add: full_inv_def node_inv_def lead_inv_def reading_node_def leader_active_def)
  qed
  moreover have "reads_inv reading_node"
    by (simp add: reads_inv_def round_ok_def reading_node_def run_probe_def node_term_def)
      (simp add: put_leader_defs put_state)
  moreover have "repl_inv reading_node" using put_leader_inv by (simp add: full_inv_def reading_node_def)
  ultimately show ?thesis by (simp add: full_inv_def node_inv_def)
qed

lemma reading_leads: "node_role reading_node = raft_role.Leader" "node_term reading_node = 1"
  by (simp_all add: reading_node_def put_leader_defs node_role_def node_term_def election_role_def election_of_def)

lemma reading_server_inv: "server_inv reading_server"
proof -
  have "server_inv (new_server reading_node)"
    by (rule new_server_inv [OF reading_node_inv]) (simp_all add: reading_node_def put_leader_defs ids_def)
  then show ?thesis
    by (simp add: server_inv_def seated_def reading_server_def sv_id_def tables_ok_def ordered_def read_ok_def new_server_def
        reading_leads) (simp add: reading_node_def)
qed

lemma probe_frame_decodes: "decode_raft_envelope probe_frame = Inr probe_reply"
  "0 < length probe_frame" "length probe_frame \<le> max_raft_frame_size" "\<not> client_frame probe_frame"
proof -
  have "encode_raft_envelope probe_reply = Inr probe_frame"
    by (simp add: encode_raft_envelope_iff probe_frame_def)
      (simp add: probe_reply_def envelope_simps append_fits_def entries_fit_def append_layout_def entries_layout_def
        max_raft_frame_size_def rw_checksum_size_def)
  then show "decode_raft_envelope probe_frame = Inr probe_reply" by (simp add: envelope_codec.decode_encode_iff)
  show "0 < length probe_frame" "length probe_frame \<le> max_raft_frame_size" "\<not> client_frame probe_frame"
    by (simp_all add: probe_frame_def envelope_payload_def message_layout_def probe_reply_def append_layout_def
        entries_layout_def max_raft_frame_size_def client_frame_def)
qed

definition value_reply :: client_read_reply where
  "value_reply = \<lparr>crr_status = Found, crr_term = 1, crr_index = 1, crr_leader_hint = 1, crr_value = Some [1]\<rparr>"

definition served_server :: server where
  "served_server = reading_server\<lparr>sv_node := reading_node\<lparr>nd_read_rounds := []\<rparr>, sv_pending_reads := []\<rparr>"

lemma reading_node_ready:
  "on_append_reply 2 run_probe probe_answer reading_node w
     = (Inr (no_actions\<lparr>ready_reads := [\<lparr>rr_id = 1, rr_index = 1\<rparr>]\<rparr>), reading_node\<lparr>nd_read_rounds := []\<rparr>, w)"
proof -
  let ?ld = "leader_of (peer_of 2 1 None) (peer_of 3 0 None)"
  have h: "handle_reply (election_of 1 raft_role.Leader True) put_log 2 run_probe probe_answer (stored 1 (Some 1)) 1 ?ld w
      = (append_reply_outcome.Ignored, stored 1 (Some 1), 1, ?ld, w)"
    by (simp add: handle_reply_def leader_active_run Let_def) (simp add: leader_of_def find_peer_def get2_def peer_of_def)
  show ?thesis
    by (simp add: on_append_reply_def reading_node_def put_leader_defs is_peer_def get2_def h Let_def
        after_append_reply_def finish_read_def node_term_def put_state no_actions_def)
qed

lemma read_answered:
  "receive_one 9 (replicate (4 + length probe_frame) (Gives 1)) (length_prefix (length probe_frame) @ probe_frame)
     reading_server w = (served_server, [ReplyRead 8 value_reply], w)"
proof -
  let ?sv = "reading_server\<lparr>sv_node := reading_node\<lparr>nd_read_rounds := []\<rparr>\<rparr>"
  have f: "sv_pending_reads ?sv = [(1, \<lparr>pr_connection = 8, pr_term = 1, pr_key = [107]\<rparr>)]" "sv_pending_writes ?sv = []"
    "sv_blocked_peers ?sv = [False, False, False]" "sv_id ?sv = 1"
    by (simp_all add: reading_server_def new_server_def sv_id_def reading_node_def put_leader_defs)
  have lead: "still_leading ?sv 1"
    using reading_leads by (simp add: still_leading_def leading_def sv_term_def node_role_def node_term_def)
  have v: "kv_get [107] (nd_state reading_node) = Some [1]"
    by (simp add: reading_node_def put_leader_defs kv_get_def kv_replay_def apply_entry_def)
      (simp add: kv_apply_def kv_init_def kv_request_result_def put_entry_def sample_put_def Let_def)
  have "process (Inr (no_actions\<lparr>ready_reads := [\<lparr>rr_id = 1, rr_index = 1\<rparr>]\<rparr>)) None ?sv
      = (served_server, [ReplyRead 8 value_reply])"
    using lead f v
    by (simp add: process_def expire_pending_def no_actions_def served_server_def value_reply_def read_reply_def
        erase_def sv_id_def Let_def)
  moreover have "dispatch_envelope probe_reply reading_server w
      = (case process (Inr (no_actions\<lparr>ready_reads := [\<lparr>rr_id = 1, rr_index = 1\<rparr>]\<rparr>)) None ?sv of (sv, effects) \<Rightarrow> (sv, effects, w))"
    by (simp add: dispatch_envelope_def probe_reply_def Let_def)
      (simp add: reading_server_def new_server_def sv_id_def reading_node_ready,
        simp add: reading_node_def put_leader_defs)
  ultimately have "dispatch_envelope probe_reply reading_server w = (served_server, [ReplyRead 8 value_reply], w)" by simp
  then show ?thesis
    using arrival_frame [OF probe_frame_decodes(2,3)] probe_frame_decodes(1,4)
    by (auto simp: receive_one_def client_frame_def)
qed

lemma read_served: "serve [arrival 9 probe_frame] reading_server w = (None, served_server, [ReplyRead 8 value_reply], w)"
  by (rule serve_arrival [OF read_answered]) (simp_all add: reading_server_def served_server_def new_server_def)

section \<open>Properties\<close>

text \<open>C8: A client that is told a value was told the truth. However long the event loop runs, if the server
  answers a connection that a key was found with a value, or not found, then a client on that connection
  asked for a key, and the answer is what the key-value state has under that key after a number of the
  committed entries at the end of the run, at least as many as the index in the reply.\<close>

theorem read_reply_true:
  assumes "server_inv sv" and "serve pas sv w = (code, sv', effects, w')"
    and "ReplyRead con y \<in> set effects" and "crr_status y = Found \<or> crr_status y = NotFound"
  shows "\<exists>key n. (con, Reads key) \<in> asking sv \<union> all_requests pas
    \<and> unat (crr_index y) \<le> n \<and> n \<le> unat (nd_commit_index (sv_node sv'))
    \<and> crr_value y = kv_get key (kv_replay (take n (log_entries (nd_log (sv_node sv')))))
    \<and> (crr_status y = Found \<longleftrightarrow> crr_value y \<noteq> None)"
proof -
  have "truthful (asking sv \<union> all_requests pas) (sv_node sv') effects"
    using serve_outcome [OF assms(1,2)] by (auto simp: outcome_def)
  then obtain key where "(con, Reads key) \<in> asking sv \<union> all_requests pas" "read_as (sv_node sv') key y"
    using assms(3,4) unfolding truthful_def tells_value_def by blast
  then show ?thesis unfolding read_as_def by blast
qed

theorem read_reply_true_witness:
  "\<exists>n. 1 \<le> n \<and> n \<le> unat (nd_commit_index (sv_node served_server))
     \<and> Some [1] = kv_get [107] (kv_replay (take n (log_entries (nd_log (sv_node served_server)))))"
proof -
  have "\<exists>key n. (8, Reads key) \<in> asking reading_server \<union> all_requests [arrival 9 probe_frame]
    \<and> unat (crr_index value_reply) \<le> n \<and> n \<le> unat (nd_commit_index (sv_node served_server))
    \<and> crr_value value_reply = kv_get key (kv_replay (take n (log_entries (nd_log (sv_node served_server)))))
    \<and> (crr_status value_reply = Found \<longleftrightarrow> crr_value value_reply \<noteq> None)"
    by (rule read_reply_true [OF reading_server_inv read_served]) (simp_all add: value_reply_def)
  then show ?thesis
    by (auto simp: all_requests_def arrival_of [OF probe_frame_decodes(2,3)] write_requests_def read_requests_def
        asking_def askers_def readers_def reading_server_def new_server_def value_reply_def split: sum.splits)
qed

end
