(* ===== verification/Client_Net.thy ===== *)
theory Client_Net
  imports Client_Wire Framing
begin

text \<open>
  One request and its reply over a connection, as the client program makes it (src/dkv_client.cpp, the
  functions up to \<open>exchange\<close>).

  \<^item> \<open>client_io\<close> is the client's world: the answers its calls will get, the calls made so far, and what it
    has printed. The kernel and the clock are not part of the program; their answers are the parameter.
    A call beyond the script fails, and a clock that is asked beyond it has passed every deadline: a
    finite script describes a finite run, and all loops end.
  \<^item> \<open>wait_ready\<close>, \<open>send_all\<close>, \<open>receive_all\<close>, \<open>exchange\<close> are the functions; the lemmas say that what they
    report agrees with the bytes that went over the socket.
\<close>

section \<open>The world of the client\<close>

datatype client_errno = EINTR | EAGAIN | EINPROGRESS | OtherError

datatype net_answer =
    Count int
  | Received bytes
  | Polled int bool
  | SocketError int int
  | Now int
  | Failed client_errno

datatype net_call =
    CallSocket
  | CallConnect int nat
  | CallSocketError int
  | CallPollOut int int
  | CallPollIn int int
  | CallSend int bytes
  | CallRecv int nat
  | CallClose int
  | CallRandom nat
  | CallNow
  | CallSleep int

record client_io =
  ci_script :: "net_answer list"
  ci_trace :: "(net_call \<times> net_answer) list"
  ci_out :: bytes
  ci_err :: bytes

text \<open>The return value of a call, in C's convention.\<close>

primrec result :: "net_answer \<Rightarrow> int" where
  "result (Count n) = n"
| "result (Received bs) = int (length bs)"
| "result (Polled n ready) = n"
| "result (SocketError n e) = n"
| "result (Now t) = 0"
| "result (Failed e) = -1"

definition net :: "net_call \<Rightarrow> client_io \<Rightarrow> net_answer \<times> client_io" where
  "net c w =
     (case ci_script w of
        [] \<Rightarrow> (Failed OtherError, w\<lparr>ci_trace := ci_trace w @ [(c, Failed OtherError)]\<rparr>)
      | r # rs \<Rightarrow> (r, w\<lparr>ci_script := rs, ci_trace := ci_trace w @ [(c, r)]\<rparr>))"

text \<open>\<open>Clock::now()\<close> in nanoseconds, and its comparison with a deadline.\<close>

definition time_of :: "net_answer \<Rightarrow> int" where
  "time_of r = (case r of Now t \<Rightarrow> t | _ \<Rightarrow> 0)"

definition earlier :: "net_answer \<Rightarrow> int \<Rightarrow> bool" where
  "earlier r deadline \<longleftrightarrow> (case r of Now t \<Rightarrow> t < deadline | _ \<Rightarrow> False)"

text \<open>\<open>duration_cast\<close> to milliseconds: towards zero.\<close>

definition milliseconds :: "int \<Rightarrow> int" where
  "milliseconds ns = (if 0 \<le> ns then ns div 1000000 else - (- ns div 1000000))"

definition seconds :: "int \<Rightarrow> int" where
  "seconds n = n * 1000000000"

section \<open>Waiting, sending, receiving\<close>

definition poll_timeout :: "int \<Rightarrow> int" where
  "poll_timeout remaining = max 1 (min 0x7FFFFFFF (milliseconds remaining + 1))"

lemma net_script: "net c w = (r, w') \<Longrightarrow> length (ci_script w') \<le> length (ci_script w)"
  by (auto simp: net_def split: list.splits)

lemma net_answered: "net c w = (r, w') \<Longrightarrow> r \<noteq> Failed OtherError \<Longrightarrow> length (ci_script w') < length (ci_script w)"
  by (auto simp: net_def split: list.splits)

lemma clock_round:
  assumes "(t, w1) = net CallNow w" and "earlier t deadline" and "(u, w2) = net CallNow w1" and "(r, w3) = net c w2"
  shows "length (ci_script w3) < length (ci_script w)"
proof -
  have "t \<noteq> Failed OtherError" using assms(2) by (auto simp: earlier_def)
  then have "length (ci_script w1) < length (ci_script w)" by (rule net_answered [OF assms(1) [symmetric]])
  then show ?thesis using net_script [OF assms(3) [symmetric]] net_script [OF assms(4) [symmetric]] by linarith
qed

text \<open>\<open>events\<close> builds the call: \<open>CallPollOut\<close> for \<open>POLLOUT\<close>, \<open>CallPollIn\<close> for \<open>POLLIN\<close>.\<close>

function wait_ready :: "int \<Rightarrow> (int \<Rightarrow> int \<Rightarrow> net_call) \<Rightarrow> int \<Rightarrow> client_io \<Rightarrow> bool \<times> client_io" where
  "wait_ready fd events deadline w =
     (case net CallNow w of (t, w1) \<Rightarrow>
        if \<not> earlier t deadline then (False, w1)
        else
          (case net CallNow w1 of (t, w2) \<Rightarrow>
             case net (events fd (poll_timeout (deadline - time_of t))) w2 of (r, w3) \<Rightarrow>
               if r = Failed EINTR then wait_ready fd events deadline w3
               else (0 < result r \<and> (\<exists>n. r = Polled n True), w3)))"
  by pat_completeness auto

termination
  by (relation "measure (\<lambda>(fd, events, deadline, w). length (ci_script w))") (simp, simp, blast intro: clock_round)

declare wait_ready.simps [simp del]

lemma wait_ready_script: "wait_ready fd events deadline w = (b, w') \<Longrightarrow> length (ci_script w') \<le> length (ci_script w)"
proof (induction fd events deadline w rule: wait_ready.induct)
  case (1 fd events deadline w)
  obtain t w1 where t: "net CallNow w = (t, w1)" by fastforce
  obtain u w2 where u: "net CallNow w1 = (u, w2)" by fastforce
  obtain r w3 where r: "net (events fd (poll_timeout (deadline - time_of u))) w2 = (r, w3)" by fastforce
  note le = net_script [OF t] net_script [OF u] net_script [OF r]
  show ?case
  proof (cases "earlier t deadline \<and> r = Failed EINTR")
    case True
    then have "wait_ready fd events deadline w3 = (b, w')"
      using "1.prems" by (subst (asm) wait_ready.simps) (simp add: t u r)
    then have "length (ci_script w') \<le> length (ci_script w3)"
      using "1.IH" [OF t [symmetric] _ u [symmetric] r [symmetric]] True by blast
    then show ?thesis using le by linarith
  next
    case False
    then show ?thesis
      using "1.prems" le by (subst (asm) wait_ready.simps) (auto simp: t u r split: if_splits)
  qed
qed

definition try_again :: "net_answer \<Rightarrow> bool" where
  "try_again r \<longleftrightarrow> r = Failed EINTR \<or> r = Failed EAGAIN"

lemma answered_again [simp]: "\<not> try_again (Failed OtherError)"
  by (simp add: try_again_def)

text \<open>\<open>data\<close> is what is left to send; the loop ends when it is empty.\<close>

function send_all :: "int \<Rightarrow> bytes \<Rightarrow> int \<Rightarrow> client_io \<Rightarrow> bool \<times> client_io" where
  "send_all fd data deadline w =
     (if data = [] then (True, w)
      else
        (case wait_ready fd CallPollOut deadline w of (ready, w1) \<Rightarrow>
           if \<not> ready then (False, w1)
           else
             (case net (CallSend fd data) w1 of (r, w2) \<Rightarrow>
                if try_again r then send_all fd data deadline w2
                else if result r \<le> 0 then (False, w2)
                else send_all fd (drop (nat (result r)) data) deadline w2)))"
  by pat_completeness auto

termination
  by (relation "measure (\<lambda>(fd, data, deadline, w). length (ci_script w))")
    (auto dest!: sym [of "(_, _)"] wait_ready_script net_answered)

text \<open>\<open>acc\<close> is what has been received; the kernel puts at most as many bytes as asked for.\<close>

function receive_all :: "int \<Rightarrow> nat \<Rightarrow> bytes \<Rightarrow> int \<Rightarrow> client_io \<Rightarrow> bytes option \<times> client_io" where
  "receive_all fd wanted acc deadline w =
     (if wanted \<le> length acc then (Some acc, w)
      else
        (case wait_ready fd CallPollIn deadline w of (ready, w1) \<Rightarrow>
           if \<not> ready then (None, w1)
           else
             (case net (CallRecv fd (wanted - length acc)) w1 of (r, w2) \<Rightarrow>
                if try_again r then receive_all fd wanted acc deadline w2
                else
                  (case r of
                     Received bs \<Rightarrow>
                       if bs = [] then (None, w2)
                       else receive_all fd wanted (acc @ take (wanted - length acc) bs) deadline w2
                   | _ \<Rightarrow> (None, w2)))))"
  by pat_completeness auto

termination
  by (relation "measure (\<lambda>(fd, wanted, acc, deadline, w). length (ci_script w))")
    (auto dest!: sym [of "(_, _)"] wait_ready_script net_answered)

declare send_all.simps [simp del] receive_all.simps [simp del]

section \<open>One exchange\<close>

definition prefix :: "nat \<Rightarrow> bytes" where
  "prefix len =
     [of_nat (drop_bit 24 len AND 0xFF), of_nat (drop_bit 16 len AND 0xFF),
      of_nat (drop_bit 8 len AND 0xFF), of_nat (len AND 0xFF)]"

text \<open>\<open>length = (length << 8) | octet\<close> over the four bytes of the header.\<close>

definition header_length :: "bytes \<Rightarrow> nat" where
  "header_length header = unat (foldl (\<lambda>len octet. push_bit 8 len OR ucast octet) (0 :: u64) header)"

datatype exchange_error = SocketUnavailable | ServerUnavailable | ConnectionLost | InvalidReply
datatype client_operation = Write | Read | Status

datatype exchange_result =
    WriteAnswer client_write_reply
  | ReadAnswer client_read_reply
  | StatusAnswer client_status_reply
  | ExchangeFailed exchange_error

definition close_socket :: "int \<Rightarrow> client_io \<Rightarrow> client_io" where
  "close_socket fd w = snd (net (CallClose fd) w)"

text \<open>The non-blocking connection.\<close>

definition connect_to :: "int \<Rightarrow> nat \<Rightarrow> int \<Rightarrow> client_io \<Rightarrow> bool \<times> client_io" where
  "connect_to fd port deadline w =
     (case net (CallConnect fd port) w of (r, w) \<Rightarrow>
        if result r = 0 then (True, w)
        else if r \<noteq> Failed EINPROGRESS then (False, w)
        else
          (case wait_ready fd CallPollOut deadline w of (ready, w) \<Rightarrow>
             if \<not> ready then (False, w)
             else
               (case net (CallSocketError fd) w of (r, w) \<Rightarrow>
                  (r = SocketError 0 0, w))))"

definition decode_answer :: "client_operation \<Rightarrow> bytes \<Rightarrow> exchange_result" where
  "decode_answer operation reply_bytes =
     (if operation = Status then
        (case decode_client_status_reply reply_bytes of
           Inr reply \<Rightarrow> StatusAnswer reply | Inl _ \<Rightarrow> ExchangeFailed InvalidReply)
      else if operation = Read then
        (case decode_client_read_reply reply_bytes of
           Inr reply \<Rightarrow> ReadAnswer reply | Inl _ \<Rightarrow> ExchangeFailed InvalidReply)
      else
        (case decode_client_reply reply_bytes of
           Inr reply \<Rightarrow> WriteAnswer reply | Inl _ \<Rightarrow> ExchangeFailed InvalidReply))"

text \<open>\<open>||\<close> of the three transfers of the header, the frame and the reply's header.\<close>

definition send_and_receive :: "int \<Rightarrow> bytes \<Rightarrow> int \<Rightarrow> client_io \<Rightarrow> bytes option \<times> client_io" where
  "send_and_receive fd bs deadline w =
     (case send_all fd (prefix (length bs)) deadline w of (sent, w) \<Rightarrow>
        if \<not> sent then (None, w)
        else
          (case send_all fd bs deadline w of (sent, w) \<Rightarrow>
             if \<not> sent then (None, w) else receive_all fd 4 [] deadline w))"

definition exchange :: "nat \<Rightarrow> bytes \<Rightarrow> client_operation \<Rightarrow> int \<Rightarrow> client_io \<Rightarrow> exchange_result \<times> client_io" where
  "exchange port bs operation deadline w =
     (case net CallSocket w of (r, w) \<Rightarrow>
        if result r < 0 then (ExchangeFailed SocketUnavailable, w)
        else
          (let fd = result r
           in case connect_to fd port deadline w of (connected, w) \<Rightarrow>
                if \<not> connected then (ExchangeFailed ServerUnavailable, close_socket fd w)
                else
                  (case send_and_receive fd bs deadline w of
                     (None, w) \<Rightarrow> (ExchangeFailed ConnectionLost, close_socket fd w)
                   | (Some header, w) \<Rightarrow>
                       (let len = header_length header
                        in if len = 0 \<or> len > max_client_frame_size
                           then (ExchangeFailed InvalidReply, close_socket fd w)
                           else
                             (case receive_all fd len [] deadline w of (received, w) \<Rightarrow>
                                let w = close_socket fd w
                                in case received of
                                     None \<Rightarrow> (ExchangeFailed ConnectionLost, w)
                                   | Some reply_bytes \<Rightarrow> (decode_answer operation reply_bytes, w))))))"

section \<open>What goes over the socket\<close>

text \<open>The bytes the kernel took and gave in a list of calls.\<close>

definition sent_by :: "net_call \<times> net_answer \<Rightarrow> bytes" where
  "sent_by c = (case fst c of CallSend fd data \<Rightarrow> take (nat (result (snd c))) data | _ \<Rightarrow> [])"

definition received_by :: "net_call \<times> net_answer \<Rightarrow> bytes" where
  "received_by c = (case c of (CallRecv fd n, Received bs) \<Rightarrow> take n bs | _ \<Rightarrow> [])"

primrec sent :: "(net_call \<times> net_answer) list \<Rightarrow> bytes" where
  "sent [] = []"
| "sent (c # cs) = sent_by c @ sent cs"

primrec received :: "(net_call \<times> net_answer) list \<Rightarrow> bytes" where
  "received [] = []"
| "received (c # cs) = received_by c @ received cs"

lemma transfers_append [simp]: "sent (cs @ ds) = sent cs @ sent ds" "received (cs @ ds) = received cs @ received ds"
  by (induction cs) simp_all

text \<open>\<open>calls cs w w'\<close>: from \<open>w\<close> to \<open>w'\<close> the client made the calls \<open>cs\<close> and printed nothing.\<close>

definition calls :: "(net_call \<times> net_answer) list \<Rightarrow> client_io \<Rightarrow> client_io \<Rightarrow> bool" where
  "calls cs w w' \<longleftrightarrow> ci_trace w' = ci_trace w @ cs \<and> ci_out w' = ci_out w \<and> ci_err w' = ci_err w
     \<and> length (ci_script w') \<le> length (ci_script w)"

lemma calls_refl [simp]: "calls [] w w"
  by (simp add: calls_def)

lemma calls_trans: "calls cs w w' \<Longrightarrow> calls ds w' w'' \<Longrightarrow> calls (cs @ ds) w w''"
  by (auto simp: calls_def)

lemma net_calls: "net c w = (r, w') \<Longrightarrow> calls [(c, r)] w w'"
  by (auto simp: net_def calls_def split: list.splits)

text \<open>No byte moves while the client waits, connects or closes.\<close>

definition quiet :: "(net_call \<times> net_answer) list \<Rightarrow> bool" where
  "quiet cs \<longleftrightarrow> sent cs = [] \<and> received cs = []"

lemma quiet_simps [simp]: "quiet []" "quiet (cs @ ds) \<longleftrightarrow> quiet cs \<and> quiet ds"
  by (auto simp: quiet_def)

lemma quiet_call [simp]:
  "quiet [(CallSocket, r)]" "quiet [(CallConnect fd port, r)]" "quiet [(CallSocketError fd, r)]"
  "quiet [(CallPollOut fd t, r)]" "quiet [(CallPollIn fd t, r)]" "quiet [(CallClose fd, r)]" "quiet [(CallNow, r)]"
  "quiet [(CallRandom n, r)]" "quiet [(CallSleep t, r)]"
  by (simp_all add: quiet_def sent_by_def received_by_def)

lemma wait_ready_calls:
  assumes "\<And>t r. quiet [(events fd t, r)]" and "wait_ready fd events deadline w = (b, w')"
  shows "\<exists>cs. calls cs w w' \<and> quiet cs"
  using assms
proof (induction fd events deadline w rule: wait_ready.induct)
  case (1 fd events deadline w)
  obtain t w1 where t: "net CallNow w = (t, w1)" by fastforce
  obtain u w2 where u: "net CallNow w1 = (u, w2)" by fastforce
  obtain r w3 where r: "net (events fd (poll_timeout (deadline - time_of u))) w2 = (r, w3)" by fastforce
  let ?c = "[(CallNow, t)] @ [(CallNow, u)] @ [(events fd (poll_timeout (deadline - time_of u)), r)]"
  have one: "calls [(CallNow, t)] w w1" by (rule net_calls [OF t])
  have three: "calls ?c w w3" by (rule calls_trans [OF one calls_trans [OF net_calls [OF u] net_calls [OF r]]])
  have q: "quiet ?c" using "1.prems"(1) by (simp add: quiet_def sent_by_def received_by_def)
  consider "\<not> earlier t deadline" | "earlier t deadline" "r = Failed EINTR" | "earlier t deadline" "r \<noteq> Failed EINTR" by blast
  then show ?case
  proof cases
    case 1
    then have "w' = w1" using "1.prems"(2) by (subst (asm) wait_ready.simps) (simp add: t)
    then show ?thesis using one quiet_call(7) by blast
  next
    case 2
    then have "wait_ready fd events deadline w3 = (b, w')"
      using "1.prems"(2) by (subst (asm) wait_ready.simps) (simp add: t u r)
    then obtain cs where "calls cs w3 w'" "quiet cs"
      using "1.IH" [OF t [symmetric] _ u [symmetric] r [symmetric]] 2 "1.prems"(1) by blast
    then show ?thesis using calls_trans [OF three] q quiet_simps(2) by blast
  next
    case 3
    then have "w' = w3" using "1.prems"(2) by (subst (asm) wait_ready.simps) (simp add: t u r)
    then show ?thesis using three q by blast
  qed
qed

lemmas waits = wait_ready_calls [OF quiet_call(4)] wait_ready_calls [OF quiet_call(5)]

text \<open>A send that succeeds sent all of its data; one that fails, a proper part.\<close>

lemma send_all_calls:
  "send_all fd data deadline w = (b, w') \<Longrightarrow>
     \<exists>cs. calls cs w w' \<and> received cs = [] \<and> (\<exists>k. sent cs = take k data) \<and> (b \<longrightarrow> sent cs = data)"
proof (induction fd data deadline w rule: send_all.induct)
  case (1 fd data deadline w)
  show ?case
  proof (cases "data = []")
    case True
    then have "b" "w' = w" using "1.prems" by (simp_all add: send_all.simps)
    then show ?thesis using True by (intro exI [of _ "[]"]) simp
  next
    case False
    obtain ready w1 where wr: "wait_ready fd CallPollOut deadline w = (ready, w1)" by fastforce
    obtain r w2 where r: "net (CallSend fd data) w1 = (r, w2)" by fastforce
    obtain cs where cs: "calls cs w w1" "quiet cs" using waits(1) [OF wr] by blast
    let ?c = "[(CallSend fd data, r)]"
    have c: "calls (cs @ ?c) w w2" by (rule calls_trans [OF cs(1) net_calls [OF r]])
    have qc: "sent cs = []" "received cs = []" "received_by (CallSend fd data, r) = []"
      "sent_by (CallSend fd data, r) = take (nat (result r)) data"
      using cs(2) by (simp_all add: quiet_def received_by_def sent_by_def)
    note un = "1.prems" [unfolded send_all.simps [of fd data deadline w] wr prod.case r]
    consider "\<not> ready" | "ready" "try_again r" | "ready" "\<not> try_again r" "result r \<le> 0"
      | "ready" "\<not> try_again r" "0 < result r" by linarith
    then show ?thesis
    proof cases
      case 1
      then have "w' = w1" "\<not> b" using un False by auto
      then show ?thesis using cs(1) qc by (intro exI [of _ cs]) (auto intro: exI [of _ 0])
    next
      case 2
      then have "send_all fd data deadline w2 = (b, w')" using un False by simp
      then obtain ds where ds: "calls ds w2 w'" "received ds = []" "\<exists>k. sent ds = take k data" "b \<longrightarrow> sent ds = data"
        using "1.IH"(1) [OF False wr [symmetric] _ r [symmetric]] 2 by blast
      have "result r \<le> 0" using 2(2) by (auto simp: try_again_def)
      then show ?thesis using calls_trans [OF c ds(1)] ds qc by (intro exI [of _ "(cs @ ?c) @ ds"]) simp
    next
      case 3
      then have "w' = w2" "\<not> b" using un False by auto
      then show ?thesis using c qc by (intro exI [of _ "cs @ ?c"]) auto
    next
      case 4
      let ?n = "nat (result r)"
      have "send_all fd (drop ?n data) deadline w2 = (b, w')" using un False 4 by simp
      then obtain ds k where ds: "calls ds w2 w'" "received ds = []" "sent ds = take k (drop ?n data)"
        "b \<longrightarrow> sent ds = drop ?n data"
        using "1.IH"(2) [OF False wr [symmetric] _ r [symmetric]] 4 unfolding not_le by blast
      have "sent ((cs @ ?c) @ ds) = take (?n + k) data" using qc ds(3) by (simp add: take_add)
      then show ?thesis
        using calls_trans [OF c ds(1)] ds qc by (intro exI [of _ "(cs @ ?c) @ ds"]) auto
    qed
  qed
qed

lemma receive_all_calls:
  "receive_all fd wanted acc deadline w = (res, w') \<Longrightarrow> length acc \<le> wanted \<Longrightarrow>
     \<exists>cs. calls cs w w' \<and> sent cs = [] \<and> (\<forall>bs. res = Some bs \<longrightarrow> acc @ received cs = bs \<and> length bs = wanted)"
proof (induction fd wanted acc deadline w rule: receive_all.induct)
  case (1 fd wanted acc deadline w)
  show ?case
  proof (cases "wanted \<le> length acc")
    case True
    then have "res = Some acc" "w' = w" using "1.prems" by (simp_all add: receive_all.simps)
    then show ?thesis using True "1.prems"(2) by (intro exI [of _ "[]"]) simp
  next
    case False
    obtain ready w1 where wr: "wait_ready fd CallPollIn deadline w = (ready, w1)" by fastforce
    obtain r w2 where r: "net (CallRecv fd (wanted - length acc)) w1 = (r, w2)" by fastforce
    obtain cs where cs: "calls cs w w1" "quiet cs" using waits(2) [OF wr] by blast
    let ?c = "[(CallRecv fd (wanted - length acc), r)]"
    have c: "calls (cs @ ?c) w w2" by (rule calls_trans [OF cs(1) net_calls [OF r]])
    have qc: "sent cs = []" "received cs = []" "sent_by (CallRecv fd (wanted - length acc), r) = []"
      using cs(2) by (simp_all add: quiet_def sent_by_def)
    note un = "1.prems"(1) [unfolded receive_all.simps [of fd wanted acc deadline w] wr prod.case r]
    consider "\<not> ready" | "ready" "try_again r" | bs where "ready" "r = Received bs" "bs \<noteq> []"
      | "ready" "\<not> try_again r" "\<not> (\<exists>bs. r = Received bs \<and> bs \<noteq> [])" by blast
    then show ?thesis
    proof cases
      case 1
      then have "w' = w1" "res = None" using un False by auto
      then show ?thesis using cs(1) qc by blast
    next
      case 2
      then have "receive_all fd wanted acc deadline w2 = (res, w')" using un False by simp
      then obtain ds where ds: "calls ds w2 w'" "sent ds = []" "\<forall>bs. res = Some bs \<longrightarrow> acc @ received ds = bs \<and> length bs = wanted"
        using "1.IH"(1) [OF False wr [symmetric] _ r [symmetric]] 2 "1.prems"(2) by blast
      have "received_by (CallRecv fd (wanted - length acc), r) = []" using 2(2) by (auto simp: try_again_def received_by_def)
      then show ?thesis using calls_trans [OF c ds(1)] ds qc by (intro exI [of _ "(cs @ ?c) @ ds"]) simp
    next
      case (3 bs)
      let ?n = "wanted - length acc"
      have "\<not> try_again r" using 3(2) by (simp add: try_again_def)
      then have "receive_all fd wanted (acc @ take ?n bs) deadline w2 = (res, w')" using un False 3 by simp
      then obtain ds where ds: "calls ds w2 w'" "sent ds = []"
        "\<forall>xs. res = Some xs \<longrightarrow> (acc @ take ?n bs) @ received ds = xs \<and> length xs = wanted"
        using "1.IH"(2) [OF False wr [symmetric] _ r [symmetric] _ 3(2,3)] 3 False \<open>\<not> try_again r\<close> by fastforce
      have "received_by (CallRecv fd ?n, r) = take ?n bs" using 3(2) by (simp add: received_by_def)
      then show ?thesis using calls_trans [OF c ds(1)] ds qc by (intro exI [of _ "(cs @ ?c) @ ds"]) simp
    next
      case 4
      then have "w' = w2" "res = None" using un False by (auto split: net_answer.splits)
      then show ?thesis using c qc by (intro exI [of _ "cs @ ?c"]) auto
    qed
  qed
qed

lemma connect_to_calls:
  assumes "connect_to fd port deadline w = (b, w')"
  shows "\<exists>cs. calls cs w w' \<and> quiet cs"
proof -
  obtain r w1 where r: "net (CallConnect fd port) w = (r, w1)" by fastforce
  obtain ready w2 where wr: "wait_ready fd CallPollOut deadline w1 = (ready, w2)" by fastforce
  obtain q w3 where q: "net (CallSocketError fd) w2 = (q, w3)" by fastforce
  obtain cs where cs: "calls cs w1 w2" "quiet cs" using waits(1) [OF wr] by blast
  have one: "calls [(CallConnect fd port, r)] w w1" by (rule net_calls [OF r])
  have two: "calls ([(CallConnect fd port, r)] @ cs) w w2" by (rule calls_trans [OF one cs(1)])
  have three: "calls (([(CallConnect fd port, r)] @ cs) @ [(CallSocketError fd, q)]) w w3"
    by (rule calls_trans [OF two net_calls [OF q]])
  have "w' = w1 \<or> w' = w2 \<or> w' = w3"
    using assms by (auto simp: connect_to_def r wr q split: if_splits)
  moreover have "quiet [(CallConnect fd port, r)]" "quiet ([(CallConnect fd port, r)] @ cs)"
    "quiet (([(CallConnect fd port, r)] @ cs) @ [(CallSocketError fd, q)])"
    using cs(2) by (simp_all only: quiet_simps quiet_call simp_thms)
  ultimately show ?thesis using one two three by blast
qed

lemma send_and_receive_calls:
  assumes "send_and_receive fd bs deadline w = (res, w')"
  shows "\<exists>cs. calls cs w w' \<and> (\<exists>k. sent cs = take k (prefix (length bs) @ bs))
    \<and> (\<forall>header. res = Some header \<longrightarrow> sent cs = prefix (length bs) @ bs \<and> received cs = header \<and> length header = 4)"
proof -
  let ?p = "prefix (length bs)"
  obtain a w1 where s1: "send_all fd ?p deadline w = (a, w1)" by fastforce
  obtain b w2 where s2: "send_all fd bs deadline w1 = (b, w2)" by fastforce
  obtain h w3 where s3: "receive_all fd 4 [] deadline w2 = (h, w3)" by fastforce
  obtain cs k where c1: "calls cs w w1" "received cs = []" "sent cs = take k ?p" "a \<longrightarrow> sent cs = ?p"
    using send_all_calls [OF s1] by blast
  obtain ds l where c2: "calls ds w1 w2" "received ds = []" "sent ds = take l bs" "b \<longrightarrow> sent ds = bs"
    using send_all_calls [OF s2] by blast
  obtain es where c3: "calls es w2 w3" "sent es = []" "\<forall>x. h = Some x \<longrightarrow> [] @ received es = x \<and> length x = 4"
    using receive_all_calls [OF s3] by auto
  consider "\<not> a" | "a" "\<not> b" | "a" "b" by blast
  then show ?thesis
  proof cases
    case 1
    then have e: "res = None" "w' = w1" using assms by (simp_all add: send_and_receive_def s1)
    have "sent cs = take (min k (length ?p)) (?p @ bs)" using c1(3) by (simp add: take_append min_def)
    then show ?thesis using c1(1) e by blast
  next
    case 2
    then have e: "res = None" "w' = w2" using assms by (simp_all add: send_and_receive_def s1 s2)
    have "sent (cs @ ds) = take (length ?p + l) (?p @ bs)" using c1(4) c2(3) 2(1) by simp
    then show ?thesis using calls_trans [OF c1(1) c2(1)] e by blast
  next
    case 3
    then have e: "res = h" "w' = w3" using assms by (simp_all add: send_and_receive_def s1 s2 s3)
    have "calls ((cs @ ds) @ es) w w'" unfolding e by (rule calls_trans [OF calls_trans [OF c1(1) c2(1)] c3(1)])
    moreover have "sent ((cs @ ds) @ es) = ?p @ bs" using c1(4) c2(4) c3(2) 3 by simp
    moreover have "received ((cs @ ds) @ es) = received es" using c1(2) c2(2) by simp
    ultimately show ?thesis using c3(3) e(1) by (intro exI [of _ "(cs @ ds) @ es"]) (auto intro: exI [of _ "length (?p @ bs)"])
  qed
qed

text \<open>The length prefix and its reading.\<close>

lemma prefix_bytes: "prefix n = be_bytes 4 (of_nat n :: u64)"
  by (simp only: prefix_def length_octets)

lemma header_length_prefix: "length header = 4 \<Longrightarrow> header = prefix (header_length header)"
  by (simp add: prefix_bytes header_length_def read_length length_header)

lemma prefix_length: "n < 4294967296 \<Longrightarrow> header_length (prefix n) = n"
  by (simp add: prefix_bytes header_length_def read_length written_length)

lemma close_socket_calls: "\<exists>cs. calls cs w (close_socket fd w) \<and> quiet cs"
proof -
  obtain r w' where "net (CallClose fd) w = (r, w')" by fastforce
  then have "calls [(CallClose fd, r)] w (close_socket fd w)" using net_calls by (simp add: close_socket_def)
  then show ?thesis using quiet_call(6) by blast
qed

text \<open>\<open>answer\<close>: the exchange ended with a reply. \<open>framed bs\<close>: a frame with its length before it.\<close>

definition answer :: "exchange_result \<Rightarrow> bool" where
  "answer r \<longleftrightarrow> (\<forall>e. r \<noteq> ExchangeFailed e)"

definition framed :: "bytes \<Rightarrow> bytes" where
  "framed bs = prefix (length bs) @ bs"

lemma answer_simps [simp]: "answer (WriteAnswer a)" "answer (ReadAnswer b)" "answer (StatusAnswer c)" "\<not> answer (ExchangeFailed e)"
  by (simp_all add: answer_def)

lemma exchange_calls:
  assumes "exchange port bs operation deadline w = (res, w')"
  shows "\<exists>cs. calls cs w w' \<and> (\<exists>k. sent cs = take k (framed bs))
    \<and> (answer res \<longrightarrow> sent cs = framed bs
        \<and> (\<exists>reply. received cs = framed reply \<and> 0 < length reply \<and> length reply \<le> max_client_frame_size
             \<and> res = decode_answer operation reply))"
proof -
  obtain r w1 where r: "net CallSocket w = (r, w1)" by fastforce
  let ?fd = "result r"
  obtain ok w2 where co: "connect_to ?fd port deadline w1 = (ok, w2)" by fastforce
  obtain h w3 where sr: "send_and_receive ?fd bs deadline w2 = (h, w3)" by fastforce
  have c1: "calls [(CallSocket, r)] w w1" by (rule net_calls [OF r])
  obtain c2 where c2: "calls c2 w1 w2" "quiet c2" using connect_to_calls [OF co] by blast
  obtain c3 k where c3: "calls c3 w2 w3" "sent c3 = take k (framed bs)"
    "\<forall>header. h = Some header \<longrightarrow> sent c3 = framed bs \<and> received c3 = header \<and> length header = 4"
    using send_and_receive_calls [OF sr] unfolding framed_def by blast
  have c12: "calls ([(CallSocket, r)] @ c2) w w2" by (rule calls_trans [OF c1 c2(1)])
  have c13: "calls (([(CallSocket, r)] @ c2) @ c3) w w3" by (rule calls_trans [OF c12 c3(1)])
  have q1: "sent ([(CallSocket, r)] @ c2) = []" "received ([(CallSocket, r)] @ c2) = []"
    using quiet_call(1) [of r] c2(2) by (simp_all add: quiet_def)
  note un = assms [unfolded exchange_def r prod.case Let_def]
  consider "?fd < 0" | "0 \<le> ?fd" "\<not> ok" | "0 \<le> ?fd" "ok" "h = None" | header where "0 \<le> ?fd" "ok" "h = Some header"
    by fastforce
  then show ?thesis
  proof cases
    case 1
    then have "res = ExchangeFailed SocketUnavailable" "w' = w1" using un by simp_all
    moreover have "sent [(CallSocket, r)] = take 0 (framed bs)" using quiet_call(1) [of r] by (simp add: quiet_def)
    ultimately show ?thesis using c1 answer_simps(4) by blast
  next
    case 2
    then have e: "res = ExchangeFailed ServerUnavailable" "w' = close_socket ?fd w2" using un co by simp_all
    obtain c4 where c4: "calls c4 w2 w'" "quiet c4" unfolding e using close_socket_calls by blast
    have "sent (([(CallSocket, r)] @ c2) @ c4) = take 0 (framed bs)" using q1 c4(2) by (simp add: quiet_def)
    then show ?thesis using calls_trans [OF c12 c4(1)] e(1) answer_simps(4) by blast
  next
    case 3
    then have e: "res = ExchangeFailed ConnectionLost" "w' = close_socket ?fd w3" using un co sr by simp_all
    obtain c4 where c4: "calls c4 w3 w'" "quiet c4" unfolding e using close_socket_calls by blast
    have "sent ((([(CallSocket, r)] @ c2) @ c3) @ c4) = take k (framed bs)" using q1 c3(2) c4(2) by (simp add: quiet_def)
    then show ?thesis using calls_trans [OF c13 c4(1)] e(1) answer_simps(4) by blast
  next
    case (4 header)
    let ?n = "header_length header"
    have hd: "sent c3 = framed bs" "received c3 = header" "length header = 4" using c3(3) 4(3) by blast+
    note un4 = un [unfolded co sr 4(3) prod.case option.case, simplified 4(1,2)]
    show ?thesis
    proof (cases "?n = 0 \<or> ?n > max_client_frame_size")
      case True
      then have e: "res = ExchangeFailed InvalidReply" "w' = close_socket ?fd w3" using un4 4(1,2) by auto
      obtain c4 where c4: "calls c4 w3 w'" "quiet c4" unfolding e using close_socket_calls by blast
      have "sent ((([(CallSocket, r)] @ c2) @ c3) @ c4) = take k (framed bs)" using q1 c3(2) c4(2) by (simp add: quiet_def)
      then show ?thesis using calls_trans [OF c13 c4(1)] e(1) answer_simps(4) by blast
    next
      case False
      obtain got w4 where ra: "receive_all ?fd ?n [] deadline w3 = (got, w4)" by fastforce
      obtain c4 where c4: "calls c4 w3 w4" "sent c4 = []" "\<forall>x. got = Some x \<longrightarrow> [] @ received c4 = x \<and> length x = ?n"
        using receive_all_calls [OF ra] by auto
      have e: "w' = close_socket ?fd w4" "res = (case got of None \<Rightarrow> ExchangeFailed ConnectionLost
          | Some reply \<Rightarrow> decode_answer operation reply)"
        using un4 4(1,2) False ra by (auto split: option.splits)
      obtain c5 where c5: "calls c5 w4 w'" "quiet c5" unfolding e using close_socket_calls by blast
      let ?cs = "((([(CallSocket, r)] @ c2) @ c3) @ c4) @ c5"
      have all: "calls ?cs w w'" by (rule calls_trans [OF calls_trans [OF c13 c4(1)] c5(1)])
      have s: "sent ?cs = framed bs" "received ?cs = header @ received c4"
        using q1 hd c4(2) c5(2) by (simp_all add: quiet_def)
      show ?thesis
      proof (cases got)
        case None
        then show ?thesis using all s(1) e(2) by (intro exI [of _ ?cs]) (auto intro: exI [of _ "length (framed bs)"])
      next
        case (Some reply)
        then have reply: "received c4 = reply" "length reply = ?n" using c4(3) by auto
        then have "received ?cs = framed reply" using s(2) header_length_prefix [OF hd(3)] by (simp add: framed_def)
        moreover have "res = decode_answer operation reply" using e(2) Some by simp
        moreover have "0 < length reply" "length reply \<le> max_client_frame_size" using False reply(2) by auto
        moreover have "sent ?cs = take (length (framed bs)) (framed bs)" using s(1) by simp
        ultimately show ?thesis using all s(1) by blast
      qed
    qed
  qed
qed

end
