(* ===== verification/Dkv_Client.thy ===== *)
theory Dkv_Client
  imports Client_Net Text_Format
begin

text \<open>
  The client program (src/dkv_client.cpp): request ids, what it prints and returns for a reply, one
  request to one server, a request to a cluster with retries, and \<open>main\<close>.

  \<^item> \<open>show_result\<close> returns the exit status: 0 done, 2 refused request, 3 not the leader, 4 outcome or value
    unknown, 5 other failures. \<open>run_cluster\<close> is the retry loop, \<open>client_main\<close> is \<open>main\<close> on the
    arguments without the program's name.
  \<^item> The theorems: a request id is read as it is printed; a program that reports a write as committed
    has received a reply that says so; every attempt sends the same frame; the exit status.
\<close>

section \<open>Request ids\<close>

text \<open>A character is a byte; \<open>char\<close>'s sign plays no role in the comparisons.\<close>

definition hex_digit :: "u8 \<Rightarrow> int" where
  "hex_digit c =
     (if 48 \<le> c \<and> c \<le> 57 then uint c - 48
      else if 97 \<le> c \<and> c \<le> 102 then uint c - 97 + 10
      else if 65 \<le> c \<and> c \<le> 70 then uint c - 65 + 10
      else -1)"

fun parse_octets :: "bytes \<Rightarrow> bytes option" where
  "parse_octets (a # b # text) =
     (let high = hex_digit a; low = hex_digit b
      in if high < 0 \<or> low < 0 then None
         else (case parse_octets text of
                 None \<Rightarrow> None
               | Some octets \<Rightarrow> Some (word_of_int (push_bit 4 high OR low) # octets)))"
| "parse_octets _ = Some []"

definition parse_request_id :: "bytes \<Rightarrow> request_id option" where
  "parse_request_id text =
     (if length text \<noteq> 32 then None else map_option request_id_of (parse_octets text))"

definition hex_digits :: bytes where
  "hex_digits = str ''0123456789abcdef''"

definition format_request_id :: "request_id \<Rightarrow> bytes" where
  "format_request_id rid =
     concat (map (\<lambda>octet. [hex_digits ! unat (drop_bit 4 octet), hex_digits ! unat (octet AND 0x0f)]) (rid_bytes rid))"

text \<open>The loop over \<open>getrandom\<close>; \<open>filled\<close> is what it has given so far.\<close>

function generate_octets :: "bytes \<Rightarrow> client_io \<Rightarrow> bytes option \<times> client_io" where
  "generate_octets filled w =
     (if 16 \<le> length filled then (Some filled, w)
      else
        (case net (CallRandom (16 - length filled)) w of (r, w1) \<Rightarrow>
           if r = Failed EINTR then generate_octets filled w1
           else
             (case r of
                Received bs \<Rightarrow>
                  if bs = [] then (None, w1) else generate_octets (filled @ take (16 - length filled) bs) w1
              | _ \<Rightarrow> (None, w1))))"
  by pat_completeness auto

termination
  by (relation "measure (\<lambda>(filled, w). length (ci_script w))") (auto dest!: sym [of "(_, _)"] net_answered)

declare generate_octets.simps [simp del]

definition generate_request_id :: "client_io \<Rightarrow> request_id option \<times> client_io" where
  "generate_request_id w =
     (case generate_octets [] w of (octets, w) \<Rightarrow> (map_option request_id_of octets, w))"

section \<open>Printing\<close>

definition out :: "bytes \<Rightarrow> client_io \<Rightarrow> client_io" where
  "out s w = w\<lparr>ci_out := ci_out w @ s\<rparr>"

definition err :: "bytes \<Rightarrow> client_io \<Rightarrow> client_io" where
  "err s w = w\<lparr>ci_err := ci_err w @ s\<rparr>"

abbreviation number :: "u64 \<Rightarrow> bytes" where
  "number n \<equiv> decimal (unat n)"

definition not_leader_text :: "u64 \<Rightarrow> bytes" where
  "not_leader_text hint = str ''not leader'' @ (if hint \<noteq> 0 then str ''; try node '' @ number hint else []) @ [newline]"

definition role_text :: "client_node_role \<Rightarrow> bytes" where
  "role_text role = (if role = Leader then str ''leader'' else if role = Candidate then str ''candidate'' else str ''follower'')"

definition peer_text :: "client_peer_status \<Rightarrow> bytes" where
  "peer_text peer = str '' peer '' @ number (cps_id peer) @
     (if cps_next_index peer = 0 then str '' progress unknown''
      else str '' next '' @ number (cps_next_index peer) @ str '' match '' @ number (cps_match_index peer))"

definition status_text :: "client_status_reply \<Rightarrow> bytes" where
  "status_text reply =
     str ''node '' @ number (cs_node_id reply) @ str '' role '' @ role_text (cs_role reply) @
     str '' term '' @ number (cs_term reply) @ str '' leader '' @
     (if cs_known_leader reply = 0 then str ''unknown'' else number (cs_known_leader reply)) @
     str '' log '' @ number (cs_last_index reply) @ str '' commit '' @ number (cs_commit_index reply) @
     str '' applied '' @ number (cs_last_applied reply) @
     concat (map peer_text (list2 (cs_peers reply))) @ [newline]"

definition show_error :: "exchange_error \<Rightarrow> client_operation \<Rightarrow> client_io \<Rightarrow> int \<times> client_io" where
  "show_error e operation w =
     (case e of
        SocketUnavailable \<Rightarrow> (5, err (str ''could not open socket'' @ [newline]) w)
      | ServerUnavailable \<Rightarrow> (5, err (str ''server unavailable'' @ [newline]) w)
      | ConnectionLost \<Rightarrow>
          (4, err ((if operation = Write then str ''outcome unknown: connection closed or timed out''
                    else if operation = Read then str ''read unavailable; retry''
                    else str ''status unavailable; retry'') @ [newline]) w)
      | InvalidReply \<Rightarrow> (5, err (str ''invalid server reply'' @ [newline]) w))"

definition show_status :: "client_status_reply \<Rightarrow> client_io \<Rightarrow> int \<times> client_io" where
  "show_status reply w =
     (if cs_status reply = client_status_code.InvalidRequest then (2, out (str ''invalid request'' @ [newline]) w)
      else (0, out (status_text reply) w))"

text \<open>\<open>*reply->value\<close> is only reached for a reply that was found, which has a value.\<close>

definition show_read :: "client_read_reply \<Rightarrow> client_io \<Rightarrow> int \<times> client_io" where
  "show_read reply w =
     (case crr_status reply of
        Found \<Rightarrow> (0, out ((case crr_value reply of Some v \<Rightarrow> v | None \<Rightarrow> []) @ [newline]) w)
      | NotFound \<Rightarrow> (0, out (str ''(not found)'' @ [newline]) w)
      | client_read_status.NotLeader \<Rightarrow> (3, out (not_leader_text (crr_leader_hint reply)) w)
      | client_read_status.Busy \<Rightarrow> (5, out (str ''leader busy; retry later'' @ [newline]) w)
      | client_read_status.InvalidRequest \<Rightarrow> (2, out (str ''invalid request'' @ [newline]) w)
      | client_read_status.InternalError \<Rightarrow> (5, out (str ''read unavailable; retry'' @ [newline]) w))"

definition show_write :: "client_write_reply \<Rightarrow> client_io \<Rightarrow> int \<times> client_io" where
  "show_write reply w =
     (case cwr_status reply of
        Committed \<Rightarrow> (0, out (str ''committed term '' @ number (cwr_term reply) @ str '' index ''
                            @ number (cwr_index reply) @ [newline]) w)
      | client_write_status.NotLeader \<Rightarrow> (3, out (not_leader_text (cwr_leader_hint reply)) w)
      | OutcomeUnknown \<Rightarrow> (4, out (str ''outcome unknown for term '' @ number (cwr_term reply) @ str '' index ''
                            @ number (cwr_index reply) @ [newline]) w)
      | client_write_status.InvalidRequest \<Rightarrow> (2, out (str ''invalid request'' @ [newline]) w)
      | client_write_status.Busy \<Rightarrow> (5, out (str ''leader busy; retry later'' @ [newline]) w)
      | client_write_status.InternalError \<Rightarrow> (4, out (str ''server error; outcome unknown'' @ [newline]) w))"

definition show_result :: "exchange_result \<Rightarrow> client_operation \<Rightarrow> client_io \<Rightarrow> int \<times> client_io" where
  "show_result res operation w =
     (case res of
        ExchangeFailed e \<Rightarrow> show_error e operation w
      | StatusAnswer reply \<Rightarrow> if operation = Status then show_status reply w else (5, w)
      | ReadAnswer reply \<Rightarrow> if operation = Read then show_read reply w else (5, w)
      | WriteAnswer reply \<Rightarrow> if operation = Write then show_write reply w else (5, w))"

section \<open>One server\<close>

definition refuse :: "string \<Rightarrow> client_io \<Rightarrow> int \<times> client_io" where
  "refuse text w = (2, err (str text @ [newline]) w)"

definition run_single :: "nat \<Rightarrow> (client_wire_error + bytes) \<Rightarrow> client_operation \<Rightarrow> client_io \<Rightarrow> int \<times> client_io" where
  "run_single port encoded operation w =
     (case encoded of
        Inl _ \<Rightarrow> refuse ''invalid or oversized request'' w
      | Inr bs \<Rightarrow>
          (let timeout = (if operation = Status then seconds 2 else seconds 10)
           in case net CallNow w of (t, w) \<Rightarrow>
              case exchange port bs operation (time_of t + timeout) w of (res, w) \<Rightarrow>
                show_result res operation w))"

section \<open>A cluster\<close>

text \<open>The reply that ends the loop, and what the others say about the next target.\<close>

definition final_answer :: "exchange_result \<Rightarrow> bool" where
  "final_answer res \<longleftrightarrow>
     (case res of
        ReadAnswer reply \<Rightarrow> crr_status reply = Found \<or> crr_status reply = NotFound
          \<or> crr_status reply = client_read_status.InvalidRequest
      | WriteAnswer reply \<Rightarrow> cwr_status reply = Committed \<or> cwr_status reply = client_write_status.InvalidRequest
      | _ \<Rightarrow> False)"

definition hint_of :: "exchange_result \<Rightarrow> u64" where
  "hint_of res = (case res of ReadAnswer reply \<Rightarrow> crr_leader_hint reply | WriteAnswer reply \<Rightarrow> cwr_leader_hint reply | _ \<Rightarrow> 0)"

definition busy_of :: "exchange_result \<Rightarrow> bool" where
  "busy_of res = (case res of ReadAnswer reply \<Rightarrow> crr_status reply = client_read_status.Busy
     | WriteAnswer reply \<Rightarrow> cwr_status reply = client_write_status.Busy | _ \<Rightarrow> False)"

text \<open>\<open>while (step < ports.size() && visited[(target + step) % ports.size()]) ++step;\<close>\<close>

function next_step :: "bool list \<Rightarrow> nat \<Rightarrow> nat \<Rightarrow> nat" where
  "next_step visited target step =
     (if step < 3 \<and> visited ! ((target + step) mod 3) then next_step visited target (step + 1) else step)"
  by pat_completeness auto
termination by (relation "measure (\<lambda>(visited, target, step). 3 - step)") auto

declare next_step.simps [simp del]

definition choose_target :: "u64 \<Rightarrow> bool list \<Rightarrow> nat \<Rightarrow> bool list \<times> nat" where
  "choose_target hint visited target =
     (let hinted = (if 1 \<le> hint \<and> hint \<le> 3 then unat (hint - 1) else 3)
      in if hinted < 3 \<and> \<not> visited ! hinted then (visited, hinted)
         else
           (let step = next_step visited target 1;
                (visited, step) = (if step = 3 then (replicate 3 False, 1) else (visited, step))
            in (visited, (target + step) mod 3)))"

definition pause :: "int \<Rightarrow> client_io \<Rightarrow> client_io" where
  "pause deadline w =
     (case net CallNow w of (t, w) \<Rightarrow>
        let wait = min 75 (milliseconds (deadline - time_of t))
        in if wait > 0 then snd (net (CallSleep wait) w) else w)"

lemma exchange_script: "exchange port bs operation deadline w = (res, w') \<Longrightarrow> length (ci_script w') \<le> length (ci_script w)"
  using exchange_calls [of port bs operation deadline w res w'] by (auto simp: calls_def)

text \<open>Calls that only read the clock or sleep.\<close>

definition idle :: "(net_call \<times> net_answer) list \<Rightarrow> bool" where
  "idle cs \<longleftrightarrow> (\<forall>c \<in> set cs. fst c = CallNow \<or> (\<exists>n. fst c = CallSleep n))"

lemma idle_simps [simp]: "idle []" "idle (cs @ ds) \<longleftrightarrow> idle cs \<and> idle ds" "idle [(CallNow, r)]" "idle [(CallSleep n, r)]"
  by (auto simp: idle_def)

lemma pause_idle: "\<exists>cs. calls cs w (pause deadline w) \<and> idle cs"
proof -
  obtain t w1 where t: "net CallNow w = (t, w1)" by fastforce
  let ?wait = "min 75 (milliseconds (deadline - time_of t))"
  obtain r w2 where r: "net (CallSleep ?wait) w1 = (r, w2)" by fastforce
  have one: "calls [(CallNow, t)] w w1" by (rule net_calls [OF t])
  have two: "calls ([(CallNow, t)] @ [(CallSleep ?wait, r)]) w w2" by (rule calls_trans [OF one net_calls [OF r]])
  have "pause deadline w = w1 \<or> pause deadline w = w2" by (simp add: pause_def t r Let_def)
  then show ?thesis using one two idle_simps by metis
qed

lemma idle_quiet: "idle cs \<Longrightarrow> quiet cs"
proof (induction cs)
  case (Cons c cs)
  obtain call r where c: "c = (call, r)" by fastforce
  have "quiet [c]" using Cons.prems c by (auto simp: idle_def quiet_call)
  moreover have "quiet cs" using Cons by (simp add: idle_def)
  ultimately show ?case using quiet_simps(2) [of "[c]" cs] by simp
qed simp

lemma pause_calls: "\<exists>cs. calls cs w (pause deadline w) \<and> quiet cs"
  using pause_idle idle_quiet by blast

lemma cluster_round:
  assumes "(t, w1) = net CallNow w" and "earlier t deadline" and "(now, w2) = net CallNow w1"
    and "(res, w3) = exchange port bs operation until w2"
  shows "length (ci_script (pause deadline w3)) < length (ci_script w)"
proof -
  have "t \<noteq> Failed OtherError" using assms(2) by (auto simp: earlier_def)
  then have "length (ci_script w1) < length (ci_script w)" by (rule net_answered [OF assms(1) [symmetric]])
  moreover obtain cs where "calls cs w3 (pause deadline w3)" using pause_calls by blast
  then have "length (ci_script (pause deadline w3)) \<le> length (ci_script w3)" by (simp add: calls_def)
  ultimately show ?thesis
    using net_script [OF assms(3) [symmetric]] exchange_script [OF assms(4) [symmetric]] by linarith
qed

function cluster_loop :: "nat list \<Rightarrow> bytes \<Rightarrow> client_operation \<Rightarrow> int \<Rightarrow> nat \<Rightarrow> bool list \<Rightarrow> client_io
    \<Rightarrow> int \<times> client_io" where
  "cluster_loop ports bs operation deadline target visited w =
     (case net CallNow w of (t, w1) \<Rightarrow>
        if \<not> earlier t deadline then
          (4, err ((if operation = Read then str ''read unavailable; retry''
                    else str ''outcome unknown; retry with the same request id'') @ [newline]) w1)
        else
          (case net CallNow w1 of (now, w2) \<Rightarrow>
             case exchange (ports ! target) bs operation (min deadline (time_of now + seconds 1)) w2 of (res, w3) \<Rightarrow>
               if final_answer res then show_result res operation w3
               else
                 (case (if busy_of res then (visited[target := True], target)
                        else choose_target (hint_of res) (visited[target := True]) target) of
                    (visited', target') \<Rightarrow> cluster_loop ports bs operation deadline target' visited' (pause deadline w3))))"
  by pat_completeness auto

termination
  by (relation "measure (\<lambda>(ports, bs, operation, deadline, target, visited, w). length (ci_script w))")
    (simp, simp, blast intro: cluster_round)

declare cluster_loop.simps [simp del]

definition run_cluster :: "nat list \<Rightarrow> (client_wire_error + bytes) \<Rightarrow> client_operation \<Rightarrow> client_io \<Rightarrow> int \<times> client_io" where
  "run_cluster ports encoded operation w =
     (case encoded of
        Inl _ \<Rightarrow> refuse ''invalid or oversized request'' w
      | Inr bs \<Rightarrow>
          (case net CallNow w of (t, w) \<Rightarrow>
             cluster_loop ports bs operation (time_of t + seconds 8) 0 (replicate 3 False) w))"

section \<open>The program\<close>

definition usage :: bytes where
  "usage = str ''usage: dkv_client PORT [put KEY VALUE [REQUEST_ID] | delete KEY [REQUEST_ID] | get KEY | status]'' @ [newline]
     @ str ''       dkv_client PORT1 PORT2 PORT3 [put KEY VALUE [REQUEST_ID] | delete KEY [REQUEST_ID] | get KEY | status]''
     @ [newline]"

definition show_usage :: "client_io \<Rightarrow> int \<times> client_io" where
  "show_usage w = (2, err usage w)"

definition execute :: "nat list \<Rightarrow> bool \<Rightarrow> (client_wire_error + bytes) \<Rightarrow> client_operation \<Rightarrow> client_io \<Rightarrow> int \<times> client_io" where
  "execute ports cluster encoded operation w =
     (if cluster then run_cluster ports encoded operation w else run_single (ports ! 0) encoded operation w)"

text \<open>The branch for \<open>put\<close> and \<open>delete\<close>; \<open>words\<close> are the arguments from the operation on.\<close>

definition run_write :: "nat list \<Rightarrow> bool \<Rightarrow> bytes list \<Rightarrow> client_io \<Rightarrow> int \<times> client_io" where
  "run_write ports cluster words w =
     (let put = words ! 0 = str ''put'';
          explicit_id = (put \<and> length words = 4 \<or> \<not> put \<and> length words = 3)
      in case (if explicit_id then (parse_request_id (last words), w) else generate_request_id w) of (rid, w) \<Rightarrow>
           case rid of
             None \<Rightarrow> refuse (if explicit_id then ''invalid request ID (expected 32 hex digits)''
                             else ''could not generate request ID'') w
           | Some rid \<Rightarrow>
               (let w = err (str ''request id '' @ format_request_id rid @ [newline]) w;
                    command = \<lparr>cmd_type = (if put then Put else Delete), cmd_key = words ! 1,
                      cmd_value = (if put then words ! 2 else []), cmd_request_id = Some rid\<rparr>
                in execute ports cluster (encode_client_request \<lparr>cw_command = command\<rparr>) Write w))"

text \<open>\<open>status\<close> asks every server of a cluster.\<close>

primrec status_of_all :: "nat list \<Rightarrow> (client_wire_error + bytes) \<Rightarrow> int \<Rightarrow> client_io \<Rightarrow> int \<times> client_io" where
  "status_of_all [] request code w = (code, w)"
| "status_of_all (port # ports) request code w =
     (case run_single port request Status w of (r, w) \<Rightarrow>
        status_of_all ports request (if r \<noteq> 0 then 5 else code) w)"

definition run_operation :: "nat list \<Rightarrow> bool \<Rightarrow> bytes list \<Rightarrow> client_io \<Rightarrow> int \<times> client_io" where
  "run_operation ports cluster words w =
     (let operation = words ! 0; n = length words
      in if operation = str ''put'' \<and> (n = 3 \<or> n = 4) \<or> operation = str ''delete'' \<and> (n = 2 \<or> n = 3)
         then run_write ports cluster words w
         else if operation = str ''get'' \<and> n = 2
         then execute ports cluster (encode_client_read_request \<lparr>crq_key = words ! 1\<rparr>) Read w
         else if operation = str ''status'' \<and> n = 1
         then
           (let request = encode_client_status_request ClientStatusRequest
            in if \<not> cluster then run_single (ports ! 0) request Status w
               else status_of_all ports request 0 w)
         else show_usage w)"

definition is_operation :: "bytes \<Rightarrow> bool" where
  "is_operation s \<longleftrightarrow> s = str ''put'' \<or> s = str ''delete'' \<or> s = str ''get'' \<or> s = str ''status''"

text \<open>\<open>argv\<close> without the program's name, so \<open>argc = length args + 1\<close>.\<close>

definition client_main :: "bytes list \<Rightarrow> client_io \<Rightarrow> int \<times> client_io" where
  "client_main args w =
     (if length args < 2 then show_usage w
      else
        (case parse_port (args ! 0) of
           None \<Rightarrow> refuse ''invalid port'' w
         | Some p0 \<Rightarrow>
             if is_operation (args ! 1) then run_operation [p0, 0, 0] False (drop 1 args) w
             else if length args < 4 then show_usage w
             else
               (case (parse_port (args ! 1), parse_port (args ! 2)) of
                  (Some p1, Some p2) \<Rightarrow>
                    if p0 = p1 \<or> p0 = p2 \<or> p1 = p2 then refuse ''invalid or duplicate cluster port'' w
                    else run_operation [p0, p1, p2] True (drop 3 args) w
                | _ \<Rightarrow> refuse ''invalid or duplicate cluster port'' w)))"

section \<open>Request ids as text\<close>

definition lower_case :: "u8 \<Rightarrow> u8" where
  "lower_case c = (if 65 \<le> c \<and> c \<le> 70 then c + 32 else c)"

lemma hex_digits_list: "hex_digits = [48, 49, 50, 51, 52, 53, 54, 55, 56, 57, 97, 98, 99, 100, 101, 102]"
  by (simp add: hex_digits_def str_def)

lemma below_16: "n < 16 \<Longrightarrow> n \<in> {0, 1, 2, 3, 4, 5, 6, 7, 8, 9, 10, 11, 12, 13, 14, 15 :: nat}"
  unfolding insert_iff empty_iff by arith

lemma hex_digit_of: "n < 16 \<Longrightarrow> hex_digit (hex_digits ! n) = int n \<and> lower_case (hex_digits ! n) = hex_digits ! n"
  using below_16 [of n] by (auto simp: hex_digits_list hex_digit_def lower_case_def)

lemma hex_digit_inverse:
  assumes "0 \<le> hex_digit c"
  shows "nat (hex_digit c) < 16 \<and> hex_digits ! nat (hex_digit c) = lower_case c"
proof -
  have "48 \<le> unat c \<and> unat c \<le> 57 \<or> 97 \<le> unat c \<and> unat c \<le> 102 \<or> 65 \<le> unat c \<and> unat c \<le> 70"
    using assms by (auto simp: hex_digit_def word_le_nat_alt split: if_splits)
  then have "unat c \<in> {48, 49, 50, 51, 52, 53, 54, 55, 56, 57, 97, 98, 99, 100, 101, 102, 65, 66, 67, 68, 69, 70}"
    unfolding insert_iff empty_iff by arith
  then have "c \<in> {48, 49, 50, 51, 52, 53, 54, 55, 56, 57, 97, 98, 99, 100, 101, 102, 65, 66, 67, 68, 69, 70}"
    by (simp add: word_unat_eq_iff)
  then show ?thesis
    by (elim insertE emptyE) (simp_all add: hex_digit_def lower_case_def hex_digits_list)
qed

lemma nibbles: "unat (drop_bit 4 octet) < 16" "unat (octet AND 0x0f) < 16" for octet :: u8
proof -
  have f: "octet AND 0x0f = take_bit 4 octet" by (simp add: take_bit_eq_mask mask_eq_exp_minus_1)
  have "unat octet < 256" using unsigned_less [of octet] by simp
  then show "unat (drop_bit 4 octet) < 16" unfolding unsigned_drop_bit_eq by (simp add: drop_bit_eq_div take_bit_eq_mod)
  show "unat (octet AND 0x0f) < 16" unfolding f unsigned_take_bit_eq by (simp add: take_bit_eq_mod)
qed

lemma join_nibbles: "word_of_int (push_bit 4 (int (unat (drop_bit 4 octet))) OR int (unat (octet AND 0x0f))) = (octet :: u8)"
proof -
  have f: "octet AND 0x0f = take_bit 4 octet" by (simp add: take_bit_eq_mask mask_eq_exp_minus_1)
  have "word_of_int (push_bit 4 (uint (drop_bit 4 octet)) OR uint (take_bit 4 octet)) = octet"
    by (rule bit_word_eqI) (auto simp: bit_simps)
  then show ?thesis unfolding f by simp
qed

lemma split_nibbles:
  assumes "h < 16" and "l < 16"
  shows "unat (drop_bit 4 (word_of_int (push_bit 4 (int h) OR int l) :: u8)) = h"
    and "unat ((word_of_int (push_bit 4 (int h) OR int l) :: u8) AND 0x0f) = l"
proof -
  have f: "x AND 0x0f = take_bit 4 x" for x :: u8 by (simp add: take_bit_eq_mask mask_eq_exp_minus_1)
  have small: "take_bit 4 (int h) = int h" "take_bit 4 (int l) = int l"
    using assms by (simp_all add: take_bit_int_eq_self)
  have "drop_bit 4 (word_of_int (push_bit 4 (take_bit 4 a) OR take_bit 4 b) :: u8) = word_of_int (take_bit 4 a)"
    and "take_bit 4 (word_of_int (push_bit 4 (take_bit 4 a) OR take_bit 4 b) :: u8) = word_of_int (take_bit 4 b)" for a b
    by (rule bit_word_eqI, auto simp: bit_simps)+
  from this [of "int h" "int l"]
  have "drop_bit 4 (word_of_int (push_bit 4 (int h) OR int l) :: u8) = word_of_nat h"
    "take_bit 4 (word_of_int (push_bit 4 (int h) OR int l) :: u8) = word_of_nat l"
    unfolding small by simp_all
  then show "unat (drop_bit 4 (word_of_int (push_bit 4 (int h) OR int l) :: u8)) = h"
    "unat ((word_of_int (push_bit 4 (int h) OR int l) :: u8) AND 0x0f) = l"
    using assms unfolding f by (simp_all add: unat_of_nat)
qed

text \<open>The text of a list of octets.\<close>

definition octets_text :: "bytes \<Rightarrow> bytes" where
  "octets_text octets = concat (map (\<lambda>octet. [hex_digits ! unat (drop_bit 4 octet), hex_digits ! unat (octet AND 0x0f)]) octets)"

lemma octets_text_simps [simp]:
  "octets_text [] = []"
  "octets_text (octet # octets) = hex_digits ! unat (drop_bit 4 octet) # hex_digits ! unat (octet AND 0x0f) # octets_text octets"
  by (simp_all add: octets_text_def)

lemma octets_text_length: "length (octets_text octets) = 2 * length octets"
  by (induction octets) simp_all

lemma parse_octets_text: "parse_octets (octets_text octets) = Some octets"
proof (induction octets)
  case (Cons octet octets)
  then show ?case
    using hex_digit_of [OF nibbles(1) [of octet]] hex_digit_of [OF nibbles(2) [of octet]] join_nibbles [of octet]
    by (simp add: Let_def)
qed simp

lemma parse_octets_Some:
  assumes "parse_octets xs = Some octets" and "even (length xs)"
  shows "list_all (\<lambda>c. 0 \<le> hex_digit c) xs \<and> octets_text octets = map lower_case xs"
  using assms
proof (induction xs arbitrary: octets rule: parse_octets.induct)
  case (1 a b xs)
  let ?h = "hex_digit a" and ?l = "hex_digit b"
  have pos: "0 \<le> ?h" "0 \<le> ?l" using "1.prems"(1) by (auto simp: Let_def split: if_splits)
  obtain os where os: "parse_octets xs = Some os" "octets = word_of_int (push_bit 4 ?h OR ?l) # os"
    using "1.prems"(1) pos by (auto simp: Let_def split: option.splits)
  have ih: "list_all (\<lambda>c. 0 \<le> hex_digit c) xs \<and> octets_text os = map lower_case xs"
    using "1.IH" [OF refl refl _ os(1)] pos "1.prems"(2) by simp
  note d = hex_digit_inverse [OF pos(1)] hex_digit_inverse [OF pos(2)]
  have "word_of_int (push_bit 4 ?h OR ?l) = (word_of_int (push_bit 4 (int (nat ?h)) OR int (nat ?l)) :: u8)" using pos by simp
  then have "hex_digits ! unat (drop_bit 4 (word_of_int (push_bit 4 ?h OR ?l) :: u8)) = lower_case a"
    "hex_digits ! unat ((word_of_int (push_bit 4 ?h OR ?l) :: u8) AND 0x0f) = lower_case b"
    using split_nibbles [of "nat ?h" "nat ?l"] d by metis+
  then show ?case using ih pos os(2) by simp
qed simp_all

lemma parse_octets_total:
  "list_all (\<lambda>c. 0 \<le> hex_digit c) xs \<Longrightarrow> even (length xs) \<Longrightarrow>
     \<exists>octets. parse_octets xs = Some octets \<and> 2 * length octets = length xs"
proof (induction xs rule: parse_octets.induct)
  case (1 a b xs)
  then obtain os where "parse_octets xs = Some os \<and> 2 * length os = length xs" by auto
  then show ?case using 1(2) by (simp add: Let_def)
qed simp_all

lemma format_octets: "format_request_id rid = octets_text (rid_bytes rid)"
  by (simp add: format_request_id_def octets_text_def)

lemma parse_request_id_Some:
  "parse_request_id xs = Some rid \<longleftrightarrow>
     length xs = 32 \<and> list_all (\<lambda>c. 0 \<le> hex_digit c) xs \<and> format_request_id rid = map lower_case xs"
proof (cases "length xs = 32 \<and> list_all (\<lambda>c. 0 \<le> hex_digit c) xs")
  case True
  then obtain os where os: "parse_octets xs = Some os" "length os = 16" using parse_octets_total [of xs] by auto
  have t: "octets_text os = map lower_case xs" using parse_octets_Some [OF os(1)] True by simp
  have "rid = request_id_of os \<longleftrightarrow> rid_bytes rid = os"
    using os(2) by (metis request_id_of_rid_bytes rid_bytes_request_id_of)
  also have "\<dots> \<longleftrightarrow> octets_text (rid_bytes rid) = octets_text os"
    by (metis parse_octets_text option.inject)
  finally show ?thesis using True os(1) t by (auto simp: parse_request_id_def format_octets)
next
  case False
  then show ?thesis using parse_octets_Some [of xs] by (auto simp: parse_request_id_def split: if_splits)
qed

section \<open>What the program reports\<close>

lemma show_result_world:
  "show_result res operation w = (code, w') \<Longrightarrow> ci_trace w' = ci_trace w \<and> ci_script w' = ci_script w"
  by (auto simp: show_result_def show_error_def show_status_def show_read_def show_write_def out_def err_def
      split: exchange_result.splits exchange_error.splits client_read_status.splits client_write_status.splits if_splits)

text \<open>\<open>shows res operation code w w'\<close>: showing \<open>res\<close> gives \<open>code\<close> and adds to what \<open>w\<close> has printed.\<close>

definition shows_answer :: "exchange_result \<Rightarrow> client_operation \<Rightarrow> int \<Rightarrow> client_io \<Rightarrow> client_io \<Rightarrow> bool" where
  "shows_answer res operation code w w' \<longleftrightarrow>
     (\<exists>v v'. ci_out v = ci_out w \<and> ci_err v = ci_err w \<and> show_result res operation v = (code, v')
        \<and> ci_out w' = ci_out v' \<and> ci_err w' = ci_err v')"

text \<open>\<open>resent bs cs\<close>: the calls sent nothing but beginnings of the one frame \<open>bs\<close>.\<close>

definition resent :: "bytes \<Rightarrow> (net_call \<times> net_answer) list \<Rightarrow> bool" where
  "resent bs cs \<longleftrightarrow> (\<exists>ks. sent cs = concat (map (\<lambda>k. take k (framed bs)) ks))"

lemma resent_quiet: "quiet cs \<Longrightarrow> resent bs cs"
  by (auto simp: resent_def quiet_def intro: exI [of _ "[]"])

lemma resent_append: "resent bs cs \<Longrightarrow> resent bs ds \<Longrightarrow> resent bs (cs @ ds)"
  unfolding resent_def by (metis concat_append map_append transfers_append(1))

lemma final_answer_answer: "final_answer res \<Longrightarrow> answer res"
  by (cases res) (simp_all add: final_answer_def)

text \<open>What the loop reports when the deadline passes: the exit status 4 and one line on the error output.\<close>

definition give_up_text :: "client_operation \<Rightarrow> bytes" where
  "give_up_text operation =
     (if operation = Read then str ''read unavailable; retry''
      else str ''outcome unknown; retry with the same request id'') @ [newline]"

definition gives_up :: "client_operation \<Rightarrow> int \<Rightarrow> client_io \<Rightarrow> client_io \<Rightarrow> bool" where
  "gives_up operation code w w' \<longleftrightarrow>
     code = 4 \<and> ci_out w' = ci_out w \<and> ci_err w' = ci_err w @ give_up_text operation"

lemma cluster_loop_calls:
  "cluster_loop ports bs operation deadline target visited w = (code, w') \<Longrightarrow>
     \<exists>cs. ci_trace w' = ci_trace w @ cs \<and> resent bs cs
       \<and> ((\<exists>before reply. received cs = before @ framed reply \<and> final_answer (decode_answer operation reply)
             \<and> shows_answer (decode_answer operation reply) operation code w w')
          \<or> gives_up operation code w w')"
proof (induction ports bs operation deadline target visited w rule: cluster_loop.induct)
  case (1 ports bs operation deadline target visited w)
  obtain t w1 where t: "net CallNow w = (t, w1)" by fastforce
  have c1: "calls [(CallNow, t)] w w1" by (rule net_calls [OF t])
  show ?case
  proof (cases "earlier t deadline")
    case False
    then have "code = 4 \<and> w' = err (give_up_text operation) w1"
      using "1.prems" by (subst (asm) (1) cluster_loop.simps) (auto simp: t give_up_text_def)
    then show ?thesis using c1 resent_quiet [OF quiet_call(7)]
      by (intro exI [of _ "[(CallNow, t)]"]) (auto simp: calls_def err_def gives_up_def)
  next
    case True
    obtain now w2 where now: "net CallNow w1 = (now, w2)" by fastforce
    obtain res w3 where ex: "exchange (ports ! target) bs operation (min deadline (time_of now + seconds 1)) w2 = (res, w3)"
      by fastforce
    obtain c3 k where c3: "calls c3 w2 w3" "sent c3 = take k (framed bs)"
      "answer res \<longrightarrow> (\<exists>reply. received c3 = framed reply \<and> res = decode_answer operation reply)"
      using exchange_calls [OF ex] by blast
    let ?c = "([(CallNow, t)] @ [(CallNow, now)]) @ c3"
    have all: "calls ?c w w3" by (rule calls_trans [OF calls_trans [OF c1 net_calls [OF now]] c3(1)])
    have "resent bs c3" using c3(2) by (auto simp: resent_def intro: exI [of _ "[k]"])
    moreover have q: "quiet ([(CallNow, t)] @ [(CallNow, now)])" by (simp only: quiet_simps quiet_call simp_thms)
    ultimately have re: "resent bs ?c" using resent_append resent_quiet by blast
    note un = "1.prems" [unfolded cluster_loop.simps [of ports bs operation deadline target visited w] t now ex prod.case]
    show ?thesis
    proof (cases "final_answer res")
      case fin: True
      then have sh: "show_result res operation w3 = (code, w')" using un True by simp
      obtain reply where reply: "received c3 = framed reply" "res = decode_answer operation reply"
        using c3(3) final_answer_answer [OF fin] by blast
      have "received ?c = [] @ framed reply" using reply(1) q by (simp only: transfers_append quiet_def append_Nil)
      moreover have "ci_trace w' = ci_trace w @ ?c" using all show_result_world [OF sh] by (simp add: calls_def)
      moreover have "shows_answer res operation code w w'"
        using all sh unfolding shows_answer_def calls_def by blast
      ultimately show ?thesis using re fin reply(2) by blast
    next
      case False
      let ?next = "if busy_of res then (visited[target := True], target)
        else choose_target (hint_of res) (visited[target := True]) target"
      obtain v' t' where vt: "?next = (v', t')" by fastforce
      have loop: "cluster_loop ports bs operation deadline t' v' (pause deadline w3) = (code, w')"
        using un True False vt by simp
      obtain c4 where c4: "calls c4 w3 (pause deadline w3)" "quiet c4" using pause_calls by blast
      obtain c5 where c5: "ci_trace w' = ci_trace (pause deadline w3) @ c5" "resent bs c5"
        "(\<exists>before reply. received c5 = before @ framed reply \<and> final_answer (decode_answer operation reply)
             \<and> shows_answer (decode_answer operation reply) operation code (pause deadline w3) w')
          \<or> gives_up operation code (pause deadline w3) w'"
        using "1.IH" [OF t [symmetric] _ now [symmetric] ex [symmetric] False vt [symmetric] loop] True by blast
      let ?d = "(?c @ c4) @ c5"
      have w: "calls (?c @ c4) w (pause deadline w3)" by (rule calls_trans [OF all c4(1)])
      then have "ci_trace w' = ci_trace w @ ?d" using c5(1) by (simp add: calls_def)
      moreover have "resent bs ?d" using re resent_quiet [OF c4(2)] c5(2) resent_append by blast
      moreover have "(\<exists>before reply. received ?d = before @ framed reply \<and> final_answer (decode_answer operation reply)
             \<and> shows_answer (decode_answer operation reply) operation code w w')
          \<or> gives_up operation code w w'"
      proof -
        have same: "ci_out (pause deadline w3) = ci_out w" "ci_err (pause deadline w3) = ci_err w"
          using w by (simp_all add: calls_def)
        have "received ?d = received (?c @ c4) @ received c5" by (simp only: transfers_append)
        then show ?thesis using c5(3) unfolding shows_answer_def gives_up_def same by (metis append_assoc)
      qed
      ultimately show ?thesis by blast
    qed
  qed
qed

lemma run_cluster_calls:
  assumes "run_cluster ports (Inr bs) operation w = (code, w')"
  shows "\<exists>cs. ci_trace w' = ci_trace w @ cs \<and> resent bs cs
    \<and> ((\<exists>before reply. received cs = before @ framed reply \<and> final_answer (decode_answer operation reply)
          \<and> shows_answer (decode_answer operation reply) operation code w w')
       \<or> gives_up operation code w w')"
proof -
  obtain t w1 where t: "net CallNow w = (t, w1)" by fastforce
  have c1: "calls [(CallNow, t)] w w1" by (rule net_calls [OF t])
  have "cluster_loop ports bs operation (time_of t + seconds 8) 0 (replicate 3 False) w1 = (code, w')"
    using assms by (simp add: run_cluster_def t)
  from cluster_loop_calls [OF this]
  obtain cs where cs: "ci_trace w' = ci_trace w1 @ cs" "resent bs cs"
    "(\<exists>before reply. received cs = before @ framed reply \<and> final_answer (decode_answer operation reply)
          \<and> shows_answer (decode_answer operation reply) operation code w1 w')
       \<or> gives_up operation code w1 w'" by blast
  have "received ([(CallNow, t)] @ cs) = received cs" using quiet_call(7) [of t] by (simp add: quiet_def)
  moreover have "resent bs ([(CallNow, t)] @ cs)" by (rule resent_append [OF resent_quiet [OF quiet_call(7)] cs(2)])
  moreover have "ci_trace w' = ci_trace w @ ([(CallNow, t)] @ cs)" "ci_out w1 = ci_out w" "ci_err w1 = ci_err w"
    using c1 cs(1) by (simp_all add: calls_def)
  ultimately show ?thesis using cs(3) unfolding shows_answer_def gives_up_def by metis
qed

lemma decoded_read_value:
  "decode_client_read_reply bs = Inr r \<Longrightarrow> crr_status r = Found \<longleftrightarrow> crr_value r \<noteq> None"
  by (auto simp: decode_client_read_reply_def Let_def split: if_splits)

lemma shows_final_write:
  assumes "shows_answer (decode_answer Write reply) Write code w w'" and "final_answer (decode_answer Write reply)"
  shows "\<exists>r. decode_client_reply reply = Inr r
    \<and> (code = 0 \<and> cwr_status r = Committed \<and> ci_out w' = ci_out w @ str ''committed term '' @ number (cwr_term r)
          @ str '' index '' @ number (cwr_index r) @ [newline]
       \<or> code = 2 \<and> cwr_status r = client_write_status.InvalidRequest
         \<and> ci_out w' = ci_out w @ str ''invalid request'' @ [newline])
    \<and> ci_err w' = ci_err w"
  using assms
  by (auto simp: shows_answer_def decode_answer_def final_answer_def show_result_def show_write_def out_def split: sum.splits)

lemma shows_final_read:
  assumes "shows_answer (decode_answer Read reply) Read code w w'" and "final_answer (decode_answer Read reply)"
  shows "\<exists>r. decode_client_read_reply reply = Inr r
    \<and> (code = 0 \<and> (\<exists>v. crr_status r = Found \<and> crr_value r = Some v \<and> ci_out w' = ci_out w @ v @ [newline])
       \<or> code = 0 \<and> crr_status r = NotFound \<and> ci_out w' = ci_out w @ str ''(not found)'' @ [newline]
       \<or> code = 2 \<and> crr_status r = client_read_status.InvalidRequest
         \<and> ci_out w' = ci_out w @ str ''invalid request'' @ [newline])
    \<and> ci_err w' = ci_err w"
  using assms decoded_read_value [of reply]
  by (auto simp: shows_answer_def decode_answer_def final_answer_def show_result_def show_read_def out_def split: sum.splits)

section \<open>Choosing the next server\<close>

lemma bool3: "length v = 3 \<Longrightarrow> \<exists>a b c. v = [a, b, c]" for v :: "bool list"
  by (auto simp: numeral_3_eq_3 length_Suc_conv)

lemma target3: "n < 3 \<Longrightarrow> n = 0 \<or> n = 1 \<or> n = (2::nat)"
  by auto

lemma next_step_values:
  "next_step v target 1 =
     (if \<not> v ! ((target + 1) mod 3) then 1 else if \<not> v ! ((target + 2) mod 3) then 2 else 3)"
proof -
  have 3: "next_step v target 3 = 3" by (subst next_step.simps) simp
  have 2: "next_step v target 2 = (if \<not> v ! ((target + 2) mod 3) then 2 else 3)"
    by (subst next_step.simps) (simp add: 3)
  show ?thesis
    by (subst next_step.simps) (simp add: 2 [unfolded numeral_2_eq_2] numeral_2_eq_2)
qed

text \<open>The choice, with \<open>h\<close> the place of a hinted leader or 3.\<close>

lemma picked:
  assumes "target = 0 \<or> target = 1 \<or> target = (2::nat)" and "h = 0 \<or> h = 1 \<or> h = 2 \<or> h = (3::nat)" and "[a, b, c] ! target"
    and "(v, t) = (if h < 3 \<and> \<not> [a, b, c] ! h then ([a, b, c], h)
       else if next_step [a, b, c] target 1 = 3 then ([False, False, False], (target + 1) mod 3)
       else ([a, b, c], (target + next_step [a, b, c] target 1) mod 3))"
  shows "t < 3 \<and> t \<noteq> target \<and> (\<not> (a \<and> b \<and> c) \<longrightarrow> \<not> [a, b, c] ! t \<and> v = [a, b, c])
    \<and> (a \<and> b \<and> c \<longrightarrow> v = [False, False, False]) \<and> (h < 3 \<and> \<not> [a, b, c] ! h \<longrightarrow> t = h)"
  using assms unfolding next_step_values
  by (elim disjE; hypsubst; cases a; cases b; cases c; simp)

lemma chosen_target:
  assumes "choose_target hint visited target = (visited', target')" and "length visited = 3" and "target < 3" and "visited ! target"
  shows "target' < 3 \<and> target' \<noteq> target \<and> ((\<exists>i < 3. \<not> visited ! i) \<longrightarrow> \<not> visited ! target' \<and> visited' = visited)
    \<and> ((\<forall>i < 3. visited ! i) \<longrightarrow> visited' = [False, False, False])
    \<and> (1 \<le> hint \<and> hint \<le> 3 \<and> \<not> visited ! unat (hint - 1) \<longrightarrow> target' = unat (hint - 1))"
proof -
  obtain a b c where v: "visited = [a, b, c]" using bool3 [OF assms(2)] by blast
  define h where "h = (if 1 \<le> hint \<and> hint \<le> 3 then unat (hint - 1) else 3)"
  have in_range: "h = unat (hint - 1) \<and> h < 3" if "1 \<le> hint \<and> hint \<le> 3"
  proof -
    have "unat (hint - 1) = unat hint - unat (1 :: u64)" by (rule unat_sub) (use that in simp)
    moreover have "unat hint \<le> 3" "1 \<le> unat hint" using that by (simp_all add: word_le_nat_alt)
    ultimately show ?thesis using that by (simp add: h_def)
  qed
  have far: "h = 3" if "\<not> (1 \<le> hint \<and> hint \<le> 3)"
    unfolding h_def by (rule if_not_P [OF that])
  have h: "h = 0 \<or> h = 1 \<or> h = 2 \<or> h = 3"
  proof (cases "1 \<le> hint \<and> hint \<le> 3")
    case True
    then show ?thesis using target3 [OF conjunct2 [OF in_range [OF True]]] by argo
  qed (use far in simp)
  have three: "(\<exists>i < 3. \<not> visited ! i) \<longleftrightarrow> \<not> (a \<and> b \<and> c)" "(\<forall>i < 3. visited ! i) \<longleftrightarrow> a \<and> b \<and> c"
    unfolding v numeral_3_eq_3 by (cases a; cases b; cases c; simp add: Ex_less_Suc All_less_Suc)+
  have all: "replicate 3 False = [False, False, False]" by (simp add: numeral_3_eq_3)
  have "choose_target hint [a, b, c] target =
      (if h < 3 \<and> \<not> [a, b, c] ! h then ([a, b, c], h)
       else if next_step [a, b, c] target 1 = 3 then ([False, False, False], (target + 1) mod 3)
       else ([a, b, c], (target + next_step [a, b, c] target 1) mod 3))"
    unfolding choose_target_def h_def [symmetric] Let_def all
    by (rule if_cong [OF refl refl], cases "next_step [a, b, c] target 1 = 3") simp_all
  then have eq: "(visited', target') =
      (if h < 3 \<and> \<not> [a, b, c] ! h then ([a, b, c], h)
       else if next_step [a, b, c] target 1 = 3 then ([False, False, False], (target + 1) mod 3)
       else ([a, b, c], (target + next_step [a, b, c] target 1) mod 3))"
    using assms(1) unfolding v by simp
  have up: "[a, b, c] ! target" using assms(4) unfolding v .
  note main = picked [OF target3 [OF assms(3)] h up eq]
  have "target' = unat (hint - 1)" if "1 \<le> hint \<and> hint \<le> 3 \<and> \<not> visited ! unat (hint - 1)"
    using main in_range that unfolding v by simp
  then show ?thesis using main unfolding v three [unfolded v] by argo
qed

section \<open>The attempts of a clustered request\<close>

text \<open>
  \<open>attempts ports bs operation as w w'\<close>: from \<open>w\<close> to \<open>w'\<close> the client makes the attempts \<open>as\<close>, each an
  exchange with the server at a position and what came of it, and in between only reads the clock and
  sleeps; printing is left aside.
\<close>

primrec attempts :: "nat list \<Rightarrow> bytes \<Rightarrow> client_operation \<Rightarrow> (nat \<times> exchange_result) list \<Rightarrow> client_io \<Rightarrow> client_io \<Rightarrow> bool" where
  "attempts ports bs operation [] w w' \<longleftrightarrow> (\<exists>cs. ci_trace w' = ci_trace w @ cs \<and> idle cs)"
| "attempts ports bs operation (a # as) w w' \<longleftrightarrow>
     (\<exists>cs v u deadline. calls cs w v \<and> idle cs
        \<and> exchange (ports ! fst a) bs operation deadline v = (snd a, u) \<and> attempts ports bs operation as u w')"

lemma attempts_earlier: "\<exists>cs. calls cs u w \<and> idle cs \<Longrightarrow> attempts ports bs operation as w w' \<Longrightarrow> attempts ports bs operation as u w'"
proof (cases as)
  case Nil
  assume "\<exists>cs. calls cs u w \<and> idle cs" "attempts ports bs operation as w w'"
  then obtain cs ds where "calls cs u w" "idle cs" "ci_trace w' = ci_trace w @ ds" "idle ds" using Nil by auto
  then show ?thesis unfolding Nil by (auto simp: calls_def intro!: exI [of _ "cs @ ds"])
next
  case (Cons a bs')
  assume "\<exists>cs. calls cs u w \<and> idle cs" "attempts ports bs operation as w w'"
  then obtain cs ds v x deadline where "calls cs u w" "idle cs" "calls ds w v" "idle ds"
      "exchange (ports ! fst a) bs operation deadline v = (snd a, x)" "attempts ports bs operation bs' x w'"
    using Cons by auto
  moreover from this have "calls (cs @ ds) u v" "idle (cs @ ds)" using calls_trans by auto
  ultimately show ?thesis unfolding Cons attempts.simps by blast
qed

text \<open>The attempts go where the loop's variables say.\<close>

primrec rotates :: "bool list \<Rightarrow> nat \<Rightarrow> (nat \<times> exchange_result) list \<Rightarrow> bool" where
  "rotates visited target [] \<longleftrightarrow> True"
| "rotates visited target (a # as) \<longleftrightarrow> fst a = target \<and>
     (case (if busy_of (snd a) then (visited[target := True], target)
            else choose_target (hint_of (snd a)) (visited[target := True]) target) of
        (visited', target') \<Rightarrow> rotates visited' target' as)"

lemma cluster_loop_attempts:
  "cluster_loop ports bs operation deadline target visited w = (code, w') \<Longrightarrow>
     \<exists>as. attempts ports bs operation as w w' \<and> rotates visited target as
       \<and> (\<forall>a \<in> set (butlast as). \<not> final_answer (snd a))
       \<and> (code = 4 \<or> as \<noteq> [] \<and> final_answer (snd (last as)))"
proof (induction ports bs operation deadline target visited w rule: cluster_loop.induct)
  case (1 ports bs operation deadline target visited w)
  obtain t w1 where t: "net CallNow w = (t, w1)" by fastforce
  have c1: "calls [(CallNow, t)] w w1" by (rule net_calls [OF t])
  show ?case
  proof (cases "earlier t deadline")
    case False
    then have "code = 4 \<and> ci_trace w' = ci_trace w1"
      using "1.prems" by (subst (asm) (1) cluster_loop.simps) (auto simp: t err_def)
    then show ?thesis using c1 idle_simps by (intro exI [of _ "[]"]) (auto simp: calls_def)
  next
    case True
    obtain now w2 where now: "net CallNow w1 = (now, w2)" by fastforce
    obtain res w3 where ex: "exchange (ports ! target) bs operation (min deadline (time_of now + seconds 1)) w2 = (res, w3)"
      by fastforce
    have c2: "\<exists>cs. calls cs w w2 \<and> idle cs"
      using calls_trans [OF c1 net_calls [OF now]] idle_simps by blast
    note un = "1.prems" [unfolded cluster_loop.simps [of ports bs operation deadline target visited w] t now ex prod.case]
    show ?thesis
    proof (cases "final_answer res")
      case fin: True
      then have "ci_trace w' = ci_trace w3" using un True show_result_world by simp
      then have "attempts ports bs operation [(target, res)] w w'"
        using c2 ex idle_simps(1) unfolding attempts.simps fst_conv snd_conv by (metis append_Nil2)
      then show ?thesis using fin by (intro exI [of _ "[(target, res)]"]) (simp add: case_prod_beta)
    next
      case False
      let ?next = "if busy_of res then (visited[target := True], target)
        else choose_target (hint_of res) (visited[target := True]) target"
      obtain v' t' where vt: "?next = (v', t')" by fastforce
      have loop: "cluster_loop ports bs operation deadline t' v' (pause deadline w3) = (code, w')"
        using un True False vt by simp
      obtain as where as: "attempts ports bs operation as (pause deadline w3) w'" "rotates v' t' as"
          "\<forall>a \<in> set (butlast as). \<not> final_answer (snd a)" "code = 4 \<or> as \<noteq> [] \<and> final_answer (snd (last as))"
        using "1.IH" [OF t [symmetric] _ now [symmetric] ex [symmetric] False vt [symmetric] loop] True by blast
      have "attempts ports bs operation as w3 w'" using attempts_earlier [OF pause_idle as(1)] .
      then have "attempts ports bs operation ((target, res) # as) w w'" using c2 ex by auto
      moreover have "rotates visited target ((target, res) # as)"
        by (simp only: rotates.simps fst_conv snd_conv vt prod.case as(2) simp_thms)
      ultimately show ?thesis using as(3,4) False by (intro exI [of _ "(target, res) # as"]) auto
    qed
  qed
qed

text \<open>The servers tried without being busy, and the part of them in the round that is not complete.\<close>

definition left_servers :: "(nat \<times> exchange_result) list \<Rightarrow> nat list" where
  "left_servers as = map fst (filter (\<lambda>a. \<not> busy_of (snd a)) as)"

definition this_round :: "nat list \<Rightarrow> nat list" where
  "this_round servers = drop (3 * (length servers div 3)) servers"

fun whole_rounds :: "nat list \<Rightarrow> bool" where
  "whole_rounds (a # b # c # servers) \<longleftrightarrow> {a, b, c} = {0, 1, 2} \<and> whole_rounds servers"
| "whole_rounds servers \<longleftrightarrow> True"

lemma left_servers_simps [simp]:
  "left_servers [] = []"
  "left_servers (a # as) = (if busy_of (snd a) then left_servers as else fst a # left_servers as)"
  by (simp_all add: left_servers_def)

lemma left_servers_append: "left_servers (as @ as') = left_servers as @ left_servers as'"
  by (simp add: left_servers_def)

lemma this_round_short: "length xs < 3 \<Longrightarrow> this_round xs = xs"
  by (simp add: this_round_def)

lemma this_round_after: "length xs = 3 \<Longrightarrow> this_round (xs @ ys) = this_round ys"
  by (simp add: this_round_def div_add_self1)

lemma whole_rounds_short: "length xs < 3 \<Longrightarrow> whole_rounds xs"
  by (cases xs rule: whole_rounds.cases) simp_all

lemma whole_rounds_after: "length xs = 3 \<Longrightarrow> set xs = {0, 1, 2} \<Longrightarrow> whole_rounds (xs @ ys) \<longleftrightarrow> whole_rounds ys"
  by (auto simp: numeral_3_eq_3 length_Suc_conv)

lemma three_servers: "distinct xs \<Longrightarrow> set xs \<subseteq> {0, 1, 2 :: nat} \<Longrightarrow> length xs = 3 \<Longrightarrow> set xs = {0, 1, 2}"
  by (rule card_subset_eq) (simp_all add: distinct_card)

text \<open>One step of the order, with \<open>R\<close> the servers of the round so far.\<close>

definition goes_on :: "nat list \<Rightarrow> nat \<times> exchange_result \<Rightarrow> nat \<Rightarrow> bool" where
  "goes_on R a target' \<longleftrightarrow>
     (if busy_of (snd a) then target' = fst a
      else target' \<noteq> fst a
        \<and> (R \<noteq> [] \<and> 1 \<le> hint_of (snd a) \<and> hint_of (snd a) \<le> 3 \<and> unat (hint_of (snd a) - 1) \<notin> set R
             \<longrightarrow> target' = unat (hint_of (snd a) - 1)))"

definition orderly :: "nat list \<Rightarrow> (nat \<times> exchange_result) list \<Rightarrow> bool" where
  "orderly R as \<longleftrightarrow>
     (\<forall>before a a' after. as = before @ a # a' # after \<longrightarrow>
        goes_on (this_round (R @ left_servers (before @ [a]))) a (fst a'))"

lemma orderly_Cons:
  "orderly R (a # as) \<longleftrightarrow>
     (as \<noteq> [] \<longrightarrow> goes_on (this_round (R @ left_servers [a])) a (fst (hd as))) \<and> orderly (R @ left_servers [a]) as"
  (is "_ \<longleftrightarrow> ?first \<and> _")
proof
  assume o: "orderly R (a # as)"
  have ?first
  proof
    assume "as \<noteq> []"
    then have "a # as = [] @ a # hd as # tl as" by simp
    then show "goes_on (this_round (R @ left_servers [a])) a (fst (hd as))"
      using o unfolding orderly_def by fastforce
  qed
  moreover have "orderly (R @ left_servers [a]) as"
    unfolding orderly_def
  proof (intro allI impI)
    fix before b b' after assume "as = before @ b # b' # after"
    then have "a # as = (a # before) @ b # b' # after" by simp
    then have "goes_on (this_round (R @ left_servers ((a # before) @ [b]))) b (fst b')"
      using o unfolding orderly_def by blast
    then show "goes_on (this_round ((R @ left_servers [a]) @ left_servers (before @ [b]))) b (fst b')"
      by (simp add: left_servers_append [of "[a]" "before @ [b]", simplified])
  qed
  ultimately show "?first \<and> orderly (R @ left_servers [a]) as" by blast
next
  assume o: "?first \<and> orderly (R @ left_servers [a]) as"
  show "orderly R (a # as)"
    unfolding orderly_def
  proof (intro allI impI)
    fix before b b' after assume e: "a # as = before @ b # b' # after"
    show "goes_on (this_round (R @ left_servers (before @ [b]))) b (fst b')"
    proof (cases before)
      case Nil
      then show ?thesis using o e by auto
    next
      case (Cons x xs)
      then have "x = a" "as = xs @ b # b' # after" using e by auto
      then have "goes_on (this_round ((R @ left_servers [a]) @ left_servers (xs @ [b]))) b (fst b')"
        using o unfolding orderly_def by blast
      then show ?thesis
        using Cons \<open>x = a\<close> left_servers_append [of "[a]" "xs @ [b]"] by simp
    qed
  qed
qed

lemma orderly_after: "length R = 3 \<Longrightarrow> orderly R as \<longleftrightarrow> orderly [] as"
  by (simp add: orderly_def this_round_after)

lemma hint_place: "1 \<le> h \<Longrightarrow> h \<le> 3 \<Longrightarrow> unat (h - 1 :: u64) < 3"
proof -
  assume h: "1 \<le> h" "h \<le> 3"
  have "unat (h - 1) = unat h - unat (1 :: u64)" by (rule unat_sub) (use h in simp)
  moreover have "unat h \<le> 3" using h by (simp add: word_le_nat_alt)
  ultimately show ?thesis by simp
qed

lemma rotates_rounds:
  "rotates visited target as \<Longrightarrow> length visited = 3 \<Longrightarrow> target < 3 \<Longrightarrow> target \<notin> set R \<Longrightarrow> length R < 3 \<Longrightarrow> distinct R \<Longrightarrow>
   set R \<subseteq> {0, 1, 2} \<Longrightarrow> \<forall>i < 3. i \<noteq> target \<longrightarrow> visited ! i = (i \<in> set R) \<Longrightarrow>
     whole_rounds (R @ left_servers as) \<and> (\<forall>a \<in> set as. fst a < 3) \<and> orderly R as"
proof (induction as arbitrary: visited target R)
  case Nil
  then show ?case by (simp add: whole_rounds_short orderly_def)
next
  case (Cons a as)
  note len = Cons.prems(2) and R = Cons.prems(4-7)
  let ?V = "visited[target := True]" and ?R = "R @ [target]"
  have at: "fst a = target" using Cons.prems(1) by simp
  have V: "length ?V = 3" "?V ! target" "\<And>i. i < 3 \<Longrightarrow> ?V ! i = (i \<in> set ?R)"
    using len Cons.prems(3,8) by (auto simp: nth_list_update)
  have hd: "fst (hd as) = t" if "rotates v t as" "as \<noteq> []" for v t using that by (cases as) auto
  show ?case
  proof (cases "busy_of (snd a)")
    case True
    then have rot: "rotates ?V target as" using Cons.prems(1) by simp
    have "\<forall>i < 3. i \<noteq> target \<longrightarrow> ?V ! i = (i \<in> set R)" using Cons.prems(8) by simp
    from Cons.IH [OF rot V(1) Cons.prems(3) R this] show ?thesis
      using True at hd [OF rot] Cons.prems(3) by (simp add: orderly_Cons goes_on_def)
  next
    case False
    obtain v t where vt: "choose_target (hint_of (snd a)) ?V target = (v, t)" by fastforce
    then have rot: "rotates v t as" using Cons.prems(1) False by simp
    note c = chosen_target [OF vt V(1) Cons.prems(3) V(2)]
    have R': "distinct ?R" "set ?R \<subseteq> {0, 1, 2}" using R target3 [OF Cons.prems(3)] by auto
    have left: "left_servers (a # as) = target # left_servers as" "left_servers [a] = [target]" using False at by simp_all
    show ?thesis
    proof (cases "length ?R = 3")
      case True
      have all: "set ?R = {0, 1, 2}" by (rule three_servers [OF R' True])
      then have "\<forall>i < 3. ?V ! i" using V(3) target3 by blast
      then have v: "v = [False, False, False]" using c by blast
      have none: "\<forall>i < 3. i \<noteq> t \<longrightarrow> v ! i = (i \<in> set [])" unfolding v using target3 by fastforce
      have ih: "whole_rounds ([] @ left_servers as) \<and> (\<forall>a \<in> set as. fst a < 3) \<and> orderly [] as"
        by (rule Cons.IH [OF rot _ _ _ _ _ _ none]) (use c v in auto)
      have "this_round ?R = []" using this_round_after [OF True, of "[]"] by (simp add: this_round_def)
      moreover have "whole_rounds (?R @ left_servers as)" using ih whole_rounds_after [OF True all] by simp
      ultimately show ?thesis
        using ih False at c hd [OF rot] Cons.prems(3) orderly_after [OF True]
        by (simp add: orderly_Cons left goes_on_def)
    next
      case short: False
      then have len': "length ?R < 3" using R(2) by simp
      have "\<not> {0, 1, 2} \<subseteq> set ?R"
      proof
        assume "{0, 1, 2} \<subseteq> set ?R"
        then have "card {0, 1, 2 :: nat} \<le> card (set ?R)" by (intro card_mono) simp_all
        then show False using len' card_length [of ?R] by simp
      qed
      then obtain i where "i \<in> {0, 1, 2}" and i: "i \<notin> set ?R" by blast
      then have "i < 3" by auto
      then have "\<exists>i < 3. \<not> ?V ! i" using V(3) i by blast
      then have t: "t < 3" "t \<noteq> target" "\<not> ?V ! t" "v = ?V" using c by blast+
      then have "t \<notin> set ?R" using V(3) by blast
      from Cons.IH [of v t ?R, OF rot _ t(1) this len' R'] have
        ih: "whole_rounds (?R @ left_servers as) \<and> (\<forall>a \<in> set as. fst a < 3) \<and> orderly ?R as"
        using V(1,3) t(4) by blast
      have "goes_on (this_round ?R) a t"
        using c t(2) False at V(3) hint_place by (auto simp: goes_on_def this_round_short [OF len'])
      then show ?thesis
        using ih at False hd [OF rot] Cons.prems(3) by (auto simp: orderly_Cons left)
    qed
  qed
qed

section \<open>A run of the client\<close>

text \<open>Answers under which each wait and each transfer succeeds at once.\<close>

lemma ready_now:
  assumes "ci_script w = Now a # Now b # Polled 1 True # rs" and "a < deadline"
  shows "\<exists>w'. wait_ready fd events deadline w = (True, w') \<and> ci_script w' = rs"
  by (subst wait_ready.simps) (simp add: net_def assms earlier_def)

lemma send_once:
  assumes "ci_script w = Now a # Now b # Polled 1 True # Count (int (length data)) # rs" and "a < deadline" and "data \<noteq> []"
  shows "\<exists>w'. send_all fd data deadline w = (True, w') \<and> ci_script w' = rs"
proof -
  obtain w1 where w1: "wait_ready fd CallPollOut deadline w = (True, w1)" "ci_script w1 = Count (int (length data)) # rs"
    using ready_now [OF assms(1,2)] by blast
  have "send_all fd [] deadline v = (True, v)" for v by (simp add: send_all.simps)
  then show ?thesis
    by (subst send_all.simps) (use w1 assms(3) in \<open>simp add: net_def try_again_def\<close>)
qed

lemma receive_once:
  assumes "ci_script w = Now a # Now b # Polled 1 True # Received bs # rs" and "a < deadline" and "bs \<noteq> []"
  shows "\<exists>w'. receive_all fd (length bs) [] deadline w = (Some bs, w') \<and> ci_script w' = rs"
proof -
  obtain w1 where w1: "wait_ready fd CallPollIn deadline w = (True, w1)" "ci_script w1 = Received bs # rs"
    using ready_now [OF assms(1,2)] by blast
  have "receive_all fd (length bs) bs deadline v = (Some bs, v)" for v by (simp add: receive_all.simps)
  then show ?thesis
    by (subst receive_all.simps) (use w1 assms(3) in \<open>simp add: net_def try_again_def\<close>)
qed

definition at_once :: "net_answer \<Rightarrow> net_answer list" where
  "at_once r = [Now 0, Now 0, Polled 1 True, r]"

definition exchange_answers :: "bytes \<Rightarrow> bytes \<Rightarrow> net_answer list" where
  "exchange_answers bs reply = Count 3 # Count 0 # at_once (Count 4) @ at_once (Count (int (length bs)))
     @ at_once (Received (prefix (length reply))) @ at_once (Received reply) @ [Count 0]"

lemma exchange_once:
  assumes "ci_script w = exchange_answers bs reply" and "0 < deadline" and "bs \<noteq> []" and "reply \<noteq> []"
    and "length reply \<le> max_client_frame_size"
  shows "\<exists>w'. exchange port bs operation deadline w = (decode_answer operation reply, w')"
proof -
  have len: "length (prefix n) = 4" "prefix n \<noteq> []" for n by (simp_all add: prefix_def)
  obtain w1 where w1: "net CallSocket w = (Count 3, w1)" "ci_script w1 = tl (exchange_answers bs reply)"
    using assms(1) by (simp add: net_def exchange_answers_def)
  obtain w2 where w2: "connect_to 3 port deadline w1 = (True, w2)" "ci_script w2 = tl (tl (exchange_answers bs reply))"
    using w1(2) by (simp add: connect_to_def net_def exchange_answers_def)
  obtain w3 where w3: "send_all 3 (prefix (length bs)) deadline w2 = (True, w3)"
    "ci_script w3 = at_once (Count (int (length bs))) @ at_once (Received (prefix (length reply))) @ at_once (Received reply) @ [Count 0]"
    using send_once [of w2 0 0 "prefix (length bs)" "at_once (Count (int (length bs))) @ at_once (Received (prefix (length reply))) @ at_once (Received reply) @ [Count 0]" deadline 3, OF _ assms(2) len(2)] w2(2)
    by (auto simp: exchange_answers_def at_once_def len)
  obtain w4 where w4: "send_all 3 bs deadline w3 = (True, w4)"
    "ci_script w4 = at_once (Received (prefix (length reply))) @ at_once (Received reply) @ [Count 0]"
    using send_once [of w3 0 0 bs "at_once (Received (prefix (length reply))) @ at_once (Received reply) @ [Count 0]" deadline 3, OF _ assms(2,3)] w3(2)
    by (auto simp: at_once_def)
  obtain w5 where w5: "receive_all 3 4 [] deadline w4 = (Some (prefix (length reply)), w5)"
    "ci_script w5 = at_once (Received reply) @ [Count 0]"
    using receive_once [of w4 0 0 "prefix (length reply)" "at_once (Received reply) @ [Count 0]" deadline 3, OF _ assms(2) len(2)] w4(2)
    by (auto simp: at_once_def len)
  obtain w6 where w6: "receive_all 3 (length reply) [] deadline w5 = (Some reply, w6)" "ci_script w6 = [Count 0]"
    using receive_once [of w5 0 0 reply "[Count 0]" deadline 3, OF _ assms(2,4)] w5(2) by (auto simp: at_once_def)
  have "header_length (prefix (length reply)) = length reply"
    by (rule prefix_length) (use assms(5) in \<open>simp add: max_client_frame_size_def\<close>)
  then show ?thesis
    using assms(4,5) w1(1) w2(1) w3(1) w4(1) w5(1) w6(1) by (simp add: exchange_def send_and_receive_def Let_def)
qed

section \<open>Properties\<close>

text \<open>Request ids. The argument parser accepts exactly the strings of 32 hexadecimal digits in either case,
  and prints the id it read as that string in lower case; a printed id is read back as itself.\<close>

theorem request_id_text:
  "(parse_request_id input = Some rid \<longleftrightarrow>
      length input = 32 \<and> list_all (\<lambda>c. 0 \<le> hex_digit c) input \<and> format_request_id rid = map lower_case input)
   \<and> parse_request_id (format_request_id rid) = Some rid"
proof -
  have "parse_octets (format_request_id rid) = Some (rid_bytes rid)" by (simp add: format_octets parse_octets_text)
  moreover have "length (format_request_id rid) = 32"
    using rid_bytes [of rid] by (simp add: format_octets octets_text_length)
  ultimately have "parse_request_id (format_request_id rid) = Some rid" by (simp add: parse_request_id_def)
  then show ?thesis using parse_request_id_Some by blast
qed

text \<open>C37: What a clustered write reports. Every attempt sends (the beginning of) one and the same frame with its
  length, so retries carry the same request id. There are three outcomes, told apart by the exit status and by
  what is printed, and nothing else is printed. Exit status 0 with the committed line: the last bytes
  received are the frame of a reply that decodes as committed, with the term and index printed. Exit
  status 2 with the line that says invalid request: they are such a frame of a reply that refuses the
  request. Exit status 4, with nothing on the output and the advice to retry on the error output.\<close>

theorem clustered_write_report:
  assumes "run_cluster ports (Inr bs) Write w = (code, w')"
  shows "\<exists>cs. ci_trace w' = ci_trace w @ cs
    \<and> (\<exists>ks. sent cs = concat (map (\<lambda>k. take k (framed bs)) ks))
    \<and> (code = 4 \<and> ci_out w' = ci_out w
         \<and> ci_err w' = ci_err w @ str ''outcome unknown; retry with the same request id'' @ [newline]
       \<or> (\<exists>before reply r. received cs = before @ framed reply \<and> decode_client_reply reply = Inr r
            \<and> (code = 0 \<and> cwr_status r = Committed
                 \<and> ci_out w' = ci_out w @ str ''committed term '' @ number (cwr_term r) @ str '' index '' @ number (cwr_index r) @ [newline]
               \<or> code = 2 \<and> cwr_status r = client_write_status.InvalidRequest
                 \<and> ci_out w' = ci_out w @ str ''invalid request'' @ [newline])
            \<and> ci_err w' = ci_err w))"
proof -
  obtain cs where cs: "ci_trace w' = ci_trace w @ cs" "resent bs cs"
    "(\<exists>before reply. received cs = before @ framed reply \<and> final_answer (decode_answer Write reply)
          \<and> shows_answer (decode_answer Write reply) Write code w w')
       \<or> gives_up Write code w w'" using run_cluster_calls [OF assms] by blast
  from cs(3) show ?thesis
  proof
    assume "gives_up Write code w w'"
    then show ?thesis using cs(1,2) unfolding resent_def gives_up_def give_up_text_def by auto
  next
    assume "\<exists>before reply. received cs = before @ framed reply \<and> final_answer (decode_answer Write reply)
      \<and> shows_answer (decode_answer Write reply) Write code w w'"
    then obtain before reply where r: "received cs = before @ framed reply" "final_answer (decode_answer Write reply)"
      "shows_answer (decode_answer Write reply) Write code w w'" by blast
    show ?thesis using shows_final_write [OF r(3,2)] r(1) cs(1,2) unfolding resent_def by blast
  qed
qed

text \<open>C38: What a clustered read reports. The same for reads: an exit status of 0 means that the last bytes
  received are the frame of a reply with the value that is printed, or one that says the key is absent,
  2 that they are the frame of a reply that refuses the request, and 4 that nothing is printed but the
  advice to retry.\<close>

theorem clustered_read_report:
  assumes "run_cluster ports (Inr bs) Read w = (code, w')"
  shows "\<exists>cs. ci_trace w' = ci_trace w @ cs
    \<and> (\<exists>ks. sent cs = concat (map (\<lambda>k. take k (framed bs)) ks))
    \<and> (code = 4 \<and> ci_out w' = ci_out w \<and> ci_err w' = ci_err w @ str ''read unavailable; retry'' @ [newline]
       \<or> (\<exists>before reply r. received cs = before @ framed reply \<and> decode_client_read_reply reply = Inr r
            \<and> (code = 0 \<and> (\<exists>v. crr_status r = Found \<and> crr_value r = Some v \<and> ci_out w' = ci_out w @ v @ [newline])
               \<or> code = 0 \<and> crr_status r = NotFound \<and> ci_out w' = ci_out w @ str ''(not found)'' @ [newline]
               \<or> code = 2 \<and> crr_status r = client_read_status.InvalidRequest
                 \<and> ci_out w' = ci_out w @ str ''invalid request'' @ [newline])
            \<and> ci_err w' = ci_err w))"
proof -
  obtain cs where cs: "ci_trace w' = ci_trace w @ cs" "resent bs cs"
    "(\<exists>before reply. received cs = before @ framed reply \<and> final_answer (decode_answer Read reply)
          \<and> shows_answer (decode_answer Read reply) Read code w w')
       \<or> gives_up Read code w w'" using run_cluster_calls [OF assms] by blast
  from cs(3) show ?thesis
  proof
    assume "gives_up Read code w w'"
    then show ?thesis using cs(1,2) unfolding resent_def gives_up_def give_up_text_def by auto
  next
    assume "\<exists>before reply. received cs = before @ framed reply \<and> final_answer (decode_answer Read reply)
      \<and> shows_answer (decode_answer Read reply) Read code w w'"
    then obtain before reply where r: "received cs = before @ framed reply" "final_answer (decode_answer Read reply)"
      "shows_answer (decode_answer Read reply) Read code w w'" by blast
    show ?thesis using shows_final_read [OF r(3,2)] r(1) cs(1,2) unfolding resent_def by blast
  qed
qed

text \<open>C39: Every server is tried. A clustered request is a sequence of attempts, each an exchange with one
  of the three servers, the first with the first one; all but the last leave the request unanswered, and the last
  one answers it unless the deadline passed. After a server that says it is busy the same server is
  tried again, after any other another one. The servers tried, not counting the attempts that met a busy
  one, go in rounds of three that hold each server once; within a round, a server named as the leader
  that the round has not yet tried is the next one.\<close>

theorem retries_reach_every_server:
  assumes "run_cluster ports (Inr bs) operation w = (code, w')"
  shows "\<exists>as. attempts ports bs operation as w w'
    \<and> (as = [] \<or> fst (hd as) = 0) \<and> (\<forall>a \<in> set as. fst a < 3)
    \<and> (\<forall>a \<in> set (butlast as). \<not> final_answer (snd a))
    \<and> (code = 4 \<or> as \<noteq> [] \<and> final_answer (snd (last as)))
    \<and> whole_rounds (left_servers as)
    \<and> (\<forall>before target res target' res' after. as = before @ (target, res) # (target', res') # after \<longrightarrow>
         (if busy_of res then target' = target
          else target' \<noteq> target
            \<and> (let round = this_round (left_servers (before @ [(target, res)]));
                   named = unat (hint_of res - 1)
               in round \<noteq> [] \<and> 1 \<le> hint_of res \<and> hint_of res \<le> 3 \<and> named \<notin> set round \<longrightarrow> target' = named)))"
proof -
  obtain t w1 where t: "net CallNow w = (t, w1)" by fastforce
  have loop: "cluster_loop ports bs operation (time_of t + seconds 8) 0 (replicate 3 False) w1 = (code, w')"
    using assms by (simp add: run_cluster_def t)
  obtain as where as: "attempts ports bs operation as w1 w'" "rotates (replicate 3 False) 0 as"
    "\<forall>a \<in> set (butlast as). \<not> final_answer (snd a)" "code = 4 \<or> as \<noteq> [] \<and> final_answer (snd (last as))"
    using cluster_loop_attempts [OF loop] by blast
  have "\<exists>cs. calls cs w w1 \<and> idle cs" using net_calls [OF t] idle_simps(3) by blast
  then have "attempts ports bs operation as w w'" using as(1) attempts_earlier by blast
  moreover have "as = [] \<or> fst (hd as) = 0" using as(2) by (cases as) auto
  moreover have rounds: "whole_rounds (left_servers as)" "\<forall>a \<in> set as. fst a < 3" "orderly [] as"
    using rotates_rounds [OF as(2), of "[]"] target3 by (auto simp: numeral_3_eq_3 less_Suc_eq)
  moreover have "if busy_of res then target' = target
      else target' \<noteq> target
        \<and> (let round = this_round (left_servers (before @ [(target, res)])); named = unat (hint_of res - 1)
           in round \<noteq> [] \<and> 1 \<le> hint_of res \<and> hint_of res \<le> 3 \<and> named \<notin> set round \<longrightarrow> target' = named)"
    if "as = before @ (target, res) # (target', res') # after" for before target res target' res' after
  proof -
    have "goes_on (this_round (left_servers (before @ [(target, res)]))) (target, res) (fst (target', res'))"
      using rounds(3) that unfolding orderly_def append_Nil by blast
    then show ?thesis unfolding goes_on_def Let_def fst_conv snd_conv .
  qed
  ultimately show ?thesis using as(3,4) by blast
qed

text \<open>A run in which the first server answers at once.\<close>

definition committed_frame :: bytes where
  "committed_frame = reply_payload sample_reply @ be_bytes 4 (crc32 (reply_payload sample_reply))"

lemma committed_frame_decoded: "decode_client_reply committed_frame = Inr sample_reply"
  unfolding committed_frame_def reply_codec.decode_encode_iff
  by (simp add: reply_codec.encode_payload reply_ok_def sample_reply_def)

definition quick_world :: "bytes \<Rightarrow> bytes \<Rightarrow> client_io" where
  "quick_world bs reply = \<lparr>ci_script = Now 0 # Now 0 # Now 0 # exchange_answers bs reply, ci_trace = [], ci_out = [], ci_err = []\<rparr>"

lemma quick_run:
  assumes "bs \<noteq> []" and "reply \<noteq> []" and "length reply \<le> max_client_frame_size" and "final_answer (decode_answer operation reply)"
  shows "fst (run_cluster ports (Inr bs) operation (quick_world bs reply))
    = fst (show_result (decode_answer operation reply) operation w)"
proof -
  define w3 where "w3 = \<lparr>ci_script = exchange_answers bs reply,
    ci_trace = [(CallNow, Now 0), (CallNow, Now 0), (CallNow, Now 0)], ci_out = [], ci_err = []\<rparr>"
  obtain w4 where w4: "exchange (ports ! 0) bs operation (seconds 1) w3 = (decode_answer operation reply, w4)"
    using exchange_once [of w3 bs reply "seconds 1"] assms(1-3) by (auto simp: w3_def seconds_def)
  have "run_cluster ports (Inr bs) operation (quick_world bs reply) = show_result (decode_answer operation reply) operation w4"
    using w4 assms(4)
    by (simp add: run_cluster_def quick_world_def net_def, subst cluster_loop.simps)
      (simp add: net_def earlier_def time_of_def seconds_def w3_def)
  moreover have "fst (show_result res operation x) = fst (show_result res operation y)" for res x y
    by (simp add: show_result_def show_error_def show_status_def show_read_def show_write_def
        split: exchange_result.splits exchange_error.splits client_read_status.splits client_write_status.splits)
  ultimately show ?thesis by metis
qed

lemma committed_run:
  "\<exists>w'. run_cluster [7001, 7002, 7003] (Inr [1]) Write (quick_world [1] committed_frame) = (0, w')"
proof -
  have l: "committed_frame \<noteq> []" "length committed_frame \<le> max_client_frame_size"
    by (simp_all add: committed_frame_def reply_payload_def max_client_frame_size_def)
  have d: "decode_answer Write committed_frame = WriteAnswer sample_reply"
    by (simp add: decode_answer_def committed_frame_decoded)
  obtain code w' where r: "run_cluster [7001, 7002, 7003] (Inr [1]) Write (quick_world [1] committed_frame) = (code, w')"
    by fastforce
  have "code = 0"
    using quick_run [of "[1]" committed_frame Write "[7001, 7002, 7003]" undefined] l d r
    by (simp add: final_answer_def sample_reply_def show_result_def show_write_def)
  then show ?thesis using r by blast
qed

theorem clustered_write_report_witness:
  "\<exists>w'. run_cluster [7001, 7002, 7003] (Inr [1]) Write (quick_world [1] committed_frame) = (0, w')
     \<and> ci_out w' \<noteq> [] \<and> ci_err w' = []"
proof -
  obtain w' where r: "run_cluster [7001, 7002, 7003] (Inr [1]) Write (quick_world [1] committed_frame) = (0, w')"
    using committed_run by blast
  then show ?thesis using clustered_write_report [OF r] by (auto simp: quick_world_def newline_def)
qed

theorem retries_reach_every_server_witness:
  "\<exists>w' as. run_cluster [7001, 7002, 7003] (Inr [1]) Write (quick_world [1] committed_frame) = (0, w')
     \<and> attempts [7001, 7002, 7003] [1] Write as (quick_world [1] committed_frame) w'
     \<and> as \<noteq> [] \<and> fst (hd as) = 0 \<and> final_answer (snd (last as))"
proof -
  obtain w' where r: "run_cluster [7001, 7002, 7003] (Inr [1]) Write (quick_world [1] committed_frame) = (0, w')"
    using committed_run by blast
  from retries_reach_every_server [OF r] show ?thesis using r by auto
qed

definition sample_found :: client_read_reply where
  "sample_found = \<lparr>crr_status = Found, crr_term = 1, crr_index = 2, crr_leader_hint = 1, crr_value = Some [65]\<rparr>"

definition found_frame :: bytes where
  "found_frame = read_reply_payload sample_found @ be_bytes 4 (crc32 (read_reply_payload sample_found))"

lemma found_frame_decoded: "decode_client_read_reply found_frame = Inr sample_found"
  unfolding found_frame_def read_reply_codec.decode_encode_iff
  by (simp add: read_reply_codec.encode_payload read_reply_ok_def sample_found_def reply_value_def)

theorem clustered_read_report_witness:
  "\<exists>w'. run_cluster [7001, 7002, 7003] (Inr [1]) Read (quick_world [1] found_frame) = (0, w')
     \<and> ci_out w' \<noteq> []"
proof -
  have l: "found_frame \<noteq> []" "length found_frame \<le> max_client_frame_size"
    by (simp_all add: found_frame_def read_reply_payload_def reply_value_def sample_found_def max_client_frame_size_def)
  have d: "decode_answer Read found_frame = ReadAnswer sample_found"
    by (simp add: decode_answer_def found_frame_decoded)
  obtain code w' where r: "run_cluster [7001, 7002, 7003] (Inr [1]) Read (quick_world [1] found_frame) = (code, w')"
    by fastforce
  have "code = 0"
    using quick_run [of "[1]" found_frame Read "[7001, 7002, 7003]" undefined] l d r
    by (simp add: final_answer_def sample_found_def show_result_def show_read_def)
  then show ?thesis using r clustered_read_report [OF r] by (auto simp: quick_world_def newline_def)
qed

end
