(* ===== verification/Spec2Isabelle.thy ===== *)
theory Spec2Isabelle
  imports Raft_Reads_Safety Raft_Server_Reads Dkv_Client
begin

text \<open>
  A verification library for DistributedKVStore, a three-node key-value store replicated with Raft.

  The program. \<open>dkv_node\<close> (src/src/raft_server.cpp) is one server: an event loop around a \<open>RaftNode\<close>
  (src/src/raft_node.cpp), which owns the durable term and vote (persistent_metadata), the durable log
  (persistent_log), the key-value state machine (kv_state_machine), the election state (raft_election),
  and, while it leads, the replication state (raft_leader). Messages between servers travel as
  checksummed envelopes (raft_wire), requests and replies of clients in formats of their own
  (client_wire), each in a frame with its length in front. \<open>dkv_client\<close> (src/src/dkv_client.cpp) asks one server, or
  tries the servers of a cluster until one answers for good.

  Conventions. A C++ class is a record, an enum or variant a datatype, a 64-bit integer a \<open>64 word\<close> with
  its wrap-around, a byte string a list of 8-bit words, \<open>std::map\<close> an association list in key order, and
  a result variant a sum. A method takes the object, and where it makes system calls the state of the
  operating system, and returns them changed. Definitions carry the names of the source, up to a prefix
  where two classes use the same name.

  The theories, from the bottom up.

  \<^item> Prelude: bytes, big-endian words, shared collections of simp rules. Codec: the contracts of encoders and
    decoders as locales, interpreted at every format. Framing: the length in front of a frame.
  \<^item> Crc32 (crc32.cpp), Command_Codec, Log_Entry_Codec, Raft_Metadata_Codec, Raft_Wire, Client_Wire (the files
    of these names): every encoder and decoder with all checks. Each decoder accepts exactly the encoder's output; one changed byte is noticed.
  \<^item> Os: system calls as a script of answers and a trace of calls. Persistent_Metadata, Persistent_Log:
    the files of a node, with every short write, interruption and failure. What was reported as written is
    what a later open finds, and a record torn by a crash is reported as such; a failure is harmless or final; terms and votes only go forward.
  \<^item> Kv_State_Machine, Raft_Apply: applying committed entries, each request once; equal to a plain replay of
    the log without repetitions.
  \<^item> Raft_Vote, Raft_Append, Raft_Append_Prefix, Raft_Election, Raft_Leader: the handlers of the algorithm on
    the durable stores. The exact condition for a vote, refinement of the merge of a batch into the log, the commit rule
    equal to its specification, and the number of retries a peer that rejects everything is given.
  \<^item> Raft_Node: \<open>open\<close> and the event handlers of \<open>RaftNode\<close>; \<open>node_step\<close> is one event. Raft_Node_Inv,
    Raft_Node_Lead, Raft_Node_Step, Raft_Node_Facts, Raft_Node_Commit, Raft_Node_Reads: the invariant that every event
    keeps whatever arrives and whatever the disks answer, what is never taken back, what each message says of its
    sender, and what becomes of a read.
  \<^item> Raft_Cluster: three nodes and a network as a step relation. Raft_Cluster_Log, Raft_Cluster_Votes,
    Raft_Cluster_Complete, Raft_Cluster_Commit: the invariants of reachable clusters, by rule induction.
    Raft_Safety: election safety, log matching, leader completeness and state machine safety.
    Raft_Cluster_Reads, Raft_Reads_Safety: linearizable reads, a read sees all that was committed before it began.
    Raft_Cluster_Run: a run of the cluster evaluated with the definitions, the concrete input of these theorems.
  \<^item> Text_Format: numbers and words as the programs read and print them. Raft_Socket: \<open>read_all\<close>,
    \<open>write_all\<close>, frames and replies over sockets. Raft_Server: the class \<open>Server\<close> and \<open>main\<close>.
    Raft_Server_Tables, Raft_Server_Inv, Raft_Server_Loop: what each handler does to the waiting clients, the
    node and the network, composed up to the event loop. Raft_Server_Safety: a round of the loop is a run of the
    cluster's step relation, so that Raft_Safety holds of servers that run this loop; a Committed reply is true, and so is (Raft_Server_Reads)
    a reply with a value; every client is answered once; a status request always produces a reply that passes the checks of the format, and a frame of it is
    written completely or reported as not sent; a write that waits is in the log.
  \<^item> Client_Net, Dkv_Client: the client program, from its system calls to its exit status. It reports a
    write as committed, or a read, only when a server said so in reply to its own request, and otherwise says that it does not know; its attempts
    go in rounds that try every server once, apart from repeats at a busy one.

  The operating system, the network and time. System calls answer from a script that is a parameter:
  the theorems hold for all answers. A call beyond the script fails, so that a run is finite, and loops
  over calls end because each round uses up an answer; the fuel of a loop is the length of the
  script, and no bound is chosen by the model. Deadlines are inputs: whether one has passed is part of the answer of \<open>poll\<close>
  for the server, and the clock's answers are part of the script for the client.

  The cluster. The network is the set of all envelopes ever sent, so messages are lost, delayed,
  reordered and repeated at will; they are not forged, and envelopes damaged on the way are noticed by
  the checksum (a single changed byte is proved). A restart opens a node on files
  that hold the log the node had in memory and metadata at least as new. That is what the theorems on the files give for a node whose writes
  were reported as done; a record that reached the disk although its write was reported as failed is
  outside of the cluster's model. The cluster has three nodes with the ids 1, 2 and 3, as \<open>main\<close> of the server has it.

  Not modelled. The closing of descriptors by destructors; the flags and addresses given to socket calls
  and the socket timeouts, whose effect is that a call fails; the time \<open>poll\<close> is told to wait and the random choice of the
  election timeout, on which no result depends because a timeout may come at any time; the flushing of
  the output streams; the handling of a failed allocation. The build files, the shell scripts and the tests hold no program logic of
  their own.
\<close>

end
